(* ===== verification/Fabric_Base.thy ===== *)
theory Fabric_Base
  imports Main "HOL-Library.Word" "HOL-Library.Monad_Syntax"
begin

section \<open>Shared notions of the Service Fabric models\<close>

text \<open>
  What every component theory shares.
  \<^item> A function that can be stopped by \<open>ASSERT_IF\<close> / \<open>ASSERT_IFNOT\<close> (src/Common/AssertWF.h:
    the process terminates) returns an \<^typ>\<open>'a option\<close>: \<^term>\<open>None\<close> is the terminated process.
    Such functions are sequenced with the do-notation of \<^theory_text>\<open>Monad_Syntax\<close>.
  \<^item> \<open>int64\<close> ticks and versions are \<^typ>\<open>int\<close> values with the two's complement wrap-around of the
    compiled code written out (\<open>wrap64\<close>); \<open>uint64\<close> values are \<^typ>\<open>64 word\<close>.
\<close>

unbundle bit_operations_syntax

named_theorems ring_simps \<open>reading the 128-bit ring value of identifiers\<close>
named_theorems range_simps \<open>the sets of identifiers that ranges stand for\<close>
named_theorems time_simps \<open>tick arithmetic away from the sentinels and the limits\<close>

type_synonym u8 = "8 word"
type_synonym u32 = "32 word"
type_synonym u64 = "64 word"
type_synonym u128 = "128 word"

subsection \<open>Assertions\<close>

text \<open>\<open>ASSERT_IF(c, ...)\<close> stops the process when \<open>c\<close> holds; \<open>ASSERT_IFNOT\<close> when it does not.\<close>

definition assert_if :: "bool \<Rightarrow> unit option" where
  "assert_if c = (if c then None else Some ())"

definition assert_ifnot :: "bool \<Rightarrow> unit option" where
  "assert_ifnot c = (if c then Some () else None)"

lemma assert_if_simps [simp]:
  "assert_if True = None" "assert_if False = Some ()"
  "assert_ifnot True = Some ()" "assert_ifnot False = None"
  by (simp_all add: assert_if_def assert_ifnot_def)

lemma assert_if_bind [simp]:
  "(assert_if c \<bind> f) = Some y \<longleftrightarrow> \<not> c \<and> f () = Some y"
  "(assert_ifnot c \<bind> f) = Some y \<longleftrightarrow> c \<and> f () = Some y"
  "(assert_if c \<bind> f) = None \<longleftrightarrow> c \<or> f () = None"
  "(assert_ifnot c \<bind> f) = None \<longleftrightarrow> \<not> c \<or> f () = None"
  by (simp_all add: assert_if_def assert_ifnot_def)

lemma bind_Some_iff: "(m \<bind> f) = Some y \<longleftrightarrow> (\<exists>x. m = Some x \<and> f x = Some y)" for m :: "'a option"
  by (cases m) simp_all

lemma bind_SomeE:
  fixes x :: "'a option"
  assumes "x \<bind> f = Some y" "\<And>u. x = Some u \<Longrightarrow> f u = Some y \<Longrightarrow> thesis"
  shows thesis
  using assms by (auto simp: bind_Some_iff)

lemma bind_pairE:
  fixes x :: "('a \<times> 'b) option"
  assumes "x \<bind> (\<lambda>(u, v). f u v) = Some y" "\<And>u v. x = Some (u, v) \<Longrightarrow> f u v = Some y \<Longrightarrow> thesis"
  shows thesis
  using assms by (auto simp: bind_Some_iff)

lemma bind_tripleE:
  fixes x :: "('a \<times> 'b \<times> 'c) option"
  assumes "x \<bind> (\<lambda>(u, v, w). f u v w) = Some y" "\<And>u v w. x = Some (u, v, w) \<Longrightarrow> f u v w = Some y \<Longrightarrow> thesis"
  shows thesis
  using assms by (auto simp: bind_Some_iff)

subsection \<open>Signed 64-bit integers\<close>

definition int64_max :: int where "int64_max = 2 ^ 63 - 1"
definition int64_min :: int where "int64_min = - (2 ^ 63)"

definition in_int64 :: "int \<Rightarrow> bool" where
  "in_int64 x \<longleftrightarrow> int64_min \<le> x \<and> x \<le> int64_max"

definition wrap64 :: "int \<Rightarrow> int" where
  "wrap64 x = (x + 2 ^ 63) mod 2 ^ 64 - 2 ^ 63"

lemma in_int64_wrap64 [simp]: "in_int64 (wrap64 x)"
proof -
  have "0 \<le> (x + 2 ^ 63) mod 2 ^ 64" and "(x + 2 ^ 63) mod 2 ^ 64 < (2 ^ 64 :: int)"
    by simp_all
  then show ?thesis
    by (auto simp: in_int64_def wrap64_def int64_min_def int64_max_def)
qed

lemma wrap64_id [simp, time_simps]: "in_int64 x \<Longrightarrow> wrap64 x = x"
  by (simp add: in_int64_def wrap64_def int64_min_def int64_max_def mod_pos_pos_trivial)

lemma wrap64_sint: "wrap64 x = sint (word_of_int x :: 64 word)"
  by (simp add: wrap64_def sint_uint uint_word_of_int signed_take_bit_eq_take_bit_shift
      take_bit_eq_mod mod_simps)

lemma in_int64_bounds [simp]: "in_int64 0" "in_int64 int64_max" "in_int64 int64_min"
  by (simp_all add: in_int64_def int64_max_def int64_min_def)

lemma wrap64_consts [simp]:
  "wrap64 0 = 0" "wrap64 int64_max = int64_max" "wrap64 int64_min = int64_min"
  by simp_all

lemma in_int64_iff: "in_int64 x \<longleftrightarrow> - (2 ^ 63) \<le> x \<and> x \<le> 2 ^ 63 - 1"
  by (simp add: in_int64_def int64_max_def int64_min_def)

subsection \<open>Two-digit numbers\<close>

lemma two_digits_eq:
  fixes h l h' l' B :: nat
  assumes "l < B" "l' < B"
  shows "h * B + l = h' * B + l' \<longleftrightarrow> h = h' \<and> l = l'"
proof
  assume eq: "h * B + l = h' * B + l'"
  have "(h * B + l) div B = h" "(h' * B + l') div B = h'" "(h * B + l) mod B = l" "(h' * B + l') mod B = l'"
    using assms by simp_all
  with eq show "h = h' \<and> l = l'" by simp
qed simp

lemma two_digits_less:
  fixes h l h' l' B :: nat
  assumes "l < B" "l' < B"
  shows "h * B + l < h' * B + l' \<longleftrightarrow> h < h' \<or> h = h' \<and> l < l'"
proof (cases h h' rule: linorder_cases)
  case less
  then have "h * B + B \<le> h' * B" by (metis Suc_leI add.commute mult_Suc mult_le_mono1)
  then show ?thesis using less assms by simp
next
  case greater
  then have "h' * B + B \<le> h * B" by (metis Suc_leI add.commute mult_Suc mult_le_mono1)
  then show ?thesis using greater assms by simp
qed simp

section \<open>Invariants of runs\<close>

text \<open>A component whose steps keep an invariant keeps it through any run.\<close>

locale kept_invariant =
  fixes step :: "'s \<Rightarrow> 's \<Rightarrow> bool" and inv :: "'s \<Rightarrow> bool"
  assumes step_keeps: "step s s' \<Longrightarrow> inv s \<Longrightarrow> inv s'"
begin

lemma run_keeps: "step\<^sup>*\<^sup>* s s' \<Longrightarrow> inv s \<Longrightarrow> inv s'"
  by (induction rule: rtranclp_induct) (auto intro: step_keeps)

end

end
