(* ===== verification/Large_Integer.thy ===== *)
theory Large_Integer
  imports Fabric_Base
begin

section \<open>LargeInteger: 128-bit integers as two 64-bit halves\<close>

text \<open>
  src/Common/LargeInteger.cpp. A \<open>LargeInteger\<close> is a pair of \<open>uint64\<close> fields, and every operator
  works on the halves with explicit carries. The operators are translated one by one; \<open>li_val\<close> reads
  a value as one 128-bit word, and the lemmas of \<open>ring_simps\<close> show each operator to be the word
  operation it stands for. The type becomes a linear order and a commutative ring through the
  code's own operators, so that the library's arithmetic applies to identifiers.
\<close>

datatype large_integer = LargeInteger (li_high: u64) (li_low: u64)

subsection \<open>The operators\<close>

definition li_less :: "large_integer \<Rightarrow> large_integer \<Rightarrow> bool" where
  "li_less a b \<longleftrightarrow> li_high a < li_high b \<or> (li_high a = li_high b \<and> li_low a < li_low b)"

definition li_ge :: "large_integer \<Rightarrow> large_integer \<Rightarrow> bool" where
  "li_ge a b \<longleftrightarrow> \<not> li_less a b"

definition li_greater :: "large_integer \<Rightarrow> large_integer \<Rightarrow> bool" where
  "li_greater a b \<longleftrightarrow> li_high a > li_high b \<or> (li_high a = li_high b \<and> li_low a > li_low b)"

definition li_le :: "large_integer \<Rightarrow> large_integer \<Rightarrow> bool" where
  "li_le a b \<longleftrightarrow> \<not> li_greater a b"

definition li_add :: "large_integer \<Rightarrow> large_integer \<Rightarrow> large_integer" where
  "li_add a b =
     (let newLow = li_low a + li_low b;
          h = (if newLow < li_low a then li_high a + 1 else li_high a)
      in LargeInteger (h + li_high b) newLow)"

definition li_sub :: "large_integer \<Rightarrow> large_integer \<Rightarrow> large_integer" where
  "li_sub a b =
     (let newLow = li_low a - li_low b;
          h = (if newLow > li_low a then li_high a - 1 else li_high a)
      in LargeInteger (h - li_high b) newLow)"

text \<open>
  The shifts take an \<open>int\<close> count. For a count of zero or less the code shifts a \<open>uint64\<close> by 64 bits
  or more (\<open>overflow_bit = NumHalfBits - count\<close>), which C++ leaves undefined: \<^term>\<open>None\<close> here.
  \<open>li_shl_pos\<close> and \<open>li_shr_pos\<close> are the bodies for a count of at least one.
\<close>

definition li_shl_pos :: "nat \<Rightarrow> large_integer \<Rightarrow> large_integer" where
  "li_shl_pos count x =
     (if count < 64 then
        (let overflow = drop_bit (64 - count) (li_low x)
         in LargeInteger (push_bit count (li_high x) OR overflow) (push_bit count (li_low x)))
      else if count < 128 then LargeInteger (push_bit (count - 64) (li_low x)) 0
      else LargeInteger 0 0)"

definition li_shr_pos :: "nat \<Rightarrow> large_integer \<Rightarrow> large_integer" where
  "li_shr_pos count x =
     (if count < 64 then
        (let overflow = push_bit (64 - count) (li_high x)
         in LargeInteger (drop_bit count (li_high x)) (drop_bit count (li_low x) OR overflow))
      else if count < 128 then LargeInteger 0 (drop_bit (count - 64) (li_high x))
      else LargeInteger 0 0)"

definition li_shl :: "int \<Rightarrow> large_integer \<Rightarrow> large_integer option" where
  "li_shl count x = (if count \<le> 0 then None else Some (li_shl_pos (nat count) x))"

definition li_shr :: "int \<Rightarrow> large_integer \<Rightarrow> large_integer option" where
  "li_shr count x = (if count \<le> 0 then None else Some (li_shr_pos (nat count) x))"

definition get_product :: "u64 \<Rightarrow> u64 \<Rightarrow> large_integer" where
  "get_product a b =
     (let mask = push_bit 32 1 - 1;
          aHigh = drop_bit 32 (a AND NOT mask); aLow = a AND mask;
          bHigh = drop_bit 32 (b AND NOT mask); bLow = b AND mask;
          d = aHigh * bLow;
          e = aLow * bHigh;
          y = li_shl_pos 32 (li_add (LargeInteger 0 d) (LargeInteger 0 e));
          c = aHigh * bHigh;
          f = aLow * bLow
      in li_add (li_add (LargeInteger c 0) y) (LargeInteger 0 f))"

definition li_mult :: "large_integer \<Rightarrow> large_integer \<Rightarrow> large_integer" where
  "li_mult a b =
     (let x = li_add (get_product (li_high a) (li_low b)) (get_product (li_low a) (li_high b));
          y = LargeInteger (li_low x) 0
      in li_add y (get_product (li_low a) (li_low b)))"

definition li_and :: "large_integer \<Rightarrow> large_integer \<Rightarrow> large_integer" where
  "li_and a b = LargeInteger (li_high a AND li_high b) (li_low a AND li_low b)"

definition li_or :: "large_integer \<Rightarrow> large_integer \<Rightarrow> large_integer" where
  "li_or a b = LargeInteger (li_high a OR li_high b) (li_low a OR li_low b)"

definition li_xor :: "large_integer \<Rightarrow> large_integer \<Rightarrow> large_integer" where
  "li_xor a b = LargeInteger (li_high a XOR li_high b) (li_low a XOR li_low b)"

definition li_not :: "large_integer \<Rightarrow> large_integer" where
  "li_not a = LargeInteger (NOT (li_high a)) (NOT (li_low a))"

definition li_zero :: large_integer where "li_zero = LargeInteger 0 0"
definition li_one :: large_integer where "li_one = LargeInteger 0 1"
definition li_max_value :: large_integer where
  "li_max_value = li_sub (LargeInteger 0 0) (LargeInteger 0 1)"

definition li_neg :: "large_integer \<Rightarrow> large_integer" where
  "li_neg a = li_sub li_zero a"

definition li_incr :: "large_integer \<Rightarrow> large_integer" where
  "li_incr a = li_add a li_one"

definition li_decr :: "large_integer \<Rightarrow> large_integer" where
  "li_decr a = li_sub a li_one"

definition is_smaller_part :: "large_integer \<Rightarrow> bool" where
  "is_smaller_part a \<longleftrightarrow> li_high a AND push_bit 63 1 = 0"

subsection \<open>The 128-bit reading\<close>

definition li_val :: "large_integer \<Rightarrow> u128" where
  "li_val x = ucast (li_high x) * 2 ^ 64 + ucast (li_low x)"

text \<open>The contribution of the high half: arithmetic on it is arithmetic modulo \<open>2 ^ 64\<close>.\<close>

lemma u64_bounds: "uint (x :: u64) < 2 ^ 64" "unat (x :: u64) < 2 ^ 64"
  using unsigned_less [of x, where 'a = int] unsigned_less [of x, where 'a = nat] by simp_all

lemma u64_bit: "bit (x :: u64) n \<Longrightarrow> n < 64"
  using bit_imp_le_length [of x n] by simp

lemma hi_mod:
  assumes "i mod 2 ^ 64 = j mod (2 ^ 64 :: int)"
  shows "(word_of_int i :: u128) * 2 ^ 64 = word_of_int j * 2 ^ 64"
proof -
  have "i * 2 ^ 64 mod (2 ^ 64 * 2 ^ 64) = j * 2 ^ 64 mod (2 ^ 64 * 2 ^ 64)"
    using assms by (simp only: mult_mod_left [symmetric])
  then have "(word_of_int (i * 2 ^ 64) :: u128) = word_of_int (j * 2 ^ 64)"
    by (simp add: word_of_int_eq_iff take_bit_eq_mod del: of_int_mult)
  then show ?thesis by (simp only: of_int_mult of_int_power of_int_numeral)
qed

definition hi :: "u64 \<Rightarrow> u128" where
  "hi x = ucast x * 2 ^ 64"

lemma hi_add: "hi (x + y) = hi x + hi y"
proof -
  have "(word_of_int (uint (x + y)) :: u128) * 2 ^ 64 = word_of_int (uint x + uint y) * 2 ^ 64"
    by (rule hi_mod) (simp add: uint_word_ariths)
  then show ?thesis by (simp only: hi_def ucast_eq of_int_add distrib_right)
qed

lemma hi_diff: "hi (x - y) = hi x - hi y"
  using hi_add [of "x - y" y] by simp

lemma hi_one: "hi 1 = 2 ^ 64"
  by (simp add: hi_def)

lemma lo_add:
  "(ucast (x + y :: u64) :: u128) = (if x + y < x then ucast x + ucast y - 2 ^ 64 else ucast x + ucast y)"
proof -
  have "uint (x + y) = (if x + y < x then uint x + uint y - 2 ^ 64 else uint x + uint y)"
    using uint_plus_if' [of x y] u64_bounds(1) [of y] by (auto simp: word_less_def)
  then show ?thesis
    by (cases "x + y < x") (simp_all only: ucast_eq if_True if_False of_int_add of_int_diff of_int_power of_int_numeral)
qed

lemma lo_diff:
  "(ucast (x - y :: u64) :: u128) = (if x < x - y then ucast x - ucast y + 2 ^ 64 else ucast x - ucast y)"
proof -
  have "uint (x - y) = (if x < x - y then uint x - uint y + 2 ^ 64 else uint x - uint y)"
    using uint_sub_if' [of x y] u64_bounds(1) [of y] by (auto simp: word_less_def)
  then show ?thesis
    by (cases "x < x - y") (simp_all only: ucast_eq if_True if_False of_int_add of_int_diff of_int_power of_int_numeral)
qed

lemma li_val_hi: "li_val x = hi (li_high x) + ucast (li_low x)"
  by (simp only: li_val_def hi_def)

lemma li_val_add [ring_simps]: "li_val (li_add a b) = li_val a + li_val b"
  by (simp add: li_val_hi li_add_def Let_def hi_add lo_add hi_one del: power_numeral)

lemma li_val_sub [ring_simps]: "li_val (li_sub a b) = li_val a - li_val b"
  by (simp add: li_val_hi li_sub_def Let_def hi_diff lo_diff hi_one del: power_numeral)

text \<open>The value determines the pair, and its order is the order of the pairs.\<close>

lemma unat_li_val: "unat (li_val x) = unat (li_high x) * 2 ^ 64 + unat (li_low x)"
proof -
  have "unat (li_high x) * 2 ^ 64 + unat (li_low x) < 2 ^ 128"
    using u64_bounds(2) [of "li_high x"] u64_bounds(2) [of "li_low x"] by simp
  moreover have "li_val x = word_of_nat (unat (li_high x) * 2 ^ 64 + unat (li_low x))"
    by (simp only: li_val_def of_nat_add of_nat_mult of_nat_unat of_nat_power of_nat_numeral)
  moreover have "LENGTH(128) = 128" by simp
  ultimately show ?thesis by (simp only: unat_of_nat mod_less)
qed

lemma li_val_inject: "li_val a = li_val b \<longleftrightarrow> a = b"
proof -
  have "li_val a = li_val b \<longleftrightarrow> unat (li_high a) = unat (li_high b) \<and> unat (li_low a) = unat (li_low b)"
    unfolding word_unat_eq_iff unat_li_val by (intro two_digits_eq u64_bounds)
  also have "\<dots> \<longleftrightarrow> a = b"
    by (cases a; cases b) (simp add: word_unat_eq_iff)
  finally show ?thesis .
qed

lemma li_less_iff [ring_simps]: "li_less a b \<longleftrightarrow> li_val a < li_val b"
  unfolding li_less_def word_less_nat_alt unat_li_val
  by (simp only: two_digits_less [OF u64_bounds(2) u64_bounds(2)] word_unat_eq_iff)

lemma li_greater_iff [ring_simps]: "li_greater a b \<longleftrightarrow> li_val b < li_val a"
proof -
  have "li_greater a b = li_less b a"
    by (auto simp: li_greater_def li_less_def)
  then show ?thesis by (simp add: li_less_iff)
qed

lemma li_le_iff [ring_simps]: "li_le a b \<longleftrightarrow> li_val a \<le> li_val b"
  by (auto simp: li_le_def li_greater_iff)

lemma li_ge_iff [ring_simps]: "li_ge a b \<longleftrightarrow> li_val b \<le> li_val a"
  by (auto simp: li_ge_def li_less_iff)

lemma li_val_consts [simp]:
  "li_val li_zero = 0" "li_val li_one = 1" "li_val li_max_value = - 1"
  by (simp_all add: li_zero_def li_one_def li_max_value_def ring_simps)
    (simp_all add: li_val_def)

subsection \<open>Bits: shifts and logical operators\<close>

lemma bit_li_val:
  "bit (li_val x) n \<longleftrightarrow> (if n < 64 then bit (li_low x) n else bit (li_high x) (n - 64))"
proof -
  have v: "li_val x = push_bit 64 (ucast (li_high x)) + ucast (li_low x)"
    by (simp add: li_val_def push_bit_eq_mult mult.commute)
  have "push_bit 64 (ucast (li_high x) :: u128) AND ucast (li_low x) = 0"
    by (rule bit_eqI) (auto simp: bit_simps dest: bit_imp_le_length)
  then have "li_val x = push_bit 64 (ucast (li_high x)) OR ucast (li_low x)"
    unfolding v by (rule disjunctive_add_eq_or)
  then show ?thesis
    by (auto simp: bit_simps dest: bit_imp_le_length)
qed

lemma li_eqI_bits:
  assumes "\<And>n. n < 128 \<Longrightarrow> bit (li_val x) n \<longleftrightarrow> bit w n"
  shows "li_val x = w"
  by (rule bit_eqI) (use assms in auto)

lemma li_val_shl [ring_simps]:
  assumes "0 < n" shows "li_val (li_shl_pos n x) = push_bit n (li_val x)"
  using assms
  by (intro li_eqI_bits) (auto simp: li_shl_pos_def Let_def bit_li_val bit_simps add.commute dest: bit_imp_le_length)

lemma li_val_shr [ring_simps]:
  assumes "0 < n" shows "li_val (li_shr_pos n x) = drop_bit n (li_val x)"
  using assms
  by (intro li_eqI_bits) (auto simp: li_shr_pos_def Let_def bit_li_val bit_simps add.commute dest: bit_imp_le_length)

lemma li_val_logic [ring_simps]:
  "li_val (li_and a b) = li_val a AND li_val b"
  "li_val (li_or a b) = li_val a OR li_val b"
  "li_val (li_xor a b) = li_val a XOR li_val b"
  "li_val (li_not a) = NOT (li_val a)"
  by (intro li_eqI_bits; auto simp: li_and_def li_or_def li_xor_def li_not_def bit_li_val bit_simps)+

lemma is_smaller_part_iff: "is_smaller_part x \<longleftrightarrow> \<not> bit (li_val x) 127"
  unfolding is_smaller_part_def push_bit_of_1 and_exp_eq_0_iff_not_bit by (simp add: bit_li_val)

subsection \<open>Multiplication\<close>

lemma li_val_high: "li_val (LargeInteger c 0) = ucast c * 2 ^ 64"
  by (simp add: li_val_def)

lemma li_val_low: "li_val (LargeInteger 0 f) = ucast f"
  by (simp add: li_val_def)

lemma ucast_halves:
  "(ucast a :: u128) = ucast (drop_bit 32 a) * 2 ^ 32 + ucast (take_bit 32 a)" for a :: u64
proof -
  have "unat a = unat (drop_bit 32 a) * 2 ^ 32 + unat (take_bit 32 a)"
    using bits_ident [of 32 "unat a"]
    by (simp only: push_bit_eq_mult unsigned_take_bit_eq unat_drop_bit_eq)
  then have "(word_of_nat (unat a) :: u128) = word_of_nat (unat (drop_bit 32 a) * 2 ^ 32 + unat (take_bit 32 a))"
    by (rule arg_cong)
  then show ?thesis
    by (simp only: of_nat_unat of_nat_add of_nat_mult of_nat_power of_nat_numeral)
qed

lemma half_bounds:
  "unat (drop_bit 32 a) < 2 ^ 32" "unat (take_bit 32 a) < 2 ^ 32" for a :: u64
proof -
  have "unat a div 2 ^ 32 < 2 ^ 32"
    using u64_bounds(2) [of a] by (simp add: div_less_iff_less_mult)
  then show "unat (drop_bit 32 a) < 2 ^ 32"
    unfolding unat_drop_bit_eq unfolding drop_bit_eq_div .
  show "unat (take_bit 32 a) < 2 ^ 32"
    by (simp only: unsigned_take_bit_eq take_bit_nat_less_exp)
qed

lemma ucast_mult_halves:
  fixes x y :: u64
  assumes "unat x < 2 ^ 32" "unat y < 2 ^ 32"
  shows "(ucast (x * y) :: u128) = ucast x * ucast y"
proof -
  have "unat x * unat y < 2 ^ 32 * 2 ^ 32"
    using assms by (rule mult_strict_mono) simp_all
  then have "unat (x * y) = unat x * unat y"
    by (subst unat_mult_lem [symmetric]) simp
  then have "(word_of_nat (unat (x * y)) :: u128) = word_of_nat (unat x * unat y)" by simp
  then show ?thesis by (simp only: of_nat_unat of_nat_mult)
qed

lemma li_val_get_product [ring_simps]: "li_val (get_product a b) = ucast a * ucast b"
proof -
  have m: "push_bit 32 1 - 1 = (mask 32 :: u64)"
    by (simp only: mask_eq_exp_minus_1 push_bit_of_1)
  have h: "drop_bit 32 (x AND NOT (mask 32)) = drop_bit 32 x" "x AND mask 32 = take_bit 32 x" for x :: u64
  proof -
    show "drop_bit 32 (x AND NOT (mask 32)) = drop_bit 32 x"
    proof (rule bit_eqI)
      fix n
      show "bit (drop_bit 32 (x AND NOT (mask 32))) n \<longleftrightarrow> bit (drop_bit 32 x) n"
        using u64_bit [of x "32 + n"] by (auto simp: bit_simps)
    qed
    show "x AND mask 32 = take_bit 32 x" by (simp only: take_bit_eq_mask)
  qed
  note parts = ucast_mult_halves [OF half_bounds(1) half_bounds(1)] ucast_mult_halves [OF half_bounds(1) half_bounds(2)]
    ucast_mult_halves [OF half_bounds(2) half_bounds(1)] ucast_mult_halves [OF half_bounds(2) half_bounds(2)]
  have "li_val (get_product a b) =
      ucast (drop_bit 32 a) * ucast (drop_bit 32 b) * 2 ^ 64 +
      2 ^ 32 * (ucast (drop_bit 32 a) * ucast (take_bit 32 b) + ucast (take_bit 32 a) * ucast (drop_bit 32 b)) +
      ucast (take_bit 32 a) * ucast (take_bit 32 b)"
    unfolding get_product_def Let_def m h
    by (simp only: li_val_add li_val_shl [OF zero_less_numeral] li_val_high li_val_low parts
        push_bit_eq_mult mult.commute)
  also have "\<dots> = (ucast (drop_bit 32 a) * 2 ^ 32 + ucast (take_bit 32 a)) *
      (ucast (drop_bit 32 b) * 2 ^ 32 + ucast (take_bit 32 b))"
    by (simp add: algebra_simps)
  finally show ?thesis by (simp only: ucast_halves [symmetric])
qed

lemma hi_li_low: "hi (li_low x) = li_val x * 2 ^ 64"
proof -
  have "li_val x * 2 ^ 64 = ucast (li_high x) * (2 ^ 64 * 2 ^ 64) + hi (li_low x)"
    by (simp only: li_val_def hi_def distrib_right mult.assoc)
  also have "(2 ^ 64 * 2 ^ 64 :: u128) = 0" by simp
  finally show ?thesis by simp
qed

lemma li_val_mult [ring_simps]: "li_val (li_mult a b) = li_val a * li_val b"
proof -
  have "li_val (li_mult a b) =
      (ucast (li_high a) * ucast (li_low b) + ucast (li_low a) * ucast (li_high b)) * 2 ^ 64 +
      ucast (li_low a) * ucast (li_low b)"
    by (simp only: li_mult_def Let_def li_val_add li_val_high li_val_get_product hi_def [symmetric] hi_li_low)
  also have "\<dots> = li_val a * li_val b - ucast (li_high a) * ucast (li_high b) * (2 ^ 64 * 2 ^ 64)"
    by (simp only: li_val_def algebra_simps)
  also have "(2 ^ 64 * 2 ^ 64 :: u128) = 0" by simp
  finally show ?thesis by simp
qed

lemma li_val_unary [ring_simps]:
  "li_val (li_neg a) = - li_val a" "li_val (li_incr a) = li_val a + 1" "li_val (li_decr a) = li_val a - 1"
  by (simp_all add: li_neg_def li_incr_def li_decr_def ring_simps)

subsection \<open>Class instances through the code's operators\<close>

instantiation large_integer :: linorder
begin

definition less_large_integer :: "large_integer \<Rightarrow> large_integer \<Rightarrow> bool" where
  "less_large_integer = li_less"

definition less_eq_large_integer :: "large_integer \<Rightarrow> large_integer \<Rightarrow> bool" where
  "less_eq_large_integer = li_le"

instance
  by standard
    (auto simp: less_large_integer_def less_eq_large_integer_def ring_simps simp flip: li_val_inject)

end

instantiation large_integer :: comm_ring_1
begin

definition zero_large_integer :: large_integer where "zero_large_integer = li_zero"
definition one_large_integer :: large_integer where "one_large_integer = li_one"
definition plus_large_integer :: "large_integer \<Rightarrow> large_integer \<Rightarrow> large_integer" where
  "plus_large_integer = li_add"
definition minus_large_integer :: "large_integer \<Rightarrow> large_integer \<Rightarrow> large_integer" where
  "minus_large_integer = li_sub"
definition uminus_large_integer :: "large_integer \<Rightarrow> large_integer" where
  "uminus_large_integer = li_neg"
definition times_large_integer :: "large_integer \<Rightarrow> large_integer \<Rightarrow> large_integer" where
  "times_large_integer = li_mult"

instance
  by standard
    (simp_all add: zero_large_integer_def one_large_integer_def plus_large_integer_def minus_large_integer_def
      uminus_large_integer_def times_large_integer_def ring_simps algebra_simps flip: li_val_inject)

end

lemma li_class_val [ring_simps]:
  "a < b \<longleftrightarrow> li_val a < li_val b" "a \<le> b \<longleftrightarrow> li_val a \<le> li_val b"
  "li_val (a + b) = li_val a + li_val b" "li_val (a - b) = li_val a - li_val b"
  "li_val (a * b) = li_val a * li_val b" "li_val (- a) = - li_val a" "li_val 0 = 0" "li_val 1 = 1"
  by (simp_all add: less_large_integer_def less_eq_large_integer_def zero_large_integer_def
      one_large_integer_def plus_large_integer_def minus_large_integer_def
      uminus_large_integer_def times_large_integer_def ring_simps)

end
