(* ===== verification/Cyclic_Words.thy ===== *)
theory Cyclic_Words
  imports Fabric_Base
begin

section \<open>Cyclic intervals of machine words\<close>

text \<open>
  The identifier ring of the federation is arithmetic modulo \<open>2 ^ 128\<close>, and a node id range is a
  clockwise interval on it. This theory holds the facts on such intervals that do not depend on the
  width: the linear and the wrapped shape, inclusion, disjointness, splitting and joining.
\<close>

definition cyc :: "'a::len word \<Rightarrow> 'a word \<Rightarrow> 'a word set" where
  "cyc a b = {x. x - a \<le> b - a}"

lemma mem_cyc: "x \<in> cyc a b \<longleftrightarrow> x - a \<le> b - a"
  by (simp add: cyc_def)

lemma cyc_ends [simp]: "a \<in> cyc a b" "b \<in> cyc a b"
  by (simp_all add: mem_cyc)

lemma unat_less_exp: "unat (x :: 'a::len word) < 2 ^ LENGTH('a)"
  by (rule unsigned_less)

lemma unat_diff_cases:
  fixes x y :: "'a::len word"
  shows "unat (x - y) = (if y \<le> x then unat x - unat y else unat x + 2 ^ LENGTH('a) - unat y)"
  using unat_sub_if_size [of x y] unat_less_exp [of y]
  by (simp add: word_le_nat_alt word_size)

lemma unat_diff_bounded:
  fixes x y :: "'a::len word"
  obtains M where "unat x < M" "unat y < M"
    "unat (x - y) = (if unat y \<le> unat x then unat x - unat y else unat x + M - unat y)"
    "M = 2 ^ LENGTH('a)"
  using unat_diff_cases [of x y] unat_less_exp [of x] unat_less_exp [of y]
  by (metis word_le_nat_alt)

lemma cyc_mem_cases:
  fixes a b x :: "'a::len word"
  shows "x \<in> cyc a b \<longleftrightarrow> (if a \<le> b then a \<le> x \<and> x \<le> b else a \<le> x \<or> x \<le> b)"
proof -
  obtain M where M: "unat x < M" "unat a < M"
    "unat (x - a) = (if unat a \<le> unat x then unat x - unat a else unat x + M - unat a)"
    "M = 2 ^ LENGTH('a)"
    by (rule unat_diff_bounded)
  obtain M' where M': "unat b < M'"
    "unat (b - a) = (if unat a \<le> unat b then unat b - unat a else unat b + M' - unat a)"
    "M' = 2 ^ LENGTH('a)"
    by (rule unat_diff_bounded [of b a])
  have "M' = M" using M(4) M'(3) by simp
  then have "unat (x - a) \<le> unat (b - a) \<longleftrightarrow>
      (if unat a \<le> unat b then unat a \<le> unat x \<and> unat x \<le> unat b else unat a \<le> unat x \<or> unat x \<le> unat b)"
    using M(1-3) M'(1,2) by (auto split: if_splits)
  then show ?thesis by (simp add: mem_cyc word_le_nat_alt)
qed

lemma cyc_linear: "a \<le> b \<Longrightarrow> cyc a b = {a..b}" for a b :: "'a::len word"
  by (auto simp: cyc_mem_cases)

lemma cyc_wrap: "b < a \<Longrightarrow> cyc a b = {a..} \<union> {..b}" for a b :: "'a::len word"
  by (auto simp: cyc_mem_cases split: if_splits)

text \<open>Every question about two intervals can be asked relative to the start of one of them.\<close>

lemma cyc_shift: "x \<in> cyc c d \<longleftrightarrow> x - a \<in> cyc (c - a) (d - a)"
  by (simp add: mem_cyc algebra_simps)

lemma cyc_zero: "cyc 0 s = {..s}"
  by (auto simp: mem_cyc)

lemma cyc_subset_zero:
  fixes s c d :: "'a::len word"
  assumes "s \<noteq> - 1"
  shows "cyc c d \<subseteq> {..s} \<longleftrightarrow> c \<le> s \<and> d \<le> s \<and> c \<le> d"
proof (cases "c \<le> d")
  case True
  then show ?thesis by (auto simp: cyc_linear)
next
  case False
  then have "- 1 \<in> cyc c d" by (simp add: cyc_wrap word_order.extremum)
  moreover have "- 1 \<notin> {..s}"
    using assms by (simp add: word_order.extremum_unique)
  ultimately show ?thesis using False by auto
qed

lemma cyc_disjoint_zero:
  fixes s c d :: "'a::len word"
  shows "cyc c d \<inter> {..s} = {} \<longleftrightarrow> s < c \<and> s < d \<and> c \<le> d"
proof (cases "c \<le> d")
  case True
  then show ?thesis by (auto simp: cyc_linear disjoint_iff)
next
  case False
  then have "0 \<in> cyc c d" by (simp add: cyc_wrap)
  then show ?thesis using False by auto
qed

lemma cyc_image: "cyc c d = (\<lambda>u. u + a) ` cyc (c - a) (d - a)"
proof -
  have "x \<in> (\<lambda>u. u + a) ` cyc (c - a) (d - a)" if "x \<in> cyc c d" for x
    using that cyc_shift [of x c d a] by (intro image_eqI [where x = "x - a"]) auto
  then show ?thesis by (auto simp: mem_cyc algebra_simps)
qed

lemma cyc_subset_iff:
  fixes a b c d :: "'a::len word"
  assumes "b + 1 \<noteq> a"
  shows "cyc c d \<subseteq> cyc a b \<longleftrightarrow> c - a \<le> b - a \<and> d - a \<le> b - a \<and> c - a \<le> d - a"
proof -
  have s: "b - a \<noteq> - 1" using assms by (simp add: algebra_simps eq_neg_iff_add_eq_0)
  have "cyc c d \<subseteq> cyc a b \<longleftrightarrow> cyc (c - a) (d - a) \<subseteq> cyc (a - a) (b - a)"
    by (subst (1 2) cyc_image [of _ _ a]) (simp add: inj_image_subset_iff)
  also have "\<dots> \<longleftrightarrow> c - a \<le> b - a \<and> d - a \<le> b - a \<and> c - a \<le> d - a"
    using cyc_subset_zero [OF s] by (simp add: cyc_zero)
  finally show ?thesis .
qed

lemma cyc_disjoint_iff:
  fixes a b c d :: "'a::len word"
  shows "cyc c d \<inter> cyc a b = {} \<longleftrightarrow> b - a < c - a \<and> b - a < d - a \<and> c - a \<le> d - a"
proof -
  have "cyc c d \<inter> cyc a b = {} \<longleftrightarrow> cyc (c - a) (d - a) \<inter> cyc (a - a) (b - a) = {}"
    by (subst (1 2) cyc_image [of _ _ a]) (simp flip: image_Int)
  also have "\<dots> \<longleftrightarrow> b - a < c - a \<and> b - a < d - a \<and> c - a \<le> d - a"
    using cyc_disjoint_zero by (simp add: cyc_zero)
  finally show ?thesis .
qed

lemma cyc_full: "b + 1 = a \<Longrightarrow> cyc a b = UNIV"
  for a b :: "'a::len word"
proof -
  assume "b + 1 = a"
  then have "b - a = - 1" by (simp add: algebra_simps)
  then show ?thesis by (auto simp: cyc_def word_order.extremum)
qed

lemma cyc_eq_UNIV_iff: "cyc a b = UNIV \<longleftrightarrow> b + 1 = a"
  for a b :: "'a::len word"
proof
  assume u: "cyc a b = UNIV"
  then have "a - 1 \<in> cyc a b" by simp
  then have "- 1 \<le> b - a" by (simp add: mem_cyc)
  then have "b - a = - 1" by (simp add: word_order.extremum_unique)
  then show "b + 1 = a" by (simp add: algebra_simps)
qed (rule cyc_full)

text \<open>Splitting an interval after an inner point, and the complement of an interval.\<close>

lemma word_less_succ: "m < d \<Longrightarrow> m < m + 1" for m d :: "'a::len word"
  by (metis add_cancel_left_right inc_i leI nless_le olen_add_eqv word_less_1)

lemma word_split_le: "m < d \<Longrightarrow> x \<le> m \<longleftrightarrow> \<not> m + 1 \<le> x" for m d x :: "'a::len word"
  using word_less_succ [of m d] inc_le [of m x] by (meson leD leI order_less_le_trans)

lemma word_pred_less: "x \<noteq> 0 \<Longrightarrow> x - 1 < x" for x :: "'a::len word"
  by (simp add: word_less_nat_alt unat_minus_one unat_gt_0)

lemma cyc_succ_mem:
  fixes m d :: "'a::len word"
  assumes "m < d"
  shows "x \<in> cyc (m + 1) d \<longleftrightarrow> \<not> x \<le> m \<and> x \<le> d"
proof -
  have "m + 1 \<le> d" using assms by (rule inc_le)
  then have "x \<in> cyc (m + 1) d \<longleftrightarrow> m + 1 \<le> x \<and> x \<le> d"
    by (simp only: cyc_mem_cases if_True)
  also have "m + 1 \<le> x \<longleftrightarrow> \<not> x \<le> m"
    using word_split_le [OF assms, of x] by blast
  finally show ?thesis .
qed

lemma cyc_split_zero:
  fixes m d :: "'a::len word"
  assumes "m < d"
  shows "{..d} = {..m} \<union> cyc (m + 1) d" "{..m} \<inter> cyc (m + 1) d = {}"
proof -
  have "x \<le> d" if "x \<le> m" for x
    using that assms order.strict_implies_order order.trans by blast
  then show "{..d} = {..m} \<union> cyc (m + 1) d"
    unfolding set_eq_iff Un_iff atMost_iff cyc_succ_mem [OF assms] by blast
  show "{..m} \<inter> cyc (m + 1) d = {}"
    unfolding disjoint_iff atMost_iff cyc_succ_mem [OF assms] by blast
qed

lemma cyc_split:
  fixes a m d :: "'a::len word"
  assumes "m \<in> cyc a d" "m \<noteq> d"
  shows "cyc a d = cyc a m \<union> cyc (m + 1) d" "cyc a m \<inter> cyc (m + 1) d = {}"
proof -
  have lt: "m - a < d - a" using assms by (simp add: mem_cyc order_less_le)
  have eq: "m + 1 - a = (m - a) + 1" by simp
  have img: "cyc x y = (\<lambda>u. u + a) ` cyc (x - a) (y - a)" for x y :: "'a word"
    by (rule cyc_image)
  show "cyc a d = cyc a m \<union> cyc (m + 1) d"
    unfolding img [of a d] img [of a m] img [of "m + 1" d] eq
    using cyc_split_zero(1) [OF lt] by (simp add: cyc_zero flip: image_Un)
  show "cyc a m \<inter> cyc (m + 1) d = {}"
    unfolding img [of a m] img [of "m + 1" d] eq
    using cyc_split_zero(2) [OF lt] by (simp add: cyc_zero flip: image_Int)
qed

lemma cyc_complement:
  fixes a b :: "'a::len word"
  assumes "b + 1 \<noteq> a"
  shows "cyc (b + 1) (a - 1) = - cyc a b"
proof -
  have "b \<noteq> a - 1" using assms by auto
  moreover have "cyc a (a - 1) = UNIV" by (rule cyc_full) simp
  ultimately show ?thesis
    using cyc_split [of b a "a - 1"] by auto
qed

lemma cyc_join:
  fixes a b d :: "'a::len word"
  assumes "b + 1 \<noteq> a" "d \<notin> cyc a b"
  shows "cyc a d = cyc a b \<union> cyc (b + 1) d" "cyc a b \<inter> cyc (b + 1) d = {}"
proof -
  have "b \<in> cyc a d" "b \<noteq> d" using assms(2) by (auto simp: mem_cyc)
  then show "cyc a d = cyc a b \<union> cyc (b + 1) d" "cyc a b \<inter> cyc (b + 1) d = {}"
    by (rule cyc_split)+
qed

text \<open>Membership relative to a reference point turns set equations into order reasoning.\<close>

lemma cyc_mem_rel:
  fixes a c d x :: "'a::len word"
  shows "x \<in> cyc c d \<longleftrightarrow>
    (if c - a \<le> d - a then c - a \<le> x - a \<and> x - a \<le> d - a else c - a \<le> x - a \<or> x - a \<le> d - a)"
  using cyc_shift [of x c d a] cyc_mem_cases by blast

lemma cyc_union_overlap:
  fixes a b c d :: "'a::len word"
  assumes "c \<in> cyc a b"
  shows "d \<notin> cyc a b \<Longrightarrow> cyc a b \<union> cyc c d = cyc a d"
    and "d \<in> cyc a b \<Longrightarrow> \<not> c - a \<le> d - a \<Longrightarrow> cyc a b \<union> cyc c d = UNIV"
proof -
  have c: "c - a \<le> b - a" using assms by (simp add: mem_cyc)
  show "cyc a b \<union> cyc c d = cyc a d" if "d \<notin> cyc a b"
  proof (rule set_eqI)
    fix x
    show "x \<in> cyc a b \<union> cyc c d \<longleftrightarrow> x \<in> cyc a d"
      using c that unfolding Un_iff cyc_mem_rel [of x c d a] unfolding mem_cyc by auto
  qed
  show "cyc a b \<union> cyc c d = UNIV" if "d \<in> cyc a b" "\<not> c - a \<le> d - a"
  proof (rule set_eqI)
    fix x
    show "x \<in> cyc a b \<union> cyc c d \<longleftrightarrow> x \<in> UNIV"
      using c that unfolding Un_iff cyc_mem_rel [of x c d a] unfolding mem_cyc by auto
  qed
qed

lemma cyc_diff_head:
  fixes a b c d :: "'a::len word"
  assumes "a \<in> cyc c d" "b \<notin> cyc c d"
  shows "cyc a b - cyc c d = cyc (d + 1) b"
proof -
  have "cyc c b = cyc c d \<union> cyc (d + 1) b" "cyc c d \<inter> cyc (d + 1) b = {}"
    using assms(2) by (intro cyc_split; auto simp: mem_cyc)+
  moreover have "cyc c d \<union> cyc a b = cyc c b"
    using assms by (rule cyc_union_overlap)
  ultimately show ?thesis by blast
qed

lemma cyc_diff_both:
  fixes a b c d :: "'a::len word"
  assumes "a \<in> cyc c d" "b \<in> cyc c d" "\<not> cyc a b \<subseteq> cyc c d" "d + 1 \<noteq> c"
  shows "cyc a b - cyc c d = cyc (d + 1) (c - 1)"
proof -
  have "\<not> a - c \<le> b - c"
    using assms cyc_subset_iff [OF assms(4)] by (auto simp: mem_cyc)
  then have "cyc c d \<union> cyc a b = UNIV"
    using assms(1,2) by (intro cyc_union_overlap)
  with cyc_complement [OF assms(4)] show ?thesis by blast
qed

lemma cyc_diff_inner:
  fixes a b c d :: "'a::len word"
  assumes "a \<notin> cyc c d" "cyc c d \<inter> cyc a b \<noteq> {}" "b + 1 \<noteq> a"
  shows "cyc a b - cyc c d = (if b \<in> cyc c d then cyc a (c - 1) else cyc a (c - 1) \<union> cyc (d + 1) b)"
    and "b \<notin> cyc c d \<Longrightarrow> cyc a (c - 1) \<inter> cyc (d + 1) b = {}"
proof -
  have cd: "c - a \<le> d - a" "c \<noteq> a"
    using assms(1) by (auto simp: cyc_mem_rel [of a c d a] split: if_splits)
  then have c: "c - a \<le> b - a"
    using assms(2) by (auto simp: cyc_disjoint_iff)
  have "c - 1 \<in> cyc a b" "c - 1 \<noteq> b"
  proof -
    have eq: "c - 1 - a = c - a - 1" by simp
    have nz: "c - a \<noteq> 0" using cd(2) by simp
    then have lt: "c - a - 1 < c - a" by (simp add: word_pred_less)
    then show "c - 1 \<in> cyc a b" using c unfolding mem_cyc eq by (meson order.strict_implies_order order_trans)
    show "c - 1 \<noteq> b" using lt c unfolding eq [symmetric] by auto
  qed
  then have ab: "cyc a b = cyc a (c - 1) \<union> cyc c b" "cyc a (c - 1) \<inter> cyc c b = {}"
    using cyc_split [of "c - 1" a b] by simp_all
  have inner: "cyc a (c - 1) \<inter> cyc c d = {}"
  proof -
    have "x \<notin> cyc c d" if "x \<in> cyc a (c - 1)" for x
    proof -
      have "x - a \<le> c - a - 1" using that by (simp add: mem_cyc algebra_simps)
      moreover have "c - a - 1 < c - a" using cd(2) by (simp add: word_pred_less)
      ultimately show ?thesis using cd(1) by (auto simp: cyc_mem_rel [of x c d a])
    qed
    then show ?thesis by blast
  qed
  show "b \<notin> cyc c d \<Longrightarrow> cyc a (c - 1) \<inter> cyc (d + 1) b = {}"
  proof -
    assume b: "b \<notin> cyc c d"
    have "cyc c b = cyc c d \<union> cyc (d + 1) b"
      using b by (intro cyc_split; auto simp: mem_cyc)
    with ab(2) show ?thesis by blast
  qed
  show "cyc a b - cyc c d = (if b \<in> cyc c d then cyc a (c - 1) else cyc a (c - 1) \<union> cyc (d + 1) b)"
  proof (cases "b \<in> cyc c d")
    case True
    then have "cyc c b \<subseteq> cyc c d"
      by (auto simp: mem_cyc)
    with ab inner True show ?thesis by auto
  next
    case False
    then have "cyc c b = cyc c d \<union> cyc (d + 1) b" "cyc c d \<inter> cyc (d + 1) b = {}"
      by (intro cyc_split; auto simp: mem_cyc)+
    with ab inner False show ?thesis by auto
  qed
qed

lemma cyc_overlap_tail:
  fixes a b c d :: "'a::len word"
  assumes "c \<notin> cyc a b" "cyc c d \<inter> cyc a b \<noteq> {}" "\<not> cyc a b \<subseteq> cyc c d"
  shows "a \<in> cyc c d" "b \<notin> cyc c d"
proof -
  have c: "b - a < c - a" using assms(1) by (simp add: mem_cyc)
  then have wrap: "\<not> c - a \<le> d - a"
    using assms(2) by (auto simp: cyc_disjoint_iff dest: order_less_le_trans)
  have mem: "x \<in> cyc c d \<longleftrightarrow> c - a \<le> x - a \<or> x - a \<le> d - a" for x
    using wrap by (simp add: cyc_mem_rel [of x c d a])
  show "a \<in> cyc c d" by (simp add: mem)
  show "b \<notin> cyc c d"
  proof
    assume "b \<in> cyc c d"
    then have "b - a \<le> d - a" using c by (auto simp: mem)
    then have "cyc a b \<subseteq> cyc c d" by (auto simp: mem mem_cyc [of _ a])
    with assms(3) show False by blast
  qed
qed

text \<open>Cutting an interval at a distance after or before one of its points.\<close>

lemma cyc_tail_mem: "o' \<in> cyc a d \<Longrightarrow> x \<in> cyc o' d \<Longrightarrow> x \<in> cyc a d" for a d :: "'a::len word"
  by (simp add: cyc_mem_cases split: if_splits; fastforce)

lemma cyc_split_after:
  fixes a d p k :: "'a::len word"
  assumes p: "p \<in> cyc a d" and k: "k + 1 \<le> d - p" "k < k + 1"
  shows "cyc a d = cyc a (p + k) \<union> cyc (p + k + 1) d" "cyc a (p + k) \<inter> cyc (p + k + 1) d = {}"
    "p \<in> cyc a (p + k)"
proof -
  have lt: "k < d - p" using k by simp
  then have mem: "p + k \<in> cyc p d" by (simp add: mem_cyc)
  have neq: "p + k \<noteq> d" using lt by auto
  have m: "p + k \<in> cyc a d" by (rule cyc_tail_mem [OF p mem])
  show 1: "cyc a d = cyc a (p + k) \<union> cyc (p + k + 1) d" "cyc a (p + k) \<inter> cyc (p + k + 1) d = {}"
    using cyc_split [OF m neq] by blast+
  have e: "p + k + 1 - p = k + 1" by simp
  have "k + 1 \<noteq> 0" using k(2) by auto
  then have "p \<notin> cyc (p + k + 1) d"
    using k(1) cyc_mem_rel [of p "p + k + 1" d p] unfolding e by simp
  with p 1 show "p \<in> cyc a (p + k)" by blast
qed

lemma cyc_uminus: "x \<in> cyc a b \<longleftrightarrow> - x \<in> cyc (- b) (- a)" for a b x :: "'a::len word"
proof -
  have "x - a \<le> (b - a) \<longleftrightarrow> (b - a) - (x - a) \<le> b - a"
    by (metis (no_types) diff_diff_eq2 add_diff_cancel_left' word_sub_le word_sub_le_iff diff_add_cancel add_diff_cancel)
  then show ?thesis by (simp add: mem_cyc)
qed

lemma cyc_split_before:
  fixes a d p k :: "'a::len word"
  assumes p: "p \<in> cyc a d" and k: "k + 1 \<le> p - a" "k < k + 1"
  shows "cyc a d = cyc a (p - k - 1) \<union> cyc (p - k) d" "cyc a (p - k - 1) \<inter> cyc (p - k) d = {}"
    "p \<in> cyc (p - k) d"
proof -
  have p': "- p \<in> cyc (- d) (- a)" using p cyc_uminus by blast
  have k': "k + 1 \<le> - a - - p" using k(1) by simp
  note split = cyc_split_after [OF p' k' k(2)]
  have flip: "x \<in> cyc a (p - k - 1) \<longleftrightarrow> - x \<in> cyc (- p + k + 1) (- a)"
    "x \<in> cyc (p - k) d \<longleftrightarrow> - x \<in> cyc (- d) (- p + k)" for x
    using cyc_uminus [of x a "p - k - 1"] cyc_uminus [of x "p - k" d] by (simp_all add: algebra_simps)
  show "cyc a d = cyc a (p - k - 1) \<union> cyc (p - k) d"
    using split(1) flip cyc_uminus [of _ a d] by blast
  show "cyc a (p - k - 1) \<inter> cyc (p - k) d = {}" using split(2) flip by blast
  show "p \<in> cyc (p - k) d" using split(3) flip by blast
qed

lemma cyc_join_pred:
  fixes a b c :: "'a::len word"
  assumes "b + 1 \<noteq> a" "c \<notin> cyc a b"
  shows "cyc c b = cyc c (a - 1) \<union> cyc a b" "cyc c (a - 1) \<inter> cyc a b = {}"
proof -
  have 1: "- a + 1 \<noteq> - b" using assms(1) by (metis add.inverse_inverse minus_diff_eq diff_add_cancel uminus_add_conv_diff)
  have 2: "- c \<notin> cyc (- b) (- a)" using assms(2) cyc_uminus by blast
  have flip: "x \<in> cyc c (a - 1) \<longleftrightarrow> - x \<in> cyc (- a + 1) (- c)" for x
    using cyc_uminus [of x c "a - 1"] by (simp add: algebra_simps)
  note join = cyc_join [OF 1 2]
  show "cyc c b = cyc c (a - 1) \<union> cyc a b"
    using join(1) flip cyc_uminus [of _ c b] cyc_uminus [of _ a b] by blast
  show "cyc c (a - 1) \<inter> cyc a b = {}"
    using join(2) flip cyc_uminus [of _ a b] by blast
qed

end
