(* ===== verification/Node_Id.thy ===== *)
theory Node_Id
  imports Large_Integer Cyclic_Words
begin

section \<open>NodeId: identifiers on the federation ring\<close>

text \<open>
  src/ServiceModel/federation/NodeId.cpp. A node id wraps a \<open>LargeInteger\<close>; ids form a ring of size
  \<open>2 ^ 128\<close>, walked clockwise by \<open>SuccWalk\<close> and measured by \<open>SuccDist\<close>. \<open>nid_val\<close> reads an id as a
  128-bit word.
\<close>

datatype node_id = NodeId (id_value: large_integer)

subsection \<open>The operations\<close>

definition min_node_id :: node_id where "min_node_id = NodeId li_zero"
definition max_node_id :: node_id where "max_node_id = NodeId li_max_value"

definition nid_less :: "node_id \<Rightarrow> node_id \<Rightarrow> bool" where
  "nid_less a b \<longleftrightarrow> li_less (id_value a) (id_value b)"

definition nid_le :: "node_id \<Rightarrow> node_id \<Rightarrow> bool" where
  "nid_le a b \<longleftrightarrow> li_le (id_value a) (id_value b)"

definition nid_plus :: "node_id \<Rightarrow> large_integer \<Rightarrow> node_id" where
  "nid_plus a d = NodeId (li_add (id_value a) d)"

definition nid_minus :: "node_id \<Rightarrow> large_integer \<Rightarrow> node_id" where
  "nid_minus a d = NodeId (li_sub (id_value a) d)"

definition succ_walk :: "node_id \<Rightarrow> large_integer \<Rightarrow> node_id" where
  "succ_walk a d = nid_plus a d"

definition pred_walk :: "node_id \<Rightarrow> large_integer \<Rightarrow> node_id" where
  "pred_walk a d = nid_minus a d"

definition succ_dist :: "node_id \<Rightarrow> node_id \<Rightarrow> large_integer" where
  "succ_dist a b = li_sub (id_value b) (id_value a)"

definition pred_dist :: "node_id \<Rightarrow> node_id \<Rightarrow> large_integer" where
  "pred_dist a b = li_sub (id_value a) (id_value b)"

definition min_dist :: "node_id \<Rightarrow> node_id \<Rightarrow> large_integer" where
  "min_dist a b =
     (let succDist = succ_dist a b
      in if is_smaller_part succDist then succDist else pred_dist a b)"

definition precedes :: "node_id \<Rightarrow> node_id \<Rightarrow> bool option" where
  "precedes a b =
     (let predDist = pred_dist a b
      in if is_smaller_part predDist then Some False
         else
           (let succDist = succ_dist a b
            in if is_smaller_part succDist then Some True
               else do {
                 assert_ifnot (succDist = predDist);
                 Some (li_less (id_value a) (id_value b))
               }))"

definition get_succ_mid_point :: "node_id \<Rightarrow> node_id \<Rightarrow> node_id" where
  "get_succ_mid_point a s = (let dist = succ_dist a s in succ_walk a (li_shr_pos 1 dist))"

definition get_pred_mid_point :: "node_id \<Rightarrow> node_id \<Rightarrow> node_id" where
  "get_pred_mid_point a p =
     (let dist = pred_dist a p in pred_walk a (li_shr_pos 1 (li_sub dist li_one)))"

subsection \<open>The ring value of an id\<close>

definition nid_val :: "node_id \<Rightarrow> u128" where
  "nid_val a = li_val (id_value a)"

lemma nid_val_inject: "nid_val a = nid_val b \<longleftrightarrow> a = b"
  by (cases a; cases b) (simp add: nid_val_def li_val_inject)

definition nid_of :: "u128 \<Rightarrow> node_id" where
  "nid_of w = NodeId (LargeInteger (ucast (drop_bit 64 w)) (ucast w))"

lemma nid_val_of [simp]: "nid_val (nid_of w) = w"
  unfolding nid_val_def
  by (rule li_eqI_bits) (auto simp: nid_of_def bit_li_val bit_simps)

lemma nid_of_val [simp]: "nid_of (nid_val a) = a"
  by (simp flip: nid_val_inject)

lemma nid_val_image: "nid_val ` {a. P (nid_val a)} = {w. P w}"
proof -
  have "w \<in> nid_val ` {a. P (nid_val a)}" if "P w" for w
    using that by (intro image_eqI [where x = "nid_of w"]) simp_all
  then show ?thesis by auto
qed

instantiation node_id :: linorder
begin

definition less_node_id :: "node_id \<Rightarrow> node_id \<Rightarrow> bool" where
  "less_node_id = nid_less"

definition less_eq_node_id :: "node_id \<Rightarrow> node_id \<Rightarrow> bool" where
  "less_eq_node_id = nid_le"

instance
  by standard
    (auto simp: less_node_id_def less_eq_node_id_def nid_less_def nid_le_def ring_simps
      simp flip: nid_val_def nid_val_inject)

end

lemma nid_order [ring_simps]:
  "a < b \<longleftrightarrow> nid_val a < nid_val b" "a \<le> b \<longleftrightarrow> nid_val a \<le> nid_val b"
  by (simp_all add: less_node_id_def less_eq_node_id_def nid_less_def nid_le_def ring_simps nid_val_def)

lemma nid_val_walk [ring_simps]:
  "nid_val (nid_plus a d) = nid_val a + li_val d" "nid_val (nid_minus a d) = nid_val a - li_val d"
  "nid_val (succ_walk a d) = nid_val a + li_val d" "nid_val (pred_walk a d) = nid_val a - li_val d"
  by (simp_all add: nid_val_def nid_plus_def nid_minus_def succ_walk_def pred_walk_def ring_simps)

lemma li_val_dist [ring_simps]:
  "li_val (succ_dist a b) = nid_val b - nid_val a" "li_val (pred_dist a b) = nid_val a - nid_val b"
  by (simp_all add: nid_val_def succ_dist_def pred_dist_def ring_simps)

lemma nid_val_ends [simp]: "nid_val min_node_id = 0" "nid_val max_node_id = - 1"
  by (simp_all add: nid_val_def min_node_id_def max_node_id_def)

lemma succ_dist_eq_one: "succ_dist a b = li_one \<longleftrightarrow> nid_val a + 1 = nid_val b"
  by (auto simp: ring_simps algebra_simps simp flip: li_val_inject)

subsection \<open>Distances\<close>

lemma not_bit_top: "\<not> bit x 127 \<longleftrightarrow> unat x < 2 ^ 127" for x :: u128
proof -
  have "unat x < 2 * 2 ^ 127" using unat_less_exp [of x] by simp
  then have "unat x div 2 ^ 127 < 2" by (simp add: div_less_iff_less_mult)
  moreover have "bit x 127 \<longleftrightarrow> odd (unat x div 2 ^ 127)"
    using bit_unsigned_iff [of x 127, where 'a = nat] by (simp add: bit_iff_odd)
  moreover have "unat x div 2 ^ 127 = 0 \<longleftrightarrow> unat x < 2 ^ 127"
    by (simp add: div_eq_0_iff)
  ultimately show ?thesis by (auto simp: less_2_cases_iff)
qed

lemma smaller_part_less: "is_smaller_part d \<longleftrightarrow> unat (li_val d) < 2 ^ 127"
  unfolding is_smaller_part_iff not_bit_top ..

lemma unat_swap_diff:
  fixes x y :: "'a::len word"
  shows "x \<noteq> y \<Longrightarrow> unat (y - x) + unat (x - y) = 2 ^ LENGTH('a)"
  using less_imp_le [OF unat_less_exp [of x]] less_imp_le [OF unat_less_exp [of y]]
  by (auto simp: unat_diff_cases word_le_nat_alt word_unat_eq_iff)

lemma unat_dist_sum: "a \<noteq> b \<Longrightarrow> unat (li_val (succ_dist a b)) + unat (li_val (pred_dist a b)) = 2 ^ 128"
  using unat_swap_diff [of "nid_val a" "nid_val b"] by (simp add: li_val_dist nid_val_inject)

lemma min_dist_is_min:
  "li_val (min_dist a b) = min (li_val (succ_dist a b)) (li_val (pred_dist a b))"
proof (cases "a = b")
  case True
  then show ?thesis by (simp add: min_dist_def Let_def ring_simps)
next
  case False
  from unat_dist_sum [OF False] show ?thesis
    unfolding word_unat_eq_iff
    by (auto simp: min_dist_def Let_def smaller_part_less min_def word_le_nat_alt)
qed

text \<open>
  \<open>Precedes\<close> never fails its assertion, and of two different ids exactly one precedes the other.
\<close>

lemma precedes_iff:
  "precedes a b = Some (a \<noteq> b \<and> (let s = unat (li_val (succ_dist a b))
     in s < 2 ^ 127 \<or> s = 2 ^ 127 \<and> nid_val a < nid_val b))"
proof (cases "a = b")
  case True
  then show ?thesis by (simp add: precedes_def Let_def smaller_part_less li_val_dist)
next
  case False
  note sum = unat_dist_sum [OF False]
  show ?thesis
  proof (cases "is_smaller_part (succ_dist a b) \<or> is_smaller_part (pred_dist a b)")
    case True
    then show ?thesis
      using False sum by (auto simp: precedes_def Let_def smaller_part_less)
  next
    case notsmall: False
    then have "unat (li_val (succ_dist a b)) = 2 ^ 127" "unat (li_val (pred_dist a b)) = 2 ^ 127"
      using sum by (simp_all add: smaller_part_less)
    moreover from this have "succ_dist a b = pred_dist a b"
      by (simp add: word_unat_eq_iff flip: li_val_inject)
    ultimately show ?thesis
      using notsmall False by (simp add: precedes_def Let_def li_less_iff nid_val_def)
  qed
qed

lemma precedes_total:
  assumes "a \<noteq> b"
  shows "(precedes a b = Some True) \<noteq> (precedes b a = Some True)"
proof -
  have "pred_dist a b = succ_dist b a"
    by (simp add: pred_dist_def succ_dist_def)
  moreover have "nid_val a \<noteq> nid_val b" using assms by (simp add: nid_val_inject)
  ultimately show ?thesis
    using unat_dist_sum [OF assms] assms by (auto simp: precedes_iff Let_def)
qed

subsection \<open>Mid points\<close>

lemma half_gap:
  fixes d :: "'a::len word"
  assumes "d \<noteq> 0"
  shows "d - drop_bit 1 (d - 1) = drop_bit 1 d + 1"
proof -
  have pos: "0 < unat d" using assms by (simp add: word_unat_eq_iff)
  have pred: "unat (d - 1) = unat d - 1" using assms by (simp add: unat_minus_one)
  have half: "drop_bit 1 x = word_of_nat (unat x div 2)" for x :: "'a word"
  proof -
    have "drop_bit 1 x = word_of_nat (unat (drop_bit 1 x))" by simp
    also have "unat (drop_bit 1 x) = unat x div 2"
      unfolding unat_drop_bit_eq by (simp add: drop_bit_eq_div)
    finally show ?thesis .
  qed
  have "drop_bit 1 d + 1 + drop_bit 1 (d - 1) = word_of_nat (unat d div 2 + 1 + (unat d - 1) div 2)"
    by (simp only: half pred of_nat_add of_nat_1)
  also have "unat d div 2 + 1 + (unat d - 1) div 2 = unat d"
    using pos by arith
  finally show ?thesis by (simp add: algebra_simps)
qed

lemma mid_points_meet:
  assumes "a \<noteq> b"
  shows "succ_walk (get_succ_mid_point a b) li_one = get_pred_mid_point b a"
proof -
  have "nid_val b - nid_val a \<noteq> 0" using assms by (simp add: nid_val_inject)
  from half_gap [OF this] show ?thesis
    by (simp add: get_succ_mid_point_def get_pred_mid_point_def Let_def ring_simps algebra_simps
        flip: nid_val_inject)
qed

end
