(* ===== verification/Node_Instance.thy ===== *)
theory Node_Instance
  imports Node_Id "HOL-Library.Char_ord" "HOL-Library.List_Lexorder"
begin

section \<open>Instances of nodes and of lease agents\<close>

text \<open>
  src/ServiceModel/federation/NodeInstance.h and src/LeaseAgent/LeaseAgentInstance.h: an identity
  together with the number that grows each time the node (or lease agent) restarts.
\<close>

datatype node_instance = NodeInstance (ni_id: node_id) (ni_instance: u64)

definition increment_instance_id :: "node_instance \<Rightarrow> node_instance" where
  "increment_instance_id n = NodeInstance (ni_id n) (ni_instance n + 1)"

definition ni_less :: "node_instance \<Rightarrow> node_instance \<Rightarrow> bool" where
  "ni_less a b \<longleftrightarrow> ni_id a < ni_id b \<or> ni_id a = ni_id b \<and> ni_instance a < ni_instance b"

definition ni_le :: "node_instance \<Rightarrow> node_instance \<Rightarrow> bool" where
  "ni_le a b \<longleftrightarrow> ni_id a \<le> ni_id b \<or> ni_id a = ni_id b \<and> ni_instance a \<le> ni_instance b"

definition ni_match :: "node_instance \<Rightarrow> node_instance \<Rightarrow> bool" where
  "ni_match a b \<longleftrightarrow> ni_id a = ni_id b \<and>
     (ni_instance a = ni_instance b \<or> ni_instance b = 0 \<or> ni_instance a = 0)"

datatype lease_agent_instance = LeaseAgentInstance (la_id: string) (la_instance: int)

subsection \<open>The order of node instances\<close>

text \<open>
  \<open>operator <\<close> is a strict total order. \<open>operator <=\<close> is not its reflexive closure: it holds for
  any two instances of one node, so it cannot order the restarts of a node.
\<close>

lemma ni_less_irrefl: "\<not> ni_less a a"
  by (simp add: ni_less_def)

lemma ni_less_trans: "ni_less a b \<Longrightarrow> ni_less b c \<Longrightarrow> ni_less a c"
  by (auto simp: ni_less_def)

lemma ni_less_total: "ni_less a b \<or> a = b \<or> ni_less b a"
  by (cases a; cases b) (auto simp: ni_less_def)

text \<open>Of two instances exactly one of \<open>a < b\<close>, \<open>a == b\<close> and \<open>b < a\<close> holds, but \<open>a <= b\<close> only compares the
  ids: it holds in both directions between any two instances of one node.\<close>

theorem node_instance_orders:
  "(ni_less a b \<longleftrightarrow> a \<noteq> b \<and> \<not> ni_less b a) \<and> (ni_le a b \<longleftrightarrow> ni_id a \<le> ni_id b) \<and>
   (ni_le a b \<and> ni_le b a \<longleftrightarrow> ni_id a = ni_id b)"
  using ni_less_total [of a b] ni_less_irrefl [of a] ni_less_trans [of a b a]
  by (auto simp: ni_le_def)

instantiation node_instance :: linorder
begin

definition less_node_instance :: "node_instance \<Rightarrow> node_instance \<Rightarrow> bool" where
  "less_node_instance = ni_less"

definition less_eq_node_instance :: "node_instance \<Rightarrow> node_instance \<Rightarrow> bool" where
  "less_eq_node_instance a b \<longleftrightarrow> ni_less a b \<or> a = b"

instance
proof
  fix a b c :: node_instance
  show "(a < b) = (a \<le> b \<and> \<not> b \<le> a)"
    by (auto simp: less_node_instance_def less_eq_node_instance_def ni_less_def)
  show "a \<le> a" by (simp add: less_eq_node_instance_def)
  show "a \<le> b \<Longrightarrow> b \<le> c \<Longrightarrow> a \<le> c"
    by (auto simp: less_eq_node_instance_def intro: ni_less_trans)
  show "a \<le> b \<Longrightarrow> b \<le> a \<Longrightarrow> a = b"
    by (auto simp: less_eq_node_instance_def ni_less_def)
  show "a \<le> b \<or> b \<le> a"
    using ni_less_total [of a b] by (auto simp: less_eq_node_instance_def)
qed

end

end
