(* ===== verification/Node_Id_Range.thy ===== *)
theory Node_Id_Range
  imports Node_Id
begin

section \<open>NodeIdRange: clockwise ranges of node ids\<close>

text \<open>
  src/Federation/NodeIdRange.h and NodeIdRange.cpp. A range is a pair of ids, both included; two
  pairs are reserved for the full and the empty range. The theory translates every operation and
  shows it to be the set operation it stands for on \<open>range_ids\<close>, the ids a range contains.
  \<open>Contains(range)\<close>, \<open>Disjoint\<close> and what calls them assert that their arguments are not empty.
\<close>

datatype node_id_range = NodeIdRange (range_begin: node_id) (range_end: node_id)

subsection \<open>The operations\<close>

definition full_range :: node_id_range where
  "full_range = NodeIdRange min_node_id max_node_id"

definition empty_range :: node_id_range where
  "empty_range = NodeIdRange (nid_minus min_node_id li_max_value) min_node_id"

definition is_full :: "node_id_range \<Rightarrow> bool" where
  "is_full r \<longleftrightarrow> r = full_range"

definition is_empty :: "node_id_range \<Rightarrow> bool" where
  "is_empty r \<longleftrightarrow> r = empty_range"

text \<open>The constructor from two ids turns a pair that would wrap all the way around into the full range.\<close>

definition make_range :: "node_id \<Rightarrow> node_id \<Rightarrow> node_id_range" where
  "make_range b e = (if succ_dist e b = li_one then full_range else NodeIdRange b e)"

definition is_normal :: "node_id_range \<Rightarrow> bool" where
  "is_normal r \<longleftrightarrow> succ_dist (range_end r) (range_begin r) \<noteq> li_one"

definition contains_range :: "node_id_range \<Rightarrow> node_id_range \<Rightarrow> bool option" where
  "contains_range this r = do {
     assert_if (is_empty r);
     if is_full this then Some True
     else if is_empty this \<or> is_full r then Some False
     else
       (let size = succ_dist (range_begin this) (range_end this);
            dist1 = succ_dist (range_begin this) (range_begin r)
        in if dist1 > size then Some False
           else
             (let dist2 = succ_dist (range_begin this) (range_end r)
              in Some (dist2 \<le> size \<and> dist2 \<ge> dist1)))
   }"

definition contains_id :: "node_id_range \<Rightarrow> node_id \<Rightarrow> bool" where
  "contains_id this i =
     (if is_full this then True
      else if is_empty this then False
      else
        (let size = succ_dist (range_begin this) (range_end this);
             dist = succ_dist (range_begin this) i
         in dist \<le> size))"

definition proper_contains :: "node_id_range \<Rightarrow> node_id \<Rightarrow> bool" where
  "proper_contains this i \<longleftrightarrow> contains_id this i \<and> i \<noteq> range_begin this \<and> i \<noteq> range_end this"

definition range_disjoint :: "node_id_range \<Rightarrow> node_id_range \<Rightarrow> bool option" where
  "range_disjoint this r = do {
     assert_if (is_empty this \<or> is_empty r);
     if is_full this \<or> is_full r then Some False
     else
       (let size = succ_dist (range_begin this) (range_end this);
            dist1 = succ_dist (range_begin this) (range_begin r)
        in if dist1 \<le> size then Some False
           else
             (let dist2 = succ_dist (range_begin this) (range_end r)
              in Some (dist2 > size \<and> dist2 \<ge> dist1)))
   }"

definition proper_disjoint :: "node_id_range \<Rightarrow> node_id_range \<Rightarrow> bool" where
  "proper_disjoint this r \<longleftrightarrow>
     \<not> proper_contains this (range_begin r) \<and> \<not> proper_contains this (range_end r)"

definition is_succ_adjacent :: "node_id_range \<Rightarrow> node_id_range \<Rightarrow> bool" where
  "is_succ_adjacent this r \<longleftrightarrow>
     is_normal this \<and> is_normal r \<and> succ_dist (range_end this) (range_begin r) = li_one"

definition is_pred_adjacent :: "node_id_range \<Rightarrow> node_id_range \<Rightarrow> bool" where
  "is_pred_adjacent this r \<longleftrightarrow>
     is_normal this \<and> is_normal r \<and> succ_dist (range_end r) (range_begin this) = li_one"

definition range_merge :: "node_id_range \<Rightarrow> node_id_range \<Rightarrow> node_id_range option" where
  "range_merge range1 range2 =
     (if is_empty range1 then Some range2
      else if is_empty range2 then Some range1
      else do {
        apart \<leftarrow> range_disjoint range1 range2;
        assert_if apart;
        c12 \<leftarrow> contains_range range1 range2;
        if c12 then Some range1
        else do {
          c21 \<leftarrow> contains_range range2 range1;
          if c21 then Some range2
          else if contains_id range1 (range_begin range2) then
            Some (if contains_id range1 (range_end range2) then full_range
                  else make_range (range_begin range1) (range_end range2))
          else Some (make_range (range_begin range2) (range_end range1))
        }
      })"

text \<open>The two \<open>out\<close> parameters of \<open>Subtract\<close> are the pair returned.\<close>

definition range_subtract :: "node_id_range \<Rightarrow> node_id_range \<Rightarrow> (node_id_range \<times> node_id_range) option" where
  "range_subtract this exclude =
     (if is_empty this then Some (empty_range, empty_range)
      else do {
        covered \<leftarrow> contains_range exclude this;
        if covered then Some (empty_range, empty_range)
        else do {
          apart \<leftarrow> (if is_empty exclude then Some True else range_disjoint this exclude);
          if apart then Some (this, empty_range)
          else if contains_id exclude (range_begin this) then
            (let e = (if contains_id exclude (range_end this)
                      then nid_minus (range_begin exclude) li_one else range_end this)
             in Some (make_range (nid_plus (range_end exclude) li_one) e, empty_range))
          else if is_full this then
            Some (make_range (nid_plus (range_end exclude) li_one)
                    (nid_minus (range_begin exclude) li_one), empty_range)
          else
            (let first = make_range (range_begin this) (nid_minus (range_begin exclude) li_one)
             in if \<not> contains_id exclude (range_end this)
                then Some (first, make_range (nid_plus (range_end exclude) li_one) (range_end this))
                else Some (first, empty_range))
        }
      })"

text \<open>
  \<open>Subtract(excludes, result)\<close>: the inner loop runs \<open>i\<close> from the size of the result down to one;
  a piece that splits keeps its first half in place and pushes the second to the back, where the
  falling index does not come again.
\<close>

fun subtract_pass :: "node_id_range \<Rightarrow> nat \<Rightarrow> node_id_range list \<Rightarrow> node_id_range list option" where
  "subtract_pass exclude 0 rs = Some rs"
| "subtract_pass exclude (Suc i) rs = do {
     (first, second) \<leftarrow> range_subtract (rs ! i) exclude;
     if is_empty first then subtract_pass exclude i (take i rs @ drop (Suc i) rs)
     else
       (let rs' = rs[i := first]
        in subtract_pass exclude i (if is_empty second then rs' else rs' @ [second]))
   }"

fun subtract_all :: "node_id_range list \<Rightarrow> node_id_range list \<Rightarrow> node_id_range list option" where
  "subtract_all [] rs = Some rs"
| "subtract_all (exclude # excludes) rs = do {
     rs' \<leftarrow> subtract_pass exclude (length rs) rs;
     subtract_all excludes rs'
   }"

definition range_subtract_list :: "node_id_range \<Rightarrow> node_id_range list \<Rightarrow> node_id_range list option" where
  "range_subtract_list this excludes = subtract_all excludes [this]"

subsection \<open>What a range stands for\<close>

text \<open>
  A well-formed range is the empty one, the full one, or a normal one: what the constructors build.
\<close>

definition range_wf :: "node_id_range \<Rightarrow> bool" where
  "range_wf r \<longleftrightarrow> is_normal r \<or> r = full_range \<or> r = empty_range"

definition range_ids :: "node_id_range \<Rightarrow> node_id set" where
  "range_ids r = {i. contains_id r i}"

definition rset :: "node_id_range \<Rightarrow> u128 set" where
  "rset r = (if r = empty_range then {} else cyc (nid_val (range_begin r)) (nid_val (range_end r)))"

lemma range_ends [simp]:
  "range_begin full_range = min_node_id" "range_end full_range = max_node_id"
  "nid_val (range_begin empty_range) = 1" "nid_val (range_end empty_range) = 0"
  by (simp_all add: full_range_def empty_range_def ring_simps)

lemma full_not_empty [simp]: "full_range \<noteq> empty_range" "empty_range \<noteq> full_range"
  by (metis nid_val_ends(1) range_ends(1,3) zero_neq_one)+

lemma range_full_iff: "is_full r \<longleftrightarrow> r = full_range" and range_empty_iff: "is_empty r \<longleftrightarrow> r = empty_range"
  by (simp_all add: is_full_def is_empty_def)

lemma normal_iff: "is_normal r \<longleftrightarrow> nid_val (range_end r) + 1 \<noteq> nid_val (range_begin r)"
  by (simp add: is_normal_def succ_dist_eq_one)

lemma normal_not_special: "is_normal r \<Longrightarrow> r \<noteq> full_range \<and> r \<noteq> empty_range"
  by (auto simp: normal_iff)

lemma rset_full [simp]: "rset full_range = UNIV"
  by (simp add: rset_def cyc_full)

lemma rset_empty [simp]: "rset empty_range = {}"
  by (simp add: rset_def)

lemma rset_normal: "r \<noteq> empty_range \<Longrightarrow> rset r = cyc (nid_val (range_begin r)) (nid_val (range_end r))"
  by (simp add: rset_def)

lemma range_eqI:
  "nid_val (range_begin r) = nid_val (range_begin s) \<Longrightarrow> nid_val (range_end r) = nid_val (range_end s) \<Longrightarrow> r = s"
  by (cases r; cases s) (simp add: nid_val_inject)

lemma rset_eq_empty [simp]: "rset r = {} \<longleftrightarrow> r = empty_range"
  by (auto simp: rset_def) (metis cyc_ends(1) Set.empty_iff)

lemma rset_eq_UNIV: "range_wf r \<Longrightarrow> rset r = UNIV \<longleftrightarrow> r = full_range"
  by (auto simp: range_wf_def rset_def cyc_eq_UNIV_iff normal_iff)

lemma contains_id_iff [range_simps]: "contains_id r i \<longleftrightarrow> nid_val i \<in> rset r"
  by (auto simp: contains_id_def range_full_iff range_empty_iff Let_def rset_def mem_cyc ring_simps)

lemma range_ids_rset: "range_ids r = nid_val -` rset r"
  by (auto simp: range_ids_def contains_id_iff)

lemma vimage_nid_val: "nid_val -` A \<subseteq> nid_val -` B \<longleftrightarrow> A \<subseteq> B" "nid_val -` A = nid_val -` B \<longleftrightarrow> A = B"
proof -
  show sub: "nid_val -` A \<subseteq> nid_val -` B \<longleftrightarrow> A \<subseteq> B" for A B
    by (auto simp: subset_iff) (metis nid_val_of)
  then show "nid_val -` A = nid_val -` B \<longleftrightarrow> A = B" by (simp add: set_eq_subset)
qed

lemma range_ids_simps [range_simps]:
  "range_ids r \<subseteq> range_ids s \<longleftrightarrow> rset r \<subseteq> rset s"
  "range_ids r \<inter> range_ids s = {} \<longleftrightarrow> rset r \<inter> rset s = {}"
  "range_ids full_range = UNIV" "range_ids empty_range = {}"
proof -
  show "range_ids r \<inter> range_ids s = {} \<longleftrightarrow> rset r \<inter> rset s = {}"
    using vimage_nid_val(2) [of "rset r \<inter> rset s" "{}"] by (simp add: range_ids_rset)
qed (simp_all add: range_ids_rset vimage_nid_val)

lemma range_wf_special [simp]: "range_wf full_range" "range_wf empty_range"
  by (simp_all add: range_wf_def)

lemma make_range_wf [simp]: "range_wf (make_range b e)"
  by (auto simp: make_range_def range_wf_def is_normal_def)

lemma rset_make_range [range_simps]: "rset (make_range b e) = cyc (nid_val b) (nid_val e)"
proof (cases "nid_val e + 1 = nid_val b")
  case True
  then show ?thesis by (simp add: make_range_def succ_dist_eq_one cyc_full)
next
  case False
  then have "NodeIdRange b e \<noteq> empty_range"
    by (metis add_0 node_id_range.sel range_ends(3,4))
  with False show ?thesis by (simp add: make_range_def succ_dist_eq_one rset_def)
qed

lemma make_range_not_empty [simp]: "make_range b e \<noteq> empty_range"
  using rset_make_range [of b e] by (metis cyc_ends(1) Set.empty_iff rset_empty)

subsection \<open>The operations are the set operations\<close>

lemma contains_range_iff:
  assumes "range_wf r" "range_wf s" "s \<noteq> empty_range"
  shows "contains_range r s = Some (rset s \<subseteq> rset r)"
proof (cases "r = full_range \<or> r = empty_range \<or> s = full_range")
  case True
  then show ?thesis
    using assms rset_eq_UNIV [OF assms(1)] by (auto simp: contains_range_def range_full_iff range_empty_iff)
next
  case False
  then have "nid_val (range_end r) + 1 \<noteq> nid_val (range_begin r)"
    using assms by (simp add: range_wf_def normal_iff)
  from cyc_subset_iff [OF this] show ?thesis
    using False assms
    by (auto simp: contains_range_def range_full_iff range_empty_iff Let_def rset_normal ring_simps)
qed

lemma disjoint_iff_rset:
  assumes "r \<noteq> empty_range" "s \<noteq> empty_range"
  shows "range_disjoint r s = Some (rset r \<inter> rset s = {})"
proof (cases "r = full_range \<or> s = full_range")
  case True
  then show ?thesis using assms by (auto simp: range_disjoint_def range_full_iff range_empty_iff)
next
  case False
  have "rset r \<inter> rset s = {} \<longleftrightarrow> rset s \<inter> rset r = {}" by blast
  with False show ?thesis
    using assms
    by (auto simp: range_disjoint_def range_full_iff range_empty_iff Let_def rset_normal ring_simps cyc_disjoint_iff)
qed

lemma wf_normalI: "range_wf r \<Longrightarrow> r \<noteq> full_range \<Longrightarrow> r \<noteq> empty_range \<Longrightarrow>
    nid_val (range_end r) + 1 \<noteq> nid_val (range_begin r)"
  by (simp add: range_wf_def normal_iff)

lemma range_merge_disjoint:
  "r \<noteq> empty_range \<Longrightarrow> s \<noteq> empty_range \<Longrightarrow> rset r \<inter> rset s = {} \<Longrightarrow> range_merge r s = None"
  by (simp add: range_merge_def range_empty_iff disjoint_iff_rset)

lemma range_merge_overlap:
  assumes wf: "range_wf r" "range_wf s" and ne: "r \<noteq> empty_range" "s \<noteq> empty_range"
    and ov: "rset r \<inter> rset s \<noteq> {}"
  shows "\<exists>m. range_merge r s = Some m \<and> range_wf m \<and> rset m = rset r \<union> rset s"
proof -
  let ?a = "nid_val (range_begin r)" and ?b = "nid_val (range_end r)"
  let ?c = "nid_val (range_begin s)" and ?d = "nid_val (range_end s)"
  have merge: "range_merge r s = Some (if rset s \<subseteq> rset r then r else if rset r \<subseteq> rset s then s
      else if ?c \<in> rset r then (if ?d \<in> rset r then full_range else make_range (range_begin r) (range_end s))
      else make_range (range_begin s) (range_end r))"
    using assms by (simp add: range_merge_def range_empty_iff disjoint_iff_rset contains_range_iff contains_id_iff)
  show ?thesis
  proof (cases "rset s \<subseteq> rset r \<or> rset r \<subseteq> rset s")
    case True
    then show ?thesis using merge wf by auto
  next
    case False
    then have nf: "r \<noteq> full_range" "s \<noteq> full_range" by auto
    have rs: "rset r = cyc ?a ?b" "rset s = cyc ?c ?d" using ne by (simp_all add: rset_normal)
    note sub = cyc_subset_iff [OF wf_normalI [OF wf(1) nf(1) ne(1)], of ?c ?d]
    consider (both) "?c \<in> rset r" "?d \<in> rset r" | (head) "?c \<in> rset r" "?d \<notin> rset r" | (tail) "?c \<notin> rset r"
      by blast
    then show ?thesis
    proof cases
      case both
      then have "\<not> ?c - ?a \<le> ?d - ?a" using False sub by (auto simp: rs mem_cyc)
      with both have "rset r \<union> rset s = UNIV" unfolding rs by (intro cyc_union_overlap)
      then show ?thesis using merge False both by auto
    next
      case head
      then have "rset r \<union> rset s = cyc ?a ?d" unfolding rs by (intro cyc_union_overlap)
      then show ?thesis using merge False head by (auto simp: rset_make_range)
    next
      case tail
      have "?a \<in> rset s" "?b \<notin> rset s"
        using tail ov False cyc_overlap_tail [of ?c ?a ?b ?d] unfolding rs Int_commute [of "cyc ?a ?b"]
        by simp_all
      then have "rset s \<union> rset r = cyc ?c ?b" unfolding rs by (intro cyc_union_overlap)
      then show ?thesis using merge False tail by (auto simp: rset_make_range)
    qed
  qed
qed

lemma range_subtract_rset:
  assumes wf: "range_wf r" "range_wf x"
  shows "\<exists>f s. range_subtract r x = Some (f, s) \<and> range_wf f \<and> range_wf s \<and>
    rset f \<union> rset s = rset r - rset x \<and> rset f \<inter> rset s = {} \<and> (f = empty_range \<longrightarrow> s = empty_range)"
proof (cases "r = empty_range \<or> rset r \<subseteq> rset x \<or> rset r \<inter> rset x = {}")
  case True
  then show ?thesis
    using wf by (auto simp: range_subtract_def range_empty_iff contains_range_iff disjoint_iff_rset)
next
  case False
  then have ne: "r \<noteq> empty_range" "x \<noteq> empty_range" and nf: "x \<noteq> full_range" by auto
  let ?a = "nid_val (range_begin r)" and ?b = "nid_val (range_end r)"
  let ?c = "nid_val (range_begin x)" and ?d = "nid_val (range_end x)"
  have rs: "rset r = cyc ?a ?b" "rset x = cyc ?c ?d" using ne by (simp_all add: rset_normal)
  note dc = wf_normalI [OF wf(2) nf ne(2)]
  have sub: "range_subtract r x = Some
     (if ?a \<in> rset x then
        (make_range (nid_plus (range_end x) li_one)
           (if ?b \<in> rset x then nid_minus (range_begin x) li_one else range_end r), empty_range)
      else if r = full_range then
        (make_range (nid_plus (range_end x) li_one) (nid_minus (range_begin x) li_one), empty_range)
      else
        (make_range (range_begin r) (nid_minus (range_begin x) li_one),
         if ?b \<notin> rset x then make_range (nid_plus (range_end x) li_one) (range_end r) else empty_range))"
    using False ne wf
    by (simp add: range_subtract_def range_empty_iff range_full_iff disjoint_iff_rset contains_range_iff
        contains_id_iff Let_def)
  show ?thesis
  proof (cases "?a \<in> rset x")
    case True
    then show ?thesis
      using sub cyc_diff_head [of ?a ?c ?d ?b] cyc_diff_both [of ?a ?c ?d ?b] dc False
      by (auto simp: rset_make_range nid_val_walk rs)
  next
    case nota: False
    show ?thesis
    proof (cases "r = full_range")
      case True
      then show ?thesis
        using sub nota cyc_complement [OF dc] by (auto simp: rset_make_range nid_val_walk rs)
    next
      case notfull: False
      from cyc_diff_inner [of ?a ?c ?d ?b] nota False wf_normalI [OF wf(1) notfull ne(1)]
      have "rset r - rset x = (if ?b \<in> rset x then cyc ?a (?c - 1) else cyc ?a (?c - 1) \<union> cyc (?d + 1) ?b)"
        "?b \<notin> rset x \<Longrightarrow> cyc ?a (?c - 1) \<inter> cyc (?d + 1) ?b = {}"
        unfolding rs by blast+
      then show ?thesis
        using sub nota notfull by (auto simp: rset_make_range nid_val_walk)
    qed
  qed
qed

lemma adjacent_iff:
  "is_succ_adjacent r s \<longleftrightarrow> is_normal r \<and> is_normal s \<and> nid_val (range_end r) + 1 = nid_val (range_begin s)"
  "is_pred_adjacent r s \<longleftrightarrow> is_normal r \<and> is_normal s \<and> nid_val (range_end s) + 1 = nid_val (range_begin r)"
  by (auto simp: is_succ_adjacent_def is_pred_adjacent_def succ_dist_eq_one)

subsection \<open>Subtracting a list of ranges\<close>

definition apart :: "node_id_range \<Rightarrow> node_id_range \<Rightarrow> bool" where
  "apart r s \<longleftrightarrow> rset r \<inter> rset s = {}"

definition rsets :: "node_id_range list \<Rightarrow> u128 set" where
  "rsets rs = (\<Union>r\<in>set rs. rset r)"

definition pieces_ok :: "node_id_range list \<Rightarrow> bool" where
  "pieces_ok rs \<longleftrightarrow> (\<forall>r\<in>set rs. range_wf r) \<and> sorted_wrt apart rs"

lemma rsets_simps [simp]:
  "rsets [] = {}" "rsets (r # rs) = rset r \<union> rsets rs" "rsets (rs @ ss) = rsets rs \<union> rsets ss"
  by (auto simp: rsets_def)

lemma apart_rsets: "(\<forall>r\<in>set rs. apart a r) \<longleftrightarrow> rset a \<inter> rsets rs = {}"
  by (auto simp: apart_def rsets_def)

lemma pieces_ok_simps [simp]:
  "pieces_ok []"
  "pieces_ok (r # rs) \<longleftrightarrow> range_wf r \<and> rset r \<inter> rsets rs = {} \<and> pieces_ok rs"
  "pieces_ok (rs @ ss) \<longleftrightarrow> pieces_ok rs \<and> pieces_ok ss \<and> rsets rs \<inter> rsets ss = {}"
  by (auto simp: pieces_ok_def apart_rsets [symmetric] sorted_wrt_append apart_def rsets_def)

lemma opt_piece [simp]:
  "rsets (if is_empty f then [] else [f]) = rset f"
  "pieces_ok (if is_empty f then [] else [f]) \<longleftrightarrow> range_wf f"
  by (auto simp: range_empty_iff)

lemma subtract_step_pieces:
  assumes ok: "pieces_ok (ps @ r # qs)" and wf: "range_wf x"
    and sub: "range_subtract r x = Some (f, s)"
  shows "pieces_ok (ps @ (if is_empty f then [] else [f]) @ qs @ (if is_empty s then [] else [s]))"
    and "rsets ((if is_empty f then [] else [f]) @ qs @ (if is_empty s then [] else [s])) =
      (rset r - rset x) \<union> rsets qs"
proof -
  have "range_wf r" using ok by simp
  from range_subtract_rset [OF this wf] sub
  have fs: "range_wf f" "range_wf s" "rset f \<union> rset s = rset r - rset x" "rset f \<inter> rset s = {}"
    by auto
  from fs(3) show "rsets ((if is_empty f then [] else [f]) @ qs @ (if is_empty s then [] else [s])) =
      (rset r - rset x) \<union> rsets qs"
    unfolding rsets_simps opt_piece by blast
  have "rset f \<subseteq> rset r" "rset s \<subseteq> rset r" using fs(3) by blast+
  with ok fs show "pieces_ok (ps @ (if is_empty f then [] else [f]) @ qs @ (if is_empty s then [] else [s]))"
    unfolding rsets_simps pieces_ok_simps opt_piece by blast
qed

lemma apart_ids: "apart = (\<lambda>p q. range_ids p \<inter> range_ids q = {})"
  by (intro ext) (simp add: apart_def range_ids_simps)

lemma ids_rsets: "(\<Union>p\<in>set rs. range_ids p) = nid_val -` rsets rs"
  by (auto simp: range_ids_rset rsets_def)

lemma subtract_pass_correct:
  assumes "range_wf x" "n \<le> length rs" "pieces_ok rs"
  shows "\<exists>rs'. subtract_pass x n rs = Some rs' \<and> pieces_ok rs' \<and>
    rsets rs' = (rsets (take n rs) - rset x) \<union> rsets (drop n rs)"
  using assms(2,3)
proof (induction n arbitrary: rs)
  case 0
  then show ?case by simp
next
  case (Suc i)
  let ?ps = "take i rs" and ?r = "rs ! i" and ?qs = "drop (Suc i) rs"
  have split: "rs = ?ps @ ?r # ?qs" using Suc.prems(1) by (simp add: id_take_nth_drop)
  then have ok: "pieces_ok (?ps @ ?r # ?qs)" using Suc.prems(2) by simp
  then have "range_wf ?r" by simp
  with range_subtract_rset [OF _ assms(1)] obtain f s where sub: "range_subtract ?r x = Some (f, s)"
    and fe: "f = empty_range \<longrightarrow> s = empty_range" by blast
  define t where "t = ?ps @ (if is_empty f then [] else [f]) @ ?qs @ (if is_empty s then [] else [s])"
  have tok: "pieces_ok t" unfolding t_def by (rule subtract_step_pieces(1) [OF ok assms(1) sub])
  have len: "i \<le> length t" using Suc.prems(1) by (simp add: t_def)
  have step: "subtract_pass x (Suc i) rs = subtract_pass x i t"
    using sub fe Suc.prems(1)
    by (auto simp: t_def Let_def range_empty_iff upd_conv_take_nth_drop)
  have take: "take i t = ?ps" "drop i t = (if is_empty f then [] else [f]) @ ?qs @ (if is_empty s then [] else [s])"
    using Suc.prems(1) by (simp_all add: t_def)
  from Suc.IH [OF len tok] obtain rs' where rs': "subtract_pass x i t = Some rs'" "pieces_ok rs'"
    "rsets rs' = (rsets ?ps - rset x) \<union> ((rset ?r - rset x) \<union> rsets ?qs)"
    using subtract_step_pieces(2) [OF ok assms(1) sub] take by auto
  moreover have "take (Suc i) rs = ?ps @ [?r]" using Suc.prems(1) by (simp add: take_Suc_conv_app_nth)
  ultimately show ?case using step by auto
qed

lemma subtract_all_correct:
  assumes "\<forall>x\<in>set xs. range_wf x" "pieces_ok rs"
  shows "\<exists>rs'. subtract_all xs rs = Some rs' \<and> pieces_ok rs' \<and> rsets rs' = rsets rs - rsets xs"
  using assms
proof (induction xs arbitrary: rs)
  case Nil
  then show ?case by simp
next
  case (Cons x xs)
  then obtain rs1 where rs1: "subtract_pass x (length rs) rs = Some rs1" "pieces_ok rs1" "rsets rs1 = rsets rs - rset x"
    using subtract_pass_correct [of x "length rs" rs] by auto
  with Cons.IH [of rs1] Cons.prems(1) show ?case by auto
qed

subsection \<open>Properties\<close>

text \<open>C39: \<open>Contains\<close>, \<open>Disjoint\<close>, \<open>Merge\<close> on well-formed ranges never fail an assertion other than
  their own documented ones and are inclusion, disjointness and union of the sets of ids:
  \<open>Contains\<close> of a non-empty range decides inclusion, \<open>Disjoint\<close> of two non-empty ranges decides
  disjointness, \<open>Merge\<close> of overlapping ranges is their union, and \<open>Merge\<close> of two non-empty disjoint
  ranges stops the process.\<close>

theorem range_algebra_correct:
  assumes "range_wf r" "range_wf s" "r \<noteq> empty_range" "s \<noteq> empty_range"
  shows "contains_range r s = Some (range_ids s \<subseteq> range_ids r) \<and>
    range_disjoint r s = Some (range_ids r \<inter> range_ids s = {}) \<and>
    (if range_ids r \<inter> range_ids s = {} then range_merge r s = None
     else \<exists>m. range_merge r s = Some m \<and> range_wf m \<and> range_ids m = range_ids r \<union> range_ids s)"
proof -
  have "\<exists>m. range_merge r s = Some m \<and> range_wf m \<and> range_ids m = range_ids r \<union> range_ids s"
    if "rset r \<inter> rset s \<noteq> {}"
    using range_merge_overlap [OF assms that] by (auto simp: range_ids_rset)
  then show ?thesis
    using assms by (auto simp: contains_range_iff disjoint_iff_rset range_ids_simps range_merge_disjoint)
qed

text \<open>\<open>Subtract\<close> on well-formed ranges never stops the process, and its two results are disjoint
  well-formed ranges that together hold exactly the ids of the range that are not excluded.\<close>

theorem range_subtract_correct:
  assumes "range_wf r" "range_wf x"
  shows "\<exists>f s. range_subtract r x = Some (f, s) \<and> range_wf f \<and> range_wf s \<and>
    range_ids f \<union> range_ids s = range_ids r - range_ids x \<and> range_ids f \<inter> range_ids s = {}"
proof -
  from range_subtract_rset [OF assms] obtain f s where
    "range_subtract r x = Some (f, s)" "range_wf f" "range_wf s"
    "rset f \<union> rset s = rset r - rset x" "rset f \<inter> rset s = {}" by blast
  then show ?thesis by (auto simp: range_ids_rset)
qed

text \<open>C40: \<open>Subtract\<close> of a list of ranges never stops the process; what it returns are well-formed,
  pairwise disjoint pieces whose union is the range without every excluded id, although the pieces
  list grows and shrinks under the loop that walks it.\<close>

theorem range_subtract_list_correct:
  assumes "range_wf r" "\<forall>x\<in>set xs. range_wf x"
  shows "\<exists>rs. range_subtract_list r xs = Some rs \<and> (\<forall>p\<in>set rs. range_wf p) \<and>
    sorted_wrt (\<lambda>p q. range_ids p \<inter> range_ids q = {}) rs \<and>
    (\<Union>p\<in>set rs. range_ids p) = range_ids r - (\<Union>x\<in>set xs. range_ids x)"
proof -
  have "pieces_ok [r]" using assms(1) by simp
  from subtract_all_correct [OF assms(2) this] obtain rs where
    "range_subtract_list r xs = Some rs" "pieces_ok rs" "rsets rs = rset r - rsets xs"
    by (auto simp: range_subtract_list_def)
  then show ?thesis
    unfolding pieces_ok_def apart_ids ids_rsets by (auto simp: range_ids_rset)
qed

subsection \<open>The properties at concrete inputs\<close>

theorem range_algebra_correct_witness:
  "range_disjoint (NodeIdRange (NodeId (LargeInteger 0 10)) (NodeId (LargeInteger 0 20)))
      (NodeIdRange (NodeId (LargeInteger 0 15)) (NodeId (LargeInteger 0 30)))
    = Some (range_ids (NodeIdRange (NodeId (LargeInteger 0 10)) (NodeId (LargeInteger 0 20))) \<inter>
        range_ids (NodeIdRange (NodeId (LargeInteger 0 15)) (NodeId (LargeInteger 0 30))) = {})"
  using range_algebra_correct [of "NodeIdRange (NodeId (LargeInteger 0 10)) (NodeId (LargeInteger 0 20))"
      "NodeIdRange (NodeId (LargeInteger 0 15)) (NodeId (LargeInteger 0 30))"]
  by (simp add: range_wf_def is_normal_def empty_range_def min_node_id_def li_zero_def succ_dist_def
      li_sub_def li_one_def nid_minus_def li_max_value_def)

theorem range_subtract_correct_witness:
  "\<exists>f s. range_subtract full_range (NodeIdRange (NodeId (LargeInteger 0 15)) (NodeId (LargeInteger 0 30))) = Some (f, s) \<and>
    range_wf f \<and> range_wf s \<and> range_ids f \<union> range_ids s
      = range_ids full_range - range_ids (NodeIdRange (NodeId (LargeInteger 0 15)) (NodeId (LargeInteger 0 30))) \<and>
    range_ids f \<inter> range_ids s = {}"
  by (rule range_subtract_correct) (simp_all add: range_wf_def is_normal_def succ_dist_def li_sub_def li_one_def)

theorem range_subtract_list_correct_witness:
  "\<exists>rs. range_subtract_list full_range [NodeIdRange (NodeId (LargeInteger 0 15)) (NodeId (LargeInteger 0 30)), empty_range] = Some rs \<and>
    sorted_wrt (\<lambda>p q. range_ids p \<inter> range_ids q = {}) rs \<and> (\<Union>p\<in>set rs. range_ids p) = range_ids full_range -
      (\<Union>x\<in>set [NodeIdRange (NodeId (LargeInteger 0 15)) (NodeId (LargeInteger 0 30)), empty_range]. range_ids x)"
  using range_subtract_list_correct [of full_range
      "[NodeIdRange (NodeId (LargeInteger 0 15)) (NodeId (LargeInteger 0 30)), empty_range]"]
  by (auto simp: range_wf_def is_normal_def succ_dist_def li_sub_def li_one_def)

end
