(* ===== verification/Range_Table.thy ===== *)
theory Range_Table
  imports Node_Id_Range
begin

section \<open>NodeIdRangeTable: which part of the ring has acknowledged\<close>

text \<open>
  src/Federation/NodeIdRangeTable.cpp: a broadcast or multicast is reliable once acknowledgements
  cover the whole ring. The table keeps the ranges not received yet; it starts with the full range
  and \<open>AddRange\<close> cuts a received range out of it, comparing ids as plain numbers. The invariant is
  that every stored range is linear (it does not wrap past the largest id) and not empty.
\<close>

record range_table =
  ranges_not_received :: "node_id_range list"

definition new_range_table :: range_table where
  "new_range_table = \<lparr>ranges_not_received = [full_range]\<rparr>"

fun cut_ranges :: "node_id \<Rightarrow> node_id \<Rightarrow> node_id_range list \<Rightarrow> node_id_range list" where
  "cut_ranges rangeStart rangeEnd [] = []"
| "cut_ranges rangeStart rangeEnd (rng # rngs) =
     (if id_value rangeEnd < id_value (range_begin rng) \<or> id_value rangeStart > id_value (range_end rng)
      then [rng]
      else
        (if id_value rangeStart > id_value (range_begin rng)
         then [make_range (range_begin rng) (nid_minus rangeStart li_one)] else []) @
        (if id_value rangeEnd < id_value (range_end rng)
         then [make_range (nid_plus rangeEnd li_one) (range_end rng)] else []))
     @ cut_ranges rangeStart rangeEnd rngs"

definition internal_add_range :: "node_id \<Rightarrow> node_id \<Rightarrow> range_table \<Rightarrow> range_table" where
  "internal_add_range rangeStart rangeEnd t =
     t\<lparr>ranges_not_received := cut_ranges rangeStart rangeEnd (ranges_not_received t)\<rparr>"

definition add_range :: "node_id_range \<Rightarrow> range_table \<Rightarrow> range_table" where
  "add_range rng t =
     (if rng = full_range then t\<lparr>ranges_not_received := []\<rparr>
      else if rng = empty_range then t
      else if id_value (range_begin rng) > id_value (range_end rng) then
        internal_add_range min_node_id (range_end rng)
          (internal_add_range (range_begin rng) max_node_id t)
      else internal_add_range (range_begin rng) (range_end rng) t)"

definition are_all_ranges_received :: "range_table \<Rightarrow> bool" where
  "are_all_ranges_received t \<longleftrightarrow> length (ranges_not_received t) = 0"

fun add_ranges :: "node_id_range list \<Rightarrow> range_table \<Rightarrow> range_table" where
  "add_ranges [] t = t"
| "add_ranges (r # rs) t = add_ranges rs (add_range r t)"

subsection \<open>The invariant and what it stands for\<close>

definition linear_range :: "node_id_range \<Rightarrow> bool" where
  "linear_range r \<longleftrightarrow> r \<noteq> empty_range \<and> nid_val (range_begin r) \<le> nid_val (range_end r)"

definition table_inv :: "range_table \<Rightarrow> bool" where
  "table_inv t \<longleftrightarrow> (\<forall>r\<in>set (ranges_not_received t). linear_range r)"

definition missing_ids :: "range_table \<Rightarrow> node_id set" where
  "missing_ids t = (\<Union>r\<in>set (ranges_not_received t). range_ids r)"

lemma id_value_less: "id_value a < id_value b \<longleftrightarrow> nid_val a < nid_val b"
  by (simp add: nid_val_def li_class_val)

lemma rset_linear: "linear_range r \<Longrightarrow> rset r = {nid_val (range_begin r)..nid_val (range_end r)}"
  by (simp add: linear_range_def rset_normal cyc_linear)

lemma linear_make_range:
  assumes "nid_val b \<le> nid_val e"
  shows "linear_range (make_range b e)" "rset (make_range b e) = {nid_val b..nid_val e}"
proof -
  show r: "rset (make_range b e) = {nid_val b..nid_val e}"
    using assms by (simp add: rset_make_range cyc_linear)
  show "linear_range (make_range b e)"
    using assms word_order.extremum [of "nid_val b"]
    by (auto simp: linear_range_def make_range_def)
      (metis make_range_def make_range_not_empty)
qed

lemma interval_apart: "e < x \<or> y < b \<Longrightarrow> b \<le> e \<Longrightarrow> {x..y} - {b..e} = {x..y}" for b e x y :: "'a::linorder"
  by auto

lemma interval_cut:
  fixes b e x y :: "'a::linorder"
  assumes "x \<le> e" "b \<le> y" "b \<le> e"
  shows "{x..y} - {b..e} = (if x < b then {x..<b} else {}) \<union> (if e < y then {e<..y} else {})"
  using assms by auto

lemma cut_ranges_correct:
  assumes "nid_val b \<le> nid_val e" "\<forall>r\<in>set rs. linear_range r"
  shows "(\<forall>r\<in>set (cut_ranges b e rs). linear_range r) \<and>
    (\<Union>r\<in>set (cut_ranges b e rs). rset r) = (\<Union>r\<in>set rs. rset r) - {nid_val b..nid_val e}"
  using assms(2)
proof (induction rs)
  case Nil
  then show ?case by simp
next
  case (Cons r rs)
  let ?x = "nid_val (range_begin r)" and ?y = "nid_val (range_end r)" and ?b = "nid_val b" and ?e = "nid_val e"
  define pieces where "pieces =
     (if ?e < ?x \<or> ?y < ?b then [r]
      else (if ?x < ?b then [make_range (range_begin r) (nid_minus b li_one)] else []) @
           (if ?e < ?y then [make_range (nid_plus e li_one) (range_end r)] else []))"
  have lin: "linear_range r" using Cons.prems by simp
  have left: "linear_range (make_range (range_begin r) (nid_minus b li_one))"
    "rset (make_range (range_begin r) (nid_minus b li_one)) = {?x..<?b}" if "?x < ?b"
    using that linear_make_range [of "range_begin r" "nid_minus b li_one"] less_eq_dec_iff [of _ ?b]
    by (auto simp: nid_val_walk)
  have right: "linear_range (make_range (nid_plus e li_one) (range_end r))"
    "rset (make_range (nid_plus e li_one) (range_end r)) = {?e<..?y}" if "?e < ?y"
    using that linear_make_range [of "nid_plus e li_one" "range_end r"] inc_less_eq_iff [of ?e]
    by (auto simp: nid_val_walk)
  have "(\<forall>p\<in>set pieces. linear_range p) \<and> (\<Union>p\<in>set pieces. rset p) = rset r - {?b..?e}"
  proof (cases "?e < ?x \<or> ?y < ?b")
    case True
    then have "{?x..?y} - {?b..?e} = {?x..?y}" using assms(1) by (rule interval_apart)
    with True lin show ?thesis by (simp add: pieces_def rset_linear)
  next
    case False
    then have "{?x..?y} - {?b..?e} = (if ?x < ?b then {?x..<?b} else {}) \<union> (if ?e < ?y then {?e<..?y} else {})"
      using assms(1) by (intro interval_cut) auto
    with False left right show ?thesis
      by (simp add: pieces_def rset_linear [OF lin])
  qed
  moreover have "cut_ranges b e (r # rs) = pieces @ cut_ranges b e rs"
    by (simp add: pieces_def id_value_less)
  ultimately show ?case using Cons by auto
qed

lemma internal_add_range_correct:
  assumes "nid_val b \<le> nid_val e" "table_inv t"
  shows "table_inv (internal_add_range b e t)"
    "missing_ids (internal_add_range b e t) = missing_ids t - nid_val -` {nid_val b..nid_val e}"
  using cut_ranges_correct [OF assms(1), of "ranges_not_received t"] assms(2)
  by (auto simp: table_inv_def missing_ids_def internal_add_range_def range_ids_rset simp flip: vimage_UN vimage_Diff)

lemma add_range_correct:
  assumes "range_wf r" "table_inv t"
  shows "table_inv (add_range r t) \<and> missing_ids (add_range r t) = missing_ids t - range_ids r"
proof (cases "r = full_range \<or> r = empty_range")
  case True
  then show ?thesis
    using assms by (auto simp: add_range_def table_inv_def missing_ids_def range_ids_simps)
next
  case False
  let ?b = "nid_val (range_begin r)" and ?e = "nid_val (range_end r)"
  show ?thesis
  proof (cases "?e < ?b")
    case True
    let ?t = "internal_add_range (range_begin r) max_node_id t"
    have "table_inv ?t" "missing_ids ?t = missing_ids t - nid_val -` {?b..- 1}"
      using internal_add_range_correct [of "range_begin r" max_node_id t] assms(2)
      by (auto simp: word_order.extremum)
    with internal_add_range_correct [of min_node_id "range_end r" ?t]
    show ?thesis
      using False True
      by (auto simp: add_range_def id_value_less range_ids_rset rset_def cyc_wrap word_order.extremum)
  next
    case linear: False
    then show ?thesis
      using False assms(2) internal_add_range_correct [of "range_begin r" "range_end r" t]
      by (auto simp: add_range_def id_value_less range_ids_rset rset_def cyc_linear)
  qed
qed

lemma new_range_table_inv: "table_inv new_range_table" "missing_ids new_range_table = UNIV"
  by (simp_all add: table_inv_def new_range_table_def missing_ids_def range_ids_simps linear_range_def
      word_order.extremum)

lemma add_ranges_correct:
  assumes "\<forall>r\<in>set rs. range_wf r" "table_inv t"
  shows "table_inv (add_ranges rs t) \<and> missing_ids (add_ranges rs t) = missing_ids t - (\<Union>r\<in>set rs. range_ids r)"
  using assms
proof (induction rs arbitrary: t)
  case Nil
  then show ?case by simp
next
  case (Cons r rs)
  with add_range_correct [of r t] Cons.IH [of "add_range r t"] show ?case by auto
qed

lemma all_received_iff: "table_inv t \<Longrightarrow> are_all_ranges_received t \<longleftrightarrow> missing_ids t = {}"
proof -
  assume inv: "table_inv t"
  have "range_ids r \<noteq> {}" if "r \<in> set (ranges_not_received t)" for r
    using inv that vimage_nid_val(2) [of "rset r" "{}"]
    by (auto simp: table_inv_def linear_range_def range_ids_rset)
  then show ?thesis
    by (auto simp: are_all_ranges_received_def missing_ids_def)
qed

text \<open>C37: after any sequence of received well-formed ranges, wrapping ones included, the table reports
  that all ranges were received exactly when the received ranges cover the whole ring.\<close>

theorem range_table_complete:
  assumes "\<forall>r\<in>set rs. range_wf r"
  shows "are_all_ranges_received (add_ranges rs new_range_table) \<longleftrightarrow> (\<Union>r\<in>set rs. range_ids r) = UNIV"
  using add_ranges_correct [OF assms new_range_table_inv(1)] new_range_table_inv(2)
  by (auto simp: all_received_iff)

subsection \<open>The properties at concrete inputs\<close>

theorem range_table_complete_witness:
  "are_all_ranges_received (add_ranges [full_range] new_range_table) \<longleftrightarrow> (\<Union>r\<in>set [full_range]. range_ids r) = UNIV"
  by (rule range_table_complete) (simp add: range_wf_def)

end
