(* ===== verification/Routing_Token.thy ===== *)
theory Routing_Token
  imports Node_Id_Range
begin

section \<open>RoutingToken: who answers for which ids\<close>

text \<open>
  src/Federation/RoutingToken.h and RoutingToken.cpp, FederationRoutingTokenHeader.h, and the token
  part of RoutingTable.cpp: splitting a token for a neighbour, releasing it before departing,
  accepting and rejecting incoming tokens, the recovery of a token from an echoed probe and the list
  of echoed probes that guards it. A node answers for the ids of its token only, so the ids of
  tokens held and tokens in flight have to stay disjoint: the locale \<open>token_space\<close> states what the
  operations owe for that, the interpretation proves it of the code's operations.
  The expiry time of a header only decides when a new probe is sent and is not modelled.
\<close>

record routing_token =
  rt_range :: node_id_range
  rt_version :: u64

record token_header =
  th_range :: node_id_range
  th_source_version :: u64
  th_target_version :: u64

subsection \<open>The operations of a token\<close>

definition RECOVERY_INCREMENT :: u64 where "RECOVERY_INCREMENT = 2 ^ 32"

definition empty_token :: routing_token where
  "empty_token = \<lparr>rt_range = empty_range, rt_version = 0\<rparr>"

definition no_header :: token_header where
  "no_header = \<lparr>th_range = empty_range, th_source_version = 0, th_target_version = 0\<rparr>"

definition make_header :: "node_id_range \<Rightarrow> u64 \<Rightarrow> u64 \<Rightarrow> token_header" where
  "make_header r sv tv = \<lparr>th_range = r, th_source_version = sv, th_target_version = tv\<rparr>"

definition header_is_empty :: "token_header \<Rightarrow> bool" where
  "header_is_empty h = is_empty (th_range h)"

definition header_token :: "token_header \<Rightarrow> routing_token" where
  "header_token h = \<lparr>rt_range = th_range h, rt_version = th_target_version h\<rparr>"

definition token_contains :: "routing_token \<Rightarrow> node_id \<Rightarrow> bool" where
  "token_contains t i = contains_id (rt_range t) i"

definition token_succ_adjacent :: "routing_token \<Rightarrow> routing_token \<Rightarrow> bool" where
  "token_succ_adjacent t u = is_succ_adjacent (rt_range t) (rt_range u)"

definition token_pred_adjacent :: "routing_token \<Rightarrow> routing_token \<Rightarrow> bool" where
  "token_pred_adjacent t u = is_pred_adjacent (rt_range t) (rt_range u)"

definition increment_recovery_version :: "routing_token \<Rightarrow> routing_token" where
  "increment_recovery_version t = t\<lparr>rt_version := rt_version t + RECOVERY_INCREMENT\<rparr>"

definition token_version_match :: "u64 \<Rightarrow> u64 \<Rightarrow> bool" where
  "token_version_match v w \<longleftrightarrow> (ucast v :: u32) = ucast w"

definition is_recovery_safe :: "routing_token \<Rightarrow> u64 \<Rightarrow> bool" where
  "is_recovery_safe t v = token_version_match (rt_version t) v"

definition is_merge_safe :: "routing_token \<Rightarrow> u64 \<Rightarrow> bool option" where
  "is_merge_safe t v = do {
     assert_if (rt_version t < v);
     (let diff = rt_version t - v in Some (diff < RECOVERY_INCREMENT))
   }"

definition token_set_empty :: "routing_token \<Rightarrow> routing_token" where
  "token_set_empty t = \<lparr>rt_range = empty_range, rt_version = rt_version t + 1\<rparr>"

definition token_update :: "node_id_range \<Rightarrow> bool \<Rightarrow> routing_token \<Rightarrow> routing_token" where
  "token_update r isRecovery t =
     (let t' = \<lparr>rt_range = r, rt_version = rt_version t + 1\<rparr>
      in if isRecovery then increment_recovery_version t' else t')"

definition token_accept :: "routing_token \<Rightarrow> routing_token \<Rightarrow> node_id \<Rightarrow> (bool \<times> routing_token) option" where
  "token_accept t received ownerId = do {
     safe \<leftarrow> is_merge_safe t (rt_version received);
     Some
       (if \<not> safe then (False, t)
        else if is_empty (rt_range t) then
          (if \<not> token_contains received ownerId then (False, t)
           else (True, token_update (rt_range received) False t))
        else if token_succ_adjacent t received \<and> token_pred_adjacent t received then
          (True, token_update full_range False t)
        else if token_succ_adjacent t received \<and> \<not> token_contains t (range_end (rt_range received)) then
          (True, token_update (make_range (range_begin (rt_range t)) (range_end (rt_range received))) False t)
        else if token_pred_adjacent t received \<and> \<not> token_contains t (range_begin (rt_range received)) then
          (True, token_update (make_range (range_begin (rt_range received)) (range_end (rt_range t))) False t)
        else (False, t))
   }"

definition split_full_token :: "node_id \<Rightarrow> u64 \<Rightarrow> node_id \<Rightarrow> routing_token \<Rightarrow> token_header \<times> routing_token" where
  "split_full_token neighborId targetVersion ownerId t =
     (let succMid = get_succ_mid_point ownerId neighborId;
          predMid = get_pred_mid_point ownerId neighborId;
          t' = token_update (make_range predMid succMid) False t
      in (make_header (make_range (succ_walk succMid li_one) (pred_walk predMid li_one))
            (rt_version t') targetVersion, t'))"

definition split_succ_token :: "node_id \<Rightarrow> u64 \<Rightarrow> node_id \<Rightarrow> routing_token \<Rightarrow> token_header \<times> routing_token" where
  "split_succ_token succId targetVersion ownerId t =
     (if succId = ownerId then (no_header, t)
      else
        (let splitId = get_succ_mid_point ownerId succId;
             transferId = succ_walk splitId li_one
         in if succ_dist ownerId transferId > succ_dist ownerId (range_end (rt_range t))
            then (no_header, t)
            else
              (let oldEnd = range_end (rt_range t);
                   t' = token_update (make_range (range_begin (rt_range t)) splitId) False t
               in (make_header (make_range transferId oldEnd) (rt_version t') targetVersion, t'))))"

definition split_pred_token :: "node_id \<Rightarrow> u64 \<Rightarrow> node_id \<Rightarrow> routing_token \<Rightarrow> token_header \<times> routing_token" where
  "split_pred_token predId targetVersion ownerId t =
     (if predId = ownerId then (no_header, t)
      else
        (let splitId = get_pred_mid_point ownerId predId;
             transferId = pred_walk splitId li_one
         in if pred_dist ownerId transferId > pred_dist ownerId (range_begin (rt_range t))
            then (no_header, t)
            else
              (let oldStart = range_begin (rt_range t);
                   t' = token_update (make_range splitId (range_end (rt_range t))) False t
               in (make_header (make_range oldStart transferId) (rt_version t') targetVersion, t'))))"

definition release_succ_token :: "node_id \<Rightarrow> node_id \<Rightarrow> node_id \<Rightarrow> u64 \<Rightarrow> routing_token \<Rightarrow> token_header \<times> routing_token" where
  "release_succ_token predId ownerId succId succVersion t =
     (let dist = li_add (li_shr_pos 1 (succ_dist predId succId)) li_one;
          midPoint = succ_walk predId dist
      in if token_contains t midPoint then
           (let end = range_end (rt_range t);
                t' = (if range_begin (rt_range t) = midPoint then token_set_empty t
                      else token_update (make_range (range_begin (rt_range t)) (nid_minus midPoint li_one)) False t)
            in (make_header (make_range midPoint end) (rt_version t') succVersion, t'))
         else if succ_dist predId ownerId > dist then
           (make_header (rt_range t) (rt_version t) succVersion, token_set_empty t)
         else (no_header, t))"

definition release_pred_token :: "node_id \<Rightarrow> u64 \<Rightarrow> node_id \<Rightarrow> node_id \<Rightarrow> routing_token \<Rightarrow> token_header \<times> routing_token" where
  "release_pred_token predId predVersion ownerId succId t =
     (let dist = li_shr_pos 1 (li_add (pred_dist succId predId) li_one);
          midPoint = pred_walk succId dist
      in if token_contains t midPoint then
           (let start = range_begin (rt_range t);
                t' = (if range_end (rt_range t) = midPoint then token_set_empty t
                      else token_update (make_range (nid_plus midPoint li_one) (range_end (rt_range t))) False t)
            in (make_header (make_range start midPoint) (rt_version t') predVersion, t'))
         else if pred_dist succId ownerId > dist then
           (make_header (rt_range t) (rt_version t) predVersion, token_set_empty t)
         else (no_header, t))"

subsection \<open>The token part of the routing table\<close>

record echoed_probe =
  ep_version :: u64
  ep_distance :: large_integer

record token_site =
  ts_id :: node_id
  ts_token :: routing_token
  ts_succ_pending :: "token_header option"
  ts_pred_pending :: "token_header option"

record token_partner =
  tp_id :: node_id
  tp_token :: routing_token

text \<open>
  \<open>RoutingTable::Split\<close>. The headers pushed are returned in order. The code tests \<open>token.IsEmpty\<close>
  after the second and third split, the token it keeps, not the header it got.
\<close>

definition split_when_succ_adjacent :: "token_partner \<Rightarrow> u64 \<Rightarrow> token_site \<Rightarrow> token_header list \<times> token_site" where
  "split_when_succ_adjacent neighbor targetVersion site =
     (if token_succ_adjacent (ts_token site) (tp_token neighbor) then
        (let (h, t) = split_succ_token (tp_id neighbor) targetVersion (ts_id site) (ts_token site)
         in if \<not> is_empty (rt_range t)
            then ([h], site\<lparr>ts_token := t, ts_succ_pending := Some h\<rparr>)
            else ([], site\<lparr>ts_token := t\<rparr>))
      else ([], site))"

definition split_when_pred_adjacent :: "token_partner \<Rightarrow> u64 \<Rightarrow> token_site \<Rightarrow> token_header list \<times> token_site" where
  "split_when_pred_adjacent neighbor targetVersion site =
     (if token_pred_adjacent (ts_token site) (tp_token neighbor) then
        (let (h, t) = split_pred_token (tp_id neighbor) targetVersion (ts_id site) (ts_token site)
         in if \<not> is_empty (rt_range t)
            then ([h], site\<lparr>ts_token := t, ts_pred_pending := Some h\<rparr>)
            else ([], site\<lparr>ts_token := t\<rparr>))
      else ([], site))"

definition token_split :: "token_partner \<Rightarrow> u64 \<Rightarrow> token_site \<Rightarrow> (token_header list \<times> token_site) option" where
  "token_split neighbor targetVersion site =
     (let ownerId = ts_id site; token = ts_token site
      in if token_contains token (tp_id neighbor) then
           if is_full (rt_range token) then
             (let (h, t) = split_full_token (tp_id neighbor) targetVersion ownerId token
              in Some ([h], site\<lparr>ts_token := t, ts_succ_pending := Some h, ts_pred_pending := Some h\<rparr>))
           else
             (let succDist = succ_dist ownerId (tp_id neighbor);
                  succToken = succ_dist ownerId (range_end (rt_range token));
                  (h, site') =
                    (if succDist \<le> succToken then
                       (let (h, t) = split_succ_token (tp_id neighbor) targetVersion ownerId token
                        in (h, site\<lparr>ts_token := t, ts_succ_pending := Some h\<rparr>))
                     else
                       (let (h, t) = split_pred_token (tp_id neighbor) targetVersion ownerId token
                        in (h, site\<lparr>ts_token := t, ts_pred_pending := Some h\<rparr>)))
              in do {
                assert_if (is_empty (rt_range (ts_token site')));
                Some ([h], site')
              })
         else
           (let (hs1, site1) = split_when_succ_adjacent neighbor targetVersion site;
                (hs2, site2) = split_when_pred_adjacent neighbor targetVersion site1
            in Some (hs1 @ hs2, site2)))"

text \<open>
  \<open>TryReleaseToken\<close> for one partner, with the next and the previous node of the ring, and
  \<open>CreateDepartMessages\<close>: the routing nodes of the neighbourhood in turn, then what is left is dropped.
\<close>

definition try_release_token ::
  "token_partner \<Rightarrow> token_partner \<Rightarrow> node_id \<Rightarrow> token_site \<Rightarrow> token_header list \<times> token_site" where
  "try_release_token next prev partnerId site =
     (let (hs1, site1) =
            (if partnerId = tp_id next then
               (let (h, t) = release_succ_token (tp_id prev) (ts_id site) (tp_id next)
                               (rt_version (tp_token next)) (ts_token site)
                in (if header_is_empty h then [] else [h], site\<lparr>ts_token := t\<rparr>))
             else ([], site));
          (hs2, site2) =
            (if partnerId = tp_id prev then
               (let (h, t) = release_pred_token (tp_id prev) (rt_version (tp_token prev)) (ts_id site)
                               (tp_id next) (ts_token site1)
                in (if header_is_empty h then [] else [h], site1\<lparr>ts_token := t\<rparr>))
             else ([], site1))
      in (hs1 @ hs2, site2))"

fun release_all :: "token_partner \<Rightarrow> token_partner \<Rightarrow> node_id list \<Rightarrow> token_site \<Rightarrow> token_header list \<times> token_site" where
  "release_all next prev [] site = ([], site)"
| "release_all next prev (p # ps) site =
     (let (hs1, site1) = try_release_token next prev p site;
          (hs2, site2) = release_all next prev ps site1
      in (hs1 @ hs2, site2))"

definition create_depart_tokens ::
  "token_partner \<Rightarrow> token_partner \<Rightarrow> node_id list \<Rightarrow> token_site \<Rightarrow> token_header list \<times> token_site" where
  "create_depart_tokens next prev targets site =
     (let (hs, site') = release_all next prev targets site
      in (hs, if \<not> is_empty (rt_range (ts_token site'))
              then site'\<lparr>ts_token := token_set_empty (ts_token site')\<rparr> else site'))"

text \<open>
  The token loop of \<open>ProcessNeighborHeaders\<close>: at most two headers, accepted in turn when this node
  holds a token or its acquire deadline has not passed; those rejected go back to the sender, who
  gets them with its own source version as target (\<open>TokenTransferMessageHandler\<close>).
\<close>

fun accept_tokens :: "token_header list \<Rightarrow> token_site \<Rightarrow> (bool list \<times> token_site) option" where
  "accept_tokens [] site = Some ([], site)"
| "accept_tokens (h # hs) site = do {
     (a, t) \<leftarrow> token_accept (ts_token site) (header_token h) (ts_id site);
     (as, site') \<leftarrow> accept_tokens hs (site\<lparr>ts_token := t\<rparr>);
     Some (a # as, site')
   }"

definition process_tokens :: "bool \<Rightarrow> token_header list \<Rightarrow> token_site \<Rightarrow> (bool list \<times> token_site) option" where
  "process_tokens beforeDeadline hs site = do {
     assert_if (length hs > 2);
     if hs \<noteq> [] \<and> (\<not> is_empty (rt_range (ts_token site)) \<or> beforeDeadline)
     then accept_tokens hs site
     else Some (replicate (length hs) False, site)
   }"

definition rejected_tokens :: "token_header list \<Rightarrow> bool list \<Rightarrow> token_header list" where
  "rejected_tokens hs as = map fst (filter (\<lambda>(h, a). \<not> a) (zip hs as))"

definition reject_headers :: "token_header list \<Rightarrow> token_site \<Rightarrow> token_header list" where
  "reject_headers hs site =
     map (\<lambda>h. make_header (th_range h) (rt_version (ts_token site)) (th_source_version h)) hs"

text \<open>
  The recovery in \<open>TokenEchoMessageHandler\<close> at the origin of the probe, once \<open>CanRecover\<close> allowed
  it: the token is extended over the gap up to the echo's range, the part beyond the mid point is
  split off for the echo's origin, and the recovery version is incremented.
\<close>

definition recover_token ::
  "bool \<Rightarrow> bool \<Rightarrow> node_id \<Rightarrow> node_id_range \<Rightarrow> u64 \<Rightarrow> token_site \<Rightarrow> token_header list \<times> token_site" where
  "recover_token echoFromSelf isSuccDirection originId echoRange echoSourceVersion site =
     (let (recovered, hs, site') =
        (if echoFromSelf then
           (if \<not> is_full (rt_range (ts_token site))
            then (True, [], site\<lparr>ts_token := token_update full_range False (ts_token site)\<rparr>)
            else (False, [], site))
         else if isSuccDirection then
           (let newEnd = nid_minus (range_begin echoRange) li_one
            in if \<not> token_contains (ts_token site) newEnd then
                 (let t1 = token_update (make_range (range_begin (rt_range (ts_token site))) newEnd)
                             False (ts_token site);
                      (h, t2) = split_succ_token originId echoSourceVersion (ts_id site) t1
                  in if \<not> header_is_empty h
                     then (True, [h], site\<lparr>ts_token := t2, ts_succ_pending := Some h\<rparr>)
                     else (True, [], site\<lparr>ts_token := t2\<rparr>))
               else (False, [], site))
         else
           (let newBegin = nid_plus (range_end echoRange) li_one
            in if \<not> token_contains (ts_token site) newBegin then
                 (let t1 = token_update (make_range newBegin (range_end (rt_range (ts_token site))))
                             False (ts_token site);
                      (h, t2) = split_pred_token originId echoSourceVersion (ts_id site) t1
                  in if \<not> header_is_empty h
                     then (True, [h], site\<lparr>ts_token := t2, ts_pred_pending := Some h\<rparr>)
                     else (True, [], site\<lparr>ts_token := t2\<rparr>))
               else (False, [], site)))
      in (hs, if recovered
              then site'\<lparr>ts_token := increment_recovery_version (ts_token site')\<rparr> else site'))"

definition check_empty_neighborhood :: "bool \<Rightarrow> token_site \<Rightarrow> token_site" where
  "check_empty_neighborhood completeHoodRange site =
     (if completeHoodRange \<and> \<not> is_full (rt_range (ts_token site))
      then site\<lparr>ts_token := token_update full_range True (ts_token site)\<rparr> else site)"

subsection \<open>The list of echoed probes\<close>

definition probe_closer :: "echoed_probe \<Rightarrow> large_integer \<Rightarrow> bool" where
  "probe_closer e distance =
     (if ep_distance e = li_zero then False
      else if distance = li_zero then True
      else ep_distance e < distance)"



fun can_recover :: "u64 \<Rightarrow> large_integer \<Rightarrow> echoed_probe list \<Rightarrow> bool \<times> echoed_probe list" where
  "can_recover version dist [] = (True, [])"
| "can_recover version dist (echo # rest) =
     (if \<not> probe_closer echo dist then (True, echo # rest)
      else if ep_version echo > version then (False, echo # rest)
      else can_recover version dist rest)"

definition token_can_recover :: "u64 \<Rightarrow> node_id \<Rightarrow> bool \<Rightarrow> echoed_probe list \<Rightarrow> echoed_probe list
    \<Rightarrow> token_site \<Rightarrow> bool" where
  "token_can_recover version originId succDirection succEchos predEchos site =
     (let ok = (if succDirection then fst (can_recover version (succ_dist (ts_id site) originId) succEchos)
                else fst (can_recover version (pred_dist (ts_id site) originId) predEchos))
      in ok \<and> is_recovery_safe (ts_token site) version)"

subsection \<open>What a token and a header hold\<close>

definition token_ids :: "routing_token \<Rightarrow> node_id set" where
  "token_ids t = range_ids (rt_range t)"

definition header_ids :: "token_header \<Rightarrow> node_id set" where
  "header_ids h = range_ids (th_range h)"

text \<open>\<open>shares\<close>: what is kept and what is passed are disjoint and make up what there was.\<close>

definition shares :: "node_id_range \<Rightarrow> node_id_range \<Rightarrow> node_id_range \<Rightarrow> bool" where
  "shares old kept passed \<longleftrightarrow> rset kept \<inter> rset passed = {} \<and> rset kept \<union> rset passed = rset old"

lemma shares_empty [simp]: "shares r r empty_range" "shares r empty_range r"
  by (auto simp: shares_def)

lemma shares_ids: "shares old kept passed \<longleftrightarrow>
    range_ids kept \<inter> range_ids passed = {} \<and> range_ids kept \<union> range_ids passed = range_ids old"
  unfolding shares_def range_ids_rset
  by (metis (no_types, lifting) vimage_Int vimage_Un vimage_empty vimage_nid_val(2))

lemma token_simps [simp]:
  "rt_range (token_update r b t) = r"
  "rt_range (token_set_empty t) = empty_range"
  "th_range (make_header r v w) = r" "th_range no_header = empty_range"
  "rt_range (increment_recovery_version t) = rt_range t"
  by (simp_all add: token_update_def token_set_empty_def make_header_def no_header_def
      increment_recovery_version_def Let_def)

lemma half_not_max: "drop_bit 1 d \<noteq> - 1" for d :: u128
proof
  assume "drop_bit 1 d = - 1"
  then have "bit (drop_bit 1 d) 127 = bit (- 1 :: u128) 127" by simp
  then show False using bit_imp_le_length [of d 128] by (simp add: bit_simps)
qed

lemma half_succ: "drop_bit 1 d < drop_bit 1 d + 1" for d :: u128
  using half_not_max [of d] by (intro word_less_succ [where d = "- 1"]) (simp add: word_order.not_eq_extremum)

lemma id_value_walk: "li_val d = w \<Longrightarrow> succ_walk a d = nid_of (nid_val a + w)"
  "li_val d = w \<Longrightarrow> pred_walk a d = nid_of (nid_val a - w)"
  by (simp_all add: ring_simps flip: nid_val_inject)

lemma split_succ_cases:
  assumes "split_succ_token n v o' t = (h, t')"
  obtains (none) "h = no_header" "t' = t"
  | (cut) "drop_bit 1 (nid_val n - nid_val o') + 1 \<le> nid_val (range_end (rt_range t)) - nid_val o'"
      "th_range h = make_range (nid_of (nid_val o' + drop_bit 1 (nid_val n - nid_val o') + 1)) (range_end (rt_range t))"
      "rt_range t' = make_range (range_begin (rt_range t)) (nid_of (nid_val o' + drop_bit 1 (nid_val n - nid_val o')))"
proof -
  have mid: "get_succ_mid_point o' n = nid_of (nid_val o' + drop_bit 1 (nid_val n - nid_val o'))"
    unfolding get_succ_mid_point_def Let_def by (rule id_value_walk) (simp add: ring_simps)
  have tr: "succ_walk (get_succ_mid_point o' n) li_one = nid_of (nid_val o' + drop_bit 1 (nid_val n - nid_val o') + 1)"
    unfolding mid by (simp add: id_value_walk [where w = 1])
  have gt: "succ_dist o' (nid_of (nid_val o' + k + 1)) > succ_dist o' e \<longleftrightarrow> \<not> k + 1 \<le> nid_val e - nid_val o'" for k e
    by (simp add: ring_simps not_le algebra_simps)
  note eq = assms [unfolded split_succ_token_def Let_def tr, unfolded mid gt]
  show thesis
  proof (cases "n = o' \<or> \<not> drop_bit 1 (nid_val n - nid_val o') + 1 \<le> nid_val (range_end (rt_range t)) - nid_val o'")
    case True
    then have "(no_header, t) = (h, t')" using eq by (simp only: if_True if_False not_False_eq_True cong: if_cong split: if_split_asm) blast+
    then show thesis using none by simp
  next
    case False
    then have "n \<noteq> o'" and c: "drop_bit 1 (nid_val n - nid_val o') + 1 \<le> nid_val (range_end (rt_range t)) - nid_val o'"
      by blast+
    show thesis
      by (rule cut [OF c]) (use eq c \<open>n \<noteq> o'\<close> in auto)
  qed
qed

lemma split_succ_shares:
  assumes own: "token_contains t o'" and split: "split_succ_token n v o' t = (h, t')"
  shows "shares (rt_range t) (rt_range t') (th_range h)" "token_contains t' o'"
    "range_wf (rt_range t) \<Longrightarrow> range_wf (rt_range t')" "range_wf (th_range h)"
proof -
  let ?a = "nid_val (range_begin (rt_range t))" and ?d = "nid_val (range_end (rt_range t))"
  let ?o = "nid_val o'" and ?k = "drop_bit 1 (nid_val n - nid_val o')"
  have ne: "rt_range t \<noteq> empty_range" and mem: "?o \<in> cyc ?a ?d"
    using own by (auto simp: token_contains_def contains_id_iff rset_def split: if_splits)
  from split have "shares (rt_range t) (rt_range t') (th_range h) \<and> token_contains t' o' \<and>
    (range_wf (rt_range t) \<longrightarrow> range_wf (rt_range t')) \<and> range_wf (th_range h)"
  proof (cases rule: split_succ_cases)
    case none
    then show ?thesis using own by simp
  next
    case cut
    show ?thesis
      using cyc_split_after [OF mem cut(1) half_succ] ne cut(2,3)
      by (auto simp: shares_def rset_make_range token_contains_def contains_id_iff rset_normal [OF ne])
  qed
  then show "shares (rt_range t) (rt_range t') (th_range h)" "token_contains t' o'"
    "range_wf (rt_range t) \<Longrightarrow> range_wf (rt_range t')" "range_wf (th_range h)"
    by blast+
qed

lemma split_pred_cases:
  assumes "split_pred_token n v o' t = (h, t')"
  obtains (none) "h = no_header" "t' = t"
  | (cut) "drop_bit 1 (nid_val o' - nid_val n - 1) + 1 \<le> nid_val o' - nid_val (range_begin (rt_range t))"
      "th_range h = make_range (range_begin (rt_range t)) (nid_of (nid_val o' - drop_bit 1 (nid_val o' - nid_val n - 1) - 1))"
      "rt_range t' = make_range (nid_of (nid_val o' - drop_bit 1 (nid_val o' - nid_val n - 1))) (range_end (rt_range t))"
proof -
  let ?k = "drop_bit 1 (nid_val o' - nid_val n - 1)"
  have mid: "get_pred_mid_point o' n = nid_of (nid_val o' - ?k)"
    unfolding get_pred_mid_point_def Let_def by (rule id_value_walk) (simp add: ring_simps)
  have tr: "pred_walk (get_pred_mid_point o' n) li_one = nid_of (nid_val o' - ?k - 1)"
    unfolding mid by (simp add: id_value_walk [where w = 1])
  have gt: "pred_dist o' (nid_of (nid_val o' - k - 1)) > pred_dist o' e \<longleftrightarrow> \<not> k + 1 \<le> nid_val o' - nid_val e" for k e
    by (simp add: ring_simps not_le algebra_simps)
  note eq = assms [unfolded split_pred_token_def Let_def tr, unfolded mid gt]
  show thesis
  proof (cases "n = o' \<or> \<not> ?k + 1 \<le> nid_val o' - nid_val (range_begin (rt_range t))")
    case True
    then have "(no_header, t) = (h, t')" using eq by (simp only: if_True if_False not_False_eq_True cong: if_cong split: if_split_asm) blast+
    then show thesis using none by simp
  next
    case False
    then have "n \<noteq> o'" and c: "?k + 1 \<le> nid_val o' - nid_val (range_begin (rt_range t))" by blast+
    show thesis
      by (rule cut [OF c]) (use eq c \<open>n \<noteq> o'\<close> in auto)
  qed
qed

lemma split_pred_shares:
  assumes own: "token_contains t o'" and split: "split_pred_token n v o' t = (h, t')"
  shows "shares (rt_range t) (rt_range t') (th_range h)" "token_contains t' o'"
    "range_wf (rt_range t) \<Longrightarrow> range_wf (rt_range t')" "range_wf (th_range h)"
proof -
  have ne: "rt_range t \<noteq> empty_range"
    and mem: "nid_val o' \<in> cyc (nid_val (range_begin (rt_range t))) (nid_val (range_end (rt_range t)))"
    using own by (auto simp: token_contains_def contains_id_iff rset_def split: if_splits)
  from split have "shares (rt_range t) (rt_range t') (th_range h) \<and> token_contains t' o' \<and>
    (range_wf (rt_range t) \<longrightarrow> range_wf (rt_range t')) \<and> range_wf (th_range h)"
  proof (cases rule: split_pred_cases)
    case none
    then show ?thesis using own by simp
  next
    case cut
    show ?thesis
      using cyc_split_before [OF mem cut(1) half_succ] ne cut(2,3)
      by (auto simp: shares_def rset_make_range token_contains_def contains_id_iff rset_normal [OF ne])
  qed
  then show "shares (rt_range t) (rt_range t') (th_range h)" "token_contains t' o'"
    "range_wf (rt_range t) \<Longrightarrow> range_wf (rt_range t')" "range_wf (th_range h)"
    by blast+
qed

lemma halves_not_all: "drop_bit 1 c + drop_bit 1 d + 1 \<noteq> 0" for c d :: u128
proof
  assume "drop_bit 1 c + drop_bit 1 d + 1 = 0"
  then have "drop_bit 1 d = NOT (drop_bit 1 c)"
    unfolding not_eq_complement by (simp add: eq_diff_eq algebra_simps eq_neg_iff_add_eq_0)
  then have "bit (drop_bit 1 d) 127 = bit (NOT (drop_bit 1 c)) 127" by simp
  then show False
    using bit_imp_le_length [of d 128] bit_imp_le_length [of c 128] by (auto simp: bit_simps)
qed

lemma half_add_le: "drop_bit 1 d \<le> drop_bit 1 c + drop_bit 1 d" for c d :: u128
proof -
  have "unat (drop_bit 1 x) < 2 ^ 127" for x :: u128
  proof -
    have "unat (drop_bit 1 x) = unat x div 2"
      unfolding unat_drop_bit_eq by (simp add: drop_bit_eq_div)
    moreover have "unat x < 2 ^ 127 * 2" using unat_less_exp [of x] by simp
    ultimately show ?thesis by (simp only: less_mult_imp_div_less)
  qed
  from this [of c] this [of d] show ?thesis
    by (simp add: word_le_nat_alt unat_word_ariths)
qed

lemma split_full_shares:
  assumes full: "rt_range t = full_range" and split: "split_full_token n v o' t = (h, t')"
  shows "shares (rt_range t) (rt_range t') (th_range h)" "token_contains t' o'"
    "range_wf (rt_range t')" "range_wf (th_range h)"
proof -
  let ?o = "nid_val o'"
  let ?k = "drop_bit 1 (nid_val n - ?o)" and ?j = "drop_bit 1 (?o - nid_val n - 1)"
  have mids: "get_succ_mid_point o' n = nid_of (?o + ?k)" "get_pred_mid_point o' n = nid_of (?o - ?j)"
    unfolding get_succ_mid_point_def get_pred_mid_point_def Let_def
    by (rule id_value_walk, simp add: ring_simps)+
  have eq: "rt_range t' = make_range (nid_of (?o - ?j)) (nid_of (?o + ?k))"
    "th_range h = make_range (nid_of (?o + ?k + 1)) (nid_of (?o - ?j - 1))"
    using split by (auto simp: split_full_token_def Let_def mids id_value_walk [where w = 1])
  have cancel: "(x + k + 1) - (x - j) = k + j + 1" for x k j :: u128 by simp
  have "?o + ?k + 1 \<noteq> ?o - ?j"
    using halves_not_all cancel by (metis right_minus_eq)
  from cyc_complement [OF this] show "shares (rt_range t) (rt_range t') (th_range h)"
    by (auto simp: shares_def full eq rset_make_range)
  have "?o \<in> cyc (?o - ?j) (?o + ?k)"
    using half_add_le [of "?o - nid_val n - 1" "nid_val n - ?o"] by (simp add: mem_cyc algebra_simps)
  then show "token_contains t' o'"
    by (simp add: token_contains_def contains_id_iff eq rset_make_range)
  show "range_wf (rt_range t')" "range_wf (th_range h)" by (simp_all add: eq)
qed

lemma cyc_split_at:
  fixes a d m :: "'a::len word"
  assumes m: "m \<in> cyc a d" "m \<noteq> a"
  shows "cyc a d = cyc a (m - 1) \<union> cyc m d" "cyc a (m - 1) \<inter> cyc m d = {}"
proof -
  have "m - a \<noteq> 0" using m(2) by simp
  from word_pred_less [OF this] have lt: "m - 1 - a < m - a" by (simp add: algebra_simps)
  have le: "m - a \<le> d - a" using m(1) by (simp add: mem_cyc)
  have "m - 1 \<in> cyc a d" using lt le by (simp add: mem_cyc)
  moreover have "m - 1 \<noteq> d" using lt le by auto
  ultimately show "cyc a d = cyc a (m - 1) \<union> cyc m d" "cyc a (m - 1) \<inter> cyc m d = {}"
    using cyc_split [of "m - 1" a d] by simp_all
qed

lemma token_contains_cyc: "token_contains t i \<Longrightarrow> rt_range t \<noteq> empty_range \<and>
    nid_val i \<in> cyc (nid_val (range_begin (rt_range t))) (nid_val (range_end (rt_range t)))"
  by (auto simp: token_contains_def contains_id_iff rset_def split: if_splits)

lemma shares_cut:
  assumes "token_contains t m"
  shows "m \<noteq> range_begin (rt_range t) \<Longrightarrow>
      shares (rt_range t) (make_range (range_begin (rt_range t)) (nid_minus m li_one)) (make_range m (range_end (rt_range t)))"
    "m \<noteq> range_end (rt_range t) \<Longrightarrow>
      shares (rt_range t) (make_range (nid_plus m li_one) (range_end (rt_range t))) (make_range (range_begin (rt_range t)) m)"
    "shares (rt_range t) empty_range (make_range (range_begin (rt_range t)) (range_end (rt_range t)))"
  using conjunct1 [OF token_contains_cyc [OF assms]]
    cyc_split_at [OF conjunct2 [OF token_contains_cyc [OF assms]]]
    cyc_split [OF conjunct2 [OF token_contains_cyc [OF assms]]]
  by (simp_all add: shares_def rset_make_range rset_normal nid_val_inject nid_val_walk Int_commute Un_commute)

lemma release_shares:
  "release_succ_token p o' s v t = (h, t') \<Longrightarrow> shares (rt_range t) (rt_range t') (th_range h)"
  "release_pred_token p v o' s t = (h, t') \<Longrightarrow> shares (rt_range t) (rt_range t') (th_range h)"
  using shares_cut [of t "succ_walk p (li_add (li_shr_pos 1 (succ_dist p s)) li_one)"]
    shares_cut [of t "pred_walk s (li_shr_pos 1 (li_add (pred_dist s p) li_one))"]
  by (auto simp: release_succ_token_def release_pred_token_def Let_def split: if_splits)

lemma release_wf:
  "release_succ_token p o' s v t = (h, t') \<Longrightarrow> range_wf (rt_range t) \<Longrightarrow> range_wf (rt_range t') \<and> range_wf (th_range h)"
  "release_pred_token p v o' s t = (h, t') \<Longrightarrow> range_wf (rt_range t) \<Longrightarrow> range_wf (rt_range t') \<and> range_wf (th_range h)"
  by (auto simp: release_succ_token_def release_pred_token_def Let_def split: if_splits)

subsection \<open>Accepting\<close>

lemma token_accept_cases:
  assumes acc: "token_accept t received o' = Some (b, t')"
    and wf: "range_wf (rt_range t)" "range_wf (rt_range received)"
  shows "\<not> b \<Longrightarrow> t' = t"
    and "b \<Longrightarrow> shares (rt_range t') (rt_range t) (rt_range received)"
    and "b \<Longrightarrow> range_wf (rt_range t')"
    and "b \<Longrightarrow> (rt_range t \<noteq> empty_range \<longrightarrow> token_contains t o') \<Longrightarrow> token_contains t' o'"
proof -
  let ?a = "nid_val (range_begin (rt_range t))" and ?b = "nid_val (range_end (rt_range t))"
  let ?c = "nid_val (range_begin (rt_range received))" and ?d = "nid_val (range_end (rt_range received))"
  let ?r = "rt_range t" and ?s = "rt_range received"
  have normal: "rset x = cyc (nid_val (range_begin x)) (nid_val (range_end x))"
    "nid_val (range_end x) + 1 \<noteq> nid_val (range_begin x)" if "is_normal x" for x
    using that normal_not_special [OF that] by (auto simp: normal_iff rset_normal)
  have both: "cyc ?a ?b \<inter> cyc ?c ?d = {} \<and> cyc ?a ?b \<union> cyc ?c ?d = UNIV"
    if "token_succ_adjacent t received" "token_pred_adjacent t received"
  proof -
    have "?c = ?b + 1" "?d = ?a - 1" "?b + 1 \<noteq> ?a"
      using that by (auto simp: token_succ_adjacent_def token_pred_adjacent_def adjacent_iff normal_iff
          simp flip: eq_diff_eq)
    with cyc_complement [of ?b ?a] show ?thesis by simp
  qed
  have succ_join: "cyc ?a ?b \<inter> cyc ?c ?d = {} \<and> cyc ?a ?b \<union> cyc ?c ?d = cyc ?a ?d"
    if "token_succ_adjacent t received" "\<not> token_contains t (range_end ?s)"
  proof -
    have "?c = ?b + 1" "?b + 1 \<noteq> ?a" "?d \<notin> cyc ?a ?b"
      using that normal [of ?r] by (auto simp: token_succ_adjacent_def adjacent_iff normal_iff
          token_contains_def contains_id_iff)
    with cyc_join [of ?b ?a ?d] show ?thesis by simp
  qed
  have pred_join: "cyc ?a ?b \<inter> cyc ?c ?d = {} \<and> cyc ?a ?b \<union> cyc ?c ?d = cyc ?c ?b"
    if "token_pred_adjacent t received" "\<not> token_contains t (range_begin ?s)"
  proof -
    have e: "?d = ?a - 1" "?c \<notin> cyc ?a ?b" "?b + 1 \<noteq> ?a"
      using that normal [of ?r] by (auto simp: token_pred_adjacent_def adjacent_iff normal_iff
          token_contains_def contains_id_iff simp flip: eq_diff_eq)
    show ?thesis using cyc_join_pred [OF e(3,2)] unfolding e(1) by blast
  qed
  note adj = token_succ_adjacent_def token_pred_adjacent_def adjacent_iff
  have "(\<not> b \<longrightarrow> t' = t) \<and> (b \<longrightarrow> shares (rt_range t') ?r ?s \<and> range_wf (rt_range t') \<and>
      ((?r \<noteq> empty_range \<longrightarrow> token_contains t o') \<longrightarrow> token_contains t' o'))"
  proof (cases "b")
    case False
    then show ?thesis using acc by (auto simp: token_accept_def bind_Some_iff split: if_splits)
  next
    case True
    with acc consider
      (first) "?r = empty_range" "token_contains received o'" "rt_range t' = ?s"
    | (all) "token_succ_adjacent t received" "token_pred_adjacent t received" "rt_range t' = full_range"
    | (succ) "token_succ_adjacent t received" "\<not> token_contains t (range_end ?s)"
        "rt_range t' = make_range (range_begin ?r) (range_end ?s)"
    | (pred) "token_pred_adjacent t received" "\<not> token_contains t (range_begin ?s)"
        "rt_range t' = make_range (range_begin ?s) (range_end ?r)"
      by (auto simp: token_accept_def bind_Some_iff range_empty_iff split: if_splits)
    then have "shares (rt_range t') ?r ?s \<and> range_wf (rt_range t') \<and>
      (?r = empty_range \<longrightarrow> token_contains t' o')"
    proof cases
      case first
      then show ?thesis using wf by (simp add: token_contains_def)
    next
      case all
      then show ?thesis using both normal [of ?r] normal [of ?s] by (auto simp: shares_def adj normal_not_special)
    next
      case succ
      then show ?thesis using succ_join normal [of ?r] normal [of ?s]
        by (auto simp: shares_def adj normal_not_special rset_make_range)
    next
      case pred
      then show ?thesis using pred_join normal [of ?r] normal [of ?s]
        by (auto simp: shares_def adj normal_not_special rset_make_range)
    qed
    then show ?thesis using True
      by (auto simp: shares_def token_contains_def contains_id_iff)
  qed
  then show "\<not> b \<Longrightarrow> t' = t"
    and "b \<Longrightarrow> shares (rt_range t') (rt_range t) (rt_range received)"
    and "b \<Longrightarrow> range_wf (rt_range t')"
    and "b \<Longrightarrow> (rt_range t \<noteq> empty_range \<longrightarrow> token_contains t o') \<Longrightarrow> token_contains t' o'"
    using acc by (auto simp: token_accept_def bind_Some_iff)
qed

subsection \<open>The interface of exclusive ownership\<close>

fun parts_disjoint :: "'a set list \<Rightarrow> bool" where
  "parts_disjoint [] = True"
| "parts_disjoint (A # As) = (A \<inter> \<Union> (set As) = {} \<and> parts_disjoint As)"

lemma parts_disjoint_append:
  "parts_disjoint (As @ Bs) \<longleftrightarrow> parts_disjoint As \<and> parts_disjoint Bs \<and> \<Union> (set As) \<inter> \<Union> (set Bs) = {}"
  by (induction As) auto

lemma parts_disjoint_rotate: "parts_disjoint (As @ Bs @ Cs) = parts_disjoint (Bs @ As @ Cs)"
  by (auto simp: parts_disjoint_append)

text \<open>
  A system of owners and messages in flight. An owner may give parts of what it holds to messages
  and take in a message; the laws are what exclusive ownership needs of the two operations.
\<close>

locale token_space =
  fixes held :: "'s \<Rightarrow> 'a set" and carried :: "'m \<Rightarrow> 'a set"
    and good :: "'s \<Rightarrow> bool" and sound :: "'m \<Rightarrow> bool"
    and give :: "'s \<Rightarrow> 'm list \<Rightarrow> 's \<Rightarrow> bool"
    and take :: "'s \<Rightarrow> 'm \<Rightarrow> 's \<Rightarrow> bool"
  assumes give_part: "good s \<Longrightarrow> give s ms s' \<Longrightarrow> held s' \<union> (\<Union>m\<in>set ms. carried m) \<subseteq> held s"
    and give_apart: "good s \<Longrightarrow> give s ms s' \<Longrightarrow> parts_disjoint (held s' # map carried ms)"
    and give_good: "good s \<Longrightarrow> give s ms s' \<Longrightarrow> good s' \<and> (\<forall>m\<in>set ms. sound m)"
    and take_part: "good s \<Longrightarrow> sound m \<Longrightarrow> take s m s' \<Longrightarrow> held s' \<subseteq> held s \<union> carried m"
    and take_good: "good s \<Longrightarrow> sound m \<Longrightarrow> take s m s' \<Longrightarrow> good s'"
begin

definition exclusive :: "('n \<Rightarrow> 's) \<Rightarrow> 'm list \<Rightarrow> bool" where
  "exclusive own fl \<longleftrightarrow> (\<forall>n. good (own n)) \<and> (\<forall>m\<in>set fl. sound m) \<and>
     (\<forall>m n. m \<noteq> n \<longrightarrow> held (own m) \<inter> held (own n) = {}) \<and>
     (\<forall>n. held (own n) \<inter> (\<Union>m\<in>set fl. carried m) = {}) \<and> parts_disjoint (map carried fl)"

lemma exclusiveI:
  assumes "\<And>n. good (own n)" "\<And>m. m \<in> set fl \<Longrightarrow> sound m"
    and "\<And>m n. m \<noteq> n \<Longrightarrow> held (own m) \<inter> held (own n) = {}"
    and "\<And>n. held (own n) \<inter> (\<Union>m\<in>set fl. carried m) = {}" "parts_disjoint (map carried fl)"
  shows "exclusive own fl"
  using assms by (simp add: exclusive_def)

lemma exclusiveD:
  assumes "exclusive own fl"
  shows "good (own n)" "m \<in> set fl \<Longrightarrow> sound m" "k \<noteq> l \<Longrightarrow> held (own k) \<inter> held (own l) = {}"
    "held (own n) \<inter> (\<Union>m\<in>set fl. carried m) = {}" "parts_disjoint (map carried fl)"
  using assms by (simp_all add: exclusive_def)

lemma exclusive_give:
  assumes ex: "exclusive own fl" and give: "give (own n) ms s'"
  shows "exclusive (own(n := s')) (fl @ ms)"
proof -
  note g = exclusiveD(1) [OF ex, of n]
  define F G where "F = (\<Union>m\<in>set fl. carried m)" and "G = (\<Union>m\<in>set ms. carried m)"
  have laws: "held s' \<union> G \<subseteq> held (own n)" "held s' \<inter> G = {}" "parts_disjoint (map carried ms)"
    using give_part [OF g give] give_apart [OF g give] by (simp_all add: G_def)
  note pair = exclusiveD(3) [OF ex] and flight = exclusiveD(4) [OF ex, folded F_def]
  show ?thesis
  proof (rule exclusiveI)
    show "good ((own(n := s')) k)" for k
      using exclusiveD(1) [OF ex] give_good [OF g give] by simp
    show "sound m" if "m \<in> set (fl @ ms)" for m
      using exclusiveD(2) [OF ex] give_good [OF g give] that by auto
    show "held ((own(n := s')) k) \<inter> held ((own(n := s')) l) = {}" if "k \<noteq> l" for k l
      using that pair [of k l] laws(1) by (cases "k = n"; cases "l = n") (simp_all, blast+)
    have "held ((own(n := s')) k) \<inter> (F \<union> G) = {}" for k
      using flight [of k] flight [of n] pair [of k n] laws(1,2) by (cases "k = n") (simp_all, blast+)
    then show "held ((own(n := s')) k) \<inter> (\<Union>m\<in>set (fl @ ms). carried m) = {}" for k
      by (simp add: F_def G_def)
    have "F \<inter> G = {}" using flight [of n] laws(1) by blast
    then show "parts_disjoint (map carried (fl @ ms))"
      using exclusiveD(5) [OF ex] laws(3) by (simp add: parts_disjoint_append F_def G_def)
  qed
qed

lemma exclusive_drop: "exclusive own (fl @ ms @ fl') \<Longrightarrow> exclusive own (fl @ fl')"
  by (simp add: exclusive_def parts_disjoint_append Int_Un_distrib ball_Un)

lemma exclusive_take:
  assumes ex: "exclusive own (fl @ m # fl')" and take: "take (own n) m s'"
  shows "exclusive (own(n := s')) (fl @ fl')"
proof -
  note g = exclusiveD(1) [OF ex, of n]
  define F where "F = (\<Union>m\<in>set (fl @ fl'). carried m)"
  have sound: "sound m" using exclusiveD(2) [OF ex] by simp
  note part = take_part [OF g sound take]
  note pair = exclusiveD(3) [OF ex]
  have flight: "held (own k) \<inter> (carried m \<union> F) = {}" for k
    using exclusiveD(4) [OF ex, of k] by (simp add: F_def Un_left_commute)
  have parts: "carried m \<inter> F = {}" "parts_disjoint (map carried (fl @ fl'))"
    using exclusiveD(5) [OF ex] by (auto simp: parts_disjoint_append F_def)
  show ?thesis
  proof (rule exclusiveI)
    show "good ((own(n := s')) k)" for k
      using exclusiveD(1) [OF ex] take_good [OF g sound take] by simp
    show "sound m" if "m \<in> set (fl @ fl')" for m
      using exclusiveD(2) [OF ex] that by auto
    show "held ((own(n := s')) k) \<inter> held ((own(n := s')) l) = {}" if "k \<noteq> l" for k l
      using that pair [of k l] pair [of k n] pair [of l n] flight [of k] flight [of l] part
      by (cases "k = n"; cases "l = n") (simp_all, blast+)
    have "held ((own(n := s')) k) \<inter> F = {}" for k
      using flight [of k] flight [of n] part parts(1) by (cases "k = n") (simp_all, blast+)
    then show "held ((own(n := s')) k) \<inter> (\<Union>m\<in>set (fl @ fl'). carried m) = {}" for k
      by (simp add: F_def)
  qed (rule parts(2))
qed

text \<open>Messages that come back under another envelope with the same contents.\<close>

lemma exclusive_resend:
  assumes "exclusive own fl" "map carried fl' = map carried fl" "\<forall>m\<in>set fl'. sound m"
  shows "exclusive own fl'"
proof -
  have "carried ` set fl' = carried ` set fl"
    using arg_cong [OF assms(2), of set] by simp
  with assms show ?thesis by (simp add: exclusive_def)
qed

end

subsection \<open>The model's operations obey the laws\<close>

definition site_ok :: "token_site \<Rightarrow> bool" where
  "site_ok site \<longleftrightarrow> range_wf (rt_range (ts_token site)) \<and>
     (rt_range (ts_token site) \<noteq> empty_range \<longrightarrow> token_contains (ts_token site) (ts_id site))"

definition site_gives :: "token_site \<Rightarrow> token_header list \<Rightarrow> token_site \<Rightarrow> bool" where
  "site_gives site hs site' \<longleftrightarrow>
     (\<exists>neighbor v. token_split neighbor v site = Some (hs, site')) \<or>
     (\<exists>next prev targets. create_depart_tokens next prev targets site = (hs, site'))"

definition site_takes :: "token_site \<Rightarrow> token_header \<Rightarrow> token_site \<Rightarrow> bool" where
  "site_takes site h site' \<longleftrightarrow>
     (\<exists>t. token_accept (ts_token site) (header_token h) (ts_id site) = Some (True, t) \<and> site' = site\<lparr>ts_token := t\<rparr>)"

lemma sharesD: "shares old kept passed \<Longrightarrow>
    range_ids kept \<union> range_ids passed = range_ids old \<and> range_ids kept \<inter> range_ids passed = {}"
  by (auto simp: shares_ids)

lemma token_contains_nonempty: "token_contains t i \<Longrightarrow> rt_range t \<noteq> empty_range"
  by (auto simp: token_contains_cyc)

lemma adjacent_nonempty: "token_succ_adjacent t u \<or> token_pred_adjacent t u \<Longrightarrow> rt_range t \<noteq> empty_range"
  by (auto simp: token_succ_adjacent_def token_pred_adjacent_def is_succ_adjacent_def is_pred_adjacent_def
      dest: normal_not_special)

text \<open>
  \<open>handed site hs site'\<close>: the site handed over exactly the headers \<open>hs\<close>; it composes.
\<close>

definition handed :: "token_site \<Rightarrow> token_header list \<Rightarrow> token_site \<Rightarrow> bool" where
  "handed site hs site' \<longleftrightarrow> range_wf (rt_range (ts_token site')) \<and> ts_id site' = ts_id site \<and>
     (\<forall>h\<in>set hs. range_wf (th_range h)) \<and>
     token_ids (ts_token site') \<union> (\<Union>h\<in>set hs. header_ids h) = token_ids (ts_token site) \<and>
     parts_disjoint (token_ids (ts_token site') # map header_ids hs)"

lemma handed_refl: "range_wf (rt_range (ts_token site)) \<Longrightarrow> handed site [] site"
  by (simp add: handed_def)

lemma handed_single:
  assumes "shares (rt_range (ts_token site)) (rt_range (ts_token site')) (th_range h)"
    "range_wf (rt_range (ts_token site'))" "range_wf (th_range h)" "ts_id site' = ts_id site"
  shows "handed site [h] site'"
  using assms sharesD [OF assms(1)] by (simp add: handed_def token_ids_def header_ids_def)

lemma handed_trans:
  assumes 1: "handed s hs s1" and 2: "handed s1 hs' s2"
  shows "handed s (hs @ hs') s2"
proof -
  define A B C where "A = (\<Union>h\<in>set hs. header_ids h)" "B = (\<Union>h\<in>set hs'. header_ids h)"
    "C = token_ids (ts_token s2)"
  note defs = A_B_C_def
  have "C \<union> B = token_ids (ts_token s1)" "C \<inter> B = {}" "token_ids (ts_token s1) \<union> A = token_ids (ts_token s)"
    "token_ids (ts_token s1) \<inter> A = {}"
    using 1 2 by (simp_all add: handed_def defs)
  then have "C \<union> (A \<union> B) = token_ids (ts_token s)" "C \<inter> (A \<union> B) = {}" "A \<inter> B = {}" by blast+
  with 1 2 show ?thesis
    by (auto simp: handed_def parts_disjoint_append ball_Un simp flip: defs)
qed

lemma handed_empty: "handed s [h] s' \<Longrightarrow> header_is_empty h \<Longrightarrow> handed s [] s'"
  by (auto simp: handed_def header_is_empty_def header_ids_def range_empty_iff range_ids_rset)

lemma split_succ_handed:
  assumes "token_contains (ts_token site) (ts_id site)" "range_wf (rt_range (ts_token site))"
    and "split_succ_token n v (ts_id site) (ts_token site) = (h, t)" "ts_token site' = t" "ts_id site' = ts_id site"
  shows "handed site [h] site'" "token_contains (ts_token site') (ts_id site')"
  using split_succ_shares [OF assms(1,3)] assms by (auto intro: handed_single)

lemma split_pred_handed:
  assumes "token_contains (ts_token site) (ts_id site)" "range_wf (rt_range (ts_token site))"
    and "split_pred_token n v (ts_id site) (ts_token site) = (h, t)" "ts_token site' = t" "ts_id site' = ts_id site"
  shows "handed site [h] site'" "token_contains (ts_token site') (ts_id site')"
  using split_pred_shares [OF assms(1,3)] assms by (auto intro: handed_single)

lemma split_full_handed:
  assumes "rt_range (ts_token site) = full_range"
    and "split_full_token n v (ts_id site) (ts_token site) = (h, t)" "ts_token site' = t" "ts_id site' = ts_id site"
  shows "handed site [h] site'" "token_contains (ts_token site') (ts_id site')"
  using split_full_shares [OF assms(1,2)] assms by (auto intro: handed_single)

lemma site_okI: "handed s0 hs s \<Longrightarrow> token_contains (ts_token s) (ts_id s) \<Longrightarrow> site_ok s"
  by (simp add: handed_def site_ok_def)

lemma split_when_handed:
  assumes ok: "site_ok site"
  shows "split_when_succ_adjacent nb v site = (hs, site') \<Longrightarrow> handed site hs site' \<and> site_ok site'"
    "split_when_pred_adjacent nb v site = (hs, site') \<Longrightarrow> handed site hs site' \<and> site_ok site'"
proof -
  have wf: "range_wf (rt_range (ts_token site))" using ok by (simp add: site_ok_def)
  assume s: "split_when_succ_adjacent nb v site = (hs, site')"
  show "handed site hs site' \<and> site_ok site'"
  proof (cases "token_succ_adjacent (ts_token site) (tp_token nb)")
    case True
    then have own: "token_contains (ts_token site) (ts_id site)"
      using ok adjacent_nonempty by (auto simp: site_ok_def)
    obtain h t where e: "split_succ_token (tp_id nb) v (ts_id site) (ts_token site) = (h, t)" by fastforce
    show ?thesis
      using s True e split_succ_handed [OF own wf e, of "site\<lparr>ts_token := t, ts_succ_pending := Some h\<rparr>"]
        token_contains_nonempty [of t "ts_id site"]
      by (auto simp: split_when_succ_adjacent_def range_empty_iff intro: site_okI)
  next
    case False
    then show ?thesis using s ok wf by (auto simp: split_when_succ_adjacent_def handed_refl)
  qed
next
  have wf: "range_wf (rt_range (ts_token site))" using ok by (simp add: site_ok_def)
  assume s: "split_when_pred_adjacent nb v site = (hs, site')"
  show "handed site hs site' \<and> site_ok site'"
  proof (cases "token_pred_adjacent (ts_token site) (tp_token nb)")
    case True
    then have own: "token_contains (ts_token site) (ts_id site)"
      using ok adjacent_nonempty by (auto simp: site_ok_def)
    obtain h t where e: "split_pred_token (tp_id nb) v (ts_id site) (ts_token site) = (h, t)" by fastforce
    show ?thesis
      using s True e split_pred_handed [OF own wf e, of "site\<lparr>ts_token := t, ts_pred_pending := Some h\<rparr>"]
        token_contains_nonempty [of t "ts_id site"]
      by (auto simp: split_when_pred_adjacent_def range_empty_iff intro: site_okI)
  next
    case False
    then show ?thesis using s ok wf by (auto simp: split_when_pred_adjacent_def handed_refl)
  qed
qed

lemma token_split_handed:
  assumes ok: "site_ok site"
  shows "\<exists>hs site'. token_split neighbor v site = Some (hs, site') \<and> handed site hs site' \<and> site_ok site'"
proof -
  have wf: "range_wf (rt_range (ts_token site))" using ok by (simp add: site_ok_def)
  show ?thesis
  proof (cases "token_contains (ts_token site) (tp_id neighbor)")
    case True
    then have own: "token_contains (ts_token site) (ts_id site)"
      using ok token_contains_nonempty by (auto simp: site_ok_def)
    show ?thesis
    proof (cases "is_full (rt_range (ts_token site))")
      case full: True
      obtain h t where s: "split_full_token (tp_id neighbor) v (ts_id site) (ts_token site) = (h, t)" by fastforce
      show ?thesis
        using True full s split_full_handed [OF _ s, of "site\<lparr>ts_token := t, ts_succ_pending := Some h, ts_pred_pending := Some h\<rparr>"]
        by (auto simp: token_split_def Let_def range_full_iff intro: site_okI)
    next
      case notfull: False
      obtain h t where s: "split_succ_token (tp_id neighbor) v (ts_id site) (ts_token site) = (h, t)" by fastforce
      obtain h' t' where p: "split_pred_token (tp_id neighbor) v (ts_id site) (ts_token site) = (h', t')" by fastforce
      note S = split_succ_handed [OF own wf s, of "site\<lparr>ts_token := t, ts_succ_pending := Some h\<rparr>"]
      note P = split_pred_handed [OF own wf p, of "site\<lparr>ts_token := t', ts_pred_pending := Some h'\<rparr>"]
      show ?thesis
        using True notfull S P token_contains_nonempty [of t "ts_id site"] token_contains_nonempty [of t' "ts_id site"]
        by (auto simp: token_split_def Let_def s p range_empty_iff intro: site_okI split: prod.splits)
    qed
  next
    case False
    obtain hs1 s1 where 1: "split_when_succ_adjacent neighbor v site = (hs1, s1)" by fastforce
    obtain hs2 s2 where 2: "split_when_pred_adjacent neighbor v s1 = (hs2, s2)" by fastforce
    have "handed site hs1 s1 \<and> site_ok s1" by (rule split_when_handed(1) [OF ok 1])
    moreover from this have "handed s1 hs2 s2 \<and> site_ok s2" using split_when_handed(2) [OF _ 2] by blast
    ultimately show ?thesis using False handed_trans by (auto simp: token_split_def 1 2)
  qed
qed

lemma release_handed:
  "release_succ_token p (ts_id site) q v (ts_token site) = (h, t) \<Longrightarrow> range_wf (rt_range (ts_token site)) \<Longrightarrow>
     handed site (if header_is_empty h then [] else [h]) (site\<lparr>ts_token := t\<rparr>)"
  "release_pred_token p v (ts_id site) q (ts_token site) = (h, t) \<Longrightarrow> range_wf (rt_range (ts_token site)) \<Longrightarrow>
     handed site (if header_is_empty h then [] else [h]) (site\<lparr>ts_token := t\<rparr>)"
proof -
  assume r: "release_succ_token p (ts_id site) q v (ts_token site) = (h, t)" "range_wf (rt_range (ts_token site))"
  have "handed site [h] (site\<lparr>ts_token := t\<rparr>)"
    using release_shares(1) [OF r(1)] release_wf(1) [OF r] by (auto intro: handed_single)
  with handed_empty show "handed site (if header_is_empty h then [] else [h]) (site\<lparr>ts_token := t\<rparr>)" by auto
next
  assume r: "release_pred_token p v (ts_id site) q (ts_token site) = (h, t)" "range_wf (rt_range (ts_token site))"
  have "handed site [h] (site\<lparr>ts_token := t\<rparr>)"
    using release_shares(2) [OF r(1)] release_wf(2) [OF r] by (auto intro: handed_single)
  with handed_empty show "handed site (if header_is_empty h then [] else [h]) (site\<lparr>ts_token := t\<rparr>)" by auto
qed

lemma try_release_handed:
  assumes wf: "range_wf (rt_range (ts_token site))" and r: "try_release_token next prev p site = (hs, site')"
  shows "handed site hs site'"
proof -
  define s1 where "s1 = (if p = tp_id next then
      (let (h, t) = release_succ_token (tp_id prev) (ts_id site) (tp_id next) (rt_version (tp_token next)) (ts_token site)
       in (if header_is_empty h then [] else [h], site\<lparr>ts_token := t\<rparr>)) else ([], site))"
  have 1: "handed site (fst s1) (snd s1)"
    using release_handed(1) [OF _ wf] wf by (auto simp: s1_def handed_refl split: prod.splits)
  then have wf1: "range_wf (rt_range (ts_token (snd s1)))" and "ts_id (snd s1) = ts_id site"
    by (simp_all add: handed_def)
  moreover obtain h t where p: "release_pred_token (tp_id prev) (rt_version (tp_token prev)) (ts_id site)
      (tp_id next) (ts_token (snd s1)) = (h, t)" by fastforce
  ultimately have "handed (snd s1) (if header_is_empty h then [] else [h]) (snd s1\<lparr>ts_token := t\<rparr>)"
    using release_handed(2) [OF _ wf1] by metis
  then have "\<exists>hs2. hs = fst s1 @ hs2 \<and> handed (snd s1) hs2 site'"
    using r handed_refl [OF wf1] p
    unfolding try_release_token_def s1_def [symmetric]
    by (auto simp: split_beta' Let_def split: if_splits)
  with 1 handed_trans show ?thesis by blast
qed

lemma release_all_handed:
  "range_wf (rt_range (ts_token site)) \<Longrightarrow> release_all next prev ps site = (hs, site') \<Longrightarrow> handed site hs site'"
proof (induction ps arbitrary: site hs site')
  case Nil
  then show ?case by (auto simp: handed_refl)
next
  case (Cons p ps)
  obtain hs1 s1 where 1: "try_release_token next prev p site = (hs1, s1)" by fastforce
  obtain hs2 s2 where 2: "release_all next prev ps s1 = (hs2, s2)" by fastforce
  have h1: "handed site hs1 s1" by (rule try_release_handed [OF Cons.prems(1) 1])
  then have "handed s1 hs2 s2" using Cons.IH [OF _ 2] by (simp add: handed_def)
  with h1 handed_trans Cons.prems(2) show ?case by (auto simp: 1 2)
qed

lemma depart_laws:
  assumes wf: "range_wf (rt_range (ts_token site))" and d: "create_depart_tokens next prev ps site = (hs, site')"
  shows "rt_range (ts_token site') = empty_range" "ts_id site' = ts_id site"
    "(\<Union>h\<in>set hs. header_ids h) \<subseteq> token_ids (ts_token site)" "parts_disjoint (map header_ids hs)"
    "\<forall>h\<in>set hs. range_wf (th_range h)"
proof -
  obtain s1 where r: "release_all next prev ps site = (hs, s1)"
    and e: "site' = (if \<not> is_empty (rt_range (ts_token s1)) then s1\<lparr>ts_token := token_set_empty (ts_token s1)\<rparr> else s1)"
    using d by (auto simp: create_depart_tokens_def split: prod.splits)
  have "handed site hs s1" by (rule release_all_handed [OF wf r])
  with e show "rt_range (ts_token site') = empty_range" "ts_id site' = ts_id site"
    "(\<Union>h\<in>set hs. header_ids h) \<subseteq> token_ids (ts_token site)" "parts_disjoint (map header_ids hs)"
    "\<forall>h\<in>set hs. range_wf (th_range h)"
    by (auto simp: handed_def range_empty_iff)
qed

lemma token_ids_empty: "rt_range t = empty_range \<Longrightarrow> token_ids t = {}"
  by (simp add: token_ids_def range_ids_rset)

lemma site_gives_laws:
  assumes ok: "site_ok s" and g: "site_gives s hs s'"
  shows "token_ids (ts_token s') \<union> (\<Union>h\<in>set hs. header_ids h) \<subseteq> token_ids (ts_token s)"
    "parts_disjoint (token_ids (ts_token s') # map header_ids hs)"
    "site_ok s' \<and> (\<forall>h\<in>set hs. range_wf (th_range h))"
proof -
  have wf: "range_wf (rt_range (ts_token s))" using ok by (simp add: site_ok_def)
  from g consider (split) nb v where "token_split nb v s = Some (hs, s')"
    | (depart) n p ps where "create_depart_tokens n p ps s = (hs, s')"
    by (auto simp: site_gives_def)
  then have "token_ids (ts_token s') \<union> (\<Union>h\<in>set hs. header_ids h) \<subseteq> token_ids (ts_token s) \<and>
    parts_disjoint (token_ids (ts_token s') # map header_ids hs) \<and> site_ok s' \<and> (\<forall>h\<in>set hs. range_wf (th_range h))"
  proof cases
    case split
    with token_split_handed [OF ok, of nb v] show ?thesis by (auto simp: handed_def)
  next
    case depart
    show ?thesis using depart_laws [OF wf depart] by (simp add: token_ids_empty site_ok_def)
  qed
  then show "token_ids (ts_token s') \<union> (\<Union>h\<in>set hs. header_ids h) \<subseteq> token_ids (ts_token s)"
    "parts_disjoint (token_ids (ts_token s') # map header_ids hs)"
    "site_ok s' \<and> (\<forall>h\<in>set hs. range_wf (th_range h))" by blast+
qed

lemma site_takes_laws:
  assumes ok: "site_ok s" and h: "range_wf (th_range h)" and t: "site_takes s h s'"
  shows "token_ids (ts_token s') \<subseteq> token_ids (ts_token s) \<union> header_ids h" "site_ok s'"
proof -
  obtain t where acc: "token_accept (ts_token s) (header_token h) (ts_id s) = Some (True, t)"
    and s': "s' = s\<lparr>ts_token := t\<rparr>"
    using t by (auto simp: site_takes_def)
  have wf: "range_wf (rt_range (ts_token s))" "range_wf (rt_range (header_token h))"
    using ok h by (simp_all add: site_ok_def header_token_def)
  note c = token_accept_cases [OF acc wf, simplified]
  show "token_ids (ts_token s') \<subseteq> token_ids (ts_token s) \<union> header_ids h"
    using sharesD [OF c(2)] by (auto simp: s' token_ids_def header_ids_def header_token_def)
  show "site_ok s'" using c(3,4) ok by (auto simp: site_ok_def s')
qed

interpretation tokens: token_space "\<lambda>s. token_ids (ts_token s)" header_ids site_ok
  "\<lambda>h. range_wf (th_range h)" site_gives site_takes
  by unfold_locales (rule site_gives_laws site_takes_laws; assumption)+

subsection \<open>The federation: sites and messages\<close>

text \<open>
  A step of the federation, away from recovery: a site splits its token for a neighbour or departs,
  a message is delivered, its rejected tokens sent back or dropped, or a message is lost. Any site
  may receive any message in any order.
\<close>

inductive fed_step :: "('n \<Rightarrow> token_site) \<times> token_header list \<Rightarrow> ('n \<Rightarrow> token_site) \<times> token_header list \<Rightarrow> bool" where
  split: "token_split neighbor v (own n) = Some (hs, site) \<Longrightarrow>
    fed_step (own, fl) (own(n := site), fl @ hs)"
| depart: "create_depart_tokens next prev targets (own n) = (hs, site) \<Longrightarrow>
    fed_step (own, fl) (own(n := site), fl @ hs)"
| deliver: "process_tokens beforeDeadline hs (own n) = Some (as, site) \<Longrightarrow>
    reply = reject_headers (rejected_tokens hs as) site \<or> reply = [] \<Longrightarrow>
    fed_step (own, fl @ hs @ fl') (own(n := site), fl @ reply @ fl')"
| lose: "fed_step (own, fl @ hs @ fl') (own, fl @ fl')"

definition fed_exclusive :: "('n \<Rightarrow> token_site) \<Rightarrow> token_header list \<Rightarrow> bool" where
  "fed_exclusive own fl = tokens.exclusive own fl"

lemma exclusive_deliver:
  assumes "accept_tokens hs (own n) = Some (as, site)" "tokens.exclusive own (fl @ hs @ fl')"
  shows "tokens.exclusive (own(n := site)) (fl @ rejected_tokens hs as @ fl')"
  using assms
proof (induction hs arbitrary: own as fl)
  case Nil
  then have "own(n := site) = own" "as = []" by (auto intro: fun_upd_idem)
  with Nil show ?case by (simp add: rejected_tokens_def)
next
  case (Cons h hs)
  from Cons.prems(1) obtain a t as' where
    acc: "token_accept (ts_token (own n)) (header_token h) (ts_id (own n)) = Some (a, t)"
    and rest: "accept_tokens hs ((own n)\<lparr>ts_token := t\<rparr>) = Some (as', site)" and as: "as = a # as'"
    by (auto simp: bind_Some_iff)
  let ?own = "own(n := (own n)\<lparr>ts_token := t\<rparr>)"
  show ?case
  proof (cases a)
    case True
    with acc have "site_takes (own n) h ((own n)\<lparr>ts_token := t\<rparr>)" by (auto simp: site_takes_def)
    from tokens.exclusive_take [of own fl h "hs @ fl'" n, OF _ this] Cons.prems(2)
    have "tokens.exclusive ?own (fl @ hs @ fl')" by simp
    from Cons.IH [of ?own, OF _ this] rest
    have "tokens.exclusive (own(n := site)) (fl @ rejected_tokens hs as' @ fl')"
      by (simp only: fun_upd_upd fun_upd_same)
    moreover have "rejected_tokens (h # hs) as = rejected_tokens hs as'"
      using True by (simp add: as rejected_tokens_def)
    ultimately show ?thesis by (simp only:)
  next
    case False
    have "range_wf (rt_range (ts_token (own n)))" "range_wf (rt_range (header_token h))"
      using tokens.exclusiveD(1) [OF Cons.prems(2), of n] tokens.exclusiveD(2) [OF Cons.prems(2), of h]
      by (simp_all add: site_ok_def header_token_def)
    from token_accept_cases(1) [OF acc this] False have "?own = own" by simp
    then have "own n = (own n)\<lparr>ts_token := t\<rparr>" by (metis fun_upd_same)
    with Cons.IH [of own as' "fl @ [h]"] rest Cons.prems(2) False show ?thesis
      by (simp add: as rejected_tokens_def)
  qed
qed

lemma rejected_all: "rejected_tokens hs (replicate (length hs) False) = hs"
  by (induction hs) (simp_all add: rejected_tokens_def)

lemma reject_headers_ids: "map header_ids (reject_headers hs site) = map header_ids hs"
  by (simp add: reject_headers_def header_ids_def)

lemma fed_step_exclusive:
  "fed_step c c' \<Longrightarrow> fed_exclusive (fst c) (snd c) \<Longrightarrow> fed_exclusive (fst c') (snd c')"
proof (induction rule: fed_step.induct)
  case (split neighbor v own n hs site fl)
  then have "site_gives (own n) hs site" by (auto simp: site_gives_def)
  with tokens.exclusive_give split(2) show ?case by (simp only: fed_exclusive_def fst_conv snd_conv)
next
  case (depart nx prev targets own n hs site fl)
  then have "site_gives (own n) hs site" by (auto simp: site_gives_def)
  with tokens.exclusive_give depart(2) show ?case by (simp only: fed_exclusive_def fst_conv snd_conv)
next
  case (deliver b hs own n acc site reply fl fl')
  have ex: "tokens.exclusive own (fl @ hs @ fl')" using deliver by (simp add: fed_exclusive_def)
  have del: "tokens.exclusive (own(n := site)) (fl @ rejected_tokens hs acc @ fl')"
  proof (cases "accept_tokens hs (own n) = Some (acc, site)")
    case True
    then show ?thesis by (rule exclusive_deliver [OF _ ex])
  next
    case False
    then have "acc = replicate (length hs) False" "site = own n"
      using deliver(1) by (auto simp: process_tokens_def split: if_splits)
    then show ?thesis using ex by (simp add: rejected_all)
  qed
  from deliver(2) show ?case
  proof
    assume reply: "reply = reject_headers (rejected_tokens hs acc) site"
    have "tokens.exclusive (own(n := site)) (fl @ reply @ fl')"
      by (rule tokens.exclusive_resend [OF del])
        (use tokens.exclusiveD(2) [OF del] in \<open>auto simp: reply reject_headers_def header_ids_def\<close>)
    then show ?thesis by (simp only: fed_exclusive_def fst_conv snd_conv)
  next
    assume "reply = []"
    then show ?thesis using tokens.exclusive_drop [OF del] by (simp only: fed_exclusive_def fst_conv snd_conv append_Nil)
  qed
next
  case (lose own fl hs fl')
  then show ?case using tokens.exclusive_drop by (auto simp: fed_exclusive_def)
qed

lemma fed_reach_exclusive:
  "fed_step\<^sup>*\<^sup>* c c' \<Longrightarrow> fed_exclusive (fst c) (snd c) \<Longrightarrow> fed_exclusive (fst c') (snd c')"
  by (induction rule: rtranclp_induct) (auto dest: fed_step_exclusive)

text \<open>The start: one site owns the whole ring, all others have the empty token of a new node.\<close>

definition first_site :: "('n \<Rightarrow> token_site) \<Rightarrow> 'n \<Rightarrow> bool" where
  "first_site own n \<longleftrightarrow> rt_range (ts_token (own n)) = full_range \<and>
     (\<forall>m. m \<noteq> n \<longrightarrow> rt_range (ts_token (own m)) = empty_range)"

lemma first_site_exclusive: "first_site own n \<Longrightarrow> fed_exclusive own []"
  unfolding fed_exclusive_def
proof (rule tokens.exclusiveI)
  assume f: "first_site own n"
  show "site_ok (own k)" for k
    using f by (cases "k = n") (auto simp: first_site_def site_ok_def token_contains_def contains_id_iff)
  show "token_ids (ts_token (own k)) \<inter> token_ids (ts_token (own l)) = {}" if "k \<noteq> l" for k l
    using f that by (cases "k = n") (auto simp: first_site_def token_ids_empty)
qed auto

subsection \<open>What the list of echoed probes remembers\<close>










lemma match_trans: "token_version_match a b \<Longrightarrow> token_version_match c b = token_version_match c a"
  by (simp add: token_version_match_def)



subsection \<open>The properties\<close>

text \<open>C21: splitting a token for any neighbour never fails its assertion; the ids the site keeps and the ids
  of each header passed are pairwise disjoint and together are exactly the ids it had, and a site that
  keeps a token keeps its own id.\<close>

theorem token_split_exact:
  assumes "site_ok site"
  shows "\<exists>hs site'. token_split neighbor v site = Some (hs, site') \<and> site_ok site' \<and>
    token_ids (ts_token site') \<union> (\<Union>h\<in>set hs. header_ids h) = token_ids (ts_token site) \<and>
    parts_disjoint (token_ids (ts_token site') # map header_ids hs)"
  using token_split_handed [OF assms] by (fastforce simp: handed_def)

text \<open>C22: accepting a token either leaves the site's token as it was or makes it the disjoint union of the
  token held and the token received.\<close>

theorem token_accept_exact:
  assumes "token_accept t received ownerId = Some (accepted, t')"
    and "range_wf (rt_range t)" "range_wf (rt_range received)"
  shows "if accepted then token_ids t \<inter> token_ids received = {} \<and> token_ids t' = token_ids t \<union> token_ids received
         else t' = t"
  using token_accept_cases [OF assms] sharesD [of "rt_range t'" "rt_range t" "rt_range received"]
  by (auto simp: token_ids_def)

text \<open>C1: from one site that owns the ring, through any number of splits, departures, deliveries in any
  order, rejections and losses, no id is ever owned by two sites, nor by a site and a token in flight.\<close>

theorem routing_token_exclusive:
  assumes "first_site own n" "fed_step\<^sup>*\<^sup>* (own, []) (own', fl)" "i \<in> token_ids (ts_token (own' k))"
  shows "(\<forall>l. i \<in> token_ids (ts_token (own' l)) \<longrightarrow> l = k) \<and> (\<forall>h\<in>set fl. i \<notin> header_ids h)"
proof -
  have "tokens.exclusive own' fl"
    using fed_reach_exclusive [OF assms(2)] first_site_exclusive [OF assms(1)] by (simp add: fed_exclusive_def)
  from tokens.exclusiveD(3,4) [OF this] assms(3) show ?thesis by blast
qed

lemma recovery_fences:
  assumes "th_target_version h \<le> rt_version t" "rt_version t \<le> - 1 - RECOVERY_INCREMENT"
  shows "token_accept (increment_recovery_version t) (header_token h) ownerId = Some (False, increment_recovery_version t)"
    and "is_recovery_safe (increment_recovery_version t) v = is_recovery_safe t v"
proof -
  let ?v = "rt_version t" and ?w = "th_target_version h"
  have room: "unat ?v + 2 ^ 32 < 2 ^ 64"
    using assms(2) by (simp add: RECOVERY_INCREMENT_def word_le_nat_alt unat_word_ariths)
  then have plus: "unat (?v + RECOVERY_INCREMENT) = unat ?v + 2 ^ 32"
    by (simp add: RECOVERY_INCREMENT_def unat_word_ariths)
  have le: "?w \<le> ?v + RECOVERY_INCREMENT" and "unat (?v + RECOVERY_INCREMENT - ?w) = unat ?v + 2 ^ 32 - unat ?w"
    using assms(1) plus by (simp_all add: word_le_nat_alt unat_sub_if_size word_size)
  then have "\<not> ?v + RECOVERY_INCREMENT - ?w < RECOVERY_INCREMENT"
    using assms(1) by (simp add: word_less_nat_alt word_le_nat_alt RECOVERY_INCREMENT_def)
  with le show "token_accept (increment_recovery_version t) (header_token h) ownerId = Some (False, increment_recovery_version t)"
    by (simp add: token_accept_def is_merge_safe_def header_token_def increment_recovery_version_def not_less)
  have "(ucast (?v + RECOVERY_INCREMENT) :: u32) = ucast ?v"
    unfolding word_unat_eq_iff unsigned_ucast_eq plus by (simp add: take_bit_eq_mod)
  then show "is_recovery_safe (increment_recovery_version t) v = is_recovery_safe t v"
    by (simp add: is_recovery_safe_def token_version_match_def increment_recovery_version_def)
qed

text \<open>C23: once a node took part in a recovery, a token sent to it under a version it had before is refused,
  while its own recoveries in progress stay safe, as long as the version has room for the increment.\<close>

theorem recovery_fences_old_tokens:
  assumes "th_target_version h \<le> rt_version t" "rt_version t \<le> - 1 - RECOVERY_INCREMENT"
  shows "(token_accept (increment_recovery_version t) (header_token h) ownerId = Some (False, increment_recovery_version t)) \<and>
    (is_recovery_safe (increment_recovery_version t) v = is_recovery_safe t v)"
  using recovery_fences [OF assms] by blast


subsection \<open>The properties at concrete inputs\<close>

theorem token_split_exact_witness:
  "\<exists>hs site'. token_split \<lparr>tp_id = NodeId (LargeInteger 0 9), tp_token = empty_token\<rparr> 1
      \<lparr>ts_id = NodeId (LargeInteger 0 3), ts_token = \<lparr>rt_range = full_range, rt_version = 0\<rparr>,
       ts_succ_pending = None, ts_pred_pending = None\<rparr> = Some (hs, site') \<and> site_ok site'"
  using token_split_exact [of "\<lparr>ts_id = NodeId (LargeInteger 0 3), ts_token = \<lparr>rt_range = full_range, rt_version = 0\<rparr>,
       ts_succ_pending = None, ts_pred_pending = None\<rparr>" "\<lparr>tp_id = NodeId (LargeInteger 0 9), tp_token = empty_token\<rparr>" 1]
  by (auto simp: site_ok_def range_wf_def token_contains_def contains_id_iff)

theorem token_accept_exact_witness:
  "token_ids \<lparr>rt_range = NodeIdRange (NodeId (LargeInteger 0 3)) (NodeId (LargeInteger 0 6)), rt_version = 0\<rparr> \<inter>
    token_ids \<lparr>rt_range = NodeIdRange (NodeId (LargeInteger 0 7)) (NodeId (LargeInteger 0 9)), rt_version = 0\<rparr> = {}"
proof -
  let ?t = "\<lparr>rt_range = NodeIdRange (NodeId (LargeInteger 0 3)) (NodeId (LargeInteger 0 6)), rt_version = 0\<rparr>"
  let ?r = "\<lparr>rt_range = NodeIdRange (NodeId (LargeInteger 0 7)) (NodeId (LargeInteger 0 9)), rt_version = 0\<rparr>"
  have "token_accept ?t ?r (NodeId (LargeInteger 0 4)) = Some (True, token_update
      (NodeIdRange (NodeId (LargeInteger 0 3)) (NodeId (LargeInteger 0 9))) False ?t)"
    by code_simp
  then show ?thesis
    using token_accept_exact [of ?t ?r "NodeId (LargeInteger 0 4)" True]
    by (simp add: range_wf_def is_normal_def succ_dist_def li_sub_def li_one_def)
qed

theorem routing_token_exclusive_witness:
  "\<exists>own :: nat \<Rightarrow> token_site. first_site own 0 \<and> NodeId (LargeInteger 0 5) \<in> token_ids (ts_token (own 0)) \<and>
     NodeId (LargeInteger 0 5) \<notin> token_ids (ts_token (own 1))"
proof -
  define own where "own = (\<lambda>k :: nat. \<lparr>ts_id = NodeId (LargeInteger 0 3),
      ts_token = \<lparr>rt_range = if k = 0 then full_range else empty_range, rt_version = 0\<rparr>,
      ts_succ_pending = None, ts_pred_pending = None\<rparr>)"
  have first: "first_site own 0" by (simp add: first_site_def own_def)
  have step: "fed_step\<^sup>*\<^sup>* (own, []) (own, [])"
    using fed_step.lose [of own "[]" "[]" "[]"] by auto
  have mem: "NodeId (LargeInteger 0 5) \<in> token_ids (ts_token (own 0))"
    by (simp add: own_def token_ids_def range_ids_def contains_id_iff)
  show ?thesis
    using routing_token_exclusive [OF first step mem] first mem by (metis zero_neq_one)
qed

theorem recovery_fences_old_tokens_witness:
  "token_accept (increment_recovery_version \<lparr>rt_range = full_range, rt_version = 7\<rparr>)
      (header_token \<lparr>th_range = full_range, th_source_version = 0, th_target_version = 7\<rparr>) (NodeId (LargeInteger 0 5))
    = Some (False, increment_recovery_version \<lparr>rt_range = full_range, rt_version = 7\<rparr>)"
  using recovery_fences_old_tokens [of "\<lparr>th_range = full_range, th_source_version = 0, th_target_version = 7\<rparr>"
      "\<lparr>rt_range = full_range, rt_version = 7\<rparr>"] by (simp add: RECOVERY_INCREMENT_def)


end
