(* ===== verification/Version_Ranges.thy ===== *)
theory Version_Ranges
  imports Fabric_Base
begin

section \<open>VersionRangeCollection: sets of lookup versions as sorted ranges\<close>

text \<open>
  src/Common/VersionRange.h and VersionRangeCollection.h/.cpp. A range holds the versions from its
  start, included, to its end, excluded; a collection is a vector of ranges kept sorted and
  separated. The collection operations come in a plain version (\<open>Test_Add\<close>, \<open>Test_Remove\<close>) and an
  optimised one (\<open>Merge\<close>, \<open>Remove\<close>); the theory shows what each does to the set of versions and that
  the optimised ones equal the plain ones.
  \<open>int64\<close> versions are integers: the only arithmetic is \<open>v + 1\<close> and \<open>e - 1\<close> for a version \<open>v\<close> inside a
  range that ends at \<open>e\<close>, which cannot leave the type. Indices are \<open>size_t\<close> and read as naturals; the
  loops keep them between zero and the size of the vector. The constructor of a range from two
  versions asserts their order; \<open>make_version_range\<close> keeps the assertion, the calls inside the
  collection pass ordered versions by their guards.
\<close>

datatype version_range = VersionRange (vr_start: int) (vr_end: int)

definition make_version_range :: "int \<Rightarrow> int \<Rightarrow> version_range option" where
  "make_version_range s e = do { assert_if (s > e); Some (VersionRange s e) }"

definition range_size :: "version_range \<Rightarrow> int" where
  "range_size r = vr_end r - vr_start r"

definition vr_contains :: "version_range \<Rightarrow> int \<Rightarrow> bool" where
  "vr_contains r version \<longleftrightarrow> version \<ge> vr_start r \<and> version < vr_end r"

subsection \<open>Adding and merging\<close>

text \<open>The two index loops of \<open>Add\<close> stop at the first range that fails their condition.\<close>

definition ranges_add :: "version_range \<Rightarrow> version_range list \<Rightarrow> bool \<times> version_range list" where
  "ranges_add versionRange ranges =
     (let startVersion = vr_start versionRange; endVersion = vr_end versionRange
      in if startVersion < endVersion then
           (let startIndex = length (takeWhile (\<lambda>r. vr_end r < startVersion) ranges);
                endIndex = startIndex + length (takeWhile (\<lambda>r. vr_start r \<le> endVersion) (drop startIndex ranges));
                (result, newRange) =
                  (if startIndex < endIndex then
                     (let startVersion' = min startVersion (vr_start (ranges ! startIndex));
                          endVersion' = max endVersion (vr_end (ranges ! (endIndex - 1)))
                      in if endIndex = startIndex + 1 \<and> vr_start (ranges ! startIndex) = startVersion' \<and>
                            vr_end (ranges ! startIndex) = endVersion'
                         then (False, versionRange)
                         else (True, VersionRange startVersion' endVersion'))
                   else (True, versionRange))
            in if result
               then (True, take startIndex ranges @ newRange # drop endIndex ranges)
               else (False, ranges))
         else (False, ranges))"

fun ranges_test_add :: "version_range list \<Rightarrow> version_range list \<Rightarrow> bool \<times> version_range list" where
  "ranges_test_add [] ranges = (False, ranges)"
| "ranges_test_add (r # rs) ranges =
     (let (added, ranges1) = ranges_add r ranges;
          (result, ranges2) = ranges_test_add rs ranges1
      in (added \<or> result, ranges2))"

definition merge_back :: "version_range list \<Rightarrow> version_range \<Rightarrow> version_range list" where
  "merge_back ranges r =
     (if ranges = [] \<or> vr_end (last ranges) < vr_start r then ranges @ [r]
      else if vr_end (last ranges) < vr_end r
        then butlast ranges @ [VersionRange (vr_start (last ranges)) (vr_end r)]
      else ranges)"

fun merge_loop :: "version_range list \<Rightarrow> version_range list \<Rightarrow> version_range list \<Rightarrow> version_range list" where
  "merge_loop (l # left) (r # right) merged =
     (if vr_start l \<le> vr_start r then merge_loop left (r # right) (merge_back merged l)
      else merge_loop (l # left) right (merge_back merged r))"
| "merge_loop left [] merged = foldl merge_back merged left"
| "merge_loop [] right merged = foldl merge_back merged right"

definition ranges_merge :: "version_range list \<Rightarrow> version_range list \<Rightarrow> version_range list" where
  "ranges_merge left right =
     (if left \<noteq> [] \<and> right \<noteq> [] \<and> vr_start (last left) \<le> vr_start (hd right)
      then foldl merge_back left right
      else merge_loop left right [])"

definition ranges_of :: "int \<Rightarrow> int \<Rightarrow> version_range list" where
  "ranges_of s e = (if s < e then [VersionRange s e] else [])"

definition ranges_merge_one :: "version_range list \<Rightarrow> version_range \<Rightarrow> version_range list" where
  "ranges_merge_one ranges r = ranges_merge ranges (ranges_of (vr_start r) (vr_end r))"

subsection \<open>Searching\<close>

function find_range :: "int \<Rightarrow> version_range list \<Rightarrow> nat \<Rightarrow> nat \<Rightarrow> nat option" where
  "find_range target ranges low high =
     (if low \<le> high then
        (let index = (high - low) div 2 + low
         in if vr_contains (ranges ! index) target then Some index
            else if target < vr_start (ranges ! index) then
              (if index = 0 then None else find_range target ranges low (index - 1))
            else find_range target ranges (index + 1) high)
      else None)"
  by pat_completeness auto
termination
  by (relation "measure (\<lambda>(t, rs, low, high). high + 1 - low)") auto

declare find_range.simps [simp del]

definition ranges_find :: "int \<Rightarrow> version_range list \<Rightarrow> nat option" where
  "ranges_find target ranges =
     (if ranges = [] then None else find_range target ranges 0 (length ranges - 1))"

definition ranges_contains :: "int \<Rightarrow> version_range list \<Rightarrow> bool" where
  "ranges_contains target ranges = (ranges_find target ranges \<noteq> None)"

definition ranges_contains_end :: "int \<Rightarrow> version_range list \<Rightarrow> int option" where
  "ranges_contains_end target ranges = map_option (\<lambda>i. vr_end (ranges ! i)) (ranges_find target ranges)"

subsection \<open>Splitting and removing\<close>

text \<open>\<open>Split\<close> takes ranges off the back: its loop runs over the reversed vector.\<close>

fun split_loop :: "int \<Rightarrow> version_range list \<Rightarrow> version_range list \<Rightarrow> version_range list \<times> version_range list" where
  "split_loop endVersion [] remainder = ([], remainder)"
| "split_loop endVersion (r # rs) remainder =
     (if endVersion \<le> vr_start r then split_loop endVersion rs (remainder @ [r])
      else if endVersion \<ge> vr_end r then (r # rs, remainder)
      else (VersionRange (vr_start r) endVersion # rs, remainder @ [VersionRange endVersion (vr_end r)]))"

definition ranges_split :: "int \<Rightarrow> version_range list \<Rightarrow> version_range list \<times> version_range list" where
  "ranges_split endVersion ranges =
     (let (kept, remainder) = split_loop endVersion (rev ranges) [] in (rev kept, rev remainder))"

definition ranges_remove_version :: "int \<Rightarrow> version_range list \<Rightarrow> version_range list" where
  "ranges_remove_version version ranges =
     (case ranges_find version ranges of
        None \<Rightarrow> ranges
      | Some i \<Rightarrow>
          (let r = ranges ! i
           in if version = vr_start r then
                (if version + 1 \<ge> vr_end r then take i ranges @ drop (i + 1) ranges
                 else ranges[i := VersionRange (version + 1) (vr_end r)])
              else if version = vr_end r - 1 then ranges[i := VersionRange (vr_start r) version]
              else take i ranges @ [VersionRange (vr_start r) version, VersionRange (version + 1) (vr_end r)]
                   @ drop (i + 1) ranges))"

definition ranges_remove :: "version_range \<Rightarrow> version_range list \<Rightarrow> version_range list" where
  "ranges_remove versionRange ranges =
     (let startVersion = vr_start versionRange; endVersion = vr_end versionRange
      in if startVersion < endVersion then
           (let startIndex = length (takeWhile (\<lambda>r. vr_end r \<le> startVersion) ranges);
                endIndex = startIndex + length (takeWhile (\<lambda>r. vr_start r < endVersion) (drop startIndex ranges))
            in if startIndex < endIndex then
                 (let endIndex = endIndex - 1;
                      new1 = (if vr_start (ranges ! startIndex) < startVersion
                              then snd (ranges_add (VersionRange (vr_start (ranges ! startIndex)) startVersion) [])
                              else []);
                      new2 = (if vr_end (ranges ! endIndex) > endVersion
                              then snd (ranges_add (VersionRange endVersion (vr_end (ranges ! endIndex))) new1)
                              else new1);
                      rest = take startIndex ranges @ drop (endIndex + 1) ranges
                  in if new2 \<noteq> [] then ranges_merge rest new2 else rest)
               else ranges)
         else ranges)"

fun ranges_test_remove :: "version_range list \<Rightarrow> version_range list \<Rightarrow> version_range list" where
  "ranges_test_remove [] ranges = ranges"
| "ranges_test_remove (r # rs) ranges = ranges_test_remove rs (ranges_remove r ranges)"

text \<open>
  The step of the optimised removal: what to keep, what remains of the range to check, and which of
  the two positions advances.
\<close>

record remove_step =
  rs_keep :: "version_range option"
  rs_remainder :: "version_range option"
  rs_advance_check :: bool
  rs_advance_remove :: bool

definition remove_compare :: "version_range \<Rightarrow> version_range \<Rightarrow> remove_step" where
  "remove_compare rangeToCheck rangeToRemove =
     (let checkStart = vr_start rangeToCheck; checkEnd = vr_end rangeToCheck;
          removeStart = vr_start rangeToRemove; removeEnd = vr_end rangeToRemove
      in if removeStart \<le> checkStart \<and> removeEnd \<le> checkStart then
           \<lparr>rs_keep = None, rs_remainder = None, rs_advance_check = False, rs_advance_remove = True\<rparr>
         else if removeStart \<le> checkStart \<and> removeEnd < checkEnd then
           \<lparr>rs_keep = None, rs_remainder = Some (VersionRange removeEnd checkEnd),
            rs_advance_check = False, rs_advance_remove = True\<rparr>
         else if removeStart \<le> checkStart \<and> removeEnd \<ge> checkEnd then
           \<lparr>rs_keep = None, rs_remainder = None, rs_advance_check = True, rs_advance_remove = False\<rparr>
         else if removeStart \<ge> checkEnd \<and> removeEnd \<ge> checkEnd then
           \<lparr>rs_keep = Some (VersionRange checkStart checkEnd), rs_remainder = None,
            rs_advance_check = True, rs_advance_remove = False\<rparr>
         else if removeStart > checkStart \<and> removeEnd \<ge> checkEnd then
           \<lparr>rs_keep = Some (VersionRange checkStart removeStart), rs_remainder = None,
            rs_advance_check = True, rs_advance_remove = False\<rparr>
         else
           \<lparr>rs_keep = Some (VersionRange checkStart removeStart),
            rs_remainder = Some (VersionRange removeEnd checkEnd),
            rs_advance_check = False, rs_advance_remove = True\<rparr>)"

lemma remove_compare_advances:
  "rs_advance_check (remove_compare c r) \<noteq> rs_advance_remove (remove_compare c r)"
  by (simp add: remove_compare_def Let_def)

function remove_loop :: "version_range list \<Rightarrow> version_range list \<Rightarrow> version_range option \<Rightarrow> version_range list
    \<Rightarrow> version_range list" where
  "remove_loop (l # left) (r # right) remainder complement =
     (let rangeToCheck = (case remainder of Some m \<Rightarrow> m | None \<Rightarrow> l);
          s = remove_compare rangeToCheck r;
          complement' = complement @ (case rs_keep s of Some k \<Rightarrow> [k] | None \<Rightarrow> [])
      in remove_loop (if rs_advance_check s then left else l # left)
           (if rs_advance_remove s then right else r # right) (rs_remainder s) complement')"
| "remove_loop (l # left) [] remainder complement =
     complement @ (case remainder of Some m \<Rightarrow> m # left | None \<Rightarrow> l # left)"
| "remove_loop [] right remainder complement = complement"
  by pat_completeness auto
termination
proof (relation "measure (\<lambda>(left, right, rem, c). length left + length right)", goal_cases)
  case 1
  then show ?case by simp
next
  case (2 l left r right remainder complement c s compl')
  then show ?case using remove_compare_advances [of c r] by auto
qed

definition ranges_remove_all :: "version_range list \<Rightarrow> version_range list \<Rightarrow> version_range list" where
  "ranges_remove_all right left =
     (if left = [] \<or> right = [] then left else remove_loop left right None [])"

record version_range_collection =
  vc_ranges :: "version_range list"
  vc_initial :: int

definition vc_new :: "int \<Rightarrow> version_range_collection" where
  "vc_new initialVersion = \<lparr>vc_ranges = [], vc_initial = initialVersion\<rparr>"

definition vc_of :: "int \<Rightarrow> int \<Rightarrow> version_range_collection" where
  "vc_of startVersion endVersion = \<lparr>vc_ranges = ranges_of startVersion endVersion, vc_initial = 1\<rparr>"

definition vc_end_version :: "version_range_collection \<Rightarrow> int" where
  "vc_end_version c = (if vc_ranges c = [] then vc_initial c else vr_end (vc_ranges c ! (length (vc_ranges c) - 1)))"

definition vc_start_version :: "version_range_collection \<Rightarrow> int" where
  "vc_start_version c = (if vc_ranges c = [] then int64_max else vr_start (vc_ranges c ! 0))"

definition vc_add_range :: "int \<Rightarrow> int \<Rightarrow> version_range_collection \<Rightarrow> (bool \<times> version_range_collection) option" where
  "vc_add_range s e c = do {
     r \<leftarrow> make_version_range s e;
     (let (added, ranges) = ranges_add r (vc_ranges c) in Some (added, c\<lparr>vc_ranges := ranges\<rparr>))
   }"

definition vc_split :: "int \<Rightarrow> version_range_collection \<Rightarrow> version_range_collection \<times> version_range_collection" where
  "vc_split endVersion c =
     (let (kept, remainder) = ranges_split endVersion (vc_ranges c)
      in (c\<lparr>vc_ranges := kept\<rparr>, \<lparr>vc_ranges = remainder, vc_initial = vc_initial c\<rparr>))"

definition vc_remove_first :: "version_range_collection \<Rightarrow> version_range_collection" where
  "vc_remove_first c = c\<lparr>vc_ranges := tl (vc_ranges c)\<rparr>"

definition vc_clear :: "version_range_collection \<Rightarrow> version_range_collection" where
  "vc_clear c = c\<lparr>vc_ranges := []\<rparr>"

text \<open>\<open>Swap\<close> exchanges the ranges but only takes over the other collection's initial version.\<close>

definition vc_swap :: "version_range_collection \<Rightarrow> version_range_collection
    \<Rightarrow> version_range_collection \<times> version_range_collection" where
  "vc_swap c other =
     (c\<lparr>vc_ranges := vc_ranges other, vc_initial := vc_initial other\<rparr>, other\<lparr>vc_ranges := vc_ranges c\<rparr>)"

subsection \<open>The set of versions and the form of a collection\<close>

definition versions :: "version_range list \<Rightarrow> int set" where
  "versions rs = (\<Union>r\<in>set rs. {vr_start r..<vr_end r})"

definition ranges_ok :: "version_range list \<Rightarrow> bool" where
  "ranges_ok rs \<longleftrightarrow> (\<forall>r\<in>set rs. vr_start r < vr_end r) \<and> sorted_wrt (\<lambda>a b. vr_end a < vr_start b) rs"

lemma versions_simps [simp]:
  "versions [] = {}" "versions (r # rs) = {vr_start r..<vr_end r} \<union> versions rs"
  "versions (rs @ ss) = versions rs \<union> versions ss" "versions (rev rs) = versions rs"
  by (auto simp: versions_def)

lemma ranges_ok_simps [simp]:
  "ranges_ok []"
  "ranges_ok (r # rs) \<longleftrightarrow> vr_start r < vr_end r \<and> (\<forall>q\<in>set rs. vr_end r < vr_start q) \<and> ranges_ok rs"
  "ranges_ok (rs @ ss) \<longleftrightarrow> ranges_ok rs \<and> ranges_ok ss \<and> (\<forall>r\<in>set rs. \<forall>s\<in>set ss. vr_end r < vr_start s)"
  by (auto simp: ranges_ok_def sorted_wrt_append)

lemma mem_versions: "v \<in> versions rs \<longleftrightarrow> (\<exists>r\<in>set rs. vr_start r \<le> v \<and> v < vr_end r)"
  by (auto simp: versions_def)

lemma versions_memI: "r \<in> set rs \<Longrightarrow> vr_start r \<le> v \<Longrightarrow> v < vr_end r \<Longrightarrow> v \<in> versions rs"
  by (auto simp: versions_def)

lemma versions_bounds:
  "v \<in> versions rs \<Longrightarrow> (\<And>r. r \<in> set rs \<Longrightarrow> m \<le> vr_start r) \<Longrightarrow> m \<le> v"
  "v \<in> versions rs \<Longrightarrow> (\<And>r. r \<in> set rs \<Longrightarrow> vr_end r \<le> m) \<Longrightarrow> v < m"
  by (fastforce simp: mem_versions)+

lemma versions_after: "ranges_ok (r # rs) \<Longrightarrow> v \<in> versions rs \<Longrightarrow> vr_end r < v"
  by (fastforce simp: mem_versions)

text \<open>The form is canonical: two collections in form with the same versions are the same vector.\<close>

lemma ranges_canonical:
  "ranges_ok rs \<Longrightarrow> ranges_ok ss \<Longrightarrow> versions rs = versions ss \<Longrightarrow> rs = ss"
proof (induction rs arbitrary: ss)
  case Nil
  show ?case
  proof (cases ss)
    case (Cons s ss')
    with Nil have "vr_start s \<in> versions ss" by simp
    with Nil show ?thesis by simp
  qed simp
next
  case (Cons r rs)
  have "vr_start r \<in> versions ss" using Cons.prems by (metis (no_types) Un_iff atLeastLessThan_iff order_refl ranges_ok_simps(2) versions_simps(2))
  then obtain s ss' where ss: "ss = s # ss'" by (cases ss) auto
  have r: "vr_start r < vr_end r" "\<And>v. v \<in> versions rs \<Longrightarrow> vr_end r < v" "ranges_ok rs"
    using Cons.prems(1) versions_after [of r rs] by auto
  have s: "vr_start s < vr_end s" "\<And>v. v \<in> versions ss' \<Longrightarrow> vr_end s < v" "ranges_ok ss'"
    using Cons.prems(2) versions_after [of s ss'] by (auto simp: ss)
  have eq: "(vr_start r \<le> v \<and> v < vr_end r) \<or> v \<in> versions rs \<longleftrightarrow>
      (vr_start s \<le> v \<and> v < vr_end s) \<or> v \<in> versions ss'" for v
    using Cons.prems(3) by (auto simp: ss set_eq_iff)
  have start: "vr_start r = vr_start s"
    using eq [of "vr_start r"] eq [of "vr_start s"] r s by force
  have stop: "vr_end r = vr_end s"
    using eq [of "vr_end r"] eq [of "vr_end s"] r(1) s(1) r(2) [of "vr_end r"] s(2) [of "vr_end s"]
      r(2) [of "vr_end s"] s(2) [of "vr_end r"] start by fastforce
  have "v \<in> versions rs \<longleftrightarrow> v \<in> versions ss'" for v
    using eq [of v] r(2) [of v] s(2) [of v] start stop by force
  then have "rs = ss'" using Cons.IH r(3) s(3) by blast
  with start stop show ?case by (cases r; cases s) (simp add: ss)
qed

subsection \<open>What each operation does\<close>

lemma takeWhile_split:
  "xs = takeWhile P xs @ drop (length (takeWhile P xs)) xs"
  by (metis append_take_drop_id takeWhile_eq_take)

lemma drop_takeWhile: "drop (length (takeWhile P xs)) xs = dropWhile P xs"
  by (metis dropWhile_eq_drop)

lemma dropWhile_first: "dropWhile P xs = y # ys \<Longrightarrow> \<not> P y"
  by (metis hd_dropWhile list.distinct(1) list.sel(1))

lemma ranges_okD: "ranges_ok rs \<Longrightarrow> r \<in> set rs \<Longrightarrow> vr_start r < vr_end r"
  by (simp add: ranges_ok_def)

text \<open>The block of ranges that meets \<open>s..e\<close>, and what is left and right of it.\<close>

lemma ranges_block:
  fixes rs :: "version_range list" and s e :: int
  defines "A \<equiv> takeWhile (\<lambda>r. vr_end r < s) rs" and "D \<equiv> dropWhile (\<lambda>r. vr_end r < s) rs"
  defines "B \<equiv> takeWhile (\<lambda>r. vr_start r \<le> e) D" and "C \<equiv> dropWhile (\<lambda>r. vr_start r \<le> e) D"
  assumes ok: "ranges_ok rs"
  shows "rs = A @ B @ C" "\<forall>r\<in>set A. vr_end r < s" "\<forall>r\<in>set C. e < vr_start r"
    "\<forall>r\<in>set B. s \<le> vr_end r \<and> vr_start r \<le> e"
proof -
  show rs: "rs = A @ B @ C" by (simp add: A_def B_def C_def D_def)
  show "\<forall>r\<in>set A. vr_end r < s" by (auto simp: A_def dest: set_takeWhileD)
  have D: "D = B @ C" by (simp add: B_def C_def)
  have okD: "ranges_ok D" using ok rs by (simp add: D)
  show "\<forall>r\<in>set C. e < vr_start r"
  proof (cases C)
    case (Cons c C')
    then have "\<not> vr_start c \<le> e" unfolding C_def by (rule dropWhile_first)
    with Cons okD show ?thesis by (fastforce simp: D)
  qed simp
  have "s \<le> vr_end r" if "r \<in> set D" for r
  proof (cases D)
    case (Cons d D')
    then have "\<not> vr_end d < s" unfolding D_def by (rule dropWhile_first)
    moreover have "vr_end d \<le> vr_end r"
    proof (cases "r = d")
      case False
      then have "vr_end d < vr_start r" using Cons okD that by simp
      with ranges_okD [OF okD that] show ?thesis by simp
    qed simp
    ultimately show ?thesis by simp
  qed (use that in simp)
  then show "\<forall>r\<in>set B. s \<le> vr_end r \<and> vr_start r \<le> e"
    unfolding B_def by (auto dest: set_takeWhileD)
qed

lemma ranges_ok_hd_last:
  assumes "ranges_ok B" "B \<noteq> []" "r \<in> set B"
  shows "vr_start (hd B) \<le> vr_start r" "vr_end r \<le> vr_end (last B)"
proof -
  show "vr_start (hd B) \<le> vr_start r" using assms by (cases B) auto
  show "vr_end r \<le> vr_end (last B)" using assms by (cases B rule: rev_cases) fastforce+
qed

lemma block_versions:
  assumes "ranges_ok B" "B \<noteq> []" "\<forall>r\<in>set B. s \<le> vr_end r \<and> vr_start r \<le> e" "s < e"
  shows "{min s (vr_start (hd B))..<max e (vr_end (last B))} = versions B \<union> {s..<e}"
proof (rule set_eqI)
  fix v
  have hl: "hd B \<in> set B" "last B \<in> set B" using assms(2) by simp_all
  have "v \<in> versions B \<Longrightarrow> vr_start (hd B) \<le> v \<and> v < vr_end (last B)"
    using ranges_ok_hd_last [OF assms(1,2)] by (fastforce simp: mem_versions)
  moreover have "vr_start (hd B) \<le> v \<Longrightarrow> v < s \<Longrightarrow> v \<in> versions B"
    using assms(3) hl(1) by (intro versions_memI [of "hd B"]) fastforce+
  moreover have "e \<le> v \<Longrightarrow> v < vr_end (last B) \<Longrightarrow> v \<in> versions B"
    using assms(3) hl(2) by (intro versions_memI [of "last B"]) fastforce+
  ultimately have "v \<in> versions B \<longrightarrow> vr_start (hd B) \<le> v \<and> v < vr_end (last B)"
    "v \<notin> versions B \<longrightarrow> \<not> (vr_start (hd B) \<le> v \<and> v < s) \<and> \<not> (e \<le> v \<and> v < vr_end (last B))" by blast+
  then show "v \<in> {min s (vr_start (hd B))..<max e (vr_end (last B))} \<longleftrightarrow> v \<in> versions B \<union> {s..<e}"
    using assms(4) by (auto simp: min_le_iff_disj less_max_iff_disj)
qed

lemma block_nth:
  assumes "rs = A @ B @ C" "B \<noteq> []"
  shows "rs ! length A = hd B" "rs ! (length A + length B - 1) = last B"
proof -
  show "rs ! length A = hd B" using assms by (simp add: nth_append hd_conv_nth)
  have "length A + length B - 1 = length A + (length B - 1)" "length B - 1 < length B"
    using assms(2) by (cases B; simp)+
  moreover have "(A @ B @ C) ! (length A + (length B - 1)) = (B @ C) ! (length B - 1)"
    by (rule nth_append_length_plus)
  ultimately show "rs ! (length A + length B - 1) = last B"
    using assms by (simp only: nth_append if_True last_conv_nth not_False_eq_True)
qed

lemma ranges_add_split:
  assumes ok: "ranges_ok rs" and lt: "vr_start r < vr_end r"
  obtains A B C n where "rs = A @ B @ C" "n = (if B = [] then r else
      VersionRange (min (vr_start r) (vr_start (hd B))) (max (vr_end r) (vr_end (last B))))"
    "ranges_add r rs = (if B = [n] then (False, rs) else (True, A @ n # C))"
    "\<forall>q\<in>set A. vr_end q < vr_start r" "\<forall>q\<in>set C. vr_end r < vr_start q"
    "\<forall>q\<in>set B. vr_start r \<le> vr_end q \<and> vr_start q \<le> vr_end r"
proof -
  define A B C where "A = takeWhile (\<lambda>q. vr_end q < vr_start r) rs"
    "B = takeWhile (\<lambda>q. vr_start q \<le> vr_end r) (dropWhile (\<lambda>q. vr_end q < vr_start r) rs)"
    "C = dropWhile (\<lambda>q. vr_start q \<le> vr_end r) (dropWhile (\<lambda>q. vr_end q < vr_start r) rs)"
  note ABC = this
  note block = ranges_block(1) [OF ok, of "vr_start r" "vr_end r", folded ABC]
    ranges_block(2) [OF ok, of "vr_start r", folded ABC]
    ranges_block(3) [OF ok, of "vr_end r" "vr_start r", folded ABC]
    ranges_block(4) [OF ok, of "vr_end r" "vr_start r", folded ABC]
  let ?n = "if B = [] then r else VersionRange (min (vr_start r) (vr_start (hd B))) (max (vr_end r) (vr_end (last B)))"
  note nth = block_nth [OF block(1)]
  have "ranges_add r rs = (if B = [?n] then (False, rs) else (True, A @ ?n # C))"
  proof -
    have fold: "length (takeWhile (\<lambda>q. vr_end q < vr_start r) rs) = length A"
      "takeWhile (\<lambda>q. vr_start q \<le> vr_end r) (drop (length A) rs) = B"
      unfolding ABC drop_takeWhile by (rule refl)+
    have cut: "take (length A) rs = A" "drop (length A + length B) rs = C" using block(1) by auto
    have single: "length B = Suc 0 \<and> vr_start (hd B) = s \<and> vr_end (hd B) = e \<longleftrightarrow> B = [VersionRange s e]" for s e
      by (cases B) (auto intro: version_range.expand)
    show ?thesis
    proof (cases "B = []")
      case True
      then show ?thesis using lt cut unfolding ranges_add_def Let_def fold by simp
    next
      case False
      then show ?thesis
        using lt cut nth [OF False] single unfolding ranges_add_def Let_def fold by simp
    qed
  qed
  then show thesis using that [of A B C ?n] block by blast
qed

lemma ranges_add_empty: "\<not> vr_start r < vr_end r \<Longrightarrow> ranges_add r rs = (False, rs)"
  by (simp add: ranges_add_def Let_def)

lemma ranges_add_correct:
  assumes ok: "ranges_ok rs"
  shows "ranges_ok (snd (ranges_add r rs))"
    and "versions (snd (ranges_add r rs)) = versions rs \<union> {vr_start r..<vr_end r}"
    and "fst (ranges_add r rs) \<longleftrightarrow> snd (ranges_add r rs) \<noteq> rs"
proof -
  have "ranges_ok (snd (ranges_add r rs)) \<and> versions (snd (ranges_add r rs)) = versions rs \<union> {vr_start r..<vr_end r}
    \<and> (fst (ranges_add r rs) \<longleftrightarrow> snd (ranges_add r rs) \<noteq> rs)"
  proof (cases "vr_start r < vr_end r")
    case True
    obtain A B C n where rs: "rs = A @ B @ C" and n: "n = (if B = [] then r else
        VersionRange (min (vr_start r) (vr_start (hd B))) (max (vr_end r) (vr_end (last B))))"
      and add: "ranges_add r rs = (if B = [n] then (False, rs) else (True, A @ n # C))"
      and A: "\<forall>q\<in>set A. vr_end q < vr_start r" and C: "\<forall>q\<in>set C. vr_end r < vr_start q"
      and B: "\<forall>q\<in>set B. vr_start r \<le> vr_end q \<and> vr_start q \<le> vr_end r"
      by (rule ranges_add_split [OF ok True])
    have okB: "ranges_ok B" using ok rs by simp
    have hl: "B \<noteq> [] \<Longrightarrow> hd B \<in> set B \<and> last B \<in> set B" by simp
    have nv: "{vr_start n..<vr_end n} = versions B \<union> {vr_start r..<vr_end r}"
      using block_versions [OF okB _ B True] by (simp add: n)
    have nA: "\<forall>q\<in>set A. vr_end q < vr_start n" and nC: "\<forall>q\<in>set C. vr_end n < vr_start q"
      using A C ok hl by (auto simp: n rs)
    have "vr_start n < vr_end n" using True by (auto simp: n)
    moreover have "\<forall>q\<in>set A. \<forall>p\<in>set C. vr_end q < vr_start p" using ok by (simp add: rs)
    ultimately have okn: "ranges_ok (A @ n # C)" using ok nA nC by (auto simp: rs)
    have vn: "versions (A @ n # C) = versions rs \<union> {vr_start r..<vr_end r}" using nv by (auto simp: rs)
    show ?thesis
    proof (cases "B = [n]")
      case True
      then have "A @ n # C = rs" by (simp add: rs)
      then show ?thesis using add True ok vn by simp
    next
      case False
      then have "A @ n # C \<noteq> rs" by (auto simp: rs append_eq_append_conv2 Cons_eq_append_conv)
      then show ?thesis using add False okn vn by simp
    qed
  next
    case False
    then show ?thesis using ok by (simp add: ranges_add_empty)
  qed
  then show "ranges_ok (snd (ranges_add r rs))"
    and "versions (snd (ranges_add r rs)) = versions rs \<union> {vr_start r..<vr_end r}"
    and "fst (ranges_add r rs) \<longleftrightarrow> snd (ranges_add r rs) \<noteq> rs" by blast+
qed

lemma ranges_test_add_correct:
  "ranges_ok rs \<Longrightarrow> ranges_ok (snd (ranges_test_add ss rs)) \<and>
    versions (snd (ranges_test_add ss rs)) = versions rs \<union> versions ss"
proof (induction ss arbitrary: rs)
  case Nil
  then show ?case by simp
next
  case (Cons s ss)
  with Cons.IH [of "snd (ranges_add s rs)"] show ?case
    by (simp add: ranges_add_correct split_beta Un_assoc)
qed

subsection \<open>Merging\<close>

lemma merge_back_correct:
  assumes ok: "ranges_ok acc" and r: "vr_start r < vr_end r" "acc \<noteq> [] \<Longrightarrow> vr_start (last acc) \<le> vr_start r"
  shows "ranges_ok (merge_back acc r) \<and> merge_back acc r \<noteq> [] \<and> vr_start (last (merge_back acc r)) \<le> vr_start r \<and>
    versions (merge_back acc r) = versions acc \<union> {vr_start r..<vr_end r}"
proof (cases acc rule: rev_cases)
  case Nil
  then show ?thesis using r by (simp add: merge_back_def)
next
  case (snoc ys y)
  show ?thesis
  proof (cases "vr_end y < vr_start r")
    case True
    have "vr_end q < vr_start r" if "q \<in> set ys" for q
      using ok that True ranges_okD [OF ok, of y] by (fastforce simp: snoc)
    then show ?thesis using ok r True by (auto simp: merge_back_def snoc)
  next
    case False
    have y: "vr_start y \<le> vr_start r" "vr_start y < vr_end y" using r(2) ok by (simp_all add: snoc)
    show ?thesis using ok y False r(1) by (auto simp: merge_back_def snoc)
  qed
qed

lemma ranges_ok_next: "ranges_ok (r # rs) \<Longrightarrow> rs \<noteq> [] \<Longrightarrow> vr_start r \<le> vr_start (hd rs)"
  by (cases rs) auto

lemma fold_merge_back:
  assumes "ranges_ok acc" "ranges_ok rs" "acc \<noteq> [] \<Longrightarrow> rs \<noteq> [] \<Longrightarrow> vr_start (last acc) \<le> vr_start (hd rs)"
  shows "ranges_ok (foldl merge_back acc rs) \<and> versions (foldl merge_back acc rs) = versions acc \<union> versions rs"
  using assms
proof (induction rs arbitrary: acc)
  case Nil
  then show ?case by simp
next
  case (Cons r rs)
  have step: "ranges_ok (merge_back acc r)" "vr_start (last (merge_back acc r)) \<le> vr_start r"
    "versions (merge_back acc r) = versions acc \<union> {vr_start r..<vr_end r}"
    using merge_back_correct [of acc r] Cons.prems by simp_all
  have "rs \<noteq> [] \<Longrightarrow> vr_start (last (merge_back acc r)) \<le> vr_start (hd rs)"
    using step(2) ranges_ok_next [OF Cons.prems(2)] by (rule order_trans)
  with Cons.IH [of "merge_back acc r"] step Cons.prems(2) show ?case by (simp add: Un_assoc)
qed

lemma merge_loop_correct:
  assumes "ranges_ok merged" "ranges_ok left" "ranges_ok right"
    "merged \<noteq> [] \<Longrightarrow> left \<noteq> [] \<Longrightarrow> vr_start (last merged) \<le> vr_start (hd left)"
    "merged \<noteq> [] \<Longrightarrow> right \<noteq> [] \<Longrightarrow> vr_start (last merged) \<le> vr_start (hd right)"
  shows "ranges_ok (merge_loop left right merged) \<and>
    versions (merge_loop left right merged) = versions merged \<union> versions left \<union> versions right"
  using assms
proof (induction left right merged rule: merge_loop.induct)
  case (1 l left r right merged)
  have hd: "left \<noteq> [] \<Longrightarrow> vr_start l \<le> vr_start (hd left)" "right \<noteq> [] \<Longrightarrow> vr_start r \<le> vr_start (hd right)"
    using ranges_ok_next 1(4,5) by blast+
  show ?case
  proof (cases "vr_start l \<le> vr_start r")
    case True
    have step: "ranges_ok (merge_back merged l) \<and> vr_start (last (merge_back merged l)) \<le> vr_start l \<and>
        versions (merge_back merged l) = versions merged \<union> {vr_start l..<vr_end l}"
      using merge_back_correct [of merged l] 1(3,4,6) by simp
    have next_left: "left \<noteq> [] \<Longrightarrow> vr_start (last (merge_back merged l)) \<le> vr_start (hd left)"
      using step hd(1) by (blast intro: order_trans)
    have next_right: "vr_start (last (merge_back merged l)) \<le> vr_start r" using step True by simp
    show ?thesis using 1(1) [OF True] step 1(4,5) True next_left next_right by (simp add: Un_assoc)
  next
    case False
    have step: "ranges_ok (merge_back merged r) \<and> vr_start (last (merge_back merged r)) \<le> vr_start r \<and>
        versions (merge_back merged r) = versions merged \<union> {vr_start r..<vr_end r}"
      using merge_back_correct [of merged r] 1(3,5,7) by simp
    have next_right: "right \<noteq> [] \<Longrightarrow> vr_start (last (merge_back merged r)) \<le> vr_start (hd right)"
      using step hd(2) by (blast intro: order_trans)
    have next_left: "vr_start (last (merge_back merged r)) \<le> vr_start l" using step False by simp
    show ?thesis using 1(2) [OF False] step 1(4,5) False next_left next_right by (simp add: Un_ac)
  qed
next
  case (2 left merged)
  then show ?case using fold_merge_back [of merged left] by simp
next
  case (3 r right merged)
  then show ?case using fold_merge_back [of merged "r # right"] by simp
qed

lemma ranges_merge_correct:
  assumes "ranges_ok left" "ranges_ok right"
  shows "ranges_ok (ranges_merge left right)" "versions (ranges_merge left right) = versions left \<union> versions right"
  using fold_merge_back [OF assms] merge_loop_correct [of "[]" left right] assms
  by (auto simp: ranges_merge_def)

subsection \<open>Searching\<close>

lemma find_range_correct:
  assumes "ranges_ok rs" "high < length rs"
  shows "case find_range t rs low high of
      Some i \<Rightarrow> low \<le> i \<and> i \<le> high \<and> vr_contains (rs ! i) t
    | None \<Rightarrow> \<forall>i. low \<le> i \<and> i \<le> high \<longrightarrow> \<not> vr_contains (rs ! i) t"
  using assms
proof (induction t rs low high rule: find_range.induct)
  case (1 t rs low high)
  have order: "vr_end (rs ! i) < vr_start (rs ! j)" if "i < j" "j < length rs" for i j
    using 1(3) that by (simp add: ranges_ok_def sorted_wrt_iff_nth_less)
  have pos: "vr_start (rs ! i) < vr_end (rs ! i)" if "i < length rs" for i
    using 1(3) that by (simp add: ranges_ok_def)
  show ?case
  proof (cases "low \<le> high")
    case False
    then show ?thesis by (subst find_range.simps) auto
  next
    case le: True
    define m where "m = (high - low) div 2 + low"
    have m: "low \<le> m" "m \<le> high" "m < length rs" using le 1(4) by (auto simp: m_def)
    note eq = find_range.simps [of t rs low high, folded m_def, unfolded Let_def]
    consider (hit) "vr_contains (rs ! m) t" | (left) "t < vr_start (rs ! m)" | (right) "vr_end (rs ! m) \<le> t"
      unfolding vr_contains_def by linarith
    then show ?thesis
    proof cases
      case hit
      then show ?thesis using le m by (simp add: eq)
    next
      case left
      have above: "\<not> vr_contains (rs ! i) t" if "m \<le> i" "i \<le> high" for i
      proof -
        have "vr_start (rs ! m) \<le> vr_start (rs ! i)"
          using order [of m i] pos [of m] that 1(4) m by (cases "i = m") auto
        then show ?thesis using left by (simp add: vr_contains_def)
      qed
      have miss: "\<not> vr_contains (rs ! m) t" using left by (simp add: vr_contains_def)
      show ?thesis
      proof (cases "m = 0")
        case True
        then show ?thesis using le left miss above by (simp add: eq)
      next
        case False
        have "m - 1 < length rs" using m by simp
        note IH = 1(1) [OF le m_def miss left False 1(3) this]
        have step: "find_range t rs low high = find_range t rs low (m - 1)"
          using le miss left False by (simp add: eq)
        show ?thesis
        proof (cases "find_range t rs low (m - 1)")
          case None
          have "\<not> vr_contains (rs ! i) t" if "low \<le> i" "i \<le> high" for i
            using IH [unfolded None] above [of i] that False by (cases "m \<le> i") auto
          then show ?thesis unfolding step None by simp
        next
          case (Some i)
          with IH m show ?thesis unfolding step Some by auto
        qed
      qed
    next
      case right
      have below: "\<not> vr_contains (rs ! i) t" if "i \<le> m" for i
      proof -
        have "vr_end (rs ! i) \<le> vr_end (rs ! m)"
          using order [of i m] pos [of m] that m by (cases "i = m") auto
        then show ?thesis using right by (simp add: vr_contains_def)
      qed
      have miss: "\<not> vr_contains (rs ! m) t" "\<not> t < vr_start (rs ! m)"
        using right pos [of m] m by (auto simp: vr_contains_def)
      from 1(2) [OF le m_def miss 1(3,4)] le miss m below show ?thesis
        by (auto simp: eq not_le Suc_le_eq split: option.splits) (metis not_le)
    qed
  qed
qed

lemma ranges_find_correct:
  assumes ok: "ranges_ok rs"
  shows "ranges_find t rs = None \<Longrightarrow> t \<notin> versions rs"
    and "ranges_find t rs = Some i \<Longrightarrow> i < length rs \<and> vr_start (rs ! i) \<le> t \<and> t < vr_end (rs ! i)"
proof -
  show "t \<notin> versions rs" if "ranges_find t rs = None"
  proof (cases "rs = []")
    case False
    with that find_range_correct [where t = t and low = 0, OF ok, of "length rs - 1"] show ?thesis
      by (fastforce simp: ranges_find_def mem_versions vr_contains_def in_set_conv_nth)
  qed simp
  show "i < length rs \<and> vr_start (rs ! i) \<le> t \<and> t < vr_end (rs ! i)" if "ranges_find t rs = Some i"
    using that find_range_correct [where t = t and low = 0, OF ok, of "length rs - 1"]
    by (cases rs) (auto simp: ranges_find_def vr_contains_def less_Suc_eq_le)
qed

lemma ranges_contains_iff: "ranges_ok rs \<Longrightarrow> ranges_contains t rs \<longleftrightarrow> t \<in> versions rs"
  using ranges_find_correct [of rs t] by (auto simp: ranges_contains_def mem_versions)

subsection \<open>Splitting\<close>

lemma split_loop_correct:
  assumes "split_loop v rs rem = (kept, rem')" "ranges_ok (rev rs @ rev rem)" "\<forall>r\<in>set rem. v \<le> vr_start r"
  shows "ranges_ok (rev kept) \<and> ranges_ok (rev rem') \<and> versions kept = versions rs \<inter> {..<v} \<and>
    versions rem' = versions rem \<union> (versions rs \<inter> {v..})"
  using assms
proof (induction v rs rem arbitrary: kept rem' rule: split_loop.induct)
  case (1 v rem)
  then show ?case by simp
next
  case (2 v r rs rem)
  have below: "vr_end q < vr_start r" if "q \<in> set rs" for q using 2(3) that by simp
  have rp: "vr_start r < vr_end r" using 2(3) by simp
  have rs_below: "x < vr_start r" if "x \<in> versions rs" for x
    using that below by (fastforce simp: mem_versions)
  consider (whole) "v \<le> vr_start r" | (stop) "vr_end r \<le> v" | (cut) "vr_start r < v" "v < vr_end r" by linarith
  then show ?case
  proof cases
    case whole
    with 2(1) [OF whole, of kept rem'] 2(2,3,4) have
      IH: "ranges_ok (rev kept) \<and> ranges_ok (rev rem') \<and> versions kept = versions rs \<inter> {..<v} \<and>
        versions rem' = versions (rem @ [r]) \<union> (versions rs \<inter> {v..})" by simp
    then show ?thesis using whole by auto
  next
    case stop
    with 2(2) rp have eq: "kept = r # rs" "rem' = rem" by auto
    have "x < v" if "x \<in> versions rs" for x using rs_below [OF that] rp stop by simp
    moreover from this have "versions rs \<inter> {v..} = {}" by fastforce
    ultimately show ?thesis using 2(3) stop unfolding eq by auto
  next
    case cut
    with 2(2) have eq: "kept = VersionRange (vr_start r) v # rs" "rem' = rem @ [VersionRange v (vr_end r)]"
      by auto
    have "x < v" if "x \<in> versions rs" for x using rs_below [OF that] cut by simp
    moreover from this have "versions rs \<inter> {v..} = {}" by fastforce
    ultimately show ?thesis using 2(3) cut unfolding eq by auto
  qed
qed

lemma ranges_split_correct:
  assumes "ranges_ok rs" "ranges_split v rs = (kept, rem)"
  shows "ranges_ok kept" "ranges_ok rem" "versions kept = versions rs \<inter> {..<v}" "versions rem = versions rs \<inter> {v..}"
proof -
  obtain k m where "split_loop v (rev rs) [] = (k, m)" "kept = rev k" "rem = rev m"
    using assms(2) by (auto simp: ranges_split_def split: prod.splits)
  with split_loop_correct [of v "rev rs" "[]" k m] assms(1)
  show "ranges_ok kept" "ranges_ok rem" "versions kept = versions rs \<inter> {..<v}" "versions rem = versions rs \<inter> {v..}"
    by simp_all
qed

subsection \<open>Removing\<close>

lemma ranges_remove_version_correct:
  assumes ok: "ranges_ok rs"
  shows "ranges_ok (ranges_remove_version v rs)" "versions (ranges_remove_version v rs) = versions rs - {v}"
proof -
  have "ranges_ok (ranges_remove_version v rs) \<and> versions (ranges_remove_version v rs) = versions rs - {v}"
  proof (cases "ranges_find v rs")
    case None
    then show ?thesis using ranges_find_correct(1) [OF ok None] ok by (simp add: ranges_remove_version_def)
  next
    case (Some i)
    define A r C where "A = take i rs" and "r = rs ! i" and "C = drop (Suc i) rs"
    have i: "i < length rs" "vr_start r \<le> v" "v < vr_end r"
      using ranges_find_correct(2) [OF ok Some] by (simp_all add: r_def)
    have rs: "rs = A @ r # C" using i by (simp add: A_def r_def C_def id_take_nth_drop)
    have len: "length A = i" using i by (simp add: A_def)
    have upd: "rs[i := q] = A @ q # C" for q
      using i(1) by (simp add: A_def C_def upd_conv_take_nth_drop)
    have A: "x < vr_start r" if "x \<in> versions A" for x
      using that ok by (fastforce simp: rs mem_versions)
    have C: "vr_end r < x" if "x \<in> versions C" for x
      using that ok by (fastforce simp: rs mem_versions)
    have eq: "ranges_remove_version v rs =
       (if v = vr_start r then (if v + 1 \<ge> vr_end r then A @ C else A @ VersionRange (v + 1) (vr_end r) # C)
        else if v = vr_end r - 1 then A @ VersionRange (vr_start r) v # C
        else A @ VersionRange (vr_start r) v # VersionRange (v + 1) (vr_end r) # C)"
      by (simp add: ranges_remove_version_def Some Let_def upd flip: A_def r_def C_def)
    have form: "\<forall>q\<in>set A. vr_end q < vr_start r" "\<forall>q\<in>set C. vr_end r < vr_start q"
      "ranges_ok A" "ranges_ok C" "\<forall>a\<in>set A. \<forall>c\<in>set C. vr_end a < vr_start c" "vr_start r < vr_end r"
      using ok by (auto simp: rs)
    have ok': "ranges_ok (A @ B @ C)"
      if "ranges_ok B" "\<forall>b\<in>set B. vr_start r \<le> vr_start b \<and> vr_end b \<le> vr_end r" for B
      using that form by fastforce
    have "versions (ranges_remove_version v rs) = versions A \<union> ({vr_start r..<vr_end r} - {v}) \<union> versions C"
      using i by (auto simp: eq)
    moreover have "\<dots> = versions rs - {v}" using A [of v] C [of v] i by (auto simp: rs)
    moreover have "ranges_ok (ranges_remove_version v rs)"
      using i ok' [of "[]"] ok' [of "[VersionRange (v + 1) (vr_end r)]"] ok' [of "[VersionRange (vr_start r) v]"]
        ok' [of "[VersionRange (vr_start r) v, VersionRange (v + 1) (vr_end r)]"]
      using form by (auto simp: eq)
    ultimately show ?thesis by simp
  qed
  then show "ranges_ok (ranges_remove_version v rs)" "versions (ranges_remove_version v rs) = versions rs - {v}"
    by blast+
qed

lemma ranges_remove_split:
  assumes ok: "ranges_ok rs" and lt: "vr_start r < vr_end r"
  obtains A B C new where "rs = A @ B @ C" "ranges_remove r rs = (if B \<noteq> [] \<and> new \<noteq> [] then ranges_merge (A @ C) new else A @ C)"
    "\<forall>q\<in>set A. vr_end q \<le> vr_start r" "\<forall>q\<in>set C. vr_end r \<le> vr_start q"
    "\<forall>q\<in>set B. vr_start r < vr_end q \<and> vr_start q < vr_end r"
    "new = (if vr_start (hd B) < vr_start r then [VersionRange (vr_start (hd B)) (vr_start r)] else []) @
      (if vr_end (last B) > vr_end r then [VersionRange (vr_end r) (vr_end (last B))] else [])"
proof -
  have int: "(vr_end q \<le> s) = (vr_end q < s + 1)" "(vr_start q < e) = (vr_start q \<le> e - 1)" for q s e by auto
  define A where "A = takeWhile (\<lambda>q. vr_end q \<le> vr_start r) rs"
  define B where "B = takeWhile (\<lambda>q. vr_start q < vr_end r) (dropWhile (\<lambda>q. vr_end q \<le> vr_start r) rs)"
  define C where "C = dropWhile (\<lambda>q. vr_start q < vr_end r) (dropWhile (\<lambda>q. vr_end q \<le> vr_start r) rs)"
  note ABC = A_def B_def C_def
  note ABC' = ABC [unfolded int, symmetric]
  have rs: "rs = A @ B @ C"
    using ranges_block(1) [OF ok, of "vr_start r + 1" "vr_end r - 1"] unfolding ABC' .
  have A: "\<forall>q\<in>set A. vr_end q \<le> vr_start r"
    using ranges_block(2) [OF ok, of "vr_start r + 1"] unfolding ABC' by auto
  have C: "\<forall>q\<in>set C. vr_end r \<le> vr_start q"
    using ranges_block(3) [OF ok, of "vr_end r - 1" "vr_start r + 1"] unfolding ABC' by auto
  have B: "\<forall>q\<in>set B. vr_start r < vr_end q \<and> vr_start q < vr_end r"
    using ranges_block(4) [OF ok, of "vr_end r - 1" "vr_start r + 1"] unfolding ABC' by auto
  have fold: "length (takeWhile (\<lambda>q. vr_end q \<le> vr_start r) rs) = length A"
    "takeWhile (\<lambda>q. vr_start q < vr_end r) (drop (length A) rs) = B"
    unfolding ABC drop_takeWhile by (rule refl)+
  define new where "new = (if vr_start (hd B) < vr_start r then [VersionRange (vr_start (hd B)) (vr_start r)] else []) @
      (if vr_end (last B) > vr_end r then [VersionRange (vr_end r) (vr_end (last B))] else [])"
  have "ranges_remove r rs = (if B \<noteq> [] \<and> new \<noteq> [] then ranges_merge (A @ C) new else A @ C)"
  proof (cases "B = []")
    case True
    then show ?thesis using lt rs unfolding ranges_remove_def Let_def fold by simp
  next
    case False
    have "take (length A) rs = A" "drop (length A + length B) rs = C" using rs by auto
    moreover have "length A + length B - 1 + 1 = length A + length B" using False by (cases B) auto
    moreover note block_nth [OF rs False]
    ultimately show ?thesis
      using False lt unfolding ranges_remove_def Let_def fold new_def
      by (simp add: ranges_add_def)
  qed
  then show thesis by (rule that [OF rs _ A C B new_def])
qed

lemma ranges_remove_correct:
  assumes ok: "ranges_ok rs"
  shows "ranges_ok (ranges_remove r rs)" "versions (ranges_remove r rs) = versions rs - {vr_start r..<vr_end r}"
proof -
  have "ranges_ok (ranges_remove r rs) \<and> versions (ranges_remove r rs) = versions rs - {vr_start r..<vr_end r}"
  proof (cases "vr_start r < vr_end r")
    case False
    then show ?thesis using ok by (simp add: ranges_remove_def Let_def)
  next
    case lt: True
    obtain A B C new where rs: "rs = A @ B @ C"
      and rem: "ranges_remove r rs = (if B \<noteq> [] \<and> new \<noteq> [] then ranges_merge (A @ C) new else A @ C)"
      and A: "\<forall>q\<in>set A. vr_end q \<le> vr_start r" and C: "\<forall>q\<in>set C. vr_end r \<le> vr_start q"
      and B: "\<forall>q\<in>set B. vr_start r < vr_end q \<and> vr_start q < vr_end r"
      and new: "new = (if vr_start (hd B) < vr_start r then [VersionRange (vr_start (hd B)) (vr_start r)] else []) @
        (if vr_end (last B) > vr_end r then [VersionRange (vr_end r) (vr_end (last B))] else [])"
      by (rule ranges_remove_split [OF ok lt])
    have okAC: "ranges_ok (A @ C)" using ok by (simp add: rs)
    have AC: "versions (A @ C) \<inter> {vr_start r..<vr_end r} = {}"
      using A C by (fastforce simp: versions_def)
    have oknew: "ranges_ok new" using lt by (auto simp: new)
    show ?thesis
    proof (cases "B = []")
      case True
      then show ?thesis using rem okAC AC by (auto simp: rs)
    next
      case False
      have okB: "ranges_ok B" using ok by (simp add: rs)
      have hl: "hd B \<in> set B" "last B \<in> set B" using False by simp_all
      have newv: "x \<in> versions new \<longleftrightarrow> (vr_start (hd B) \<le> x \<and> x < vr_start r) \<or> (vr_end r \<le> x \<and> x < vr_end (last B))" for x
        using B hl by (auto simp: new)
      have "versions new = versions B - {vr_start r..<vr_end r}"
      proof (rule set_eqI)
        fix x
        have "x \<in> versions B \<Longrightarrow> vr_start (hd B) \<le> x \<and> x < vr_end (last B)"
          using ranges_ok_hd_last [OF okB False] by (fastforce simp: mem_versions)
        moreover have "vr_start (hd B) \<le> x \<Longrightarrow> x < vr_start r \<Longrightarrow> x \<in> versions B"
          using B hl(1) by (intro versions_memI [of "hd B"]) fastforce+
        moreover have "vr_end r \<le> x \<Longrightarrow> x < vr_end (last B) \<Longrightarrow> x \<in> versions B"
          using B hl(2) by (intro versions_memI [of "last B"]) fastforce+
        ultimately show "x \<in> versions new \<longleftrightarrow> x \<in> versions B - {vr_start r..<vr_end r}"
          using lt by (auto simp: newv)
      qed
      then have "versions rs - {vr_start r..<vr_end r} = versions (A @ C) \<union> versions new"
        using AC by (auto simp: rs)
      then show ?thesis
        using rem False ranges_merge_correct [OF okAC oknew] okAC by (cases "new = []") simp_all
    qed
  qed
  then show "ranges_ok (ranges_remove r rs)" "versions (ranges_remove r rs) = versions rs - {vr_start r..<vr_end r}"
    by blast+
qed

lemma ranges_test_remove_correct:
  "ranges_ok rs \<Longrightarrow> ranges_ok (ranges_test_remove ss rs) \<and> versions (ranges_test_remove ss rs) = versions rs - versions ss"
  by (induction ss arbitrary: rs) (auto simp: ranges_remove_correct)

text \<open>The list still to be checked, the remainder in place of the first range.\<close>

definition to_check :: "version_range list \<Rightarrow> version_range option \<Rightarrow> version_range list" where
  "to_check left remainder = (case remainder of Some m \<Rightarrow> (if left = [] then [] else m # tl left) | None \<Rightarrow> left)"

lemma remove_loop_correct:
  assumes "ranges_ok (complement @ to_check left remainder)" "ranges_ok right"
    and "\<And>m. remainder = Some m \<Longrightarrow> \<forall>r\<in>set right. vr_start m < vr_start r"
  shows "ranges_ok (remove_loop left right remainder complement) \<and>
    versions (remove_loop left right remainder complement) =
      versions complement \<union> (versions (to_check left remainder) - versions right)"
  using assms
proof (induction left right remainder complement rule: remove_loop.induct)
  case (1 l left r right remainder complement)
  define c where "c = (case remainder of Some m \<Rightarrow> m | None \<Rightarrow> l)"
  have tc: "to_check (l # left) remainder = c # left"
    by (simp add: to_check_def c_def split: option.splits)
  have eff: "to_check (l # left) (Some m) = m # left" for m by (simp add: to_check_def)
  have ok: "ranges_ok complement" "vr_start c < vr_end c" "\<forall>q\<in>set left. vr_end c < vr_start q" "ranges_ok left"
    "\<forall>p\<in>set complement. vr_end p < vr_start c" "\<forall>p\<in>set complement. \<forall>q\<in>set left. vr_end p < vr_start q"
    using 1(2) by (auto simp: tc)
  have okr: "vr_start r < vr_end r" "\<forall>q\<in>set right. vr_end r < vr_start q" "ranges_ok right"
    using 1(3) by auto
  have left_above: "vr_end c < x" if "x \<in> versions left" for x using that ok(3) by (fastforce simp: mem_versions)
  have right_above: "vr_end r < x" if "x \<in> versions right" for x using that okr(2) by (fastforce simp: mem_versions)
  have finish: ?case
    if s: "remove_compare c r = \<lparr>rs_keep = keep, rs_remainder = rem', rs_advance_check = ac, rs_advance_remove = ar\<rparr>"
      and L: "L' = (if ac then left else l # left)" and R: "R' = (if ar then right else r # right)"
      and K: "K = (case keep of Some k \<Rightarrow> [k] | None \<Rightarrow> [])"
      and form: "ranges_ok (complement @ K @ to_check L' rem')" "\<And>m. rem' = Some m \<Longrightarrow> \<forall>q\<in>set R'. vr_start m < vr_start q"
      and sets: "versions K \<union> (versions (to_check L' rem') - versions R') = versions (c # left) - versions (r # right)"
    for keep rem' ac ar L' R' K
  proof -
    have eq: "remove_loop (l # left) (r # right) remainder complement = remove_loop L' R' rem' (complement @ K)"
      unfolding L R K by (simp add: Let_def s flip: c_def)
    have okR: "ranges_ok R'" using 1(3) by (simp add: R)
    have "ranges_ok (remove_loop L' R' rem' (complement @ K)) \<and> versions (remove_loop L' R' rem' (complement @ K)) =
        versions (complement @ K) \<union> (versions (to_check L' rem') - versions R')"
      using 1(1) [OF c_def refl refl] form okR unfolding s L R K by simp
    then show ?thesis unfolding eq tc using sets by auto
  qed
  consider (before) "vr_end r \<le> vr_start c" | (head) "vr_start r \<le> vr_start c" "vr_start c < vr_end r" "vr_end r < vr_end c"
    | (all) "vr_start r \<le> vr_start c" "vr_end c \<le> vr_end r" "vr_start c < vr_end r" | (after) "vr_end c \<le> vr_start r"
    | (tail) "vr_start c < vr_start r" "vr_start r < vr_end c" "vr_end c \<le> vr_end r"
    | (inside) "vr_start c < vr_start r" "vr_end r < vr_end c"
    by linarith
  then show ?case
  proof cases
    case before
    then have none: "remainder = None" "c = l"
      using 1(4) okr(1) by (auto simp: c_def split: option.splits)
    have s: "remove_compare c r = \<lparr>rs_keep = None, rs_remainder = None, rs_advance_check = False, rs_advance_remove = True\<rparr>"
      using before okr(1) by (simp add: remove_compare_def Let_def)
    show ?thesis
      by (rule finish [OF s refl refl refl]) (use 1(2) before left_above ok(2) in \<open>fastforce simp: to_check_def none\<close>)+
  next
    case head
    have s: "remove_compare c r = \<lparr>rs_keep = None, rs_remainder = Some (VersionRange (vr_end r) (vr_end c)),
        rs_advance_check = False, rs_advance_remove = True\<rparr>"
      using head by (simp add: remove_compare_def Let_def)
    have "\<forall>p\<in>set complement. vr_end p < vr_end r" using ok(5) head by fastforce
    then show ?thesis
      by (intro finish [OF s refl refl refl]) (use head left_above ok okr in \<open>fastforce simp: to_check_def\<close>)+
  next
    case all
    have s: "remove_compare c r = \<lparr>rs_keep = None, rs_remainder = None, rs_advance_check = True, rs_advance_remove = False\<rparr>"
      using all by (simp add: remove_compare_def Let_def)
    show ?thesis
      by (rule finish [OF s refl refl refl]) (use all left_above ok okr in \<open>fastforce simp: to_check_def\<close>)+
  next
    case after
    have s: "remove_compare c r = \<lparr>rs_keep = Some c, rs_remainder = None, rs_advance_check = True, rs_advance_remove = False\<rparr>"
      using after ok(2) okr(1) by (simp add: remove_compare_def Let_def)
    show ?thesis
      by (rule finish [OF s refl refl refl]) (use after left_above right_above ok okr in \<open>fastforce simp: to_check_def\<close>)+
  next
    case tail
    have s: "remove_compare c r = \<lparr>rs_keep = Some (VersionRange (vr_start c) (vr_start r)), rs_remainder = None,
        rs_advance_check = True, rs_advance_remove = False\<rparr>"
      using tail by (simp add: remove_compare_def Let_def)
    have "\<forall>q\<in>set left. vr_start r < vr_start q" using ok(3) tail by fastforce
    then show ?thesis
      by (intro finish [OF s refl refl refl]) (use tail left_above right_above ok okr in \<open>fastforce simp: to_check_def\<close>)+
  next
    case inside
    have s: "remove_compare c r = \<lparr>rs_keep = Some (VersionRange (vr_start c) (vr_start r)),
        rs_remainder = Some (VersionRange (vr_end r) (vr_end c)), rs_advance_check = False, rs_advance_remove = True\<rparr>"
      using inside okr(1) by (simp add: remove_compare_def Let_def)
    have "\<forall>q\<in>set left. vr_start r < vr_start q" "\<forall>p\<in>set complement. vr_end p < vr_end r"
      using ok(2,3,5) inside okr(1) by fastforce+
    then show ?thesis
      by (intro finish [OF s refl refl refl]) (use inside left_above right_above ok okr in \<open>fastforce simp: to_check_def\<close>)+
  qed
next
  case (2 l left remainder complement)
  then show ?case by (auto simp: to_check_def split: option.splits)
next
  case (3 right remainder complement)
  then show ?case by (auto simp: to_check_def split: option.splits)
qed

lemma ranges_remove_all_correct:
  assumes "ranges_ok left" "ranges_ok right"
  shows "ranges_ok (ranges_remove_all right left)" "versions (ranges_remove_all right left) = versions left - versions right"
  using remove_loop_correct [of "[]" left None right] assms
  by (auto simp: ranges_remove_all_def to_check_def)

subsection \<open>Containers with one form for each set\<close>

text \<open>
  What a collection promises to those that keep versions in it: one representation for each set, and
  joining and subtracting as on sets. The order and the number of the updates then does not matter.
\<close>

locale canonical_sets =
  fixes form :: "'c \<Rightarrow> bool" and elems :: "'c \<Rightarrow> 'a set" and empty :: 'c
    and join :: "'c \<Rightarrow> 'c \<Rightarrow> 'c" and remove :: "'c \<Rightarrow> 'c \<Rightarrow> 'c"
  assumes canonical: "form a \<Longrightarrow> form b \<Longrightarrow> elems a = elems b \<Longrightarrow> a = b"
    and empty: "form empty" "elems empty = {}"
    and join: "form a \<Longrightarrow> form b \<Longrightarrow> form (join a b)" "form a \<Longrightarrow> form b \<Longrightarrow> elems (join a b) = elems a \<union> elems b"
    and remove: "form a \<Longrightarrow> form b \<Longrightarrow> form (remove b a)" "form a \<Longrightarrow> form b \<Longrightarrow> elems (remove b a) = elems a - elems b"
begin

lemma join_unique: "form a \<Longrightarrow> form b \<Longrightarrow> form c \<Longrightarrow> elems c = elems a \<union> elems b \<Longrightarrow> join a b = c"
  by (rule canonical) (simp_all add: join)

lemma remove_unique: "form a \<Longrightarrow> form b \<Longrightarrow> form c \<Longrightarrow> elems c = elems a - elems b \<Longrightarrow> remove b a = c"
  by (rule canonical) (simp_all add: remove)

lemma fold_join: "form a \<Longrightarrow> \<forall>x\<in>set xs. form x \<Longrightarrow>
    form (foldl join a xs) \<and> elems (foldl join a xs) = elems a \<union> (\<Union>x\<in>set xs. elems x)"
proof (induction xs arbitrary: a)
  case (Cons x xs)
  then show ?case using Cons.IH [of "join a x"] by (simp add: join Un_assoc)
qed simp

lemma fold_join_order:
  assumes "\<forall>x\<in>set xs. form x" "set xs = set ys"
  shows "foldl join empty xs = foldl join empty ys"
  using fold_join [OF empty(1), of xs] fold_join [OF empty(1), of ys] assms
  by (intro canonical) simp_all

lemma join_remove: "form a \<Longrightarrow> form b \<Longrightarrow> join (remove b a) b = join a b"
  by (rule canonical) (auto simp: join remove)

lemma remove_join: "form a \<Longrightarrow> form b \<Longrightarrow> form c \<Longrightarrow> remove c (join a b) = join (remove c a) (remove c b)"
  by (rule canonical) (auto simp: join remove)

end

interpretation vranges: canonical_sets ranges_ok versions "[]" ranges_merge ranges_remove_all
  by unfold_locales (simp_all add: ranges_canonical ranges_merge_correct ranges_remove_all_correct)

subsection \<open>The properties\<close>

text \<open>C33: on collections in form the linear merge and removal equal the quadratic ones they replace,
  range by range.\<close>

theorem optimised_ranges_equal:
  assumes "ranges_ok left" "ranges_ok right"
  shows "ranges_merge left right = snd (ranges_test_add right left) \<and>
    ranges_remove_all right left = ranges_test_remove right left"
  using ranges_test_add_correct [OF assms(1), of right] ranges_test_remove_correct [OF assms(1), of right] assms
  by (simp add: vranges.join_unique vranges.remove_unique)

lemma range_updates:
  assumes "ranges_ok rs" "ranges_split v rs = (kept, remainder)"
  shows "ranges_ok (snd (ranges_add r rs)) \<and> versions (snd (ranges_add r rs)) = versions rs \<union> {vr_start r..<vr_end r}"
    and "fst (ranges_add r rs) \<longleftrightarrow> \<not> {vr_start r..<vr_end r} \<subseteq> versions rs"
    and "ranges_ok (ranges_remove r rs) \<and> versions (ranges_remove r rs) = versions rs - {vr_start r..<vr_end r}"
    and "ranges_ok (ranges_remove_version v rs) \<and> versions (ranges_remove_version v rs) = versions rs - {v}"
    and "ranges_ok kept \<and> ranges_ok remainder \<and> versions kept = versions rs \<inter> {..<v} \<and> versions remainder = versions rs \<inter> {v..}"
proof -
  note add = ranges_add_correct [OF assms(1), of r]
  have "snd (ranges_add r rs) = rs \<longleftrightarrow> versions rs \<union> {vr_start r..<vr_end r} = versions rs"
    using ranges_canonical [OF add(1) assms(1)] add(2) by auto
  then show "fst (ranges_add r rs) \<longleftrightarrow> \<not> {vr_start r..<vr_end r} \<subseteq> versions rs"
    using add(3) by blast
qed (simp_all add: ranges_add_correct ranges_remove_correct ranges_remove_version_correct
      ranges_split_correct [OF assms] assms(1))

text \<open>C34: adding, removing and splitting keep the form and act on the versions as union, difference and cut,
  and adding a range reports whether it changed anything.\<close>

theorem range_updates_correct:
  assumes "ranges_ok rs" "ranges_split v rs = (kept, remainder)"
  shows "(ranges_ok (snd (ranges_add r rs)) \<and> versions (snd (ranges_add r rs)) = versions rs \<union> {vr_start r..<vr_end r}) \<and>
    (fst (ranges_add r rs) \<longleftrightarrow> \<not> {vr_start r..<vr_end r} \<subseteq> versions rs) \<and>
    (ranges_ok (ranges_remove r rs) \<and> versions (ranges_remove r rs) = versions rs - {vr_start r..<vr_end r}) \<and>
    (ranges_ok (ranges_remove_version v rs) \<and> versions (ranges_remove_version v rs) = versions rs - {v}) \<and>
    (ranges_ok kept \<and> ranges_ok remainder \<and> versions kept = versions rs \<inter> {..<v} \<and> versions remainder = versions rs \<inter> {v..})"
  by (simp only: range_updates [OF assms] simp_thms)

lemma binary_search_finds:
  assumes "ranges_ok rs"
  shows "ranges_contains v rs \<longleftrightarrow> v \<in> versions rs"
    and "ranges_contains_end v rs = Some e \<longleftrightarrow> (\<exists>s. VersionRange s e \<in> set rs \<and> s \<le> v \<and> v < e)"
proof -
  show "ranges_contains v rs \<longleftrightarrow> v \<in> versions rs" by (rule ranges_contains_iff [OF assms])
  have unique: "q = q'" if "q \<in> set rs" "q' \<in> set rs" "vr_contains q v" "vr_contains q' v" for q q'
  proof -
    note prem = that
    obtain i j where ij: "i < length rs" "q = rs ! i" "j < length rs" "q' = rs ! j"
      using prem(1,2) by (auto simp: in_set_conv_nth)
    have "vr_end (rs ! i) < vr_start (rs ! j)" if "i < j" "j < length rs" for i j
      using assms that by (simp add: ranges_ok_def sorted_wrt_iff_nth_less)
    from this [of i j] this [of j i] ij prem(3,4) show "q = q'"
      by (cases i j rule: linorder_cases) (auto simp: vr_contains_def)
  qed
  show "ranges_contains_end v rs = Some e \<longleftrightarrow> (\<exists>s. VersionRange s e \<in> set rs \<and> s \<le> v \<and> v < e)"
  proof (cases "ranges_find v rs")
    case None
    then show ?thesis
      using ranges_find_correct(1) [OF assms None] by (force simp: ranges_contains_end_def mem_versions)
  next
    case (Some i)
    have i: "rs ! i \<in> set rs" "vr_contains (rs ! i) v"
      using ranges_find_correct(2) [OF assms Some] by (auto simp: vr_contains_def)
    obtain a b where ab: "rs ! i = VersionRange a b" using version_range.exhaust by blast
    have "VersionRange s e \<in> set rs \<and> s \<le> v \<and> v < e \<longleftrightarrow> s = a \<and> e = b" for s
      using i unique [OF _ i(1) _ i(2), of "VersionRange s e"] by (auto simp: vr_contains_def ab)
    then show ?thesis by (auto simp: ranges_contains_end_def Some ab)
  qed
qed

text \<open>C36: the binary search ends on every vector and finds a version in a collection in form exactly when
  some range holds it, with the end of that range.\<close>

theorem binary_search_correct:
  assumes "ranges_ok rs"
  shows "(ranges_contains v rs \<longleftrightarrow> v \<in> versions rs) \<and>
    (ranges_contains_end v rs = Some e \<longleftrightarrow> (\<exists>s. VersionRange s e \<in> set rs \<and> s \<le> v \<and> v < e))"
  using binary_search_finds [OF assms] by blast

text \<open>C35: collections merged in any order, any number of times each, give the same vector: what is received
  decides, not when.\<close>

theorem merge_order_irrelevant:
  assumes "\<forall>x\<in>set xs. ranges_ok x" "set xs = set ys"
  shows "foldl ranges_merge [] xs = foldl ranges_merge [] ys"
  by (rule vranges.fold_join_order [OF assms])

subsection \<open>The properties at concrete inputs\<close>

theorem optimised_ranges_equal_witness:
  "ranges_merge [VersionRange 1 4] [VersionRange 3 9] = snd (ranges_test_add [VersionRange 3 9] [VersionRange 1 4]) \<and>
    ranges_remove_all [VersionRange 3 9] [VersionRange 1 4] = ranges_test_remove [VersionRange 3 9] [VersionRange 1 4]"
  by (rule optimised_ranges_equal) (simp_all add: ranges_ok_def)

theorem range_updates_correct_witness:
  "fst (ranges_add (VersionRange 2 6) [VersionRange 1 4]) \<longleftrightarrow> \<not> {2..<6} \<subseteq> versions [VersionRange 1 4]"
  using range_updates_correct [of "[VersionRange 1 4]" 2 "fst (ranges_split 2 [VersionRange 1 4])"
      "snd (ranges_split 2 [VersionRange 1 4])" "VersionRange 2 6"]
  by (simp add: ranges_ok_def)

theorem binary_search_correct_witness:
  "ranges_contains 3 [VersionRange 1 4, VersionRange 6 8] \<longleftrightarrow> 3 \<in> versions [VersionRange 1 4, VersionRange 6 8]"
  using binary_search_correct [of "[VersionRange 1 4, VersionRange 6 8]" 3] by (simp add: ranges_ok_def)

theorem merge_order_irrelevant_witness:
  "foldl ranges_merge [] [[VersionRange 1 4], [VersionRange 3 8]] =
   foldl ranges_merge [] [[VersionRange 3 8], [VersionRange 1 4], [VersionRange 3 8]]"
  by (rule merge_order_irrelevant) (auto simp: ranges_ok_def)

end
