(* ===== verification/Fabric_Time.thy ===== *)
theory Fabric_Time
  imports Fabric_Base "HOL-Library.Signed_Division"
begin

section \<open>TimeSpan and StopwatchTime\<close>

text \<open>
  src/Common/TimeSpan.h, TimeSpan.cpp, StopwatchTime.h and StopwatchTime.cpp. Both types wrap an
  \<open>int64\<close> of 100ns ticks; the greatest and the least value stand for infinities. Ticks are integers
  with the wrap-around of the 64-bit type written out; the current time is an argument. The ISO
  8601 strings and the constructors from \<open>double\<close> go through floating point and are not modelled.
\<close>

type_synonym time_span = int
type_synonym stopwatch_time = int

subsection \<open>TimeSpan\<close>

definition ticks_per_millisecond :: int where "ticks_per_millisecond = 10000"
definition ticks_per_second :: int where "ticks_per_second = ticks_per_millisecond * 1000"
definition ticks_per_minute :: int where "ticks_per_minute = ticks_per_second * 60"
definition ticks_per_hour :: int where "ticks_per_hour = ticks_per_minute * 60"
definition ticks_per_day :: int where "ticks_per_day = ticks_per_hour * 24"

lemmas tick_units = ticks_per_millisecond_def ticks_per_second_def ticks_per_minute_def
  ticks_per_hour_def ticks_per_day_def

definition span_max :: time_span where "span_max = int64_max"
definition span_min :: time_span where "span_min = int64_min"

definition span_add :: "time_span \<Rightarrow> time_span \<Rightarrow> time_span" where
  "span_add a b = wrap64 (a + b)"

definition span_sub :: "time_span \<Rightarrow> time_span \<Rightarrow> time_span" where
  "span_sub a b = wrap64 (a - b)"

definition span_add_checked :: "time_span \<Rightarrow> time_span \<Rightarrow> time_span" where
  "span_add_checked a b =
     (if a = span_max \<or> b = span_max then span_max
      else if a = span_min \<or> b = span_min then span_min
      else wrap64 (a + b))"

definition span_sub_checked :: "time_span \<Rightarrow> time_span \<Rightarrow> time_span" where
  "span_sub_checked a b =
     (if a = span_max \<or> b = span_min then span_max
      else if a = span_min \<or> b = span_max then span_min
      else wrap64 (a - b))"

definition span_milliseconds :: "time_span \<Rightarrow> int" where
  "span_milliseconds t = (t sdiv ticks_per_millisecond) smod 1000"
definition span_seconds :: "time_span \<Rightarrow> int" where
  "span_seconds t = (t sdiv ticks_per_second) smod 60"
definition span_minutes :: "time_span \<Rightarrow> int" where
  "span_minutes t = (t sdiv ticks_per_minute) smod 60"
definition span_hours :: "time_span \<Rightarrow> int" where
  "span_hours t = (t sdiv ticks_per_hour) smod 24"
definition span_days :: "time_span \<Rightarrow> int" where
  "span_days t = t sdiv ticks_per_day"

definition total_milliseconds :: "time_span \<Rightarrow> int" where
  "total_milliseconds t = t sdiv ticks_per_millisecond"

definition total_seconds :: "time_span \<Rightarrow> int" where
  "total_seconds t = t sdiv ticks_per_second"

definition total_rounded_minutes :: "time_span \<Rightarrow> int" where
  "total_rounded_minutes t =
     (let seconds = total_seconds t; minutes = seconds sdiv 60
      in if seconds - minutes * 60 \<ge> 30 then minutes + 1 else minutes)"

definition total_positive_milliseconds :: "time_span \<Rightarrow> int" where
  "total_positive_milliseconds t = (if t < 0 then 0 else t sdiv ticks_per_millisecond)"

subsection \<open>StopwatchTime\<close>

definition time_max :: stopwatch_time where "time_max = int64_max"

definition timer_margin :: time_span where "timer_margin = 300000"

definition time_diff :: "stopwatch_time \<Rightarrow> stopwatch_time \<Rightarrow> time_span" where
  "time_diff a b = (if a = time_max then span_max else wrap64 (a - b))"

definition time_add :: "stopwatch_time \<Rightarrow> time_span \<Rightarrow> stopwatch_time" where
  "time_add t d =
     (if t \<noteq> time_max then if d = span_max then time_max else wrap64 (t + d) else t)"

definition time_sub :: "stopwatch_time \<Rightarrow> time_span \<Rightarrow> stopwatch_time" where
  "time_sub t d =
     (if t \<noteq> time_max then if d = span_max then 0 else wrap64 (t - d) else t)"

definition remaining_duration :: "stopwatch_time \<Rightarrow> stopwatch_time \<Rightarrow> time_span" where
  "remaining_duration now t = (let result = time_diff t now in if result < 0 then 0 else result)"

definition get_lower_bound :: "stopwatch_time \<Rightarrow> time_span \<Rightarrow> stopwatch_time" where
  "get_lower_bound v delta = time_sub v (span_add delta timer_margin)"

definition get_upper_bound :: "stopwatch_time \<Rightarrow> stopwatch_time \<Rightarrow> stopwatch_time \<Rightarrow> stopwatch_time" where
  "get_upper_bound now v baseTime = time_add v (time_diff now baseTime)"

subsection \<open>DateTime\<close>

text \<open>
  src/Common/DateTime.h and DateTime.cpp: wall clock ticks. \<open>SafeAdd\<close> replaces a negative sum by one
  tick. The conversions to and from \<open>StopwatchTime\<close> read both clocks.
\<close>

type_synonym date_time = int

definition date_max :: date_time where "date_max = int64_max"

definition date_diff :: "date_time \<Rightarrow> date_time \<Rightarrow> time_span" where
  "date_diff a b = wrap64 (a - b)"

definition date_add :: "date_time \<Rightarrow> time_span \<Rightarrow> date_time" where
  "date_add a d = wrap64 (a + d)"

definition safe_add :: "int \<Rightarrow> int \<Rightarrow> int" where
  "safe_add lhs rhs = (let tempTicks = wrap64 (lhs + rhs) in if tempTicks < 0 then 1 else tempTicks)"

definition date_add_checked :: "date_time \<Rightarrow> time_span \<Rightarrow> date_time" where
  "date_add_checked a d = (if a = date_max \<or> d = span_max then date_max else safe_add a d)"

definition date_sub_checked :: "date_time \<Rightarrow> time_span \<Rightarrow> date_time" where
  "date_sub_checked a d =
     (if a = date_max then date_max else if d = span_max then 0 else safe_add a (wrap64 (- d)))"

definition date_diff_checked :: "date_time \<Rightarrow> date_time \<Rightarrow> time_span" where
  "date_diff_checked a b =
     (if a = date_max then span_max else if b = date_max then span_min else wrap64 (a - b))"

definition date_remaining :: "date_time \<Rightarrow> date_time \<Rightarrow> time_span" where
  "date_remaining now a = (let result = date_diff a now in if result < 0 then 0 else result)"

definition from_date_time :: "stopwatch_time \<Rightarrow> date_time \<Rightarrow> date_time \<Rightarrow> stopwatch_time" where
  "from_date_time now dateNow v =
     (if v = 0 then 0 else if v = date_max then time_max else time_add now (date_diff v dateNow))"

definition to_date_time :: "stopwatch_time \<Rightarrow> date_time \<Rightarrow> stopwatch_time \<Rightarrow> date_time" where
  "to_date_time now dateNow t =
     (if t = 0 then 0 else if t = time_max then date_max else date_add dateNow (time_diff t now))"

subsection \<open>Away from the limits\<close>

text \<open>Below the greatest value and with results in range the operations are those on integers.\<close>

lemma time_add_exact [time_simps]:
  "t < time_max \<Longrightarrow> d < span_max \<Longrightarrow> in_int64 (t + d) \<Longrightarrow> time_add t d = t + d"
  by (simp add: time_add_def)

lemma time_sub_exact [time_simps]:
  "t < time_max \<Longrightarrow> d < span_max \<Longrightarrow> in_int64 (t - d) \<Longrightarrow> time_sub t d = t - d"
  by (simp add: time_sub_def)

lemma time_diff_exact [time_simps]: "a < time_max \<Longrightarrow> in_int64 (a - b) \<Longrightarrow> time_diff a b = a - b"
  by (simp add: time_diff_def)

lemma time_in_int64:
  "in_int64 t \<Longrightarrow> in_int64 (time_add t d)" "in_int64 t \<Longrightarrow> in_int64 (time_sub t d)" "in_int64 (time_diff t s)"
  by (simp_all add: time_add_def time_sub_def time_diff_def time_max_def span_max_def)

lemma time_max_fixed [simp]:
  "time_add time_max d = time_max" "time_sub time_max d = time_max" "time_diff time_max s = span_max"
  by (simp_all add: time_add_def time_sub_def time_diff_def)

lemma sdiv_nonneg: "0 \<le> a \<Longrightarrow> 0 < b \<Longrightarrow> a sdiv b = a div b" "0 \<le> a \<Longrightarrow> 0 < b \<Longrightarrow> a smod b = a mod b"
  for a b :: int
  by (simp_all add: signed_divide_int_def signed_modulo_int_def sgn_if)

subsection \<open>The properties\<close>

lemma checked_spans:
  assumes "in_int64 a" "in_int64 b"
  shows "a = span_max \<or> b = span_max \<Longrightarrow> span_add_checked a b = span_max"
    and "a = span_max \<or> b = span_min \<Longrightarrow> span_sub_checked a b = span_max"
    and "span_min < a \<and> a < span_max \<and> span_min < b \<and> b < span_max \<Longrightarrow>
      span_add_checked a b = (if in_int64 (a + b) then a + b else if 0 < a + b then a + b - 2 ^ 64 else a + b + 2 ^ 64)"
    and "span_min < a \<and> a < span_max \<and> - span_max < b \<and> b < span_max \<Longrightarrow> span_sub_checked a b = span_add_checked a (- b)"
proof -
  have wrap: "wrap64 x = (if in_int64 x then x else if 0 < x then x - 2 ^ 64 else x + 2 ^ 64)"
    if "- (2 ^ 64) \<le> x" "x < 2 ^ 64" for x :: int
  proof (cases "in_int64 x")
    case False
    have "(x + 2 ^ 63) mod 2 ^ 64 = (if 0 < x then x + 2 ^ 63 - 2 ^ 64 else x + 2 ^ 63 + 2 ^ 64)"
    proof (cases "0 < x")
      case True
      have "(x + 2 ^ 63) mod 2 ^ 64 = (x + 2 ^ 63 - 2 ^ 64) mod 2 ^ 64" by (simp only: minus_mod_self2)
      also have "\<dots> = x + 2 ^ 63 - 2 ^ 64"
        using that False True by (intro mod_pos_pos_trivial) (simp_all add: in_int64_def int64_max_def int64_min_def)
      finally show ?thesis using True by simp
    next
      case neg: False
      have "(x + 2 ^ 63) mod 2 ^ 64 = (x + 2 ^ 63 + 2 ^ 64) mod 2 ^ 64" by (simp only: mod_add_self2)
      also have "\<dots> = x + 2 ^ 63 + 2 ^ 64"
        using that False neg by (intro mod_pos_pos_trivial) (simp_all add: in_int64_def int64_max_def int64_min_def)
      finally show ?thesis using neg by simp
    qed
    then show ?thesis using False by (simp add: wrap64_def)
  qed simp
  show "a = span_max \<or> b = span_max \<Longrightarrow> span_add_checked a b = span_max"
    "a = span_max \<or> b = span_min \<Longrightarrow> span_sub_checked a b = span_max"
    by (auto simp: span_add_checked_def span_sub_checked_def)
  show "span_min < a \<and> a < span_max \<and> span_min < b \<and> b < span_max \<Longrightarrow>
      span_add_checked a b = (if in_int64 (a + b) then a + b else if 0 < a + b then a + b - 2 ^ 64 else a + b + 2 ^ 64)"
    using wrap [of "a + b"] assms by (simp add: span_add_checked_def in_int64_def int64_max_def int64_min_def)
  show "span_min < a \<and> a < span_max \<and> - span_max < b \<and> b < span_max \<Longrightarrow> span_sub_checked a b = span_add_checked a (- b)"
    by (auto simp: span_sub_checked_def span_add_checked_def span_max_def span_min_def int64_max_def int64_min_def)
qed

text \<open>The checked sum and difference keep the two infinities and agree with integer arithmetic on finite
  spans whenever the exact result fits; the exact result is otherwise off by the wrap-around.\<close>

theorem checked_span_arithmetic:
  assumes "in_int64 a" "in_int64 b"
  shows "(a = span_max \<or> b = span_max \<longrightarrow> span_add_checked a b = span_max) \<and>
    (a = span_max \<or> b = span_min \<longrightarrow> span_sub_checked a b = span_max) \<and>
    (span_min < a \<and> a < span_max \<and> span_min < b \<and> b < span_max \<longrightarrow>
      span_add_checked a b = (if in_int64 (a + b) then a + b else if 0 < a + b then a + b - 2 ^ 64 else a + b + 2 ^ 64)) \<and>
    (span_min < a \<and> a < span_max \<and> - span_max < b \<and> b < span_max \<longrightarrow> span_sub_checked a b = span_add_checked a (- b))"
  using checked_spans [OF assms] by blast

lemma span_digits:
  assumes "0 \<le> t"
  shows "(((span_days t * 24 + span_hours t) * 60 + span_minutes t) * 60 + span_seconds t) * 1000 + span_milliseconds t
      = total_milliseconds t"
    and "0 \<le> span_hours t \<and> span_hours t < 24 \<and> 0 \<le> span_minutes t \<and> span_minutes t < 60 \<and>
      0 \<le> span_seconds t \<and> span_seconds t < 60 \<and> 0 \<le> span_milliseconds t \<and> span_milliseconds t < 1000"
    and "total_rounded_minutes t = (total_seconds t + 30) div 60"
proof -
  have nn: "0 \<le> t div k" if "0 < k" for k using assms that by (simp add: pos_imp_zdiv_nonneg_iff)
  note eqs = span_days_def span_hours_def span_minutes_def span_seconds_def span_milliseconds_def
    total_milliseconds_def total_seconds_def tick_units
  have nested: "t div 864000000000 = t div 36000000000 div 24" "t div 36000000000 = t div 600000000 div 60"
    "t div 600000000 = t div 10000000 div 60" "t div 10000000 = t div 10000 div 1000"
    by (simp_all add: zdiv_zmult2_eq [symmetric])
  have split: "x div k * k + x mod k = x" for x k :: int by simp
  have digits: "(((t div 864000000000 * 24 + t div 36000000000 mod 24) * 60 + t div 600000000 mod 60) * 60
      + t div 10000000 mod 60) * 1000 + t div 10000 mod 1000 = t div 10000"
    unfolding nested(1) split unfolding nested(2) split unfolding nested(3) split unfolding nested(4) split ..
  then show "(((span_days t * 24 + span_hours t) * 60 + span_minutes t) * 60 + span_seconds t) * 1000 + span_milliseconds t
      = total_milliseconds t"
    using assms nn by (simp add: eqs sdiv_nonneg)
  show "0 \<le> span_hours t \<and> span_hours t < 24 \<and> 0 \<le> span_minutes t \<and> span_minutes t < 60 \<and>
      0 \<le> span_seconds t \<and> span_seconds t < 60 \<and> 0 \<le> span_milliseconds t \<and> span_milliseconds t < 1000"
    using assms nn by (simp add: eqs sdiv_nonneg)
  have "0 \<le> total_seconds t" using assms nn by (simp add: eqs sdiv_nonneg)
  then show "total_rounded_minutes t = (total_seconds t + 30) div 60"
    by (simp add: total_rounded_minutes_def Let_def sdiv_nonneg) arith
qed

text \<open>The components of a span that is not negative are its mixed radix digits, and the rounded minutes
  are the nearest number of minutes, half up, of its whole seconds.\<close>

theorem span_components:
  assumes "0 \<le> t"
  shows "((((span_days t * 24 + span_hours t) * 60 + span_minutes t) * 60 + span_seconds t) * 1000 + span_milliseconds t
      = total_milliseconds t) \<and>
    (0 \<le> span_hours t \<and> span_hours t < 24 \<and> 0 \<le> span_minutes t \<and> span_minutes t < 60 \<and>
      0 \<le> span_seconds t \<and> span_seconds t < 60 \<and> 0 \<le> span_milliseconds t \<and> span_milliseconds t < 1000) \<and>
    (total_rounded_minutes t = (total_seconds t + 30) div 60)"
  using span_digits [OF assms] by blast

subsection \<open>The properties at concrete inputs\<close>

theorem checked_span_arithmetic_witness:
  "span_add_checked span_max 5 = span_max \<and> span_add_checked 7 5 = 12"
  using checked_span_arithmetic [of span_max 5] checked_span_arithmetic [of 7 5]
  by (simp add: in_int64_iff span_max_def span_min_def int64_max_def int64_min_def)

theorem span_components_witness:
  "total_rounded_minutes 900000000 = (total_seconds 900000000 + 30) div 60 \<and> span_seconds 900000000 < 60"
  using span_components [of 900000000] by simp

end
