(* ===== verification/Vote_Entry.thy ===== *)
theory Vote_Entry
  imports Node_Id_Range Fabric_Time
begin

section \<open>VoteEntry: the tickets of a vote\<close>

text \<open>
  src/Federation/TimeRange.h/.cpp, TicketGap.h/.cpp, VoteTicket.h, GlobalLease.h, TicketTransfer.h,
  VoteProxy.h/.cpp and VoteEntry.h/.cpp. A vote issues global tickets (what keeps the federation's
  global lease) and super tickets (what lets one node act for the vote during bootstrap); a gap
  records ids whose global lease a vote does not vouch for. The store behind a proxy is not part of
  the model: its answer is an argument of the operation that calls it. The reads of the clock within
  one operation are one argument, and the configuration is a record.
\<close>

record fed_config =
  cfg_global_ticket_lease :: time_span
  cfg_global_ticket_renew :: time_span
  cfg_bootstrap_ticket_lease :: time_span
  cfg_bootstrap_ticket_acquire_limit :: time_span
  cfg_bootstrap_vote_request :: time_span
  cfg_bootstrap_vote_acquire_retry :: time_span
  cfg_vote_ownership_lease :: time_span
  cfg_max_gaps :: int

subsection \<open>Time ranges and gaps\<close>

datatype time_range = TimeRange (tr_begin: stopwatch_time) (tr_end: stopwatch_time)

definition time_range_merge :: "time_range \<Rightarrow> time_range \<Rightarrow> time_range" where
  "time_range_merge this rhs =
     (let isValid = (tr_end rhs > tr_begin rhs)
      in if tr_end this > tr_begin this then
           if \<not> isValid then this
           else if tr_begin rhs < tr_end this then
             if tr_begin this \<le> tr_end rhs
             then TimeRange (min (tr_begin this) (tr_begin rhs)) (max (tr_end this) (tr_end rhs))
             else this
           else TimeRange (tr_begin rhs) (tr_end rhs)
         else if \<not> isValid \<and> tr_end rhs < tr_end this then this
         else TimeRange (tr_begin rhs) (tr_end rhs))"

record ticket_gap =
  tg_range :: node_id_range
  tg_interval :: time_range

definition gap_for_receiver :: "time_span \<Rightarrow> ticket_gap \<Rightarrow> ticket_gap" where
  "gap_for_receiver delta g =
     \<lparr>tg_range = tg_range g,
      tg_interval = TimeRange (time_sub (tr_begin (tg_interval g)) delta) (time_sub (tr_end (tg_interval g)) delta)\<rparr>"

definition gap_merge :: "ticket_gap \<Rightarrow> ticket_gap \<Rightarrow> bool \<times> ticket_gap" where
  "gap_merge this rhs =
     (if tg_range this \<noteq> tg_range rhs then (False, this)
      else (True, this\<lparr>tg_interval := time_range_merge (tg_interval this) (tg_interval rhs)\<rparr>))"

definition gap_is_effective :: "ticket_gap \<Rightarrow> bool" where
  "gap_is_effective g \<longleftrightarrow> tr_end (tg_interval g) > tr_begin (tg_interval g)"

definition gap_is_expired :: "fed_config \<Rightarrow> stopwatch_time \<Rightarrow> ticket_gap \<Rightarrow> bool" where
  "gap_is_expired cfg now g \<longleftrightarrow> time_diff now (tr_begin (tg_interval g)) > cfg_global_ticket_lease cfg"

definition gap_adjust_time :: "stopwatch_time \<Rightarrow> time_span \<Rightarrow> stopwatch_time \<Rightarrow> ticket_gap \<Rightarrow> ticket_gap" where
  "gap_adjust_time now delta baseTime g =
     g\<lparr>tg_interval := TimeRange (get_upper_bound now (tr_begin (tg_interval g)) baseTime)
         (get_lower_bound (tr_end (tg_interval g)) delta)\<rparr>"

definition gap_update_interval :: "stopwatch_time \<Rightarrow> ticket_gap \<Rightarrow> ticket_gap" where
  "gap_update_interval now g = g\<lparr>tg_interval := TimeRange (tr_begin (tg_interval g)) now\<rparr>"

subsection \<open>Tickets on their way\<close>

record vote_ticket =
  vt_vote_id :: node_id
  vt_expire :: stopwatch_time
  vt_gaps :: "ticket_gap list"

definition make_vote_ticket :: "node_id \<Rightarrow> stopwatch_time \<Rightarrow> vote_ticket" where
  "make_vote_ticket i t = \<lparr>vt_vote_id = i, vt_expire = t, vt_gaps = []\<rparr>"

definition ticket_for_receiver :: "time_span \<Rightarrow> vote_ticket \<Rightarrow> vote_ticket" where
  "ticket_for_receiver delta v =
     \<lparr>vt_vote_id = vt_vote_id v, vt_expire = time_sub (vt_expire v) delta, vt_gaps = map (gap_for_receiver delta) (vt_gaps v)\<rparr>"

definition ticket_add_gap :: "ticket_gap \<Rightarrow> vote_ticket \<Rightarrow> vote_ticket" where
  "ticket_add_gap g v = v\<lparr>vt_gaps := vt_gaps v @ [g]\<rparr>"

definition ticket_adjust_time :: "stopwatch_time \<Rightarrow> time_span \<Rightarrow> stopwatch_time \<Rightarrow> vote_ticket \<Rightarrow> vote_ticket" where
  "ticket_adjust_time now delta baseTime v =
     v\<lparr>vt_expire := get_lower_bound (vt_expire v) delta,
       vt_gaps := map (gap_adjust_time now delta baseTime) (vt_gaps v)\<rparr>"

record global_lease =
  gl_tickets :: "vote_ticket list"
  gl_delta :: time_span
  gl_base_time :: stopwatch_time

definition make_global_lease :: "stopwatch_time \<Rightarrow> vote_ticket list \<Rightarrow> time_span \<Rightarrow> global_lease" where
  "make_global_lease now tickets delta = \<lparr>gl_tickets = tickets, gl_delta = delta, gl_base_time = now\<rparr>"

definition lease_adjust_time :: "stopwatch_time \<Rightarrow> global_lease \<Rightarrow> global_lease" where
  "lease_adjust_time now l =
     l\<lparr>gl_tickets := map (ticket_adjust_time now (gl_delta l) (gl_base_time l)) (gl_tickets l)\<rparr>"

record ticket_transfer =
  tt_vote_id :: node_id
  tt_super :: stopwatch_time
  tt_global :: stopwatch_time
  tt_delta :: time_span
  tt_base_time :: stopwatch_time

definition make_ticket_transfer ::
  "stopwatch_time \<Rightarrow> node_id \<Rightarrow> stopwatch_time \<Rightarrow> stopwatch_time \<Rightarrow> time_span \<Rightarrow> ticket_transfer" where
  "make_ticket_transfer now i super global delta =
     \<lparr>tt_vote_id = i, tt_super = super, tt_global = global, tt_delta = delta, tt_base_time = now\<rparr>"

definition transfer_adjust_time :: "stopwatch_time \<Rightarrow> ticket_transfer \<Rightarrow> ticket_transfer" where
  "transfer_adjust_time now t =
     t\<lparr>tt_super := get_lower_bound (tt_super t) (tt_delta t), tt_global := get_upper_bound now (tt_global t) (tt_base_time t)\<rparr>"

subsection \<open>The proxy of a vote\<close>

datatype vote_error = OwnerExists | NotOwner | StaleRequest | OtherError

record vote_proxy =
  vp_vote_id :: node_id
  vp_proxy_id :: node_id
  vp_is_sharable :: bool
  vp_owner :: "node_id option"
  vp_is_acquired :: bool
  vp_global :: stopwatch_time
  vp_super :: stopwatch_time
  vp_stored_global :: stopwatch_time

definition make_vote_proxy :: "node_id \<Rightarrow> node_id \<Rightarrow> bool \<Rightarrow> vote_proxy" where
  "make_vote_proxy v p sharable =
     \<lparr>vp_vote_id = v, vp_proxy_id = p, vp_is_sharable = sharable, vp_owner = None, vp_is_acquired = False,
      vp_global = 0, vp_super = 0, vp_stored_global = 0\<rparr>"

text \<open>
  The answer of \<open>OnAcquire\<close>: an error, the owner it names and the tickets it read. The two clocks
  convert the tickets it stores as wall clock times.
\<close>

record acquire_answer =
  aa_error :: "vote_error option"
  aa_owner :: node_id
  aa_global :: date_time
  aa_super :: date_time

definition proxy_acquire ::
  "stopwatch_time \<Rightarrow> date_time \<Rightarrow> node_id \<Rightarrow> acquire_answer \<Rightarrow> vote_proxy \<Rightarrow> (vote_error option \<times> vote_proxy) option" where
  "proxy_acquire now dateNow siteId answer p = do {
     assert_if (vp_proxy_id p \<noteq> siteId);
     Some (case aa_error answer of
        None \<Rightarrow> (None, p\<lparr>vp_is_acquired := True, vp_owner := Some (aa_owner answer),
                   vp_global := from_date_time now dateNow (aa_global answer),
                   vp_super := from_date_time now dateNow (aa_super answer)\<rparr>)
      | Some e \<Rightarrow>
          (if e = OwnerExists then (Some e, p\<lparr>vp_owner := Some (aa_owner answer), vp_is_acquired := False\<rparr>)
           else (Some e, p)))
   }"

definition process_store_error :: "vote_error \<Rightarrow> vote_proxy \<Rightarrow> vote_proxy" where
  "process_store_error e p = (if e = NotOwner then p\<lparr>vp_is_acquired := False\<rparr> else p)"

definition proxy_set_global :: "vote_error option \<Rightarrow> stopwatch_time \<Rightarrow> vote_proxy \<Rightarrow> vote_error option \<times> vote_proxy" where
  "proxy_set_global answer globalTicket p =
     (if globalTicket < vp_stored_global p then (Some StaleRequest, p)
      else case answer of
             None \<Rightarrow> (None, p\<lparr>vp_stored_global := globalTicket\<rparr>)
           | Some e \<Rightarrow> (Some e, process_store_error e p))"

definition proxy_post_set_global :: "stopwatch_time \<Rightarrow> vote_proxy \<Rightarrow> vote_proxy" where
  "proxy_post_set_global globalTicket p = p\<lparr>vp_global := globalTicket\<rparr>"

definition proxy_set_super :: "vote_error option \<Rightarrow> stopwatch_time \<Rightarrow> vote_proxy \<Rightarrow> vote_error option \<times> vote_proxy" where
  "proxy_set_super answer superTicket p =
     (case answer of
        None \<Rightarrow> (None, p\<lparr>vp_super := superTicket\<rparr>)
      | Some e \<Rightarrow> (Some e, process_store_error e p))"

definition proxy_reset_owner :: "vote_proxy \<Rightarrow> vote_proxy" where
  "proxy_reset_owner p = p\<lparr>vp_owner := None\<rparr>"

subsection \<open>The vote entry\<close>

record vote_entry =
  ve_proxy :: vote_proxy
  ve_site_id :: node_id
  ve_global :: stopwatch_time
  ve_super :: stopwatch_time
  ve_gaps :: "ticket_gap list"
  ve_token_owned :: bool
  ve_updating :: bool
  ve_last_renew :: stopwatch_time
  ve_last_failed_acquire :: stopwatch_time
  ve_last_send :: stopwatch_time
  ve_last_receive :: stopwatch_time

definition make_vote_entry :: "vote_proxy \<Rightarrow> node_id \<Rightarrow> vote_entry" where
  "make_vote_entry p site =
     \<lparr>ve_proxy = p, ve_site_id = site, ve_global = 0, ve_super = 0, ve_gaps = [], ve_token_owned = False,
      ve_updating = False, ve_last_renew = 0, ve_last_failed_acquire = 0, ve_last_send = 0, ve_last_receive = 0\<rparr>"

abbreviation ve_is_acquired :: "vote_entry \<Rightarrow> bool" where
  "ve_is_acquired e \<equiv> vp_is_acquired (ve_proxy e)"

definition is_super_ticket_owned :: "stopwatch_time \<Rightarrow> vote_entry \<Rightarrow> bool" where
  "is_super_ticket_owned now e \<longleftrightarrow>
     (if ve_super e > now then True else ve_is_acquired e \<and> vp_super (ve_proxy e) < now)"

definition is_super_ticket_effective :: "fed_config \<Rightarrow> stopwatch_time \<Rightarrow> vote_entry \<Rightarrow> bool" where
  "is_super_ticket_effective cfg now e \<longleftrightarrow>
     (if ve_super e > time_add now (cfg_bootstrap_ticket_acquire_limit cfg) then True
      else ve_is_acquired e \<and> vp_super (ve_proxy e) < now)"

definition is_vote_owned :: "fed_config \<Rightarrow> stopwatch_time \<Rightarrow> vote_entry \<Rightarrow> bool" where
  "is_vote_owned cfg now e \<longleftrightarrow> is_super_ticket_effective cfg now e \<and> ve_global e < now"

definition can_send_bootstrap_request :: "fed_config \<Rightarrow> stopwatch_time \<Rightarrow> vote_entry \<Rightarrow> bool" where
  "can_send_bootstrap_request cfg now e \<longleftrightarrow>
     \<not> ve_is_acquired e \<and> vp_owner (ve_proxy e) \<noteq> None \<and>
     time_add (ve_last_send e) (cfg_bootstrap_vote_request cfg) < now"

definition can_send_renew_request :: "fed_config \<Rightarrow> stopwatch_time \<Rightarrow> vote_entry \<Rightarrow> bool" where
  "can_send_renew_request cfg now e \<longleftrightarrow>
     ve_super e > time_add now (cfg_bootstrap_vote_request cfg) \<and>
     ve_super e < time_add now (cfg_bootstrap_ticket_lease cfg sdiv 2)"

definition can_send_vote_transfer_request :: "vote_entry \<Rightarrow> bool" where
  "can_send_vote_transfer_request e \<longleftrightarrow> vp_is_sharable (ve_proxy e) \<or> ve_last_receive e \<noteq> 0"


definition post_update_global_ticket :: "stopwatch_time \<Rightarrow> bool \<Rightarrow> vote_entry \<Rightarrow> vote_entry" where
  "post_update_global_ticket v updated e =
     (if updated then e\<lparr>ve_proxy := proxy_post_set_global v (ve_proxy e), ve_global := v, ve_updating := False\<rparr>
      else e\<lparr>ve_updating := False\<rparr>)"

definition set_global_ticket :: "vote_error option \<Rightarrow> stopwatch_time \<Rightarrow> vote_entry \<Rightarrow> bool \<times> vote_entry" where
  "set_global_ticket answer globalTicket e =
     (let (error, p) = proxy_set_global answer globalTicket (ve_proxy e);
          result = (error = None)
      in (result, post_update_global_ticket globalTicket result (e\<lparr>ve_proxy := p\<rparr>)))"

definition set_super_ticket :: "vote_error option \<Rightarrow> stopwatch_time \<Rightarrow> vote_entry \<Rightarrow> bool \<times> vote_entry" where
  "set_super_ticket answer superTicket e =
     (let (error, p) = proxy_set_super answer superTicket (ve_proxy e)
      in (error = None, e\<lparr>ve_proxy := p\<rparr>))"

definition complete_bootstrap :: "vote_entry \<Rightarrow> vote_entry" where
  "complete_bootstrap e = e\<lparr>ve_proxy := proxy_reset_owner (ve_proxy e)\<rparr>"

definition update_last_send :: "stopwatch_time \<Rightarrow> vote_entry \<Rightarrow> vote_entry" where
  "update_last_send now e = e\<lparr>ve_last_send := now\<rparr>"

definition update_last_received :: "stopwatch_time \<Rightarrow> node_id \<Rightarrow> vote_entry \<Rightarrow> bool \<times> vote_entry" where
  "update_last_received now fromId e =
     (if vp_owner (ve_proxy e) = Some fromId then
        (if ve_last_receive e = 0 then (True, e\<lparr>ve_last_send := 0, ve_last_receive := now\<rparr>)
         else (False, e\<lparr>ve_last_receive := now\<rparr>))
      else (False, e))"

text \<open>
  \<open>ProcessTicketGap\<close> and \<open>CreateTicketGap\<close> walk the gaps and erase in place; the loop of the second
  grows the new range by the gaps it erases and stops at a gap that contains it.
\<close>

fun process_gap_loop :: "ticket_gap \<Rightarrow> ticket_gap list \<Rightarrow> (bool \<times> ticket_gap list) option" where
  "process_gap_loop gap [] = Some (False, [])"
| "process_gap_loop gap (g # gs) =
     (case gap_merge g gap of
        (True, g') \<Rightarrow> Some (True, g' # gs)
      | (False, _) \<Rightarrow> do {
          covered \<leftarrow> contains_range (tg_range g) (tg_range gap);
          (merged, gs') \<leftarrow> process_gap_loop gap gs;
          Some (merged, if covered \<or> proper_disjoint (tg_range g) (tg_range gap) then g # gs' else gs')
        })"

definition process_ticket_gap :: "ticket_gap \<Rightarrow> ticket_gap list \<Rightarrow> ticket_gap list option" where
  "process_ticket_gap gap gaps = do {
     (merged, gaps') \<leftarrow> process_gap_loop gap gaps;
     Some (if merged then gaps' else gaps' @ [gap])
   }"

fun create_gap_loop :: "node_id_range \<Rightarrow> ticket_gap list \<Rightarrow> (node_id_range option \<times> ticket_gap list) option" where
  "create_gap_loop r [] = Some (Some r, [])"
| "create_gap_loop r (g # gs) = do {
     covered \<leftarrow> contains_range (tg_range g) r;
     if covered then Some (None, g # gs)
     else if proper_disjoint (tg_range g) r then do {
       (res, gs') \<leftarrow> create_gap_loop r gs;
       Some (res, g # gs')
     }
     else do {
       r' \<leftarrow> range_merge r (tg_range g);
       create_gap_loop r' gs
     }
   }"

definition create_ticket_gap :: "fed_config \<Rightarrow> stopwatch_time \<Rightarrow> node_id_range \<Rightarrow> vote_entry \<Rightarrow> vote_entry option" where
  "create_ticket_gap cfg now requestRange e = do {
     (res, gaps) \<leftarrow> create_gap_loop requestRange (ve_gaps e);
     Some (case res of
        None \<Rightarrow> e\<lparr>ve_gaps := gaps\<rparr>
      | Some r \<Rightarrow>
          (if int (length gaps) < cfg_max_gaps cfg
           then e\<lparr>ve_gaps := gaps @ [\<lparr>tg_range = r, tg_interval = TimeRange (ve_global e) now\<rparr>]\<rparr>
           else e\<lparr>ve_gaps := gaps\<rparr>))
   }"

definition find_gap :: "node_id_range \<Rightarrow> ticket_gap list \<Rightarrow> ticket_gap option" where
  "find_gap r gaps = find (\<lambda>g. tg_range g = r) gaps"

definition update_gaps :: "fed_config \<Rightarrow> stopwatch_time \<Rightarrow> vote_entry \<Rightarrow> vote_entry" where
  "update_gaps cfg now e =
     (let gaps = filter (\<lambda>g. \<not> gap_is_expired cfg now g) (ve_gaps e)
      in e\<lparr>ve_gaps := if ve_is_acquired e then map (gap_update_interval now) gaps else gaps\<rparr>)"

fun process_gaps :: "ticket_gap list \<Rightarrow> ticket_gap list \<Rightarrow> ticket_gap list option" where
  "process_gaps [] gaps = Some gaps"
| "process_gaps (g # gs) gaps = do { gaps' \<leftarrow> process_ticket_gap g gaps; process_gaps gs gaps' }"

definition update_global_ticket ::
  "fed_config \<Rightarrow> stopwatch_time \<Rightarrow> vote_error option \<Rightarrow> vote_ticket \<Rightarrow> vote_entry \<Rightarrow> vote_entry option" where
  "update_global_ticket cfg now answer ticket e =
     (let expireTime = vt_expire ticket
      in if ve_is_acquired e then
           if expireTime \<le> vp_global (ve_proxy e) then Some e
           else
             (let newGlobalTicket = max (vp_super (ve_proxy e)) (time_add now (cfg_global_ticket_lease cfg));
                  (updated, e') = set_global_ticket answer newGlobalTicket e
              in Some (if \<not> updated then e'\<lparr>ve_global := expireTime\<rparr> else e'))
         else
           if expireTime \<le> ve_global e then Some e
           else do {
             gaps \<leftarrow> process_gaps (vt_gaps ticket) (ve_gaps e);
             Some (e\<lparr>ve_global := expireTime, ve_gaps := gaps\<rparr>)
           })"

definition pre_update_global_ticket :: "fed_config \<Rightarrow> stopwatch_time \<Rightarrow> vote_entry \<Rightarrow> stopwatch_time \<times> vote_entry" where
  "pre_update_global_ticket cfg now e =
     (let issuedSuperTicket = vp_super (ve_proxy e)
      in if \<not> ve_updating e \<and> ve_is_acquired e \<and> (issuedSuperTicket \<le> ve_global e \<or> issuedSuperTicket < now) then
           (let result = time_add now (cfg_global_ticket_lease cfg)
            in if result > time_add (ve_global e) (cfg_global_ticket_renew cfg)
               then (result, e\<lparr>ve_updating := True\<rparr>) else (0, e))
         else (0, e))"

definition issue_global_ticket :: "fed_config \<Rightarrow> stopwatch_time \<Rightarrow> vote_error option \<Rightarrow> vote_entry \<Rightarrow> vote_entry" where
  "issue_global_ticket cfg now answer e =
     (let (newTicket, e') = pre_update_global_ticket cfg now e
      in if newTicket \<noteq> 0 then snd (set_global_ticket answer newTicket e') else e')"

definition issue_vote_ticket :: "vote_entry \<Rightarrow> vote_ticket" where
  "issue_vote_ticket e =
     foldl (\<lambda>t g. ticket_add_gap g t) (make_vote_ticket (vp_vote_id (ve_proxy e)) (ve_global e)) (ve_gaps e)"

definition convert_super_ticket :: "fed_config \<Rightarrow> stopwatch_time \<Rightarrow> vote_entry \<Rightarrow> vote_entry" where
  "convert_super_ticket cfg now e =
     (if \<not> ve_is_acquired e \<and> is_vote_owned cfg now e \<and> ve_global e < ve_super e
      then e\<lparr>ve_global := ve_super e\<rparr> else e)"

definition accept_transfer :: "ticket_transfer \<Rightarrow> vote_entry \<Rightarrow> vote_entry" where
  "accept_transfer t e =
     (let e1 = (if tt_global t > ve_global e then e\<lparr>ve_global := tt_global t\<rparr> else e)
      in if tt_super t > ve_super e1 then e1\<lparr>ve_super := tt_super t\<rparr> else e1)"

text \<open>The transfer pushed, if any, and the entry.\<close>

definition transfer_super_ticket ::
  "fed_config \<Rightarrow> stopwatch_time \<Rightarrow> vote_error option \<Rightarrow> time_span \<Rightarrow> vote_entry \<Rightarrow> ticket_transfer option \<times> vote_entry" where
  "transfer_super_ticket cfg now answer delta e =
     (if ve_is_acquired e then
        (let superTicket = time_add now (cfg_bootstrap_ticket_lease cfg);
             remainingTTL = time_diff superTicket (ve_global e)
         in if remainingTTL < cfg_bootstrap_ticket_acquire_limit cfg then (None, e)
            else
              (let (ok, e') = set_super_ticket answer superTicket e
               in if \<not> ok then (None, e')
                  else (Some (make_ticket_transfer now (vp_vote_id (ve_proxy e)) superTicket (ve_global e') delta), e')))
      else
        (let superTicket = ve_super e; e' = e\<lparr>ve_super := 0\<rparr>
         in (Some (make_ticket_transfer now (vp_vote_id (ve_proxy e)) superTicket (ve_global e') delta), e')))"

definition extend_super_ticket ::
  "fed_config \<Rightarrow> stopwatch_time \<Rightarrow> vote_error option \<Rightarrow> time_span \<Rightarrow> vote_entry \<Rightarrow> ticket_transfer option \<times> vote_entry" where
  "extend_super_ticket cfg now answer delta e =
     (if \<not> ve_is_acquired e \<or> is_super_ticket_owned now e then (None, e)
      else
        (let superTicket = time_add now (cfg_bootstrap_ticket_lease cfg);
             (ok, e') = set_super_ticket answer superTicket e
         in if \<not> ok then (None, e')
            else (Some (make_ticket_transfer now (vp_vote_id (ve_proxy e)) superTicket (ve_global e') delta), e')))"

definition entry_acquire :: "stopwatch_time \<Rightarrow> date_time \<Rightarrow> acquire_answer \<Rightarrow> vote_entry \<Rightarrow> vote_entry option" where
  "entry_acquire now dateNow answer e = do {
     (error, p) \<leftarrow> proxy_acquire now dateNow (ve_site_id e) answer (ve_proxy e);
     (let e1 = (if error = None then e\<lparr>ve_proxy := p, ve_last_renew := now, ve_last_failed_acquire := 0\<rparr>
                else e\<lparr>ve_proxy := p, ve_last_failed_acquire := now\<rparr>)
      in Some (if ve_global e1 < vp_global p then e1\<lparr>ve_global := vp_global p\<rparr> else e1))
   }"

text \<open>\<open>Initialize\<close>: the error it returns, if any; \<open>openError\<close> is the answer of opening the proxy.\<close>

definition entry_initialize ::
  "stopwatch_time \<Rightarrow> date_time \<Rightarrow> bool \<Rightarrow> vote_error option \<Rightarrow> acquire_answer \<Rightarrow> vote_entry
     \<Rightarrow> (vote_error option \<times> vote_entry) option" where
  "entry_initialize now dateNow acquireSharedVoter openError answer e =
     (if openError \<noteq> None then Some (openError, e)
      else if \<not> vp_is_sharable (ve_proxy e) then do {
        (error, p) \<leftarrow> proxy_acquire now dateNow (ve_site_id e) answer (ve_proxy e);
        if vp_vote_id (ve_proxy e) = ve_site_id e then
          (if error \<noteq> None then Some (error, e\<lparr>ve_proxy := p\<rparr>)
           else Some (None, e\<lparr>ve_proxy := p, ve_global := vp_global p\<rparr>))
        else do {
          assert_if (error \<noteq> Some OwnerExists);
          Some (None, e\<lparr>ve_proxy := p\<rparr>)
        }
      }
      else if acquireSharedVoter then do {
        e' \<leftarrow> entry_acquire now dateNow answer e;
        Some (None, e')
      }
      else Some (None, e))"

definition check_ownership_in_bootstrap ::
  "fed_config \<Rightarrow> stopwatch_time \<Rightarrow> date_time \<Rightarrow> acquire_answer \<Rightarrow> vote_entry \<Rightarrow> vote_entry option" where
  "check_ownership_in_bootstrap cfg now dateNow answer e =
     (let acquireNeeded =
        (if ve_is_acquired e then
           (let elapsed = time_diff now (ve_last_renew e) in elapsed > cfg_vote_ownership_lease cfg sdiv 2)
         else
           now > time_add (ve_last_failed_acquire e) (cfg_bootstrap_vote_acquire_retry cfg) \<and>
           \<not> is_super_ticket_effective cfg now e \<and>
           (vp_owner (ve_proxy e) = None \<or>
            (ve_last_receive e < ve_last_send e \<and>
             time_diff now (ve_last_send e) > cfg_bootstrap_vote_request cfg)))
      in if acquireNeeded then entry_acquire now dateNow answer e else Some e)"

text \<open>The routing token enters only through whether it contains the vote's id.\<close>

definition check_ownership_after_bootstrap ::
  "fed_config \<Rightarrow> stopwatch_time \<Rightarrow> date_time \<Rightarrow> acquire_answer \<Rightarrow> node_id_range \<Rightarrow> vote_entry
     \<Rightarrow> (time_span \<times> vote_entry) option" where
  "check_ownership_after_bootstrap cfg now dateNow answer tokenRange e =
     (let isOwner = contains_id tokenRange (vp_vote_id (ve_proxy e));
          e1 = (if isOwner \<noteq> ve_token_owned e then e\<lparr>ve_last_failed_acquire := 0, ve_token_owned := isOwner\<rparr> else e)
      in if isOwner \<and> \<not> ve_is_acquired e1 then
           (let result = time_diff (time_add (ve_last_failed_acquire e1) (cfg_bootstrap_vote_acquire_retry cfg)) now
            in if result > 0 then Some (result, e1)
               else do {
                 e2 \<leftarrow> entry_acquire now dateNow answer e1;
                 Some (if \<not> ve_is_acquired e2 then (cfg_bootstrap_vote_acquire_retry cfg, e2) else (span_max, e2))
               })
         else Some (span_max, e1))"

subsection \<open>Gap lists\<close>

definition span_of :: "time_range \<Rightarrow> int set" where
  "span_of t = {tr_begin t..<tr_end t}"

definition gap_range_ok :: "node_id_range \<Rightarrow> bool" where
  "gap_range_ok r \<longleftrightarrow> range_wf r \<and> r \<noteq> empty_range"

definition gaps_ok :: "ticket_gap list \<Rightarrow> bool" where
  "gaps_ok gs \<longleftrightarrow> (\<forall>g\<in>set gs. gap_range_ok (tg_range g)) \<and> distinct (map tg_range gs)"

lemma gaps_ok_simps [simp]:
  "gaps_ok []"
  "gaps_ok (g # gs) \<longleftrightarrow> gap_range_ok (tg_range g) \<and> tg_range g \<notin> tg_range ` set gs \<and> gaps_ok gs"
  "gaps_ok (gs @ [g]) \<longleftrightarrow> gap_range_ok (tg_range g) \<and> tg_range g \<notin> tg_range ` set gs \<and> gaps_ok gs"
  by (auto simp: gaps_ok_def)

lemma gaps_ok_same_ranges: "map tg_range hs = map tg_range gs \<Longrightarrow> gaps_ok gs \<Longrightarrow> gaps_ok hs"
  unfolding gaps_ok_def by (metis (no_types, lifting) image_iff image_set)

lemma gaps_ok_filter: "gaps_ok gs \<Longrightarrow> gaps_ok (filter P gs)"
  by (auto simp: gaps_ok_def distinct_map intro: inj_on_subset)

lemma contains_gap: "gap_range_ok r \<Longrightarrow> gap_range_ok s \<Longrightarrow> contains_range r s = Some (rset s \<subseteq> rset r)"
  by (simp add: gap_range_ok_def contains_range_iff)

lemma gap_ends: "gap_range_ok r \<Longrightarrow> nid_val (range_begin r) \<in> rset r \<and> nid_val (range_end r) \<in> rset r"
  by (auto simp: gap_range_ok_def rset_def)

lemma merge_gaps:
  assumes "gap_range_ok r" "gap_range_ok s" "\<not> proper_disjoint s r"
  shows "\<exists>m. range_merge r s = Some m \<and> gap_range_ok m \<and> rset m = rset r \<union> rset s"
proof -
  have "rset r \<inter> rset s \<noteq> {}"
    using assms(3) gap_ends [OF assms(1)]
    by (auto simp: proper_disjoint_def proper_contains_def contains_id_iff)
  from range_merge_overlap [OF _ _ _ _ this] obtain m where
    m: "range_merge r s = Some m" "range_wf m" "rset m = rset r \<union> rset s"
    using assms(1,2) by (auto simp: gap_range_ok_def)
  moreover have "rset m \<noteq> {}" using m(3) gap_ends [OF assms(1)] by blast
  ultimately show ?thesis by (auto simp: gap_range_ok_def)
qed

lemma process_gap_loop_ok:
  assumes "gaps_ok gs" "gap_range_ok (tg_range gap)"
  shows "\<exists>merged gs'. process_gap_loop gap gs = Some (merged, gs') \<and> gaps_ok gs' \<and>
    tg_range ` set gs' \<subseteq> tg_range ` set gs \<and> (merged \<longleftrightarrow> tg_range gap \<in> tg_range ` set gs) \<and>
    (merged \<longrightarrow> tg_range gap \<in> tg_range ` set gs')"
  using assms
proof (induction gs)
  case Nil
  then show ?case by (intro exI [of _ False]) simp
next
  case (Cons g gs)
  then obtain merged gs' where IH: "process_gap_loop gap gs = Some (merged, gs')" "gaps_ok gs'"
    "tg_range ` set gs' \<subseteq> tg_range ` set gs" "merged \<longleftrightarrow> tg_range gap \<in> tg_range ` set gs"
    "merged \<longrightarrow> tg_range gap \<in> tg_range ` set gs'"
    by auto
  have "contains_range (tg_range g) (tg_range gap) = Some (rset (tg_range gap) \<subseteq> rset (tg_range g))"
    using Cons.prems by (simp add: contains_gap)
  then show ?case using IH Cons.prems by (auto simp: gap_merge_def)
qed

lemma process_ticket_gap_ok:
  assumes "gaps_ok gs" "gap_range_ok (tg_range gap)"
  shows "\<exists>gs'. process_ticket_gap gap gs = Some gs' \<and> gaps_ok gs' \<and> tg_range gap \<in> tg_range ` set gs'"
  using process_gap_loop_ok [OF assms] assms(2) by (fastforce simp: process_ticket_gap_def)

lemma process_gaps_ok:
  "gaps_ok gs \<Longrightarrow> \<forall>g\<in>set new. gap_range_ok (tg_range g) \<Longrightarrow> \<exists>gs'. process_gaps new gs = Some gs' \<and> gaps_ok gs'"
proof (induction new arbitrary: gs)
  case Nil
  then show ?case by simp
next
  case (Cons g new)
  obtain gs1 where "process_ticket_gap g gs = Some gs1" "gaps_ok gs1"
    using process_ticket_gap_ok [OF Cons.prems(1), of g] Cons.prems(2) by auto
  with Cons.IH [of gs1] Cons.prems(2) show ?case by simp
qed

lemma create_gap_loop_ok:
  assumes "gaps_ok gs" "gap_range_ok r"
  shows "\<exists>res gs'. create_gap_loop r gs = Some (res, gs') \<and> gaps_ok gs' \<and> tg_range ` set gs' \<subseteq> tg_range ` set gs \<and>
    length gs' \<le> length gs \<and>
    (case res of None \<Rightarrow> \<exists>g\<in>set gs'. rset r \<subseteq> rset (tg_range g)
     | Some r' \<Rightarrow> gap_range_ok r' \<and> rset r \<subseteq> rset r' \<and> (\<forall>g\<in>set gs'. \<not> rset r' \<subseteq> rset (tg_range g)))"
  using assms
proof (induction gs arbitrary: r)
  case Nil
  then show ?case by simp
next
  case (Cons g gs)
  have g: "gap_range_ok (tg_range g)" "gaps_ok gs" "tg_range g \<notin> tg_range ` set gs" using Cons.prems by auto
  note c = contains_gap [OF g(1) Cons.prems(2)]
  consider (covered) "rset r \<subseteq> rset (tg_range g)"
    | (apart) "\<not> rset r \<subseteq> rset (tg_range g)" "proper_disjoint (tg_range g) r"
    | (merge) "\<not> rset r \<subseteq> rset (tg_range g)" "\<not> proper_disjoint (tg_range g) r" by blast
  then show ?case
  proof cases
    case covered
    then show ?thesis using Cons.prems by (simp add: c)
  next
    case apart
    obtain res gs' where IH: "create_gap_loop r gs = Some (res, gs')" "gaps_ok gs'"
      "tg_range ` set gs' \<subseteq> tg_range ` set gs" "length gs' \<le> length gs"
      "case res of None \<Rightarrow> \<exists>g\<in>set gs'. rset r \<subseteq> rset (tg_range g)
       | Some r' \<Rightarrow> gap_range_ok r' \<and> rset r \<subseteq> rset r' \<and> (\<forall>g\<in>set gs'. \<not> rset r' \<subseteq> rset (tg_range g))"
      using Cons.IH [OF g(2) Cons.prems(2)] by blast
    have ok: "gaps_ok (g # gs')" "tg_range ` set (g # gs') \<subseteq> tg_range ` set (g # gs)" "length (g # gs') \<le> length (g # gs)"
      using IH g by auto
    have step: "create_gap_loop r (g # gs) = Some (res, g # gs')" using apart IH(1) by (simp add: c)
    show ?thesis
      using ok IH(5) apart(1) by (intro exI [of _ res] exI [of _ "g # gs'"] conjI step) (auto split: option.splits)
  next
    case merge
    obtain m where m: "range_merge r (tg_range g) = Some m" "gap_range_ok m" "rset m = rset r \<union> rset (tg_range g)"
      using merge_gaps [OF Cons.prems(2) g(1) merge(2)] by blast
    obtain res gs' where IH: "create_gap_loop m gs = Some (res, gs')" "gaps_ok gs'"
      "tg_range ` set gs' \<subseteq> tg_range ` set gs" "length gs' \<le> length gs"
      "case res of None \<Rightarrow> \<exists>g\<in>set gs'. rset m \<subseteq> rset (tg_range g)
       | Some r' \<Rightarrow> gap_range_ok r' \<and> rset m \<subseteq> rset r' \<and> (\<forall>g\<in>set gs'. \<not> rset r' \<subseteq> rset (tg_range g))"
      using Cons.IH [OF g(2) m(2)] by blast
    have "create_gap_loop r (g # gs) = Some (res, gs')" using merge m(1) IH(1) by (simp add: c)
    then show ?thesis using IH m(3) by (auto split: option.splits)
  qed
qed

lemma create_ticket_gap_ok:
  assumes "gaps_ok (ve_gaps e)" "gap_range_ok r"
  shows "\<exists>e'. create_ticket_gap cfg now r e = Some e' \<and> gaps_ok (ve_gaps e') \<and>
    int (length (ve_gaps e')) \<le> max (int (length (ve_gaps e))) (cfg_max_gaps cfg) \<and>
    (int (length (ve_gaps e)) < cfg_max_gaps cfg \<longrightarrow> (\<exists>g\<in>set (ve_gaps e'). rset r \<subseteq> rset (tg_range g)))
    \<and> ve_proxy e' = ve_proxy e"
proof -
  obtain res gs' where 1: "create_gap_loop r (ve_gaps e) = Some (res, gs')" "gaps_ok gs'" "length gs' \<le> length (ve_gaps e)"
    "case res of None \<Rightarrow> \<exists>g\<in>set gs'. rset r \<subseteq> rset (tg_range g)
     | Some r' \<Rightarrow> gap_range_ok r' \<and> rset r \<subseteq> rset r' \<and> (\<forall>g\<in>set gs'. \<not> rset r' \<subseteq> rset (tg_range g))"
    using create_gap_loop_ok [OF assms] by blast
  show ?thesis
  proof (cases res)
    case None
    then show ?thesis using 1 by (auto simp: create_ticket_gap_def)
  next
    case (Some r')
    have "r' \<notin> tg_range ` set gs'" using 1(4) Some by auto
    then show ?thesis using 1 Some by (auto simp: create_ticket_gap_def)
  qed
qed

subsection \<open>Steps of an entry\<close>

text \<open>
  Every operation of the entry, at any time and with any answer of the store. What arrives from
  other nodes names ranges that are not empty, as \<open>CreateTicketGap\<close> builds them.
\<close>

inductive entry_step :: "fed_config \<Rightarrow> vote_entry \<Rightarrow> vote_entry \<Rightarrow> bool" for cfg where
  "entry_step cfg e (complete_bootstrap e)"
| "entry_step cfg e (update_last_send now e)"
| "entry_step cfg e (snd (update_last_received now i e))"
| "\<forall>g\<in>set (vt_gaps t). gap_range_ok (tg_range g) \<Longrightarrow> update_global_ticket cfg now ans t e = Some e' \<Longrightarrow> entry_step cfg e e'"
| "entry_step cfg e (snd (pre_update_global_ticket cfg now e))"
| "entry_step cfg e (snd (set_global_ticket ans v e))"
| "entry_step cfg e (issue_global_ticket cfg now ans e)"
| "entry_step cfg e (update_gaps cfg now e)"
| "entry_step cfg e (convert_super_ticket cfg now e)"
| "entry_step cfg e (accept_transfer t e)"
| "entry_step cfg e (snd (transfer_super_ticket cfg now ans delta e))"
| "entry_step cfg e (snd (extend_super_ticket cfg now ans delta e))"
| "entry_acquire now dnow aans e = Some e' \<Longrightarrow> entry_step cfg e e'"
| "check_ownership_in_bootstrap cfg now dnow aans e = Some e' \<Longrightarrow> entry_step cfg e e'"
| "check_ownership_after_bootstrap cfg now dnow aans r e = Some (d, e') \<Longrightarrow> entry_step cfg e e'"
| "gap_range_ok r \<Longrightarrow> create_ticket_gap cfg now r e = Some e' \<Longrightarrow> entry_step cfg e e'"

definition entry_le :: "vote_entry \<Rightarrow> vote_entry \<Rightarrow> bool" where
  "entry_le e e' \<longleftrightarrow> vp_stored_global (ve_proxy e) \<le> vp_stored_global (ve_proxy e') \<and>
     vp_vote_id (ve_proxy e') = vp_vote_id (ve_proxy e) \<and> ve_site_id e' = ve_site_id e \<and>
     (gaps_ok (ve_gaps e) \<longrightarrow> gaps_ok (ve_gaps e'))"

named_theorems entry_les \<open>what the operations of an entry never undo\<close>

lemma entry_le_refl [simp]: "entry_le e e"
  by (simp add: entry_le_def)

lemma entry_le_trans: "entry_le e e' \<Longrightarrow> entry_le e' e'' \<Longrightarrow> entry_le e e''"
  by (auto simp: entry_le_def)

lemma entry_le_upd [entry_les]:
  "entry_le e (e\<lparr>ve_global := g\<rparr>)" "entry_le e (e\<lparr>ve_super := g\<rparr>)" "entry_le e (e\<lparr>ve_updating := b\<rparr>)"
  "entry_le e (complete_bootstrap e)" "entry_le e (update_last_send now e)"
  "entry_le e (snd (update_last_received now i e))" "entry_le e (convert_super_ticket cfg now e)"
  "entry_le e (accept_transfer t e)" "entry_le e (snd (pre_update_global_ticket cfg now e))"
  by (auto simp: entry_le_def complete_bootstrap_def proxy_reset_owner_def update_last_send_def update_last_received_def
      convert_super_ticket_def accept_transfer_def pre_update_global_ticket_def Let_def)

lemma entry_le_set_global [entry_les]: "entry_le e (snd (set_global_ticket ans v e))"
  by (auto simp: entry_le_def set_global_ticket_def proxy_set_global_def post_update_global_ticket_def
      proxy_post_set_global_def process_store_error_def Let_def split: option.splits)

lemma entry_le_set_super [entry_les]: "entry_le e (snd (set_super_ticket ans v e))"
  by (auto simp: entry_le_def set_super_ticket_def proxy_set_super_def process_store_error_def Let_def
      split: option.splits)

lemma entry_le_acquire: "entry_acquire now dnow aans e = Some e' \<Longrightarrow> entry_le e e'"
  by (auto simp: entry_le_def entry_acquire_def proxy_acquire_def bind_Some_iff Let_def split: option.splits if_splits)

lemma entry_le_issue [entry_les]: "entry_le e (issue_global_ticket cfg now ans e)"
proof -
  obtain n e1 where pre: "pre_update_global_ticket cfg now e = (n, e1)" by fastforce
  have "entry_le e e1" using entry_le_upd(9) [of e cfg now] by (simp add: pre)
  then show ?thesis using entry_le_trans [OF _ entry_le_set_global] by (simp add: issue_global_ticket_def pre)
qed

lemma entry_le_gaps [entry_les]: "entry_le e (update_gaps cfg now e)"
proof -
  have "map tg_range (map (gap_update_interval now) gs) = map tg_range gs" for gs
    by (simp add: gap_update_interval_def)
  from gaps_ok_same_ranges [OF this] show ?thesis
    by (simp add: entry_le_def update_gaps_def Let_def gaps_ok_filter)
qed

lemma entry_le_transfer [entry_les]:
  "entry_le e (snd (transfer_super_ticket cfg now ans delta e))" "entry_le e (snd (extend_super_ticket cfg now ans delta e))"
  using entry_le_set_super [of e ans "time_add now (cfg_bootstrap_ticket_lease cfg)"] entry_le_upd(2) [of e]
  by (cases "set_super_ticket ans (time_add now (cfg_bootstrap_ticket_lease cfg)) e";
      simp add: transfer_super_ticket_def extend_super_ticket_def Let_def)+

lemma entry_le_update_global:
  assumes "\<forall>g\<in>set (vt_gaps t). gap_range_ok (tg_range g)" "update_global_ticket cfg now ans t e = Some e'"
  shows "entry_le e e'"
proof (cases "ve_is_acquired e")
  case True
  obtain b e1 where "set_global_ticket ans (max (vp_super (ve_proxy e)) (time_add now (cfg_global_ticket_lease cfg))) e = (b, e1)"
    by fastforce
  moreover from this have "entry_le e e1" by (metis entry_le_set_global snd_conv)
  ultimately show ?thesis
    using assms(2) True entry_le_trans [OF _ entry_le_upd(1)] by (auto simp: update_global_ticket_def Let_def split: if_splits)
next
  case False
  then show ?thesis using assms process_gaps_ok [of "ve_gaps e" "vt_gaps t"]
    by (auto simp: update_global_ticket_def Let_def entry_le_def bind_Some_iff split: if_splits)
qed

lemma entry_le_check:
  "check_ownership_in_bootstrap cfg now dnow aans e = Some e' \<Longrightarrow> entry_le e e'"
  "check_ownership_after_bootstrap cfg now dnow aans r e = Some (d, e') \<Longrightarrow> entry_le e e'"
proof -
  show "check_ownership_in_bootstrap cfg now dnow aans e = Some e' \<Longrightarrow> entry_le e e'"
    by (auto simp: check_ownership_in_bootstrap_def Let_def intro: entry_le_acquire split: if_splits)
  define e1 where "e1 = (if contains_id r (vp_vote_id (ve_proxy e)) \<noteq> ve_token_owned e
    then e\<lparr>ve_last_failed_acquire := 0, ve_token_owned := contains_id r (vp_vote_id (ve_proxy e))\<rparr> else e)"
  have "entry_le e e1" by (simp add: entry_le_def e1_def)
  then show "check_ownership_after_bootstrap cfg now dnow aans r e = Some (d, e') \<Longrightarrow> entry_le e e'"
    unfolding check_ownership_after_bootstrap_def Let_def e1_def [symmetric]
    by (auto simp: bind_Some_iff dest!: entry_le_acquire intro: entry_le_trans split: if_splits)
qed

lemma entry_le_create: "gap_range_ok r \<Longrightarrow> create_ticket_gap cfg now r e = Some e' \<Longrightarrow> entry_le e e'"
proof -
  assume r: "gap_range_ok r" and c: "create_ticket_gap cfg now r e = Some e'"
  have "ve_proxy e' = ve_proxy e" "ve_site_id e' = ve_site_id e"
    using c by (auto simp: create_ticket_gap_def bind_Some_iff split: option.splits if_splits)
  moreover have "gaps_ok (ve_gaps e) \<Longrightarrow> gaps_ok (ve_gaps e')"
    using create_ticket_gap_ok [OF _ r, of e cfg now] c by auto
  ultimately show ?thesis by (simp add: entry_le_def)
qed

lemma entry_step_le: "entry_step cfg e e' \<Longrightarrow> entry_le e e'"
  by (induction rule: entry_step.induct)
    (auto intro: entry_les entry_le_acquire entry_le_update_global entry_le_check entry_le_create)

subsection \<open>The properties\<close>

text \<open>Clock readings far enough from the limits for sums of a few of them to stay exact.\<close>

definition clock_value :: "int \<Rightarrow> bool" where
  "clock_value t \<longleftrightarrow> - (2 ^ 60) \<le> t \<and> t \<le> 2 ^ 60"

lemma bounds_exact:
  assumes "clock_value v" "clock_value delta" "clock_value now" "clock_value base"
  shows "get_lower_bound v delta = v - (delta + timer_margin)" "get_upper_bound now v base = v + (now - base)"
proof -
  have "in_int64 (delta + timer_margin)" "in_int64 (v - (delta + timer_margin))" "in_int64 (now - base)"
    "in_int64 (v + (now - base))" "v < time_max" "now < time_max" "delta + timer_margin < span_max" "now - base < span_max"
    using assms by (auto simp: clock_value_def in_int64_iff timer_margin_def time_max_def span_max_def int64_max_def)
  then show "get_lower_bound v delta = v - (delta + timer_margin)" "get_upper_bound now v base = v + (now - base)"
    by (simp_all add: get_lower_bound_def get_upper_bound_def span_add_def time_simps)
qed

lemma clock_adjustment:
  assumes "clock_value delta" "clock_value now" "clock_value (gl_base_time l)" "gl_delta l = delta"
    and "\<forall>v\<in>set (gl_tickets l). clock_value (vt_expire v) \<and> (\<forall>g\<in>set (vt_gaps v). clock_value (tr_begin (tg_interval g)) \<and> clock_value (tr_end (tg_interval g)))"
    and "- skew \<le> delta" "skew \<le> now - gl_base_time l"
    and "tt_delta t = delta" "tt_base_time t = gl_base_time l" "clock_value (tt_super t)" "clock_value (tt_global t)"
  shows "list_all2 (\<lambda>v v'. vt_expire v' \<le> vt_expire v + skew \<and>
      list_all2 (\<lambda>g g'. tg_range g' = tg_range g \<and>
        (\<forall>x\<in>span_of (tg_interval g'). x - skew \<in> span_of (tg_interval g))) (vt_gaps v) (vt_gaps v'))
    (gl_tickets l) (gl_tickets (lease_adjust_time now l))"
    and "tt_super (transfer_adjust_time now t) \<le> tt_super t + skew \<and> tt_global t + skew \<le> tt_global (transfer_adjust_time now t)"
proof -
  have margin: "0 \<le> timer_margin" by (simp add: timer_margin_def)
  have lower: "get_lower_bound v delta \<le> v + skew" if "clock_value v" for v
    using bounds_exact(1) [OF that assms(1,2,3)] assms(6) margin by simp
  have upper: "v + skew \<le> get_upper_bound now v (gl_base_time l)" if "clock_value v" for v
    using bounds_exact(2) [OF that assms(1,2,3)] assms(7) by simp
  have gap: "tg_range (gap_adjust_time now delta (gl_base_time l) g) = tg_range g \<and>
      (\<forall>x\<in>span_of (tg_interval (gap_adjust_time now delta (gl_base_time l) g)). x - skew \<in> span_of (tg_interval g))"
    if "clock_value (tr_begin (tg_interval g))" "clock_value (tr_end (tg_interval g))" for g
    using upper [OF that(1)] lower [OF that(2)] by (auto simp: gap_adjust_time_def span_of_def)
  show "list_all2 (\<lambda>v v'. vt_expire v' \<le> vt_expire v + skew \<and>
      list_all2 (\<lambda>g g'. tg_range g' = tg_range g \<and>
        (\<forall>x\<in>span_of (tg_interval g'). x - skew \<in> span_of (tg_interval g))) (vt_gaps v) (vt_gaps v'))
    (gl_tickets l) (gl_tickets (lease_adjust_time now l))"
    using assms(5) lower gap
    by (simp add: lease_adjust_time_def ticket_adjust_time_def list_all2_map2 assms(4) list_all2_same)
  show "tt_super (transfer_adjust_time now t) \<le> tt_super t + skew \<and> tt_global t + skew \<le> tt_global (transfer_adjust_time now t)"
    using lower upper assms(8-11) by (simp add: transfer_adjust_time_def)
qed

text \<open>C31: time stamps that cross between two clocks stay on the safe side. Let the receiver's clock be ahead
  of the sender's by \<open>skew\<close>; a request is received after it was sent and a lease is received after it
  was made. Then an adjusted ticket never outlives the sender's, an adjusted gap never covers more
  time, and of a transfer the super ticket ends no later and the global ticket no earlier.\<close>

theorem clock_adjustment_safe:
  assumes "clock_value delta" "clock_value now" "clock_value (gl_base_time l)" "gl_delta l = delta"
    and "\<forall>v\<in>set (gl_tickets l). clock_value (vt_expire v) \<and> (\<forall>g\<in>set (vt_gaps v). clock_value (tr_begin (tg_interval g)) \<and> clock_value (tr_end (tg_interval g)))"
    and "- skew \<le> delta" "skew \<le> now - gl_base_time l"
    and "tt_delta t = delta" "tt_base_time t = gl_base_time l" "clock_value (tt_super t)" "clock_value (tt_global t)"
  shows "(list_all2 (\<lambda>v v'. vt_expire v' \<le> vt_expire v + skew \<and>
      list_all2 (\<lambda>g g'. tg_range g' = tg_range g \<and>
        (\<forall>x\<in>span_of (tg_interval g'). x - skew \<in> span_of (tg_interval g))) (vt_gaps v) (vt_gaps v'))
    (gl_tickets l) (gl_tickets (lease_adjust_time now l))) \<and>
    (tt_super (transfer_adjust_time now t) \<le> tt_super t + skew \<and> tt_global t + skew \<le> tt_global (transfer_adjust_time now t))"
  using clock_adjustment [OF assms] by blast

lemma time_range_merge_spans:
  shows "span_of (time_range_merge a b) \<in> {span_of a, span_of b, span_of a \<union> span_of b}"
    and "span_of a \<noteq> {} \<or> span_of b \<noteq> {} \<Longrightarrow> span_of (time_range_merge a b) \<noteq> {}"
    and "span_of a \<noteq> {} \<Longrightarrow> span_of b \<noteq> {} \<Longrightarrow> tr_end (time_range_merge a b) = max (tr_end a) (tr_end b)"
proof -
  have "span_of (time_range_merge a b) = span_of a \<or> span_of (time_range_merge a b) = span_of b \<or>
      span_of (time_range_merge a b) = span_of a \<union> span_of b"
  proof (cases "tr_begin a < tr_end a \<and> tr_begin b < tr_end b \<and> tr_begin b < tr_end a \<and> tr_begin a \<le> tr_end b")
    case True
    then have "span_of (time_range_merge a b) = {min (tr_begin a) (tr_begin b)..<max (tr_end a) (tr_end b)}"
      by (simp add: time_range_merge_def span_of_def)
    moreover have "x \<in> \<dots> \<longleftrightarrow> x \<in> span_of a \<union> span_of b" for x
      using True by (auto simp: span_of_def min_le_iff_disj less_max_iff_disj)
    ultimately show ?thesis by blast
  next
    case False
    then show ?thesis by (auto simp: time_range_merge_def span_of_def Let_def)
  qed
  then show "span_of (time_range_merge a b) \<in> {span_of a, span_of b, span_of a \<union> span_of b}" by blast
  show "span_of a \<noteq> {} \<or> span_of b \<noteq> {} \<Longrightarrow> span_of (time_range_merge a b) \<noteq> {}"
    by (auto simp: time_range_merge_def span_of_def Let_def min_def max_def)
  show "span_of a \<noteq> {} \<Longrightarrow> span_of b \<noteq> {} \<Longrightarrow> tr_end (time_range_merge a b) = max (tr_end a) (tr_end b)"
    by (auto simp: time_range_merge_def span_of_def Let_def max_def)
qed

text \<open>Merging the time ranges of a gap never vouches for a time neither vouched for, gives one of the two or
  their union, and of two effective ranges keeps the later end.\<close>

theorem time_range_merge_sound:
  shows "(span_of (time_range_merge a b) \<in> {span_of a, span_of b, span_of a \<union> span_of b}) \<and>
    (span_of a \<noteq> {} \<or> span_of b \<noteq> {} \<longrightarrow> span_of (time_range_merge a b) \<noteq> {}) \<and>
    (span_of a \<noteq> {} \<longrightarrow> span_of b \<noteq> {} \<longrightarrow> tr_end (time_range_merge a b) = max (tr_end a) (tr_end b))"
  using time_range_merge_spans [of a b] by blast

text \<open>C32: a new gap never stops the process on gaps in form; it keeps them in form (no empty range, no range
  twice), below the configured number, and while there is room some gap covers the requested range.\<close>

theorem create_ticket_gap_correct:
  assumes "gaps_ok (ve_gaps e)" "range_wf r" "r \<noteq> empty_range"
  shows "\<exists>e'. create_ticket_gap cfg now r e = Some e' \<and> gaps_ok (ve_gaps e') \<and>
    int (length (ve_gaps e')) \<le> max (int (length (ve_gaps e))) (cfg_max_gaps cfg) \<and>
    (int (length (ve_gaps e)) < cfg_max_gaps cfg \<longrightarrow> (\<exists>g\<in>set (ve_gaps e'). range_ids r \<subseteq> range_ids (tg_range g)))"
  using create_ticket_gap_ok [OF assms(1), of r cfg now] assms(2,3)
  by (auto simp: gap_range_ok_def range_ids_rset)


text \<open>C27: whatever an entry goes through, the global ticket its proxy last stored never goes back, its vote and
  site stay, and its gaps stay in form.\<close>

theorem vote_entry_monotone:
  assumes "(entry_step cfg)\<^sup>*\<^sup>* (make_vote_entry p site) e" "(entry_step cfg)\<^sup>*\<^sup>* e e'"
  shows "vp_stored_global (ve_proxy e) \<le> vp_stored_global (ve_proxy e') \<and> gaps_ok (ve_gaps e') \<and>
    vp_vote_id (ve_proxy e') = vp_vote_id p \<and> ve_site_id e' = site"
proof -
  have le: "entry_le a b" if "(entry_step cfg)\<^sup>*\<^sup>* a b" for a b
    using that by (induction rule: rtranclp_induct) (auto intro: entry_le_trans entry_step_le)
  from le [OF assms(1)] le [OF assms(2)] show ?thesis
    by (simp add: entry_le_def make_vote_entry_def)
qed



subsection \<open>The properties at concrete inputs\<close>

theorem clock_adjustment_safe_witness:
  "tt_super (transfer_adjust_time 150 \<lparr>tt_vote_id = min_node_id, tt_super = 1000, tt_global = 500, tt_delta = 20, tt_base_time = 100\<rparr>)
    \<le> 1000 + 30"
  using clock_adjustment_safe [of 20 150 "\<lparr>gl_tickets = [], gl_delta = 20, gl_base_time = 100\<rparr>" 30
    "\<lparr>tt_vote_id = min_node_id, tt_super = 1000, tt_global = 500, tt_delta = 20, tt_base_time = 100\<rparr>"]
  by (simp add: clock_value_def)

theorem time_range_merge_sound_witness:
  "tr_end (time_range_merge (TimeRange 1 5) (TimeRange 3 9)) = 9"
  using time_range_merge_sound [of "TimeRange 1 5" "TimeRange 3 9"] by (simp add: span_of_def)

theorem create_ticket_gap_correct_witness:
  "\<exists>e'. create_ticket_gap \<lparr>cfg_global_ticket_lease = 300, cfg_global_ticket_renew = 10, cfg_bootstrap_ticket_lease = 100,
        cfg_bootstrap_ticket_acquire_limit = 20, cfg_bootstrap_vote_request = 5, cfg_bootstrap_vote_acquire_retry = 10,
        cfg_vote_ownership_lease = 30, cfg_max_gaps = 30\<rparr> 7 full_range
      (make_vote_entry (make_vote_proxy min_node_id min_node_id False) min_node_id) = Some e' \<and>
    (\<exists>g\<in>set (ve_gaps e'). range_ids full_range \<subseteq> range_ids (tg_range g))"
  using create_ticket_gap_correct [of "make_vote_entry (make_vote_proxy min_node_id min_node_id False) min_node_id" full_range
      "\<lparr>cfg_global_ticket_lease = 300, cfg_global_ticket_renew = 10, cfg_bootstrap_ticket_lease = 100,
        cfg_bootstrap_ticket_acquire_limit = 20, cfg_bootstrap_vote_request = 5, cfg_bootstrap_vote_acquire_retry = 10,
        cfg_vote_ownership_lease = 30, cfg_max_gaps = 30\<rparr>" 7]
  by (auto simp: make_vote_entry_def range_wf_def)


theorem vote_entry_monotone_witness:
  "vp_stored_global (ve_proxy (make_vote_entry (make_vote_proxy min_node_id max_node_id False) max_node_id))
    \<le> vp_stored_global (ve_proxy (snd (set_global_ticket None 40 (make_vote_entry (make_vote_proxy min_node_id max_node_id False) max_node_id))))"
proof -
  let ?c = "\<lparr>cfg_global_ticket_lease = 300, cfg_global_ticket_renew = 10, cfg_bootstrap_ticket_lease = 100,
        cfg_bootstrap_ticket_acquire_limit = 20, cfg_bootstrap_vote_request = 5, cfg_bootstrap_vote_acquire_retry = 10,
        cfg_vote_ownership_lease = 30, cfg_max_gaps = 30\<rparr>"
  have "entry_step ?c (make_vote_entry (make_vote_proxy min_node_id max_node_id False) max_node_id)
      (snd (set_global_ticket None 40 (make_vote_entry (make_vote_proxy min_node_id max_node_id False) max_node_id)))"
    by (rule entry_step.intros)
  from vote_entry_monotone [OF rtranclp.rtrancl_refl r_into_rtranclp [of "entry_step ?c", OF this]]
  show ?thesis by blast
qed


end
