(* ===== verification/Arbitration.thy ===== *)
theory Arbitration
  imports Fabric_Time Node_Instance
begin

section \<open>Lease arbitration\<close>

text \<open>
  src/Federation/ArbitrationTable.h and ArbitrationTable.cpp, with the messages of
  ArbitrationRequestBody.h/.cpp and ArbitrationReplyBody.h/.cpp. When a lease between two nodes
  fails, each reports the other to the voters; a voter keeps, for every report, a record of the
  monitor's node and a peer record of the subject's node, and decides which of the two may stay.

  The code links records by pointers (\<open>peer_\<close>, \<open>next_\<close>, \<open>prev_\<close>, \<open>delayed_\<close>). The model has an
  explicit store: a record is an identifier in \<^term>\<open>\<lambda>t. at_store t\<close>-like maps, deleting a record
  removes it from the store, and following a null or dangling pointer stops the process, as an
  \<open>ASSERT\<close> does: the operation returns \<^const>\<open>None\<close>. A node's list is the list of its identifiers,
  head first. The clock is read once per request. Tracing is left out.
\<close>

subsection \<open>Messages and configuration\<close>

datatype arbitration_type =
  TwoWaySimple | TwoWayExtended | OneWay | RevertToReject | RevertToNeutral | ImplicitType
  | QueryType | KeepAlive

datatype arbitration_decision = DNone | DGrant | DReject | DNeutral | DDelay

datatype record_state =
  RNone | RPending | RConfirmed | RReported | RReported2 | RRejected | RExpired | RImplicit

record arbitration_request =
  rq_monitor :: lease_agent_instance
  rq_subject :: lease_agent_instance
  rq_subject_ttl :: time_span
  rq_history_needed :: time_span
  rq_monitor_lease :: int
  rq_subject_lease :: int
  rq_extra_data :: u64
  rq_type :: arbitration_type

definition implicit_arbitration1 :: "arbitration_request \<Rightarrow> int" where
  "implicit_arbitration1 q = uint (rq_extra_data q AND 0x0f)"

definition implicit_arbitration2 :: "arbitration_request \<Rightarrow> int" where
  "implicit_arbitration2 q = uint (signed_drop_bit 4 (rq_extra_data q) AND 0x0f)"

definition normalize_request :: "arbitration_request \<Rightarrow> arbitration_request" where
  "normalize_request q =
     (if rq_type q = TwoWaySimple \<and> rq_monitor_lease q = 0 \<and> rq_subject_lease q = 0
         \<and> rq_subject_ttl q = span_min
      then q\<lparr>rq_type := RevertToReject\<rparr> else q)"

definition flag_extended :: u32 where "flag_extended = 1"
definition flag_strong :: u32 where "flag_strong = 2"
definition flag_continuous :: u32 where "flag_continuous = 4"
definition flag_delayed :: u32 where "flag_delayed = 8"

record arbitration_reply =
  rp_subject_ttl :: time_span
  rp_monitor_ttl :: time_span
  rp_subject_reported :: bool
  rp_flags :: u32

definition arbitration_reply_body :: "time_span \<Rightarrow> time_span \<Rightarrow> bool \<Rightarrow> u32 \<Rightarrow> arbitration_reply" where
  "arbitration_reply_body s m reported flags =
     \<lparr>rp_subject_ttl = s, rp_monitor_ttl = m, rp_subject_reported = reported, rp_flags = flags\<rparr>"

definition old_reply_body :: "time_span \<Rightarrow> bool \<Rightarrow> arbitration_reply" where
  "old_reply_body s reported =
     arbitration_reply_body s (if s = span_max then 0 else span_max) reported 0"

definition normalize_reply :: "arbitration_reply \<Rightarrow> arbitration_reply" where
  "normalize_reply r =
     (if rp_flags r = 0 \<and> rp_subject_ttl r = span_max then r\<lparr>rp_monitor_ttl := 0\<rparr> else r)"

definition reply_compare_to :: "arbitration_reply \<Rightarrow> arbitration_reply \<Rightarrow> int" where
  "reply_compare_to a b =
     (let local1 = rp_monitor_ttl a = span_max; local2 = rp_monitor_ttl b = span_max;
          remote1 = rp_subject_ttl a = span_max; remote2 = rp_subject_ttl b = span_max
      in if local1 \<noteq> local2 then if local1 then 1 else -1
         else if remote1 \<noteq> remote2 then if remote1 then -1 else 1
         else 0)"

definition reply_flag :: "u32 \<Rightarrow> arbitration_reply \<Rightarrow> bool" where
  "reply_flag f r \<longleftrightarrow> rp_flags r AND f \<noteq> 0"

record delayed_reply =
  dr_monitor :: lease_agent_instance
  dr_subject :: lease_agent_instance
  dr_monitor_lease :: int
  dr_subject_lease :: int
  dr_decision :: arbitration_decision
  dr_subject_ttl :: time_span
  dr_subject_reported :: bool
  dr_flags :: u32

definition delayed_reply_of :: "arbitration_request \<Rightarrow> arbitration_decision \<Rightarrow> time_span \<Rightarrow> bool \<Rightarrow> u32
    \<Rightarrow> delayed_reply" where
  "delayed_reply_of q d ttl reported flags =
     \<lparr>dr_monitor = rq_subject q, dr_subject = rq_monitor q, dr_monitor_lease = rq_subject_lease q,
      dr_subject_lease = rq_monitor_lease q, dr_decision = d, dr_subject_ttl = ttl,
      dr_subject_reported = reported, dr_flags = flags\<rparr>"

text \<open>The sender of a request: \<open>PartnerNodeSPtr\<close>.\<close>

record arb_partner =
  pn_instance :: node_instance
  pn_shutdown :: bool

record arb_config =
  ac_report_threshold :: int
  ac_weak_level :: int
  ac_strong_level :: int
  ac_reject_level :: int
  ac_level_threshold :: int
  ac_keep_alive_threshold :: int
  ac_comparison_threshold :: int
  ac_suspicion_expire :: time_span
  ac_max_arbitration_timeout :: time_span
  ac_lease_duration :: time_span
  ac_max_lease_duration :: time_span
  ac_max_implicit_lease :: time_span
  ac_delay_interval :: time_span
  ac_cleanup_interval :: time_span

subsection \<open>Records, nodes and the table\<close>

type_synonym rec_id = nat

record arb_record =
  ar_node :: string
  ar_monitor_instance :: int
  ar_subject :: lease_agent_instance
  ar_monitor_lease :: int
  ar_subject_lease :: int
  ar_process_time :: stopwatch_time
  ar_subject_expire :: stopwatch_time
  ar_flags :: u32
  ar_implicit1 :: int
  ar_implicit2 :: int
  ar_state :: record_state
  ar_peer :: "rec_id option"
  ar_decision :: arbitration_decision

record node_history =
  nh_instance :: int
  nh_last_received :: stopwatch_time
  nh_records :: "rec_id list"
  nh_weak :: int
  nh_strong :: int
  nh_reject :: int
  nh_reported :: int
  nh_level :: int
  nh_from :: "arb_partner option"

record arb_table =
  at_store :: "rec_id \<rightharpoonup> arb_record"
  at_next :: rec_id
  at_nodes :: "string \<rightharpoonup> node_history"
  at_delayed :: "rec_id list"
  at_history_start :: stopwatch_time
  at_last_compact :: stopwatch_time

definition new_table :: "stopwatch_time \<Rightarrow> arb_table" where
  "new_table now =
     \<lparr>at_store = Map.empty, at_next = 0, at_nodes = Map.empty, at_delayed = [],
      at_history_start = now, at_last_compact = now\<rparr>"

definition new_record :: "stopwatch_time \<Rightarrow> lease_agent_instance \<Rightarrow> lease_agent_instance \<Rightarrow> int \<Rightarrow> int
    \<Rightarrow> arb_record" where
  "new_record now monitor subject ml sl =
     \<lparr>ar_node = la_id monitor, ar_monitor_instance = la_instance monitor, ar_subject = subject,
      ar_monitor_lease = ml, ar_subject_lease = sl, ar_process_time = now,
      ar_subject_expire = time_max, ar_flags = flag_extended, ar_implicit1 = 0, ar_implicit2 = 0,
      ar_state = RNone, ar_peer = None, ar_decision = DNone\<rparr>"

definition new_node :: "lease_agent_instance \<Rightarrow> node_history" where
  "new_node i =
     \<lparr>nh_instance = la_instance i, nh_last_received = 0, nh_records = [], nh_weak = 0,
      nh_strong = 0, nh_reject = 0, nh_reported = 0, nh_level = 0, nh_from = None\<rparr>"

definition is_present :: "arb_record \<Rightarrow> bool" where
  "is_present a \<longleftrightarrow> ar_decision a \<noteq> DNone"

definition record_is_extended :: "arb_record \<Rightarrow> bool" where
  "record_is_extended a \<longleftrightarrow> ar_monitor_lease a > 0"

definition is_weakly_suspicious :: "record_state \<Rightarrow> bool" where
  "is_weakly_suspicious s \<longleftrightarrow> s = RPending \<or> s = RReported2"

definition is_reported :: "record_state \<Rightarrow> bool" where
  "is_reported s \<longleftrightarrow> s = RReported \<or> s = RReported2 \<or> s = RRejected"

text \<open>Writing through a pointer: dereferencing one that is null or dangling gives \<^const>\<open>None\<close>.\<close>

definition set_rec :: "rec_id \<Rightarrow> arb_record \<Rightarrow> arb_table \<Rightarrow> arb_table" where
  "set_rec r a t = t\<lparr>at_store := (at_store t)(r \<mapsto> a)\<rparr>"

definition set_node :: "string \<Rightarrow> node_history \<Rightarrow> arb_table \<Rightarrow> arb_table" where
  "set_node i n t = t\<lparr>at_nodes := (at_nodes t)(i \<mapsto> n)\<rparr>"

definition upd_rec :: "rec_id \<Rightarrow> (arb_record \<Rightarrow> arb_record) \<Rightarrow> arb_table \<Rightarrow> arb_table option" where
  "upd_rec r f t = do { a \<leftarrow> at_store t r; Some (set_rec r (f a) t) }"

definition upd_node :: "string \<Rightarrow> (node_history \<Rightarrow> node_history) \<Rightarrow> arb_table \<Rightarrow> arb_table option" where
  "upd_node i f t = do { n \<leftarrow> at_nodes t i; Some (set_node i (f n) t) }"

lemma set_sel [simp]:
  "at_store (set_rec r a t) = (at_store t)(r \<mapsto> a)" "at_nodes (set_rec r a t) = at_nodes t"
  "at_next (set_rec r a t) = at_next t" "at_delayed (set_rec r a t) = at_delayed t"
  "at_history_start (set_rec r a t) = at_history_start t"
  "at_store (set_node i n t) = at_store t" "at_nodes (set_node i n t) = (at_nodes t)(i \<mapsto> n)"
  "at_next (set_node i n t) = at_next t" "at_delayed (set_node i n t) = at_delayed t"
  "at_history_start (set_node i n t) = at_history_start t"
  by (simp_all add: set_rec_def set_node_def)

lemma upd_simps [simp]:
  "at_store t r = Some a \<Longrightarrow> upd_rec r f t = Some (set_rec r (f a) t)"
  "at_nodes t i = Some n \<Longrightarrow> upd_node i g t = Some (set_node i (g n) t)"
  by (simp_all add: upd_rec_def upd_node_def)

lemma upd_iff:
  "upd_rec r f t = Some t' \<longleftrightarrow> (\<exists>a. at_store t r = Some a \<and> t' = set_rec r (f a) t)"
  "upd_node i g t = Some t' \<longleftrightarrow> (\<exists>n. at_nodes t i = Some n \<and> t' = set_node i (g n) t)"
  by (auto simp: upd_rec_def upd_node_def bind_Some_iff)

subsection \<open>The state of a record and the counters of its node\<close>

text \<open>
  \<open>UpdateState\<close> tells the node, and a node whose reports reach the threshold turns the records
  that reported it from \<open>Reported\<close> to \<open>Reported2\<close>, which calls \<open>UpdateState\<close> again: the two
  functions are mutually recursive in the code. The recursion is on the depth of these calls;
  a promoted record never promotes others, so depth 2 is always enough (below).
\<close>

fun promote_peers :: "(rec_id \<Rightarrow> record_state \<Rightarrow> arb_table \<Rightarrow> arb_table option)
    \<Rightarrow> rec_id list \<Rightarrow> arb_table \<Rightarrow> arb_table option" where
  "promote_peers update [] t = Some t"
| "promote_peers update (r # rs) t = do {
     a \<leftarrow> at_store t r;
     t \<leftarrow> (case ar_peer a of
             None \<Rightarrow> Some t
           | Some p \<Rightarrow> do {
               b \<leftarrow> at_store t p;
               if ar_state b = RReported then update p RReported2 t else Some t });
     promote_peers update rs t }"

definition count_reported :: "record_state \<Rightarrow> record_state \<Rightarrow> node_history \<Rightarrow> node_history" where
  "count_reported old new n =
     n\<lparr>nh_reported := nh_reported n - (if is_reported old then 1 else 0)
        + (if is_reported new then 1 else 0)\<rparr>"

definition count_states :: "arb_config \<Rightarrow> record_state \<Rightarrow> record_state \<Rightarrow> node_history \<Rightarrow> node_history" where
  "count_states cfg old new n =
     (let n = (if is_weakly_suspicious old then n\<lparr>nh_weak := nh_weak n - 1\<rparr>
               else if old = RReported then n\<lparr>nh_strong := nh_strong n - 1\<rparr>
               else if old = RRejected then n\<lparr>nh_reject := nh_reject n - 1\<rparr>
               else n);
          n = (if is_weakly_suspicious new then n\<lparr>nh_weak := nh_weak n + 1\<rparr>
               else if new = RReported then n\<lparr>nh_strong := nh_strong n + 1\<rparr>
               else if new = RRejected then n\<lparr>nh_reject := nh_reject n + 1\<rparr>
               else n)
      in n\<lparr>nh_level := nh_weak n * ac_weak_level cfg + nh_strong n * ac_strong_level cfg
             + nh_reject n * ac_reject_level cfg\<rparr>)"

definition update_record_state :: "arb_config \<Rightarrow> (rec_id \<Rightarrow> record_state \<Rightarrow> arb_table \<Rightarrow> arb_table option)
    \<Rightarrow> string \<Rightarrow> record_state \<Rightarrow> record_state \<Rightarrow> arb_table \<Rightarrow> arb_table option" where
  "update_record_state cfg update i old new t = do {
     n \<leftarrow> at_nodes t i;
     let n' = count_reported old new n;
     let t = set_node i n' t;
     t \<leftarrow> (if nh_reported n < ac_report_threshold cfg \<and> nh_reported n' \<ge> ac_report_threshold cfg
          then promote_peers update (nh_records n') t else Some t);
     upd_node i (count_states cfg old new) t }"

primrec update_state_depth :: "arb_config \<Rightarrow> nat \<Rightarrow> rec_id \<Rightarrow> record_state \<Rightarrow> arb_table
    \<Rightarrow> arb_table option" where
  "update_state_depth cfg 0 r s t = None"
| "update_state_depth cfg (Suc d) r s t = do {
     a \<leftarrow> at_store t r;
     s \<leftarrow> (if s = RReported then do {
             p \<leftarrow> ar_peer a;
             b \<leftarrow> at_store t p;
             n \<leftarrow> at_nodes t (ar_node b);
             Some (if nh_reported n \<ge> ac_report_threshold cfg then RReported2 else RReported) }
          else Some s);
     if s \<noteq> ar_state a then do {
       t \<leftarrow> update_record_state cfg (update_state_depth cfg d) (ar_node a) (ar_state a) s t;
       upd_rec r (\<lambda>a. a\<lparr>ar_state := s\<rparr>) t }
     else Some t }"

declare update_state_depth.simps [simp del]

definition update_state :: "arb_config \<Rightarrow> rec_id \<Rightarrow> record_state \<Rightarrow> arb_table \<Rightarrow> arb_table option" where
  "update_state cfg = update_state_depth cfg 2"

definition set_decision :: "arb_config \<Rightarrow> rec_id \<Rightarrow> arbitration_decision \<Rightarrow> arb_table \<Rightarrow> arb_table option" where
  "set_decision cfg r v t = do {
     a \<leftarrow> at_store t r;
     t \<leftarrow> (if ar_state a \<noteq> RImplicit then
            if v = DReject then update_state cfg r RRejected t
            else do {
              t \<leftarrow> (if ar_state a = RRejected then update_state cfg r RReported t else Some t);
              (case ar_peer a of
                 None \<Rightarrow> Some t
               | Some p \<Rightarrow>
                   if v = DGrant then do {
                     b \<leftarrow> at_store t p;
                     if \<not> is_present b then update_state cfg p RRejected t else Some t }
                   else Some t) }
          else Some t);
     upd_rec r (\<lambda>a. a\<lparr>ar_decision := v\<rparr>) t }"

definition update_request :: "arb_config \<Rightarrow> stopwatch_time \<Rightarrow> rec_id \<Rightarrow> arbitration_request \<Rightarrow> arb_table
    \<Rightarrow> arb_table option" where
  "update_request cfg now r q t = do {
     t \<leftarrow> upd_rec r (\<lambda>a. a\<lparr>ar_process_time := now,
                          ar_subject_expire := time_add now (rq_subject_ttl q)\<rparr>) t;
     a \<leftarrow> at_store t r;
     p \<leftarrow> ar_peer a;
     b \<leftarrow> at_store t p;
     if \<not> is_present b then do {
       t \<leftarrow> update_state cfg r (if rq_subject_ttl q > 0 then RPending else RConfirmed) t;
       update_state cfg p RReported t }
     else if ar_state b = RPending then update_state cfg p RReported t
     else Some t }"

subsection \<open>Operations of a node\<close>

fun demote_rejected :: "arb_config \<Rightarrow> rec_id list \<Rightarrow> arb_table \<Rightarrow> arb_table option" where
  "demote_rejected cfg [] t = Some t"
| "demote_rejected cfg (r # rs) t = do {
     a \<leftarrow> at_store t r;
     t \<leftarrow> (if ar_state a = RRejected then update_state cfg r RReported t else Some t);
     demote_rejected cfg rs t }"

definition update_instance :: "arb_config \<Rightarrow> string \<Rightarrow> int \<Rightarrow> arb_table \<Rightarrow> arb_table option" where
  "update_instance cfg i inst t = do {
     n \<leftarrow> at_nodes t i;
     if inst > nh_instance n then do {
       t \<leftarrow> demote_rejected cfg (nh_records n) t;
       n \<leftarrow> at_nodes t i;
       assert_if (nh_reject n > 0);
       upd_node i (\<lambda>n. n\<lparr>nh_instance := inst\<rparr>) t }
     else Some t }"

definition receive_request :: "stopwatch_time \<Rightarrow> string \<Rightarrow> arb_partner \<Rightarrow> arb_table \<Rightarrow> arb_table option" where
  "receive_request now i from t =
     upd_node i (\<lambda>n. n\<lparr>nh_from := (case nh_from n of
                          None \<Rightarrow> Some from
                        | Some f \<Rightarrow> if ni_less (pn_instance f) (pn_instance from) then Some from
                                   else Some f),
                       nh_last_received := now\<rparr>) t"

definition add_record :: "string \<Rightarrow> rec_id \<Rightarrow> arb_table \<Rightarrow> arb_table option" where
  "add_record i r t = upd_node i (\<lambda>n. n\<lparr>nh_records := r # nh_records n\<rparr>) t"

definition lease_instance_matched :: "int \<Rightarrow> int \<Rightarrow> bool" where
  "lease_instance_matched a b \<longleftrightarrow> a = 0 \<or> b = 0 \<or> a = b"

fun get_record_loop :: "(rec_id \<rightharpoonup> arb_record) \<Rightarrow> lease_agent_instance \<Rightarrow> lease_agent_instance
    \<Rightarrow> int \<Rightarrow> int \<Rightarrow> stopwatch_time \<Rightarrow> bool \<Rightarrow> rec_id list \<Rightarrow> (rec_id option \<times> bool) option" where
  "get_record_loop st monitor subject ml sl bound found [] = Some (None, found)"
| "get_record_loop st monitor subject ml sl bound found (r # rs) = do {
     a \<leftarrow> st r;
     if ar_process_time a < bound then Some (None, found)
     else if ar_monitor_instance a = la_instance monitor \<and> ar_subject a = subject
             \<and> ar_state a \<noteq> RImplicit then
       if lease_instance_matched (ar_monitor_lease a) ml
          \<and> lease_instance_matched (ar_subject_lease a) sl
       then Some (Some r, ar_flags a AND flag_continuous \<noteq> 0)
       else get_record_loop st monitor subject ml sl bound True rs
     else get_record_loop st monitor subject ml sl bound found rs }"

definition get_record :: "arb_config \<Rightarrow> string \<Rightarrow> lease_agent_instance \<Rightarrow> lease_agent_instance
    \<Rightarrow> int \<Rightarrow> int \<Rightarrow> stopwatch_time \<Rightarrow> arb_table \<Rightarrow> (rec_id option \<times> bool) option" where
  "get_record cfg i monitor subject ml sl timeBound t = do {
     n \<leftarrow> at_nodes t i;
     get_record_loop (at_store t) monitor subject ml sl
       (time_sub timeBound (ac_suspicion_expire cfg)) False (nh_records n) }"

fun first_record :: "(rec_id \<rightharpoonup> arb_record) \<Rightarrow> (arb_record \<Rightarrow> bool) \<Rightarrow> rec_id list
    \<Rightarrow> rec_id option option" where
  "first_record st P [] = Some None"
| "first_record st P (r # rs) = do { a \<leftarrow> st r; if P a then Some (Some r) else first_record st P rs }"

definition get_success_record :: "string \<Rightarrow> arb_table \<Rightarrow> rec_id option option" where
  "get_success_record i t = do {
     n \<leftarrow> at_nodes t i;
     first_record (at_store t) (\<lambda>a. is_present a \<and> ar_decision a \<noteq> DReject) (nh_records n) }"

definition get_implicit_record :: "string \<Rightarrow> arb_table \<Rightarrow> rec_id option option" where
  "get_implicit_record i t = do {
     n \<leftarrow> at_nodes t i;
     first_record (at_store t) (\<lambda>a. ar_state a = RImplicit) (nh_records n) }"

definition remove_record :: "arb_config \<Rightarrow> string \<Rightarrow> rec_id \<Rightarrow> arb_table \<Rightarrow> arb_table option" where
  "remove_record cfg i r t = do {
     t \<leftarrow> update_state cfg r RNone t;
     t \<leftarrow> upd_node i (\<lambda>n. n\<lparr>nh_records := remove1 r (nh_records n)\<rparr>) t;
     Some (t\<lparr>at_store := (at_store t)(r := None)\<rparr>) }"

primrec node_compact_loop :: "arb_config \<Rightarrow> string \<Rightarrow> stopwatch_time \<Rightarrow> nat \<Rightarrow> arb_table
    \<Rightarrow> arb_table option" where
  "node_compact_loop cfg i bound 0 t = None"
| "node_compact_loop cfg i bound (Suc k) t = do {
     n \<leftarrow> at_nodes t i;
     if nh_records n = [] then Some t
     else do {
       let tail = last (nh_records n);
       a \<leftarrow> at_store t tail;
       if ar_process_time a < bound then do {
         t \<leftarrow> (case ar_peer a of
                 None \<Rightarrow> Some t
               | Some p \<Rightarrow> do { b \<leftarrow> at_store t p; remove_record cfg (ar_node b) p t });
         n \<leftarrow> at_nodes t i;
         if nh_records n = [] then None
         else do {
           t \<leftarrow> remove_record cfg i (last (nh_records n)) t;
           node_compact_loop cfg i bound k t } }
       else Some t } }"

definition node_compact :: "arb_config \<Rightarrow> string \<Rightarrow> stopwatch_time \<Rightarrow> arb_table
    \<Rightarrow> (bool \<times> arb_table) option" where
  "node_compact cfg i bound t = do {
     n \<leftarrow> at_nodes t i;
     t \<leftarrow> node_compact_loop cfg i bound (Suc (length (nh_records n))) t;
     n \<leftarrow> at_nodes t i;
     Some (nh_records n = [] \<and> nh_last_received n < bound, t) }"

fun suspicion_loop :: "arb_config \<Rightarrow> stopwatch_time \<Rightarrow> rec_id list \<Rightarrow> arb_table \<Rightarrow> arb_table option" where
  "suspicion_loop cfg now [] t = Some t"
| "suspicion_loop cfg now (r # rs) t = do {
     a \<leftarrow> at_store t r;
     t \<leftarrow> (if ar_state a \<noteq> RExpired \<and> ar_process_time a < time_sub now (ac_suspicion_expire cfg)
          then update_state cfg r RExpired t
          else if ar_state a = RPending then
            if ar_subject_expire a < now then update_state cfg r RConfirmed t else Some t
          else if ar_state a = RRejected
                  \<and> ar_process_time a < time_sub now (ac_max_arbitration_timeout cfg)
          then update_state cfg r RReported t
          else Some t);
     suspicion_loop cfg now rs t }"

definition get_suspicion_level :: "arb_config \<Rightarrow> stopwatch_time \<Rightarrow> string \<Rightarrow> arb_table
    \<Rightarrow> (int \<times> arb_table) option" where
  "get_suspicion_level cfg now i t = do {
     n \<leftarrow> at_nodes t i;
     t \<leftarrow> suspicion_loop cfg now (nh_records n) t;
     n \<leftarrow> at_nodes t i;
     Some (nh_level n, t) }"

definition is_suspicious :: "arb_config \<Rightarrow> stopwatch_time \<Rightarrow> string \<Rightarrow> bool \<Rightarrow> arb_table
    \<Rightarrow> (bool \<times> arb_table) option" where
  "is_suspicious cfg now i withKeepAlive t = do {
     let threshold = (if withKeepAlive then ac_keep_alive_threshold cfg else ac_level_threshold cfg);
     n \<leftarrow> at_nodes t i;
     if nh_level n < threshold then Some (False, t)
     else do {
       (level, t) \<leftarrow> get_suspicion_level cfg now i t;
       Some (level \<ge> threshold, t) } }"

definition get_node_history :: "arb_config \<Rightarrow> lease_agent_instance \<Rightarrow> bool \<Rightarrow> arb_table
    \<Rightarrow> (string option \<times> arb_table) option" where
  "get_node_history cfg inst create t =
     (case at_nodes t (la_id inst) of
        Some n \<Rightarrow> do {
          t \<leftarrow> update_instance cfg (la_id inst) (la_instance inst) t;
          Some (Some (la_id inst), t) }
      | None \<Rightarrow>
          if create then Some (Some (la_id inst), set_node (la_id inst) (new_node inst) t)
          else Some (None, t))"

subsection \<open>The decision\<close>

type_synonym delayed_response = "(delayed_reply \<times> arb_partner option) option"

definition add_flag :: "arb_config \<Rightarrow> rec_id \<Rightarrow> u32 \<Rightarrow> arb_table \<Rightarrow> arb_table option" where
  "add_flag cfg r f t = upd_rec r (\<lambda>a. a\<lparr>ar_flags := ar_flags a OR f\<rparr>) t"

definition clear_flag :: "arb_config \<Rightarrow> rec_id \<Rightarrow> u32 \<Rightarrow> arb_table \<Rightarrow> arb_table option" where
  "clear_flag cfg r f t = upd_rec r (\<lambda>a. a\<lparr>ar_flags := ar_flags a AND NOT f\<rparr>) t"

text \<open>The subject's side has already been decided (ArbitrationTable.cpp:486-516).\<close>

definition decide_against_present :: "arb_config \<Rightarrow> arbitration_request \<Rightarrow> rec_id \<Rightarrow> rec_id \<Rightarrow> arb_table
    \<Rightarrow> (delayed_response \<times> arb_table) option" where
  "decide_against_present cfg q m s t = do {
     b \<leftarrow> at_store t s;
     t \<leftarrow> (if ar_flags b AND flag_strong \<noteq> 0 then add_flag cfg m flag_strong t else Some t);
     if ar_decision b = DGrant then do {
       t \<leftarrow> set_decision cfg m DReject t;
       Some (None, t) }
     else if ar_decision b = DReject \<and> rq_type q \<noteq> OneWay then do {
       t \<leftarrow> set_decision cfg m DGrant t;
       Some (None, t) }
     else do {
       assert_if (rq_type q = TwoWaySimple);
       (resp, t) \<leftarrow> (if ar_decision b = DDelay then do {
           t \<leftarrow> set_decision cfg s DNeutral t;
           t \<leftarrow> clear_flag cfg s flag_delayed t;
           b \<leftarrow> at_store t s;
           n \<leftarrow> at_nodes t (ar_node b);
           Some (Some (delayed_reply_of q DNeutral span_max True (ar_flags b), nh_from n), t) }
         else Some (None, t));
       t \<leftarrow> set_decision cfg m DNeutral t;
       Some (resp, t) } }"

text \<open>Nothing has been decided yet and the history of both nodes is compared (533-562).\<close>

definition decide_by_level :: "arb_config \<Rightarrow> stopwatch_time \<Rightarrow> rec_id \<Rightarrow> rec_id \<Rightarrow> bool \<Rightarrow> arb_table
    \<Rightarrow> arb_table option" where
  "decide_by_level cfg now m s subjectReceived t = do {
     a \<leftarrow> at_store t m;
     b \<leftarrow> at_store t s;
     (monitorLevel, t) \<leftarrow> get_suspicion_level cfg now (ar_node a) t;
     (subjectLevel, t) \<leftarrow> get_suspicion_level cfg now (ar_node b) t;
     n \<leftarrow> at_nodes t (ar_node a);
     let monitorReceived = now < time_add (nh_last_received n) (ac_lease_duration cfg);
     let fullHistory = now \<ge> time_add (at_history_start t) (ac_suspicion_expire cfg);
     if monitorLevel \<ge> subjectLevel + ac_comparison_threshold cfg \<and> (\<not> monitorReceived \<or> subjectReceived)
     then do {
       t \<leftarrow> (if fullHistory then add_flag cfg m flag_strong t else Some t);
       set_decision cfg m DReject t }
     else if \<not> monitorReceived \<and> subjectReceived then set_decision cfg m DReject t
     else do {
       t \<leftarrow> (if subjectLevel \<ge> monitorLevel + ac_comparison_threshold cfg \<and> fullHistory
            then add_flag cfg m flag_strong t else Some t);
       set_decision cfg m DGrant t } }"

text \<open>Nothing has been decided yet and the decision may be delayed (563-575).\<close>

definition decide_or_delay :: "arb_config \<Rightarrow> stopwatch_time \<Rightarrow> rec_id \<Rightarrow> rec_id \<Rightarrow> bool \<Rightarrow> arb_table
    \<Rightarrow> arb_table option" where
  "decide_or_delay cfg now m s subjectReceived t = do {
     a \<leftarrow> at_store t m;
     b \<leftarrow> at_store t s;
     (subjectFine, t) \<leftarrow> (if subjectReceived then do {
         (suspicious, t) \<leftarrow> is_suspicious cfg now (ar_node b) True t;
         Some (\<not> suspicious, t) }
       else Some (False, t));
     (delay, t) \<leftarrow> (if subjectFine then Some (True, t)
                   else is_suspicious cfg now (ar_node a) False t);
     if delay then do {
       t \<leftarrow> Some (t\<lparr>at_delayed := at_delayed t @ [m]\<rparr>);
       t \<leftarrow> add_flag cfg m flag_delayed t;
       set_decision cfg m DDelay t }
     else set_decision cfg m DGrant t }"

definition make_decision :: "arb_config \<Rightarrow> stopwatch_time \<Rightarrow> arbitration_request \<Rightarrow> rec_id \<Rightarrow> rec_id
    \<Rightarrow> bool \<Rightarrow> arb_table \<Rightarrow> (delayed_response \<times> arb_table) option" where
  "make_decision cfg now q m s continuous t = do {
     a \<leftarrow> at_store t m;
     b \<leftarrow> at_store t s;
     if is_present b then decide_against_present cfg q m s t
     else if rq_type q = OneWay then do { t \<leftarrow> set_decision cfg m DNeutral t; Some (None, t) }
     else if is_present a then Some (None, t)
     else do {
       n \<leftarrow> at_nodes t (ar_node b);
       let subjectReceived = now < time_add (nh_last_received n) (ac_lease_duration cfg);
       t \<leftarrow> (if continuous \<or> rq_type q = TwoWaySimple
            then decide_by_level cfg now m s subjectReceived t
            else decide_or_delay cfg now m s subjectReceived t);
       Some (None, t) } }"

subsection \<open>The requests\<close>

definition process_revert :: "arb_config \<Rightarrow> stopwatch_time \<Rightarrow> arbitration_request \<Rightarrow> string
    \<Rightarrow> stopwatch_time \<Rightarrow> arb_table \<Rightarrow> (delayed_response \<times> arb_table) option" where
  "process_revert cfg now q i timeBound t = do {
     (found, _) \<leftarrow> get_record cfg i (rq_monitor q) (rq_subject q) (rq_monitor_lease q)
                     (rq_subject_lease q) timeBound t;
     (case found of
        None \<Rightarrow> Some (None, t)
      | Some m \<Rightarrow> do {
          a \<leftarrow> at_store t m;
          if ar_decision a = DGrant then do {
            t \<leftarrow> set_decision cfg m (if rq_type q = RevertToNeutral then DNeutral else DReject) t;
            s \<leftarrow> ar_peer a;
            b \<leftarrow> at_store t s;
            if is_present b then do {
              t \<leftarrow> set_decision cfg s (if rq_type q = RevertToNeutral then DNeutral else DGrant) t;
              b \<leftarrow> at_store t s;
              n \<leftarrow> at_nodes t (ar_node b);
              Some (if record_is_extended b
                    then Some (delayed_reply_of q (ar_decision b)
                           (remaining_duration now (ar_subject_expire b)) True (ar_flags b), nh_from n)
                    else None, t) }
            else if ar_state b = RRejected then do {
              t \<leftarrow> update_state cfg s RReported t;
              Some (None, t) }
            else Some (None, t) }
          else Some (None, t) }) }"

definition process_query :: "arb_config \<Rightarrow> stopwatch_time \<Rightarrow> arbitration_request \<Rightarrow> arb_table
    \<Rightarrow> (arbitration_reply \<times> arb_table) option" where
  "process_query cfg now q t = do {
     (subject, t) \<leftarrow> get_node_history cfg (rq_subject q) False t;
     result \<leftarrow> (case subject of
         None \<Rightarrow> Some (at_history_start t)
       | Some i \<Rightarrow> do {
           found \<leftarrow> get_success_record i t;
           (case found of
              None \<Rightarrow> Some (at_history_start t)
            | Some r \<Rightarrow> do { a \<leftarrow> at_store t r; Some (ar_process_time a) }) });
     Some (arbitration_reply_body (time_diff now result) span_max False flag_extended, t) }"

text \<open>How long a record is kept, and the oldest time of a record that still counts.\<close>

definition record_keep_interval :: "arb_config \<Rightarrow> time_span" where
  "record_keep_interval cfg =
     span_add (span_add (span_add (span_add (ac_max_implicit_lease cfg) (ac_max_lease_duration cfg))
       (ac_max_lease_duration cfg)) (ac_max_arbitration_timeout cfg)) (ac_max_arbitration_timeout cfg)"

text \<open>\<open>n\<close> and \<open>k\<close> are the subject's and the monitor's node (ArbitrationTable.cpp:639-683).\<close>

definition implicit_decision :: "arb_config \<Rightarrow> stopwatch_time \<Rightarrow> arbitration_request \<Rightarrow> string
    \<Rightarrow> (string \<times> arb_record) option \<Rightarrow> arb_table \<Rightarrow> (arbitration_decision \<times> arb_table) option" where
  "implicit_decision cfg now q i subject t =
     (case subject of
        None \<Rightarrow> Some (DNeutral, t)
      | Some (k, b) \<Rightarrow>
          if \<not> ar_process_time b > time_sub now (record_keep_interval cfg) then Some (DNeutral, t)
          else if ar_decision b = DReject then Some (DGrant, t)
          else if ar_decision b = DGrant \<and> ar_subject b = rq_monitor q then Some (DReject, t)
          else if implicit_arbitration2 q = 0 \<and> ar_implicit2 b > 0 then Some (DGrant, t)
          else if implicit_arbitration2 q > 0 \<and> ar_implicit2 b = 0
                  \<or> implicit_arbitration1 q > ar_implicit1 b + 1 then Some (DReject, t)
          else if ar_implicit1 b > implicit_arbitration1 q + 1 then Some (DGrant, t)
          else do {
            (monitorLevel, t) \<leftarrow> get_suspicion_level cfg now i t;
            (subjectLevel, t) \<leftarrow> get_suspicion_level cfg now k t;
            Some (if subjectLevel \<ge> monitorLevel + ac_comparison_threshold cfg then DGrant else DReject,
                  t) })"

definition process_implicit :: "arb_config \<Rightarrow> stopwatch_time \<Rightarrow> arbitration_request \<Rightarrow> string \<Rightarrow> arb_table
    \<Rightarrow> (arbitration_reply \<times> arb_table) option" where
  "process_implicit cfg now q i t = do {
     (subject, t) \<leftarrow> get_node_history cfg (rq_subject q) False t;
     found \<leftarrow> (case subject of
         None \<Rightarrow> Some None
       | Some k \<Rightarrow> do {
           r \<leftarrow> get_implicit_record k t;
           (case r of
              None \<Rightarrow> Some None
            | Some r \<Rightarrow> do { b \<leftarrow> at_store t r; Some (Some (k, b)) }) });
     (d, t) \<leftarrow> implicit_decision cfg now q i found t;
     let m = at_next t;
     let t = set_rec m ((new_record now (rq_monitor q) (rq_subject q) (rq_monitor_lease q)
                 (rq_subject_lease q))
               \<lparr>ar_state := RImplicit, ar_implicit1 := implicit_arbitration1 q,
                ar_implicit2 := implicit_arbitration2 q\<rparr>) (t\<lparr>at_next := m + 1\<rparr>);
     t \<leftarrow> set_decision cfg m d t;
     t \<leftarrow> add_record i m t;
     Some (arbitration_reply_body span_max (if d \<noteq> DReject then span_max else 0) False flag_extended, t) }"

text \<open>A record for a new report and its peer (ArbitrationTable.cpp:773-786).\<close>

definition create_records :: "arb_config \<Rightarrow> stopwatch_time \<Rightarrow> arbitration_request \<Rightarrow> string \<Rightarrow> bool
    \<Rightarrow> arb_table \<Rightarrow> (rec_id \<times> rec_id \<times> arb_table) option" where
  "create_records cfg now q i foundHistory t = do {
     (subject, t) \<leftarrow> get_node_history cfg (rq_subject q) True t;
     k \<leftarrow> subject;
     let m = at_next t;
     let s = at_next t + 1;
     let t = set_rec m ((new_record now (rq_monitor q) (rq_subject q) (rq_monitor_lease q)
                 (rq_subject_lease q))\<lparr>ar_peer := Some s\<rparr>) (t\<lparr>at_next := s + 1\<rparr>);
     let t = set_rec s ((new_record now (rq_subject q) (rq_monitor q) (rq_subject_lease q)
                 (rq_monitor_lease q))
               \<lparr>ar_peer := Some m,
                ar_flags := (if foundHistory then flag_extended OR flag_continuous else flag_extended)\<rparr>) t;
     t \<leftarrow> add_record i m t;
     t \<leftarrow> add_record k s t;
     Some (m, s, t) }"

definition process_lease_request :: "arb_config \<Rightarrow> stopwatch_time \<Rightarrow> arbitration_request \<Rightarrow> string
    \<Rightarrow> stopwatch_time \<Rightarrow> arb_table \<Rightarrow> (arbitration_reply \<times> delayed_response \<times> arb_table) option" where
  "process_lease_request cfg now q i timeBound t = do {
     (found, foundHistory) \<leftarrow> get_record cfg i (rq_monitor q) (rq_subject q) (rq_monitor_lease q)
                                (rq_subject_lease q) timeBound t;
     (m, s, t) \<leftarrow> (case found of
         None \<Rightarrow> create_records cfg now q i foundHistory t
       | Some m \<Rightarrow> do { a \<leftarrow> at_store t m; s \<leftarrow> ar_peer a; Some (m, s, t) });
     a \<leftarrow> at_store t m;
     t \<leftarrow> (if \<not> is_present a then update_request cfg now m q t else Some t);
     t \<leftarrow> (if foundHistory then add_flag cfg m flag_continuous t else Some t);
     (resp, t) \<leftarrow> (if at_history_start t > timeBound then do {
         t \<leftarrow> set_decision cfg m DReject t;
         Some (None, t) }
       else make_decision cfg now q m s foundHistory t);
     a \<leftarrow> at_store t m;
     b \<leftarrow> at_store t s;
     Some (arbitration_reply_body
             (if ar_decision a = DGrant then rq_subject_ttl q else span_max)
             (if ar_decision a = DReject then 0 else span_max) (is_present b) (ar_flags a),
           resp, t) }"

definition history_needed :: "arb_config \<Rightarrow> arbitration_request \<Rightarrow> time_span" where
  "history_needed cfg q =
     (if rq_history_needed q = 0 then span_add (ac_max_lease_duration cfg) (ac_max_arbitration_timeout cfg)
      else rq_history_needed q)"

definition process_request :: "arb_config \<Rightarrow> stopwatch_time \<Rightarrow> arbitration_request \<Rightarrow> arb_partner
    \<Rightarrow> arb_table \<Rightarrow> (arbitration_reply option \<times> delayed_response \<times> arb_table) option" where
  "process_request cfg now q from t =
     (if rq_type q = QueryType then do {
        (rep, t) \<leftarrow> process_query cfg now q t;
        Some (Some rep, None, t) }
      else do {
        (mon, t) \<leftarrow> get_node_history cfg (rq_monitor q) True t;
        i \<leftarrow> mon;
        n \<leftarrow> at_nodes t i;
        if nh_instance n > la_instance (rq_monitor q) then Some (None, None, t)
        else if pn_shutdown from then
          Some (Some (arbitration_reply_body span_max 0 True flag_strong), None, t)
        else do {
          t \<leftarrow> receive_request now i from t;
          if rq_type q = KeepAlive then Some (None, None, t)
          else if rq_type q = ImplicitType then do {
            (rep, t) \<leftarrow> process_implicit cfg now q i t;
            Some (Some rep, None, t) }
          else do {
            let timeBound = time_sub now (history_needed cfg q);
            if rq_type q = RevertToReject \<or> rq_type q = RevertToNeutral then do {
              (resp, t) \<leftarrow> process_revert cfg now q i timeBound t;
              Some (None, resp, t) }
            else do {
              (rep, resp, t) \<leftarrow> process_lease_request cfg now q i timeBound t;
              Some (Some rep, resp, t) } } } })"

subsection \<open>The timer\<close>

fun compact_delayed :: "arb_config \<Rightarrow> stopwatch_time \<Rightarrow> rec_id list \<Rightarrow> arb_table
    \<Rightarrow> (rec_id list \<times> (delayed_reply \<times> arb_partner option) list \<times> arb_table) option" where
  "compact_delayed cfg now [] t = Some ([], [], t)"
| "compact_delayed cfg now (r # rs) t = do {
     a \<leftarrow> at_store t r;
     if ar_decision a \<noteq> DDelay then compact_delayed cfg now rs t
     else if ar_process_time a \<le> time_sub now (ac_delay_interval cfg) then do {
       t \<leftarrow> set_decision cfg r DGrant t;
       t \<leftarrow> clear_flag cfg r flag_delayed t;
       a \<leftarrow> at_store t r;
       t \<leftarrow> (if ar_state a = RPending then update_state cfg r RConfirmed t else Some t);
       n \<leftarrow> at_nodes t (ar_node a);
       (kept, sent, t) \<leftarrow> compact_delayed cfg now rs t;
       Some (kept,
         (\<lparr>dr_monitor = LeaseAgentInstance (ar_node a) (ar_monitor_instance a), dr_subject = ar_subject a,
           dr_monitor_lease = ar_monitor_lease a, dr_subject_lease = ar_subject_lease a,
           dr_decision = DGrant, dr_subject_ttl = remaining_duration now (ar_subject_expire a),
           dr_subject_reported = False, dr_flags = ar_flags a\<rparr>, nh_from n) # sent, t) }
     else do {
       (kept, sent, t) \<leftarrow> compact_delayed cfg now rs t;
       Some (r # kept, sent, t) } }"

text \<open>
  \<open>CompactInternal\<close> visits the nodes in the order of the map until its 100ms are over: the model
  takes the identifiers it visits as an argument.
\<close>

fun compact_nodes :: "arb_config \<Rightarrow> stopwatch_time \<Rightarrow> string list \<Rightarrow> arb_table \<Rightarrow> arb_table option" where
  "compact_nodes cfg bound [] t = Some t"
| "compact_nodes cfg bound (i # is) t =
     (case at_nodes t i of
        None \<Rightarrow> compact_nodes cfg bound is t
      | Some n \<Rightarrow> do {
          (empty, t) \<leftarrow> node_compact cfg i bound t;
          compact_nodes cfg bound is
            (if empty then t\<lparr>at_nodes := (at_nodes t)(i := None)\<rparr> else t) })"

definition compact_internal :: "arb_config \<Rightarrow> stopwatch_time \<Rightarrow> string list \<Rightarrow> arb_table
    \<Rightarrow> arb_table option" where
  "compact_internal cfg now visited t = do {
     let timeBound = time_sub now (record_keep_interval cfg);
     t \<leftarrow> compact_nodes cfg timeBound visited t;
     Some (t\<lparr>at_history_start := max (at_history_start t) timeBound\<rparr>) }"

definition compact :: "arb_config \<Rightarrow> stopwatch_time \<Rightarrow> string list \<Rightarrow> arb_table
    \<Rightarrow> (time_span \<times> (delayed_reply \<times> arb_partner option) list \<times> arb_table) option" where
  "compact cfg now visited t = do {
     (kept, sent, t) \<leftarrow> compact_delayed cfg now (at_delayed t) t;
     let t = t\<lparr>at_delayed := kept\<rparr>;
     t \<leftarrow> (if now > time_add (at_last_compact t) (ac_cleanup_interval cfg) then do {
            t \<leftarrow> compact_internal cfg now visited t;
            Some (t\<lparr>at_last_compact := now\<rparr>) }
          else Some t);
     wait \<leftarrow> (case at_delayed t of
         [] \<Rightarrow> Some (ac_delay_interval cfg)
       | r # _ \<Rightarrow> do {
           a \<leftarrow> at_store t r;
           Some (time_diff (ar_process_time a) (time_sub now (ac_delay_interval cfg))) });
     Some (wait, sent, t) }"

end
