(* ===== verification/Arbitration_Safety.thy ===== *)
theory Arbitration_Safety
  imports Arbitration
begin

text \<open>
  The invariants of the arbitration table: what updating states leaves alone, the counters of the
  nodes, the links between records, and the exclusion of a decision in favour of both sides.
\<close>

section \<open>Why the table is correct\<close>

subsection \<open>What state updates leave alone\<close>

text \<open>Everything but the states of the records and the counters of the nodes.\<close>

definition core_record :: "arb_record \<Rightarrow> arb_record" where
  "core_record a = a\<lparr>ar_state := RNone\<rparr>"

definition core_node :: "node_history \<Rightarrow> node_history" where
  "core_node n = n\<lparr>nh_weak := 0, nh_strong := 0, nh_reject := 0, nh_reported := 0, nh_level := 0\<rparr>"

definition core :: "arb_table \<Rightarrow> arb_table" where
  "core t = t\<lparr>at_store := map_option core_record \<circ> at_store t,
              at_nodes := map_option core_node \<circ> at_nodes t\<rparr>"

lemma core_record_eqD: "core_record b = core_record a \<Longrightarrow> b = a\<lparr>ar_state := ar_state b\<rparr>"
  by (cases a; cases b) (simp add: core_record_def)

lemma core_record_sel [simp]:
  "core_record (a\<lparr>ar_state := s\<rparr>) = core_record a"
  by (simp add: core_record_def)

lemma core_node_eqD:
  assumes "core_node b = core_node a"
  shows "nh_records b = nh_records a" "nh_instance b = nh_instance a" "nh_from b = nh_from a"
    "nh_last_received b = nh_last_received a"
  using assms by (cases a; cases b; simp add: core_node_def)+

lemma core_eqD:
  assumes "core t' = core t"
  shows "at_next t' = at_next t" "at_delayed t' = at_delayed t"
    "at_history_start t' = at_history_start t" "at_last_compact t' = at_last_compact t"
    "map_option core_record (at_store t' r) = map_option core_record (at_store t r)"
    "map_option core_node (at_nodes t' i) = map_option core_node (at_nodes t i)"
  using assms by (cases t; cases t'; auto simp: core_def fun_eq_iff)+

lemma core_storeD:
  assumes "core t' = core t" "at_store t r = Some a"
  shows "\<exists>s. at_store t' r = Some (a\<lparr>ar_state := s\<rparr>)"
  using core_eqD(5) [OF assms(1), of r] assms(2) by (auto dest!: core_record_eqD)

lemma core_store_None: "core t' = core t \<Longrightarrow> at_store t' r = None \<longleftrightarrow> at_store t r = None"
  using core_eqD(5) [of t' t r] by (cases "at_store t r"; cases "at_store t' r") auto

lemma core_nodeD:
  assumes "core t' = core t" "at_nodes t i = Some n"
  obtains n' where "at_nodes t' i = Some n'" "nh_records n' = nh_records n"
    "nh_instance n' = nh_instance n" "nh_from n' = nh_from n"
    "nh_last_received n' = nh_last_received n"
proof -
  have "map_option core_node (at_nodes t' i) = Some (core_node n)"
    using core_eqD(6) [OF assms(1), of i] assms(2) by simp
  then obtain n' where "at_nodes t' i = Some n'" "core_node n' = core_node n" by auto
  then show ?thesis using that core_node_eqD [of n' n] by blast
qed

lemma core_node_None: "core t' = core t \<Longrightarrow> at_nodes t' i = None \<longleftrightarrow> at_nodes t i = None"
  using core_eqD(6) [of t' t i] by (cases "at_nodes t i"; cases "at_nodes t' i") auto

lemma core_node_counts [simp]:
  "core_node (count_reported old new n) = core_node n"
  "core_node (count_states cfg old new n) = core_node n"
  by (simp_all add: core_node_def count_reported_def count_states_def Let_def)

lemma core_set_node: "at_nodes t i = Some n \<Longrightarrow> core_node n' = core_node n \<Longrightarrow> core (set_node i n' t) = core t"
  by (auto simp: core_def set_node_def fun_eq_iff)

lemma core_set_rec: "at_store t r = Some a \<Longrightarrow> core_record a' = core_record a \<Longrightarrow> core (set_rec r a' t) = core t"
  by (auto simp: core_def set_rec_def fun_eq_iff)

subsection \<open>Counters and what they count\<close>

datatype tally_kind = KWeak | KStrong | KReject | KReported

fun counter :: "tally_kind \<Rightarrow> node_history \<Rightarrow> int" where
  "counter KWeak n = nh_weak n"
| "counter KStrong n = nh_strong n"
| "counter KReject n = nh_reject n"
| "counter KReported n = nh_reported n"

fun counted :: "tally_kind \<Rightarrow> record_state \<Rightarrow> bool" where
  "counted KWeak s = is_weakly_suspicious s"
| "counted KStrong s = (s = RReported)"
| "counted KReject s = (s = RRejected)"
| "counted KReported s = is_reported s"

definition state_counted :: "tally_kind \<Rightarrow> arb_table \<Rightarrow> rec_id \<Rightarrow> bool" where
  "state_counted k t r = (case at_store t r of None \<Rightarrow> False | Some a \<Rightarrow> counted k (ar_state a))"

definition tally :: "tally_kind \<Rightarrow> arb_table \<Rightarrow> rec_id list \<Rightarrow> int" where
  "tally k t rs = int (length (filter (state_counted k t) rs))"

text \<open>How far a counter is from what it counts.\<close>

definition drift :: "tally_kind \<Rightarrow> string \<Rightarrow> arb_table \<Rightarrow> int" where
  "drift k i t = (case at_nodes t i of None \<Rightarrow> 0 | Some n \<Rightarrow> counter k n - tally k t (nh_records n))"

lemma counter_count_reported:
  "counter k (count_reported old new n) =
     counter k n + (if k = KReported then of_bool (counted k new) - of_bool (counted k old) else 0)"
  by (cases k) (simp_all add: count_reported_def)

lemma counter_count_states:
  "counter k (count_states cfg old new n) =
     counter k n + (if k = KReported then 0 else of_bool (counted k new) - of_bool (counted k old))"
  by (cases k; cases old; cases new)
    (simp_all add: count_states_def is_weakly_suspicious_def)

lemma records_count [simp]:
  "nh_records (count_reported old new n) = nh_records n"
  "nh_records (count_states cfg old new n) = nh_records n"
  by (simp_all add: count_reported_def count_states_def Let_def)

lemma tally_set_node [simp]: "tally k (set_node i n t) rs = tally k t rs"
  by (simp add: tally_def state_counted_def [abs_def] set_node_def)

lemma drift_set_node:
  "drift k j (set_node i n' t) =
     (if j = i then counter k n' - tally k t (nh_records n') else drift k j t)"
  by (simp add: drift_def split: option.split)

lemma length_filter_change:
  assumes "distinct xs" "\<And>y. y \<noteq> x \<Longrightarrow> P y = Q y"
  shows "int (length (filter P xs)) =
     int (length (filter Q xs)) + (if x \<in> set xs then of_bool (P x) - of_bool (Q x) else 0)"
  using assms
proof (induction xs)
  case (Cons a xs)
  then show ?case by (cases "a = x") auto
qed simp

lemma tally_set_rec:
  assumes "distinct rs" "at_store t r = Some a"
  shows "tally k (set_rec r a' t) rs =
     tally k t rs + (if r \<in> set rs then of_bool (counted k (ar_state a')) - of_bool (counted k (ar_state a)) else 0)"
  unfolding tally_def using assms(2)
  by (subst length_filter_change [OF assms(1), of r _ "state_counted k t"])
    (auto simp: state_counted_def set_rec_def)

subsection \<open>Records, nodes and peers are linked\<close>

definition linked :: "arb_table \<Rightarrow> bool" where
  "linked t \<longleftrightarrow>
     (\<forall>r a. at_store t r = Some a \<longrightarrow>
        r < at_next t \<and> (\<exists>n. at_nodes t (ar_node a) = Some n \<and> r \<in> set (nh_records n)) \<and>
        (\<forall>p. ar_peer a = Some p \<longrightarrow> p \<noteq> r \<and> (\<exists>b. at_store t p = Some b \<and> ar_peer b = Some r))) \<and>
     (\<forall>i n. at_nodes t i = Some n \<longrightarrow>
        distinct (nh_records n) \<and> (\<forall>r \<in> set (nh_records n). \<exists>a. at_store t r = Some a \<and> ar_node a = i))"

lemma linked_recordD:
  assumes "linked t" "at_store t r = Some a"
  obtains n where "at_nodes t (ar_node a) = Some n" "r \<in> set (nh_records n)" "distinct (nh_records n)"
    "r < at_next t"
  using assms unfolding linked_def by blast

lemma linked_peerD:
  assumes "linked t" "at_store t r = Some a" "ar_peer a = Some p"
  obtains b where "at_store t p = Some b" "ar_peer b = Some r" "p \<noteq> r"
  using assms unfolding linked_def by blast

lemma linked_nodeD:
  assumes "linked t" "at_nodes t i = Some n"
  shows "distinct (nh_records n)" "r \<in> set (nh_records n) \<Longrightarrow> \<exists>a. at_store t r = Some a \<and> ar_node a = i"
  using assms unfolding linked_def by blast+

lemma linked_core:
  assumes core: "core t' = core t" and linked: "linked t"
  shows "linked t'"
proof -
  note sym = core [symmetric]
  have r: "\<exists>s. at_store t r = Some (a\<lparr>ar_state := s\<rparr>)" if "at_store t' r = Some a" for r a
    using core_storeD [OF sym that] .
  have rec: "r < at_next t' \<and> (\<exists>n. at_nodes t' (ar_node a) = Some n \<and> r \<in> set (nh_records n)) \<and>
      (\<forall>p. ar_peer a = Some p \<longrightarrow> p \<noteq> r \<and> (\<exists>b. at_store t' p = Some b \<and> ar_peer b = Some r))"
    if a: "at_store t' r = Some a" for r a
  proof -
    obtain s where a': "at_store t r = Some (a\<lparr>ar_state := s\<rparr>)" using r [OF a] by blast
    obtain n where n: "at_nodes t (ar_node a) = Some n" "r \<in> set (nh_records n)" "r < at_next t"
      using linked_recordD [OF linked a'] by auto
    obtain n' where n': "at_nodes t' (ar_node a) = Some n'" "nh_records n' = nh_records n"
      by (rule core_nodeD [OF core n(1)])
    have "p \<noteq> r \<and> (\<exists>b. at_store t' p = Some b \<and> ar_peer b = Some r)" if p: "ar_peer a = Some p" for p
    proof -
      obtain b where "at_store t p = Some b" "ar_peer b = Some r" "p \<noteq> r"
        using linked_peerD [OF linked a', of p] p by auto
      then show ?thesis using core_storeD [OF core, of p b] by auto
    qed
    with n n' show ?thesis using core_eqD(1) [OF core] by auto
  qed
  have node: "distinct (nh_records n) \<and> (\<forall>r \<in> set (nh_records n). \<exists>a. at_store t' r = Some a \<and> ar_node a = i)"
    if n: "at_nodes t' i = Some n" for i n
  proof -
    obtain n' where n': "at_nodes t i = Some n'" "nh_records n' = nh_records n"
      by (rule core_nodeD [OF sym n])
    have "\<exists>a. at_store t' r = Some a \<and> ar_node a = i" if mem: "r \<in> set (nh_records n)" for r
    proof -
      obtain a where "at_store t r = Some a" "ar_node a = i"
        using linked_nodeD(2) [OF linked n'(1), of r] n'(2) mem by auto
      then show ?thesis using core_storeD [OF core, of r a] by auto
    qed
    then show ?thesis using linked_nodeD(1) [OF linked n'(1)] n'(2) by simp
  qed
  show ?thesis unfolding linked_def using rec node by blast
qed

subsection \<open>Updating a state\<close>

text \<open>The suspicion level of every node is the weighted sum of its counters.\<close>

definition levels_cached :: "arb_config \<Rightarrow> arb_table \<Rightarrow> bool" where
  "levels_cached cfg t \<longleftrightarrow> (\<forall>i n. at_nodes t i = Some n \<longrightarrow>
     nh_level n = nh_weak n * ac_weak_level cfg + nh_strong n * ac_strong_level cfg
       + nh_reject n * ac_reject_level cfg)"

lemma levels_set_node:
  assumes "levels_cached cfg t"
    "nh_level n = nh_weak n * ac_weak_level cfg + nh_strong n * ac_strong_level cfg
       + nh_reject n * ac_reject_level cfg"
  shows "levels_cached cfg (set_node i n t)"
  using assms by (simp add: levels_cached_def)

lemma levels_set_rec [simp]: "levels_cached cfg (set_rec r a t) = levels_cached cfg t"
  by (simp add: levels_cached_def)

lemma level_count_states:
  "nh_level (count_states cfg old new n) =
     nh_weak (count_states cfg old new n) * ac_weak_level cfg
     + nh_strong (count_states cfg old new n) * ac_strong_level cfg
     + nh_reject (count_states cfg old new n) * ac_reject_level cfg"
  by (simp add: count_states_def Let_def)

definition promoted :: "arb_record \<Rightarrow> arb_record \<Rightarrow> bool" where
  "promoted a b \<longleftrightarrow> ar_state b = ar_state a \<or> ar_state a = RReported \<and> ar_state b = RReported2"

text \<open>\<open>t'\<close> comes from \<open>t\<close> by state updates that leave the states of the records outside \<open>R\<close> alone,
  except for promotions.\<close>

definition settles :: "arb_config \<Rightarrow> rec_id set \<Rightarrow> arb_table \<Rightarrow> arb_table \<Rightarrow> bool" where
  "settles cfg R t t' \<longleftrightarrow> core t' = core t \<and> (\<forall>k i. drift k i t' = drift k i t) \<and>
     (levels_cached cfg t \<longrightarrow> levels_cached cfg t') \<and>
     (\<forall>q a b. q \<notin> R \<longrightarrow> at_store t q = Some a \<longrightarrow> at_store t' q = Some b \<longrightarrow> promoted a b)"

lemma settles_refl [simp]: "settles cfg R t t"
  by (simp add: settles_def promoted_def)

lemma settles_mono: "settles cfg R t t' \<Longrightarrow> R \<subseteq> S \<Longrightarrow> settles cfg S t t'"
  by (auto simp: settles_def)

lemma settles_trans:
  assumes "settles cfg R t t'" "settles cfg S t' t''"
  shows "settles cfg (R \<union> S) t t''"
proof -
  have "promoted a c" if q: "q \<notin> R \<union> S" "at_store t q = Some a" "at_store t'' q = Some c" for q a c
  proof -
    obtain b where b: "at_store t' q = Some b"
      using core_store_None [of t' t q] assms(1) q(2) by (auto simp: settles_def)
    have "promoted a b" "promoted b c"
      using assms q b by (auto simp: settles_def)
    then show ?thesis by (auto simp: promoted_def)
  qed
  then show ?thesis using assms by (auto simp: settles_def)
qed

lemma settles_linked: "settles cfg R t t' \<Longrightarrow> linked t \<Longrightarrow> linked t'"
  by (auto simp: settles_def intro: linked_core)

lemma settles_step:
  assumes a: "at_store t r = Some a" and n: "at_nodes t (ar_node a) = Some n"
    and r: "r \<in> set (nh_records n)" and linked: "linked t"
  shows "settles cfg {r} t (set_rec r (a\<lparr>ar_state := s\<rparr>)
           (set_node (ar_node a) (count_states cfg (ar_state a) s (count_reported (ar_state a) s n)) t))"
    (is "settles cfg {r} t (set_rec r ?a (set_node ?i ?n t))")
proof -
  have core: "core (set_rec r ?a (set_node ?i ?n t)) = core t"
    using core_set_rec [of "set_node ?i ?n t" r a ?a] core_set_node [OF n, of ?n] a by simp
  have drift: "drift k j (set_rec r ?a (set_node ?i ?n t)) = drift k j t" for k j
  proof (cases "at_nodes t j")
    case None
    then have "j \<noteq> ?i" using n by auto
    with None show ?thesis by (simp add: drift_def)
  next
    case (Some m)
    have "distinct (nh_records m)" using linked_nodeD(1) [OF linked Some] .
    then have tally: "tally k (set_rec r ?a (set_node ?i ?n t)) (nh_records m) =
        tally k t (nh_records m) + (if r \<in> set (nh_records m)
          then of_bool (counted k s) - of_bool (counted k (ar_state a)) else 0)"
      using tally_set_rec [of "nh_records m" "set_node ?i ?n t" r a k ?a] a by simp
    have "r \<in> set (nh_records m) \<longleftrightarrow> j = ?i"
      using linked_nodeD(2) [OF linked Some, of r] a n r Some by auto
    with tally Some n show ?thesis
      by (auto simp: drift_def counter_count_states counter_count_reported)
  qed
  have level: "levels_cached cfg (set_rec r ?a (set_node ?i ?n t))" if "levels_cached cfg t"
    using levels_set_node [OF that level_count_states] by simp
  show ?thesis unfolding settles_def using core drift level by (auto simp: promoted_def)
qed

lemma update_depth_quiet:
  assumes a: "at_store t r = Some a" and n: "at_nodes t (ar_node a) = Some n"
    and s: "s \<noteq> RReported" "is_reported s \<longrightarrow> is_reported (ar_state a)"
  shows "update_state_depth cfg (Suc d) r s t =
     Some (if s = ar_state a then t else set_rec r (a\<lparr>ar_state := s\<rparr>)
       (set_node (ar_node a) (count_states cfg (ar_state a) s (count_reported (ar_state a) s n)) t))"
proof -
  have "nh_reported (count_reported (ar_state a) s n) \<le> nh_reported n"
    using s(2) by (auto simp: count_reported_def)
  then show ?thesis
    using a n s(1) by (simp add: update_record_state_def Let_def update_state_depth.simps)
      (auto simp: set_node_def)
qed

lemma promote_settles:
  assumes "linked t" "\<forall>r \<in> set rs. at_store t r \<noteq> None"
  shows "\<exists>t'. promote_peers (update_state_depth cfg (Suc d)) rs t = Some t' \<and> settles cfg {} t t'"
  using assms
proof (induction rs arbitrary: t)
  case (Cons r rs)
  obtain a where a: "at_store t r = Some a" using Cons.prems(2) by auto
  define step where "step = (case ar_peer a of None \<Rightarrow> Some t
      | Some p \<Rightarrow> do { b \<leftarrow> at_store t p;
          if ar_state b = RReported then update_state_depth cfg (Suc d) p RReported2 t else Some t })"
  have "\<exists>t'. step = Some t' \<and> settles cfg {} t t'"
  proof (cases "ar_peer a")
    case (Some p)
    obtain b where b: "at_store t p = Some b" by (rule linked_peerD [OF Cons.prems(1) a Some])
    show ?thesis
    proof (cases "ar_state b = RReported")
      case True
      obtain n where n: "at_nodes t (ar_node b) = Some n" "p \<in> set (nh_records n)"
        by (rule linked_recordD [OF Cons.prems(1) b])
      define t' where "t' = set_rec p (b\<lparr>ar_state := RReported2\<rparr>) (set_node (ar_node b)
          (count_states cfg (ar_state b) RReported2 (count_reported (ar_state b) RReported2 n)) t)"
      have "step = Some t'"
        using Some b True update_depth_quiet [OF b n(1), of RReported2 cfg d]
        by (simp add: step_def t'_def is_reported_def)
      moreover have "settles cfg {p} t t'"
        unfolding t'_def by (rule settles_step [OF b n Cons.prems(1)])
      then have "settles cfg {} t t'"
        using b True by (auto simp: settles_def t'_def promoted_def)
      ultimately show ?thesis by blast
    qed (use Some b in \<open>simp add: step_def\<close>)
  qed (simp add: step_def)
  then obtain t1 where t1: "step = Some t1" "settles cfg {} t t1" by blast
  have "\<forall>r \<in> set rs. at_store t1 r \<noteq> None"
    using Cons.prems(2) t1(2) core_store_None [of t1 t] by (auto simp: settles_def)
  then obtain t' where t': "promote_peers (update_state_depth cfg (Suc d)) rs t1 = Some t'" "settles cfg {} t1 t'"
    using Cons.IH [of t1] settles_linked [OF t1(2) Cons.prems(1)] by blast
  have "promote_peers (update_state_depth cfg (Suc d)) (r # rs) t = Some t'"
    using a t1(1) t'(1) unfolding step_def by simp
  with settles_trans [OF t1(2) t'(2)] show ?case by auto
qed simp

text \<open>The state a record reaches, and that \<open>UpdateState\<close> always returns on a linked table.\<close>

definition reaches :: "record_state \<Rightarrow> record_state \<Rightarrow> bool" where
  "reaches s s' \<longleftrightarrow> s' = s \<or> s = RReported \<and> s' = RReported2"

lemma update_state_settles:
  assumes linked: "linked t" and a: "at_store t r = Some a" and s: "s = RReported \<longrightarrow> ar_peer a \<noteq> None"
  obtains t' s' where "update_state_depth cfg (Suc (Suc d)) r s t = Some t'" "settles cfg {r} t t'"
    "at_store t' r = Some (a\<lparr>ar_state := s'\<rparr>)" "reaches s s'"
proof -
  obtain n where n: "at_nodes t (ar_node a) = Some n" "r \<in> set (nh_records n)" "distinct (nh_records n)"
    by (rule linked_recordD [OF linked a])
  obtain s' where s': "(if s = RReported then do {
             p \<leftarrow> ar_peer a; b \<leftarrow> at_store t p; n \<leftarrow> at_nodes t (ar_node b);
             Some (if nh_reported n \<ge> ac_report_threshold cfg then RReported2 else RReported) }
          else Some s) = Some s'" "reaches s s'"
  proof (cases "s = RReported")
    case True
    then obtain p where p: "ar_peer a = Some p" using s by auto
    obtain b where b: "at_store t p = Some b" by (rule linked_peerD [OF linked a p])
    obtain m where "at_nodes t (ar_node b) = Some m" by (rule linked_recordD [OF linked b])
    with True p b that show ?thesis by (auto simp: reaches_def)
  qed (use that in \<open>auto simp: reaches_def\<close>)
  let ?n = "count_reported (ar_state a) s' n" and ?i = "ar_node a"
  consider (same) "s' = ar_state a" | (quiet) "s' \<noteq> ar_state a"
      "\<not> (nh_reported n < ac_report_threshold cfg \<and> nh_reported ?n \<ge> ac_report_threshold cfg)"
    | (promote) "s' \<noteq> ar_state a"
      "nh_reported n < ac_report_threshold cfg \<and> nh_reported ?n \<ge> ac_report_threshold cfg" by blast
  then show ?thesis
  proof cases
    case same
    have "update_state_depth cfg (Suc (Suc d)) r s t = Some t"
      using a s' same by (simp add: update_state_depth.simps(2) [of _ "Suc d"])
    moreover have "at_store t r = Some (a\<lparr>ar_state := s'\<rparr>)" using a same by simp
    ultimately show ?thesis using that s'(2) by simp
  next
    case quiet
    define t' where "t' = set_rec r (a\<lparr>ar_state := s'\<rparr>) (set_node ?i (count_states cfg (ar_state a) s' ?n) t)"
    have eq: "set_node ?i m (set_node ?i k t) = set_node ?i m t" for m k by (simp add: set_node_def)
    have "update_record_state cfg (update_state_depth cfg (Suc d)) ?i (ar_state a) s' t =
        Some (set_node ?i (count_states cfg (ar_state a) s' ?n) t)"
      using n(1) quiet(2) by (auto simp: update_record_state_def Let_def eq)
    then have "update_state_depth cfg (Suc (Suc d)) r s t = Some t'"
      using a s'(1) quiet(1) by (simp add: update_state_depth.simps(2) [of _ "Suc d"] t'_def)
    moreover have "settles cfg {r} t t'" unfolding t'_def by (rule settles_step [OF a n(1,2) linked])
    moreover have "at_store t' r = Some (a\<lparr>ar_state := s'\<rparr>)" by (simp add: t'_def)
    ultimately show ?thesis using that s'(2) by blast
  next
    case promote
    define t1 where "t1 = set_node ?i ?n t"
    have core1: "core t1 = core t" unfolding t1_def by (rule core_set_node [OF n(1)]) simp
    then have linked1: "linked t1" using linked by (rule linked_core)
    have "\<forall>q \<in> set (nh_records ?n). at_store t1 q \<noteq> None"
      using linked_nodeD(2) [OF linked n(1)] by (auto simp: t1_def)
    then obtain t2 where t2: "promote_peers (update_state_depth cfg (Suc d)) (nh_records ?n) t1 = Some t2"
        "settles cfg {} t1 t2"
      using promote_settles [OF linked1] by blast
    have old: "\<not> is_reported (ar_state a)" and new: "is_reported s'"
      using promote by (auto simp: count_reported_def split: if_splits)
    obtain a2 where a2: "at_store t2 r = Some a2" "promoted a a2"
      using t2(2) a core_store_None [of t2 t1 r] by (auto simp: settles_def t1_def)
    have "core t2 = core t1" using t2(2) by (simp add: settles_def)
    then obtain s2 where "at_store t2 r = Some (a\<lparr>ar_state := s2\<rparr>)"
      using core_storeD [of t2 t1 r a] a by (auto simp: t1_def)
    then have a2': "at_store t2 r = Some a"
      using a2 old by (auto simp: promoted_def is_reported_def)
    obtain n2 where n2: "at_nodes t2 ?i = Some n2" "nh_records n2 = nh_records n"
      using core_nodeD [OF \<open>core t2 = core t1\<close>, of ?i ?n] by (auto simp: t1_def)
    define t' where "t' = set_rec r (a\<lparr>ar_state := s'\<rparr>) (set_node ?i (count_states cfg (ar_state a) s' n2) t2)"
    have ret: "update_state_depth cfg (Suc (Suc d)) r s t = Some t'"
      using a s'(1) promote n(1) t2(1) n2(1) a2'
      by (simp add: update_state_depth.simps(2) [of _ "Suc d"] update_record_state_def Let_def
          t'_def t1_def [symmetric])
    have linked2: "linked t2" using linked_core [OF \<open>core t2 = core t1\<close> linked1] .
    have core: "core t' = core t"
      using core_set_rec [of "set_node ?i (count_states cfg (ar_state a) s' n2) t2" r a "a\<lparr>ar_state := s'\<rparr>"]
        core_set_node [OF n2(1), of "count_states cfg (ar_state a) s' n2"] a2' \<open>core t2 = core t1\<close> core1
      by (simp add: t'_def)
    have drift: "drift k j t' = drift k j t" for k j
    proof -
      have base: "drift k j t2 = drift k j t1" using t2(2) by (simp add: settles_def)
      show ?thesis
      proof (cases "at_nodes t2 j")
        case None
        then have "at_nodes t1 j = None" using core_node_None [OF \<open>core t2 = core t1\<close>] by simp
        with None n2 show ?thesis by (auto simp: drift_def t'_def t1_def split: if_splits option.splits)
      next
        case (Some m)
        have d: "distinct (nh_records m)" using linked_nodeD(1) [OF linked2 Some] .
        have tally: "tally k t' (nh_records m) = tally k t2 (nh_records m) + (if r \<in> set (nh_records m)
            then of_bool (counted k s') - of_bool (counted k (ar_state a)) else 0)"
          unfolding t'_def using tally_set_rec [OF d, of "set_node ?i (count_states cfg (ar_state a) s' n2) t2" r a]
            a2' by simp
        have mem: "r \<in> set (nh_records m) \<longleftrightarrow> j = ?i"
          using linked_nodeD(2) [OF linked2 Some, of r] a2' n2 n(2) Some by auto
        have "drift k j t' = drift k j t2 + (if j = ?i then - (if k = KReported
            then of_bool (counted k s') - of_bool (counted k (ar_state a)) else 0) else 0)"
          using tally mem Some n2(1) by (auto simp: drift_def t'_def [THEN arg_cong [of _ _ at_nodes]] counter_count_states)
        moreover have "drift k j t1 = drift k j t + (if j = ?i then (if k = KReported
            then of_bool (counted k s') - of_bool (counted k (ar_state a)) else 0) else 0)"
          using n(1) by (auto simp: t1_def counter_count_reported drift_def split: option.split)
        ultimately show ?thesis using base by simp
      qed
    qed
    have level: "levels_cached cfg t'" if "levels_cached cfg t"
    proof -
      have "levels_cached cfg t1"
        unfolding t1_def using that n(1)
        by (intro levels_set_node) (simp_all add: levels_cached_def count_reported_def)
      then have "levels_cached cfg t2" using t2(2) by (simp add: settles_def)
      then show ?thesis unfolding t'_def using levels_set_node [OF _ level_count_states] by simp
    qed
    have "promoted b c" if "q \<noteq> r" "at_store t q = Some b" "at_store t' q = Some c" for q b c
      using t2(2) that by (simp add: settles_def t1_def t'_def)
    with core drift level have "settles cfg {r} t t'" by (simp add: settles_def)
    moreover have "at_store t' r = Some (a\<lparr>ar_state := s'\<rparr>)" by (simp add: t'_def)
    ultimately show ?thesis using that ret s'(2) by blast
  qed
qed

subsection \<open>The invariant of the table\<close>

definition tallied :: "arb_table \<Rightarrow> bool" where
  "tallied t \<longleftrightarrow> (\<forall>k i. drift k i t = 0)"

text \<open>Only implicit records, or what became of them, have no peer.\<close>

definition peers_present :: "arb_table \<Rightarrow> bool" where
  "peers_present t \<longleftrightarrow> (\<forall>r a. at_store t r = Some a \<longrightarrow>
     (ar_peer a = None \<longrightarrow> ar_state a = RImplicit \<or> ar_state a = RExpired) \<and>
     (ar_state a = RImplicit \<longrightarrow> ar_peer a = None))"

text \<open>A side that is granted, or will be when its delay is over, faces one that is not decided or is
  rejected.\<close>

definition wins :: "arbitration_decision \<Rightarrow> bool" where
  "wins d \<longleftrightarrow> d = DGrant \<or> d = DDelay"

definition compatible :: "arbitration_decision \<Rightarrow> arbitration_decision \<Rightarrow> bool" where
  "compatible v w \<longleftrightarrow> (wins v \<longrightarrow> w = DNone \<or> w = DReject) \<and> (wins w \<longrightarrow> v = DNone \<or> v = DReject)"

definition pair_exclusive :: "arb_table \<Rightarrow> bool" where
  "pair_exclusive t \<longleftrightarrow> (\<forall>r a p b. at_store t r = Some a \<longrightarrow> ar_peer a = Some p \<longrightarrow>
     at_store t p = Some b \<longrightarrow> compatible (ar_decision a) (ar_decision b))"

definition table_ok :: "arb_config \<Rightarrow> arb_table \<Rightarrow> bool" where
  "table_ok cfg t \<longleftrightarrow>
     linked t \<and> tallied t \<and> levels_cached cfg t \<and> peers_present t \<and> pair_exclusive t"

lemma compatible_sym: "compatible v w \<longleftrightarrow> compatible w v"
  by (auto simp: compatible_def)

lemma compatible_None [simp]: "compatible DNone w" "compatible v DNone"
  by (cases w; simp add: compatible_def wins_def) (cases v; simp add: compatible_def wins_def)

lemma table_okD:
  assumes "table_ok cfg t"
  shows "linked t" "tallied t" "levels_cached cfg t" "peers_present t" "pair_exclusive t"
  using assms by (simp_all add: table_ok_def)

text \<open>Records and nodes of \<open>t\<close> are still there in \<open>t'\<close>, with the links they had.\<close>

definition keeps_links :: "arb_table \<Rightarrow> arb_table \<Rightarrow> bool" where
  "keeps_links t t' \<longleftrightarrow>
     (\<forall>r a. at_store t r = Some a \<longrightarrow> (\<exists>a'. at_store t' r = Some a' \<and> ar_node a' = ar_node a \<and>
        ar_peer a' = ar_peer a)) \<and>
     (\<forall>i n. at_nodes t i = Some n \<longrightarrow> (\<exists>n'. at_nodes t' i = Some n' \<and>
        set (nh_records n) \<subseteq> set (nh_records n')))"

lemma keeps_links_refl [simp]: "keeps_links t t"
  by (simp add: keeps_links_def)

lemma keeps_storeD:
  assumes "keeps_links t t'" "at_store t r = Some a"
  obtains a' where "at_store t' r = Some a'" "ar_node a' = ar_node a" "ar_peer a' = ar_peer a"
  using assms unfolding keeps_links_def by blast

lemma keeps_nodeD:
  assumes "keeps_links t t'" "at_nodes t i = Some n"
  obtains n' where "at_nodes t' i = Some n'" "set (nh_records n) \<subseteq> set (nh_records n')"
  using assms unfolding keeps_links_def by blast

lemma keeps_links_trans:
  assumes "keeps_links t t'" "keeps_links t' t''"
  shows "keeps_links t t''"
  unfolding keeps_links_def
proof (intro conjI allI impI)
  fix r a assume "at_store t r = Some a"
  then obtain a' where a': "at_store t' r = Some a'" "ar_node a' = ar_node a" "ar_peer a' = ar_peer a"
    by (rule keeps_storeD [OF assms(1)])
  then show "\<exists>a'. at_store t'' r = Some a' \<and> ar_node a' = ar_node a \<and> ar_peer a' = ar_peer a"
    using keeps_storeD [OF assms(2) a'(1)] by metis
next
  fix i n assume "at_nodes t i = Some n"
  then obtain n' where n': "at_nodes t' i = Some n'" "set (nh_records n) \<subseteq> set (nh_records n')"
    by (rule keeps_nodeD [OF assms(1)])
  then show "\<exists>n'. at_nodes t'' i = Some n' \<and> set (nh_records n) \<subseteq> set (nh_records n')"
    using keeps_nodeD [OF assms(2) n'(1)] by (metis subset_trans)
qed

lemma keeps_links_core: "core t' = core t \<Longrightarrow> keeps_links t t'"
  unfolding keeps_links_def
proof (intro conjI allI impI)
  fix r a assume "core t' = core t" "at_store t r = Some a"
  then show "\<exists>a'. at_store t' r = Some a' \<and> ar_node a' = ar_node a \<and> ar_peer a' = ar_peer a"
    using core_storeD [of t' t r a] by auto
next
  fix i n assume "core t' = core t" "at_nodes t i = Some n"
  then show "\<exists>n'. at_nodes t' i = Some n' \<and> set (nh_records n) \<subseteq> set (nh_records n')"
    by (rule core_nodeD) simp
qed

lemma pair_exclusive_core: "core t' = core t \<Longrightarrow> pair_exclusive t \<Longrightarrow> pair_exclusive t'"
  unfolding pair_exclusive_def
proof (intro allI impI)
  fix r a p b
  assume core: "core t' = core t"
    and ex: "\<forall>r a p b. at_store t r = Some a \<longrightarrow> ar_peer a = Some p \<longrightarrow> at_store t p = Some b \<longrightarrow>
        compatible (ar_decision a) (ar_decision b)"
    and a: "at_store t' r = Some a" and p: "ar_peer a = Some p" and b: "at_store t' p = Some b"
  obtain s1 s2 where "at_store t r = Some (a\<lparr>ar_state := s1\<rparr>)" "at_store t p = Some (b\<lparr>ar_state := s2\<rparr>)"
    using core_storeD [OF core [symmetric] a] core_storeD [OF core [symmetric] b] by blast
  with ex p have "compatible (ar_decision (a\<lparr>ar_state := s1\<rparr>)) (ar_decision (b\<lparr>ar_state := s2\<rparr>))"
    by fastforce
  then show "compatible (ar_decision a) (ar_decision b)" by simp
qed

lemma update_state_ok:
  assumes ok: "table_ok cfg t" and a: "at_store t r = Some a"
    and s: "s \<noteq> RImplicit" "ar_peer a = None \<longrightarrow> s = RExpired"
  obtains t' s' where "update_state cfg r s t = Some t'" "table_ok cfg t'" "settles cfg {r} t t'"
    "core t' = core t" "at_store t' r = Some (a\<lparr>ar_state := s'\<rparr>)" "reaches s s'"
proof -
  obtain t' s' where t': "update_state_depth cfg (Suc (Suc 0)) r s t = Some t'" "settles cfg {r} t t'"
      "at_store t' r = Some (a\<lparr>ar_state := s'\<rparr>)" "reaches s s'"
  proof (rule update_state_settles [OF table_okD(1) [OF ok] a, of s cfg 0])
    show "s = RReported \<longrightarrow> ar_peer a \<noteq> None" using s by auto
  qed
  have core: "core t' = core t" using t'(2) by (simp add: settles_def)
  have "peers_present t'"
    unfolding peers_present_def
  proof (intro allI impI)
    fix q b assume b: "at_store t' q = Some b"
    obtain c where c: "at_store t q = Some c" "ar_peer b = ar_peer c" "promoted c b \<or> q = r"
      using core_storeD [OF core [symmetric] b] t'(2) b by (fastforce simp: settles_def)
    have "(ar_peer c = None \<longrightarrow> ar_state c = RImplicit \<or> ar_state c = RExpired) \<and>
        (ar_state c = RImplicit \<longrightarrow> ar_peer c = None)"
      using table_okD(4) [OF ok] c(1) by (simp add: peers_present_def)
    with a b c t'(3,4) s show "(ar_peer b = None \<longrightarrow> ar_state b = RImplicit \<or> ar_state b = RExpired) \<and>
        (ar_state b = RImplicit \<longrightarrow> ar_peer b = None)"
      by (cases "q = r") (auto simp: reaches_def promoted_def)
  qed
  moreover have "linked t'" "pair_exclusive t'"
    using linked_core [OF core] pair_exclusive_core [OF core] table_okD [OF ok] by blast+
  moreover have "tallied t'" "levels_cached cfg t'"
    using t'(2) table_okD [OF ok] by (simp_all add: settles_def tallied_def)
  ultimately have "table_ok cfg t'" by (simp add: table_ok_def)
  with t' core that show ?thesis by (simp add: update_state_def numeral_2_eq_2)
qed

end
