(* ===== verification/Arbitration_Requests.thy ===== *)
theory Arbitration_Requests
  imports Arbitration_Safety
begin

text \<open>
  Every request on a correct table: that it returns, that the table stays correct, and what the
  reply says about the decision.
\<close>

section \<open>Writing to a record\<close>

lemma table_ok_set_rec:
  assumes ok: "table_ok cfg t" and a: "at_store t r = Some a"
    and same: "ar_node a' = ar_node a" "ar_peer a' = ar_peer a" "ar_state a' = ar_state a"
    and compat: "\<And>p b. ar_peer a = Some p \<Longrightarrow> at_store t p = Some b \<Longrightarrow>
      compatible (ar_decision a') (ar_decision b)"
  shows "table_ok cfg (set_rec r a' t)"
proof -
  have linked: "linked t" and ex: "pair_exclusive t" using table_okD [OF ok] by simp_all
  let ?t = "set_rec r a' t"
  have look: "at_store ?t q = (if q = r then Some a' else at_store t q)" for q by simp
  have bwd: "\<exists>c. at_store t q = Some c \<and> ar_node b = ar_node c \<and> ar_peer b = ar_peer c \<and> ar_state b = ar_state c"
    if "at_store ?t q = Some b" for q b
    using that a same by (cases "q = r") auto
  have fwd: "\<exists>c. at_store ?t q = Some c \<and> ar_node b = ar_node c \<and> ar_peer b = ar_peer c"
    if "at_store t q = Some b" for q b
    using that a same by (cases "q = r") auto
  have "linked ?t"
    unfolding linked_def
  proof (intro conjI allI impI ballI)
    fix q b assume b: "at_store ?t q = Some b"
    obtain c where c: "at_store t q = Some c" "ar_node b = ar_node c" "ar_peer b = ar_peer c"
      using bwd [OF b] by blast
    obtain n where "at_nodes t (ar_node c) = Some n" "q \<in> set (nh_records n)" "q < at_next t"
      by (rule linked_recordD [OF linked c(1)])
    with c show "q < at_next ?t" "\<exists>n. at_nodes ?t (ar_node b) = Some n \<and> q \<in> set (nh_records n)"
      by auto
    fix p assume p: "ar_peer b = Some p"
    then obtain d where d: "at_store t p = Some d" "ar_peer d = Some q" "p \<noteq> q"
      using linked_peerD [OF linked c(1)] c(3) by metis
    then show "p \<noteq> q" "\<exists>b. at_store ?t p = Some b \<and> ar_peer b = Some q"
      using fwd [OF d(1)] by auto
  next
    fix i n assume n: "at_nodes ?t i = Some n"
    then show "distinct (nh_records n)" using linked_nodeD(1) [OF linked] by simp
    fix q assume "q \<in> set (nh_records n)"
    then obtain c where "at_store t q = Some c" "ar_node c = i"
      using linked_nodeD(2) [OF linked, of i n q] n by auto
    then show "\<exists>a. at_store ?t q = Some a \<and> ar_node a = i" using fwd [of q c] by auto
  qed
  moreover have "tallied ?t"
  proof -
    have "drift k i ?t = drift k i t" for k i
    proof -
      have "state_counted k ?t = state_counted k t"
        using a same(3) by (intro ext) (simp add: state_counted_def)
      then show ?thesis by (simp add: drift_def tally_def split: option.split)
    qed
    then show ?thesis using table_okD(2) [OF ok] by (simp add: tallied_def)
  qed
  moreover have "peers_present ?t"
    unfolding peers_present_def using table_okD(4) [OF ok] bwd unfolding peers_present_def by metis
  moreover have "pair_exclusive ?t"
    unfolding pair_exclusive_def
  proof (intro allI impI)
    fix q b p c
    assume b: "at_store ?t q = Some b" and p: "ar_peer b = Some p" and c: "at_store ?t p = Some c"
    show "compatible (ar_decision b) (ar_decision c)"
    proof (cases "q = r")
      case True
      then have b': "b = a'" "ar_peer a = Some p" using b p same by auto
      then have "p \<noteq> r" using linked_peerD [OF linked a] by metis
      then show ?thesis using compat [OF b'(2), of c] b' c by simp
    next
      case False
      then have bq: "at_store t q = Some b" using b by simp
      then obtain d where d: "at_store t p = Some d" "ar_peer d = Some q" "p \<noteq> q"
        using linked_peerD [OF linked bq p] by metis
      show ?thesis
      proof (cases "p = r")
        case True
        then show ?thesis using compat [of q b] d a bq c compatible_sym by simp
      next
        case False
        then show ?thesis using ex bq p c by (auto simp: pair_exclusive_def)
      qed
    qed
  qed
  ultimately show ?thesis using table_okD(3) [OF ok] by (simp add: table_ok_def)
qed

lemma keeps_links_set_rec:
  assumes "at_store t r = Some a" "ar_node a' = ar_node a" "ar_peer a' = ar_peer a"
  shows "keeps_links t (set_rec r a' t)"
  using assms by (auto simp: keeps_links_def)

text \<open>The decision of every record.\<close>

definition decision_of :: "arb_table \<Rightarrow> rec_id \<Rightarrow> arbitration_decision option" where
  "decision_of t r = map_option ar_decision (at_store t r)"

lemma decision_core: "core t' = core t \<Longrightarrow> decision_of t' = decision_of t"
proof
  fix r assume core: "core t' = core t"
  show "decision_of t' r = decision_of t r"
  proof (cases "at_store t r")
    case None
    then show ?thesis using core_store_None [OF core] by (simp add: decision_of_def)
  next
    case (Some a)
    then show ?thesis using core_storeD [OF core Some] by (auto simp: decision_of_def)
  qed
qed

lemma pair_exclusiveD:
  assumes "table_ok cfg t" "at_store t r = Some a" "ar_peer a = Some p" "at_store t p = Some b"
  shows "compatible (ar_decision a) (ar_decision b)"
  using table_okD(5) [OF assms(1)] assms(2-) by (auto simp: pair_exclusive_def)

lemma set_decision_ok:
  assumes ok: "table_ok cfg t" and a: "at_store t r = Some a"
    and peer: "ar_state a \<noteq> RImplicit \<longrightarrow> ar_peer a \<noteq> None \<or> v \<noteq> DReject"
    and compat: "\<And>p b. ar_peer a = Some p \<Longrightarrow> at_store t p = Some b \<Longrightarrow> compatible v (ar_decision b)"
  obtains t' where "set_decision cfg r v t = Some t'" "table_ok cfg t'" "keeps_links t t'"
    "decision_of t' = (decision_of t)(r \<mapsto> v)" "at_history_start t' = at_history_start t"
    "at_delayed t' = at_delayed t" "at_next t' = at_next t"
proof -
  have finish: "\<exists>t'. upd_rec r (\<lambda>a. a\<lparr>ar_decision := v\<rparr>) t1 = Some t' \<and> table_ok cfg t' \<and> keeps_links t t'
      \<and> decision_of t' = (decision_of t)(r \<mapsto> v) \<and> at_history_start t' = at_history_start t
      \<and> at_delayed t' = at_delayed t \<and> at_next t' = at_next t"
    if ok1: "table_ok cfg t1" and core: "core t1 = core t" for t1
  proof -
    obtain s where a1: "at_store t1 r = Some (a\<lparr>ar_state := s\<rparr>)" using core_storeD [OF core a] by blast
    let ?a = "a\<lparr>ar_state := s, ar_decision := v\<rparr>"
    have "compatible (ar_decision ?a) (ar_decision b)"
      if p: "ar_peer (a\<lparr>ar_state := s\<rparr>) = Some p" and b: "at_store t1 p = Some b" for p b
    proof -
      obtain s' where "at_store t p = Some (b\<lparr>ar_state := s'\<rparr>)"
        using core_storeD [OF core [symmetric] b] by blast
      then show ?thesis using compat [of p "b\<lparr>ar_state := s'\<rparr>"] p by simp
    qed
    then have "table_ok cfg (set_rec r ?a t1)" using table_ok_set_rec [OF ok1 a1, of ?a] by simp
    moreover have "keeps_links t (set_rec r ?a t1)"
      using keeps_links_trans [OF keeps_links_core [OF core] keeps_links_set_rec [OF a1, of ?a]] by simp
    moreover have "decision_of (set_rec r ?a t1) = (decision_of t)(r \<mapsto> v)"
      using decision_core [OF core] by (auto simp: decision_of_def fun_eq_iff)
    ultimately show ?thesis
      using a1 core_eqD [OF core] by (intro exI [of _ "set_rec r ?a t1"]) simp
  qed
  have "\<exists>t1. set_decision cfg r v t = upd_rec r (\<lambda>a. a\<lparr>ar_decision := v\<rparr>) t1 \<and> table_ok cfg t1 \<and> core t1 = core t"
  proof (cases "ar_state a = RImplicit")
    case True
    with a ok show ?thesis by (intro exI [of _ t]) (simp add: set_decision_def)
  next
    case alone: False
    show ?thesis
    proof (cases "ar_peer a = None")
      case True
      then have "v \<noteq> DReject" "ar_state a \<noteq> RRejected"
        using alone peer table_okD(4) [OF ok] a by (fastforce simp: peers_present_def)+
      with a ok True alone show ?thesis by (intro exI [of _ t]) (simp add: set_decision_def)
    next
    case paired: False
    note False = alone
    obtain p where p: "ar_peer a = Some p" using paired by auto
    show ?thesis
    proof (cases "v = DReject")
      case True
      obtain t1 where "update_state cfg r RRejected t = Some t1" "table_ok cfg t1" "core t1 = core t"
        by (rule update_state_ok [OF ok a, of RRejected]) (use p in simp_all)
      with a False True show ?thesis by (intro exI [of _ t1]) (simp add: set_decision_def)
    next
      case reject: False
      obtain t1 where t1: "(if ar_state a = RRejected then update_state cfg r RReported t else Some t) = Some t1"
          "table_ok cfg t1" "core t1 = core t"
      proof (cases "ar_state a = RRejected")
        case True
        show thesis by (rule update_state_ok [OF ok a, of RReported]) (use p True that in simp_all)
      qed (use ok that in simp)
      obtain b where b: "at_store t1 p = Some b" "ar_peer b \<noteq> None"
      proof -
        obtain b where b: "at_store t p = Some b" "ar_peer b = Some r" by (rule linked_peerD [OF table_okD(1) [OF ok] a p])
        with core_storeD [OF t1(3) b(1)] that show thesis by auto
      qed
      obtain t2 where t2: "(if v = DGrant then do { b \<leftarrow> at_store t1 p;
            if \<not> is_present b then update_state cfg p RRejected t1 else Some t1 } else Some t1) = Some t2"
          "table_ok cfg t2" "core t2 = core t"
      proof (cases "v = DGrant \<and> \<not> is_present b")
        case True
        obtain t2 where "update_state cfg p RRejected t1 = Some t2" "table_ok cfg t2" "core t2 = core t1"
          by (rule update_state_ok [OF t1(2) b(1), of RRejected]) (use b in simp_all)
        with True b t1(3) that show thesis by simp
      qed (use b t1 that in auto)
      have "set_decision cfg r v t = upd_rec r (\<lambda>a. a\<lparr>ar_decision := v\<rparr>) t2"
        using a False reject t1(1) t2(1) p by (simp add: set_decision_def)
      with t2 show ?thesis by blast
    qed
    qed
  qed
  then obtain t1 where t1: "set_decision cfg r v t = upd_rec r (\<lambda>a. a\<lparr>ar_decision := v\<rparr>) t1"
    "table_ok cfg t1" "core t1 = core t" by blast
  show ?thesis using finish [OF t1(2,3)] t1(1) that by auto
qed

section \<open>Steps that keep the table correct\<close>

definition sound_step :: "arb_config \<Rightarrow> arb_table \<Rightarrow> arb_table \<Rightarrow> bool" where
  "sound_step cfg t t' \<longleftrightarrow> table_ok cfg t' \<and> keeps_links t t' \<and> at_history_start t' = at_history_start t \<and>
     at_next t \<le> at_next t' \<and> set (at_delayed t') \<subseteq> set (at_delayed t) \<union> dom (at_store t')"

lemma sound_stepI:
  "table_ok cfg t' \<Longrightarrow> keeps_links t t' \<Longrightarrow> at_history_start t' = at_history_start t \<Longrightarrow>
    at_next t' = at_next t \<Longrightarrow> at_delayed t' = at_delayed t \<Longrightarrow> sound_step cfg t t'"
  by (simp add: sound_step_def)

lemma sound_step_refl: "table_ok cfg t \<Longrightarrow> sound_step cfg t t"
  by (simp add: sound_step_def)

lemma sound_step_core: "core t' = core t \<Longrightarrow> table_ok cfg t' \<Longrightarrow> sound_step cfg t t'"
  by (rule sound_stepI) (simp_all only: keeps_links_core core_eqD(1) [of t' t] core_eqD(2) [of t' t]
      core_eqD(3) [of t' t])

lemma sound_step_trans:
  assumes "sound_step cfg t t'" "sound_step cfg t' t''"
  shows "sound_step cfg t t''"
proof -
  have "dom (at_store t') \<subseteq> dom (at_store t'')"
    using assms(2) keeps_storeD [of t' t''] unfolding sound_step_def by (metis domIff not_Some_eq subsetI)
  then show ?thesis
    using assms keeps_links_trans [of t t' t''] unfolding sound_step_def by fastforce
qed

lemma sound_step_ok: "sound_step cfg t t' \<Longrightarrow> table_ok cfg t'"
  by (simp add: sound_step_def)

lemma sound_storeD:
  assumes "sound_step cfg t t'" "at_store t r = Some a"
  obtains a' where "at_store t' r = Some a'" "ar_node a' = ar_node a" "ar_peer a' = ar_peer a"
  using assms keeps_storeD [of t t' r a] by (auto simp: sound_step_def)

lemma sound_nodeD:
  assumes "sound_step cfg t t'" "at_nodes t i = Some n"
  obtains n' where "at_nodes t' i = Some n'" "set (nh_records n) \<subseteq> set (nh_records n')"
  using assms keeps_nodeD [of t t' i n] by (auto simp: sound_step_def)

lemma set_decision_sound:
  assumes "table_ok cfg t" "at_store t r = Some a"
    "ar_state a \<noteq> RImplicit \<longrightarrow> ar_peer a \<noteq> None \<or> v \<noteq> DReject"
    "\<And>p b. ar_peer a = Some p \<Longrightarrow> at_store t p = Some b \<Longrightarrow> compatible v (ar_decision b)"
  obtains t' where "set_decision cfg r v t = Some t'" "sound_step cfg t t'"
    "decision_of t' = (decision_of t)(r \<mapsto> v)"
  by (rule set_decision_ok [OF assms]) (use that in \<open>auto intro!: sound_stepI\<close>)

lemma update_state_sound:
  assumes "table_ok cfg t" "at_store t r = Some a" "s \<noteq> RImplicit" "ar_peer a = None \<longrightarrow> s = RExpired"
  obtains t' where "update_state cfg r s t = Some t'" "sound_step cfg t t'" "core t' = core t"
  by (rule update_state_ok [OF assms]) (use that in \<open>auto intro!: sound_step_core\<close>)

text \<open>Fields that no invariant mentions: times and flags.\<close>

lemma upd_rec_sound:
  assumes ok: "table_ok cfg t" and a: "at_store t r = Some a"
    and same: "ar_node (f a) = ar_node a" "ar_peer (f a) = ar_peer a" "ar_state (f a) = ar_state a"
      "ar_decision (f a) = ar_decision a"
  obtains t' where "upd_rec r f t = Some t'" "sound_step cfg t t'" "decision_of t' = decision_of t"
    "at_store t' r = Some (f a)"
proof -
  have "table_ok cfg (set_rec r (f a) t)"
    using table_ok_set_rec [OF ok a same(1-3)] pair_exclusiveD [OF ok a] same(4) by simp
  moreover have "decision_of (set_rec r (f a) t) = decision_of t"
    using a same(4) by (auto simp: decision_of_def fun_eq_iff)
  moreover have "keeps_links t (set_rec r (f a) t)" by (rule keeps_links_set_rec [OF a same(1,2)])
  ultimately show ?thesis
    by (intro that [of "set_rec r (f a) t"] sound_stepI) (simp_all add: a)
qed

lemma linked_set_node:
  assumes linked: "linked t" and recs: "\<And>m. at_nodes t i = Some m \<Longrightarrow> nh_records n = nh_records m"
    and new: "at_nodes t i = None \<Longrightarrow> nh_records n = []"
  shows "linked (set_node i n t)" (is "linked ?t")
  unfolding linked_def
proof (intro conjI allI impI ballI)
  fix q b assume b: "at_store ?t q = Some b"
  then have b': "at_store t q = Some b" by simp
  obtain m where m: "at_nodes t (ar_node b) = Some m" "q \<in> set (nh_records m)" "q < at_next t"
    by (rule linked_recordD [OF linked b'])
  then show "q < at_next ?t" "\<exists>m. at_nodes ?t (ar_node b) = Some m \<and> q \<in> set (nh_records m)"
    using recs [of m] by auto
  fix p assume p: "ar_peer b = Some p"
  obtain c where "at_store t p = Some c" "ar_peer c = Some q" "p \<noteq> q"
    by (rule linked_peerD [OF linked b' p])
  then show "p \<noteq> q" "\<exists>c. at_store ?t p = Some c \<and> ar_peer c = Some q" by auto
next
  fix j m assume m: "at_nodes ?t j = Some m"
  have d: "distinct (nh_records m) \<and> (\<forall>q \<in> set (nh_records m). \<exists>a. at_store t q = Some a \<and> ar_node a = j)"
  proof (cases "j = i \<and> at_nodes t i = None")
    case True
    with m new show ?thesis by simp
  next
    case False
    then obtain m' where m': "at_nodes t j = Some m'" "nh_records m' = nh_records m"
      using m recs by (cases "j = i") auto
    show ?thesis using linked_nodeD [OF linked m'(1)] m'(2) by simp
  qed
  then show "distinct (nh_records m)" by simp
  fix q assume "q \<in> set (nh_records m)"
  with d show "\<exists>a. at_store ?t q = Some a \<and> ar_node a = j" by simp
qed

lemma upd_node_sound:
  assumes ok: "table_ok cfg t" and n: "at_nodes t i = Some n"
    and same: "nh_records (f n) = nh_records n" "\<And>k. counter k (f n) = counter k n" "nh_level (f n) = nh_level n"
  obtains t' where "upd_node i f t = Some t'" "sound_step cfg t t'" "at_store t' = at_store t"
    "at_nodes t' i = Some (f n)"
proof -
  let ?t = "set_node i (f n) t"
  have "linked ?t" by (rule linked_set_node [OF table_okD(1) [OF ok]]) (simp_all add: n same(1))
  moreover have "drift k j ?t = drift k j t" for k j
    using n same by (simp add: drift_set_node) (simp add: drift_def)
  moreover have "levels_cached cfg ?t"
    using table_okD(3) [OF ok] n same(2) [of KWeak] same(2) [of KStrong] same(2) [of KReject] same(3)
    by (intro levels_set_node) (simp_all add: levels_cached_def)
  ultimately have "table_ok cfg ?t"
    using table_okD [OF ok] by (simp add: table_ok_def tallied_def peers_present_def pair_exclusive_def)
  moreover have "keeps_links t ?t" using n same(1) by (auto simp: keeps_links_def)
  ultimately show ?thesis
    by (intro that [of ?t] sound_stepI) (simp_all add: n)
qed

section \<open>Suspicion and restarts\<close>

lemma suspicion_loop_sound:
  assumes "table_ok cfg t" "\<forall>r \<in> set rs. at_store t r \<noteq> None"
  shows "\<exists>t'. suspicion_loop cfg now rs t = Some t' \<and> sound_step cfg t t' \<and> core t' = core t"
  using assms
proof (induction rs arbitrary: t)
  case Nil
  then show ?case using sound_step_refl by simp
next
  case (Cons r rs)
  obtain a where a: "at_store t r = Some a" using Cons.prems(2) by auto
  have peer: "ar_peer a \<noteq> None" if "ar_state a = RPending \<or> ar_state a = RRejected"
    using table_okD(4) [OF Cons.prems(1)] a that unfolding peers_present_def by fastforce
  obtain t1 where t1: "(if ar_state a \<noteq> RExpired \<and> ar_process_time a < time_sub now (ac_suspicion_expire cfg)
          then update_state cfg r RExpired t
          else if ar_state a = RPending then
            if ar_subject_expire a < now then update_state cfg r RConfirmed t else Some t
          else if ar_state a = RRejected
                  \<and> ar_process_time a < time_sub now (ac_max_arbitration_timeout cfg)
          then update_state cfg r RReported t
          else Some t) = Some t1" "sound_step cfg t t1" "core t1 = core t"
  proof -
    have upd: "\<exists>t'. update_state cfg r s t = Some t' \<and> sound_step cfg t t' \<and> core t' = core t"
      if "s \<noteq> RImplicit" "ar_peer a = None \<longrightarrow> s = RExpired" for s
      using update_state_sound [OF Cons.prems(1) a that] by metis
    have "\<exists>t1. (if ar_state a \<noteq> RExpired \<and> ar_process_time a < time_sub now (ac_suspicion_expire cfg)
          then update_state cfg r RExpired t
          else if ar_state a = RPending then
            if ar_subject_expire a < now then update_state cfg r RConfirmed t else Some t
          else if ar_state a = RRejected
                  \<and> ar_process_time a < time_sub now (ac_max_arbitration_timeout cfg)
          then update_state cfg r RReported t
          else Some t) = Some t1 \<and> sound_step cfg t t1 \<and> core t1 = core t"
      using upd [of RExpired] upd [of RConfirmed] upd [of RReported] peer sound_step_refl [OF Cons.prems(1)]
      by simp
    with that show thesis by blast
  qed
  have "\<forall>q \<in> set rs. at_store t1 q \<noteq> None"
    using Cons.prems(2) core_store_None [OF t1(3)] by auto
  then obtain t' where t': "suspicion_loop cfg now rs t1 = Some t'" "sound_step cfg t1 t'" "core t' = core t1"
    using Cons.IH [OF sound_step_ok [OF t1(2)]] by blast
  have "suspicion_loop cfg now (r # rs) t = Some t'"
    unfolding suspicion_loop.simps a Option.bind.simps t1(1) by (rule t'(1))
  with sound_step_trans [OF t1(2) t'(2)] t'(3) t1(3) show ?case by metis
qed

lemma suspicion_level_sound:
  assumes ok: "table_ok cfg t" and n: "at_nodes t i = Some n"
  obtains l t' where "get_suspicion_level cfg now i t = Some (l, t')" "sound_step cfg t t'" "core t' = core t"
proof -
  have "\<forall>r \<in> set (nh_records n). at_store t r \<noteq> None"
    using linked_nodeD(2) [OF table_okD(1) [OF ok] n] by auto
  then obtain t' where t': "suspicion_loop cfg now (nh_records n) t = Some t'" "sound_step cfg t t'" "core t' = core t"
    using suspicion_loop_sound [OF ok] by blast
  obtain n' where "at_nodes t' i = Some n'" by (rule core_nodeD [OF t'(3) n])
  with t' n that show ?thesis by (simp add: get_suspicion_level_def)
qed

lemma is_suspicious_sound:
  assumes ok: "table_ok cfg t" and n: "at_nodes t i = Some n"
  obtains b t' where "is_suspicious cfg now i k t = Some (b, t')" "sound_step cfg t t'" "core t' = core t"
proof -
  obtain l t' where t': "get_suspicion_level cfg now i t = Some (l, t')" "sound_step cfg t t'" "core t' = core t"
    by (rule suspicion_level_sound [OF ok n])
  show ?thesis
  proof (cases "nh_level n < (if k then ac_keep_alive_threshold cfg else ac_level_threshold cfg)")
    case True
    then show ?thesis using that [of False t] n sound_step_refl [OF ok] by (simp add: is_suspicious_def Let_def)
  next
    case False
    then show ?thesis using that t' n by (simp add: is_suspicious_def Let_def)
  qed
qed

text \<open>Records without a peer are not touched, of the others only the state is.\<close>

definition same_records :: "arb_table \<Rightarrow> arb_table \<Rightarrow> bool" where
  "same_records t t' \<longleftrightarrow> (\<forall>r. map_option core_record (at_store t' r) = map_option core_record (at_store t r)) \<and>
     (\<forall>r a. at_store t r = Some a \<longrightarrow> ar_peer a = None \<longrightarrow> at_store t' r = Some a)"

lemma same_records_refl [simp]: "same_records t t"
  by (simp add: same_records_def)

lemma same_records_trans:
  "same_records t t' \<Longrightarrow> same_records t' t'' \<Longrightarrow> same_records t t''"
  unfolding same_records_def by auto

lemma same_records_store: "at_store t' = at_store t \<Longrightarrow> same_records t t'"
  by (simp add: same_records_def)

lemma same_recordsD:
  assumes "same_records t t'" "at_store t' r = Some a"
  obtains s where "at_store t r = Some (a\<lparr>ar_state := s\<rparr>)" "ar_peer a = None \<longrightarrow> s = ar_state a"
proof -
  obtain b where b: "at_store t r = Some b" "core_record b = core_record a"
    using assms unfolding same_records_def by (metis (no_types) map_option_eq_Some)
  then have eq: "b = a\<lparr>ar_state := ar_state b\<rparr>" by (intro core_record_eqD)
  show ?thesis
  proof (cases "ar_peer a")
    case None
    then have "ar_peer b = None" using arg_cong [OF eq, of ar_peer] by simp
    with b(1) assms have "a = b" by (auto simp: same_records_def)
    with b(1) show ?thesis by (intro that [of "ar_state a"]) simp_all
  next
    case (Some p)
    with b(1) eq show ?thesis by (intro that [of "ar_state b"]) simp_all
  qed
qed

lemma settles_same_records:
  assumes ok: "table_ok cfg t" and set: "settles cfg {r} t t'" and a: "at_store t r = Some a" "ar_peer a \<noteq> None"
  shows "same_records t t'"
proof -
  have core: "core t' = core t" using set by (simp add: settles_def)
  have "at_store t' q = Some b" if b: "at_store t q = Some b" "ar_peer b = None" for q b
  proof -
    obtain s where s: "at_store t' q = Some (b\<lparr>ar_state := s\<rparr>)" using core_storeD [OF core b(1)] by blast
    have "q \<noteq> r" using a b by auto
    then have "promoted b (b\<lparr>ar_state := s\<rparr>)" using set b(1) s by (simp add: settles_def)
    moreover have "ar_state b \<noteq> RReported"
      using table_okD(4) [OF ok] b by (fastforce simp: peers_present_def)
    ultimately show ?thesis using s by (cases b) (auto simp: promoted_def)
  qed
  then show ?thesis using core_eqD(5) [OF core] by (simp add: same_records_def)
qed

text \<open>A node that restarts loses its rejections: the assertion on \<open>rejectCount_\<close> holds.\<close>

lemma demote_rejected_sound:
  assumes "table_ok cfg t" "\<forall>r \<in> set rs. at_store t r \<noteq> None"
  shows "\<exists>t'. demote_rejected cfg rs t = Some t' \<and> sound_step cfg t t' \<and> core t' = core t \<and>
    same_records t t' \<and> (\<forall>q a. (q \<in> set rs \<or> (\<exists>b. at_store t q = Some b \<and> ar_state b \<noteq> RRejected)) \<longrightarrow>
      at_store t' q = Some a \<longrightarrow> ar_state a \<noteq> RRejected)"
  using assms
proof (induction rs arbitrary: t)
  case Nil
  then show ?case using sound_step_refl by auto
next
  case (Cons r rs)
  obtain a where a: "at_store t r = Some a" using Cons.prems(2) by auto
  obtain t1 where t1: "(if ar_state a = RRejected then update_state cfg r RReported t else Some t) = Some t1"
    "table_ok cfg t1" "core t1 = core t" "same_records t t1"
    and q1: "\<And>q b c. at_store t q = Some b \<Longrightarrow> at_store t1 q = Some c \<Longrightarrow>
      ar_state b \<noteq> RRejected \<or> q = r \<Longrightarrow> ar_state c \<noteq> RRejected"
  proof (cases "ar_state a = RRejected")
    case True
    then have peer: "ar_peer a \<noteq> None"
      using table_okD(4) [OF Cons.prems(1)] a by (fastforce simp: peers_present_def)
    then obtain t1 s' where t1: "update_state cfg r RReported t = Some t1" "table_ok cfg t1"
      "settles cfg {r} t t1" "core t1 = core t" "at_store t1 r = Some (a\<lparr>ar_state := s'\<rparr>)" "reaches RReported s'"
      by (rule_tac update_state_ok [OF Cons.prems(1) a, of RReported]) auto
    have "ar_state c \<noteq> RRejected"
      if "at_store t q = Some b" "at_store t1 q = Some c" "ar_state b \<noteq> RRejected \<or> q = r" for q b c
    proof (cases "q = r")
      case True
      then show ?thesis using that t1(5,6) by (auto simp: reaches_def)
    next
      case False
      then have "promoted b c" using t1(3) that(1,2) by (simp add: settles_def)
      then show ?thesis using that(3) False by (auto simp: promoted_def)
    qed
    with t1 True that settles_same_records [OF Cons.prems(1) t1(3) a peer] show thesis by simp
  next
    case False
    with Cons.prems(1) a show thesis by (intro that [of t]) auto
  qed
  have "\<forall>q \<in> set rs. at_store t1 q \<noteq> None"
    using Cons.prems(2) core_store_None [OF t1(3)] by auto
  then obtain t' where t': "demote_rejected cfg rs t1 = Some t'" "sound_step cfg t1 t'" "core t' = core t1" "same_records t1 t'"
    and q': "\<And>q a. (q \<in> set rs \<or> (\<exists>b. at_store t1 q = Some b \<and> ar_state b \<noteq> RRejected)) \<Longrightarrow>
      at_store t' q = Some a \<Longrightarrow> ar_state a \<noteq> RRejected"
    using Cons.IH [OF t1(2)] by blast
  have "demote_rejected cfg (r # rs) t = Some t'"
    unfolding demote_rejected.simps a Option.bind.simps t1(1) by (rule t'(1))
  moreover have "sound_step cfg t t'"
    using sound_step_trans [OF sound_step_core [OF t1(3,2)] t'(2)] .
  moreover have "core t' = core t" using t'(3) t1(3) by simp
  moreover have "same_records t t'" using same_records_trans [OF t1(4) t'(4)] .
  moreover have "ar_state c \<noteq> RRejected"
    if prem: "q \<in> set (r # rs) \<or> (\<exists>b. at_store t q = Some b \<and> ar_state b \<noteq> RRejected)"
      "at_store t' q = Some c" for q c
  proof -
    obtain d where d: "at_store t1 q = Some d"
      using core_store_None [OF t'(3), of q] prem(2) by auto
    obtain e where e: "at_store t q = Some e"
      using core_store_None [OF t1(3), of q] d by auto
    show ?thesis using q' [OF _ prem(2)] q1 [OF e d] prem(1) d e by auto
  qed
  ultimately show ?case by blast
qed

lemma update_instance_sound:
  assumes ok: "table_ok cfg t" and n: "at_nodes t i = Some n"
  obtains t' where "update_instance cfg i inst t = Some t'" "sound_step cfg t t'" "same_records t t'"
proof (cases "inst > nh_instance n")
  case False
  then show ?thesis using that [of t] n sound_step_refl [OF ok] by (simp add: update_instance_def)
next
  case True
  have mem: "\<forall>r \<in> set (nh_records n). at_store t r \<noteq> None"
    using linked_nodeD(2) [OF table_okD(1) [OF ok] n] by auto
  obtain t1 where t1: "demote_rejected cfg (nh_records n) t = Some t1" "sound_step cfg t t1" "core t1 = core t" "same_records t t1"
    and none: "\<And>q a. q \<in> set (nh_records n) \<Longrightarrow> at_store t1 q = Some a \<Longrightarrow> ar_state a \<noteq> RRejected"
    using demote_rejected_sound [OF ok mem] by blast
  obtain n1 where n1: "at_nodes t1 i = Some n1" "nh_records n1 = nh_records n" by (rule core_nodeD [OF t1(3) n])
  have "\<not> state_counted KReject t1 q" if "q \<in> set (nh_records n1)" for q
    using none [of q] that n1(2) by (auto simp: state_counted_def split: option.split)
  then have "tally KReject t1 (nh_records n1) = 0" by (simp add: tally_def filter_empty_conv)
  moreover have "drift KReject i t1 = 0" using sound_step_ok [OF t1(2)] by (simp add: table_ok_def tallied_def)
  ultimately have zero: "nh_reject n1 = 0" using n1 by (simp add: drift_def)
  have "nh_records (n1\<lparr>nh_instance := inst\<rparr>) = nh_records n1"
    "\<And>k. counter k (n1\<lparr>nh_instance := inst\<rparr>) = counter k n1" "nh_level (n1\<lparr>nh_instance := inst\<rparr>) = nh_level n1"
    by (simp, case_tac k, simp_all)
  then obtain t' where t': "upd_node i (\<lambda>n. n\<lparr>nh_instance := inst\<rparr>) t1 = Some t'" "sound_step cfg t1 t'"
      "at_store t' = at_store t1"
    by (rule upd_node_sound [OF sound_step_ok [OF t1(2)] n1(1)])
  have "update_instance cfg i inst t = Some t'"
    using n True t1(1) n1(1) zero t'(1) by (simp add: update_instance_def)
  moreover have "same_records t t'"
    using same_records_trans [OF t1(4) same_records_store [OF t'(3)]] .
  ultimately show ?thesis using that sound_step_trans [OF t1(2) t'(2)] by blast
qed

lemma new_node_sound:
  assumes ok: "table_ok cfg t" and none: "at_nodes t (la_id inst) = None"
  shows "sound_step cfg t (set_node (la_id inst) (new_node inst) t)" (is "sound_step cfg t ?t")
proof -
  have "linked ?t"
    by (rule linked_set_node [OF table_okD(1) [OF ok]]) (simp_all add: none new_node_def)
  moreover have "drift k j ?t = 0" for k j
    using table_okD(2) [OF ok] by (cases k) (simp_all add: drift_set_node tallied_def new_node_def tally_def)
  moreover have "levels_cached cfg ?t"
    using table_okD(3) [OF ok] by (intro levels_set_node) (simp_all add: new_node_def)
  ultimately have "table_ok cfg ?t"
    using table_okD [OF ok] by (simp add: table_ok_def tallied_def peers_present_def pair_exclusive_def)
  moreover have "keeps_links t ?t" using none by (auto simp: keeps_links_def)
  ultimately show ?thesis by (intro sound_stepI) simp_all
qed

lemma get_node_history_sound:
  assumes ok: "table_ok cfg t"
  obtains t' where "get_node_history cfg inst create t =
      Some (if create \<or> at_nodes t (la_id inst) \<noteq> None then Some (la_id inst) else None, t')"
    "sound_step cfg t t'" "same_records t t'"
    "create \<or> at_nodes t (la_id inst) \<noteq> None \<Longrightarrow> at_nodes t' (la_id inst) \<noteq> None"
proof (cases "at_nodes t (la_id inst)")
  case (Some n)
  obtain t' where t': "update_instance cfg (la_id inst) (la_instance inst) t = Some t'" "sound_step cfg t t'"
    "same_records t t'"
    by (rule update_instance_sound [OF ok Some])
  obtain n' where "at_nodes t' (la_id inst) = Some n'" by (rule sound_nodeD [OF t'(2) Some])
  with t' Some that show ?thesis by (simp add: get_node_history_def)
next
  case None
  show ?thesis
  proof (cases create)
    case True
    with None new_node_sound [OF ok None] show ?thesis
      by (intro that [of "set_node (la_id inst) (new_node inst) t"])
        (simp_all add: get_node_history_def same_records_store)
  next
    case False
    with None sound_step_refl [OF ok] show ?thesis
      by (intro that [of t]) (simp_all add: get_node_history_def)
  qed
qed

section \<open>Finding and creating records\<close>

lemma get_record_loop_total:
  assumes "\<forall>r \<in> set rs. st r \<noteq> None"
  shows "\<exists>found h. get_record_loop st monitor subject ml sl bound h0 rs = Some (found, h) \<and>
    (\<forall>r. found = Some r \<longrightarrow> r \<in> set rs \<and> (\<exists>a. st r = Some a \<and> ar_monitor_instance a = la_instance monitor
      \<and> ar_subject a = subject \<and> ar_state a \<noteq> RImplicit \<and> ar_process_time a \<ge> bound
      \<and> lease_instance_matched (ar_monitor_lease a) ml \<and> lease_instance_matched (ar_subject_lease a) sl))"
  using assms
proof (induction rs arbitrary: h0)
  case (Cons r rs)
  obtain a where a: "st r = Some a" using Cons.prems by auto
  have rs: "\<forall>r \<in> set rs. st r \<noteq> None" using Cons.prems by simp
  consider (old) "ar_process_time a < bound"
    | (hit) "\<not> ar_process_time a < bound" "ar_monitor_instance a = la_instance monitor \<and> ar_subject a = subject
        \<and> ar_state a \<noteq> RImplicit" "lease_instance_matched (ar_monitor_lease a) ml
          \<and> lease_instance_matched (ar_subject_lease a) sl"
    | (miss) "\<not> ar_process_time a < bound" "\<not> (ar_monitor_instance a = la_instance monitor \<and> ar_subject a = subject
        \<and> ar_state a \<noteq> RImplicit \<and> lease_instance_matched (ar_monitor_lease a) ml
          \<and> lease_instance_matched (ar_subject_lease a) sl)" by blast
  then show ?case
  proof cases
    case miss
    then obtain h1 where "get_record_loop st monitor subject ml sl bound h0 (r # rs) =
        get_record_loop st monitor subject ml sl bound h1 rs"
      using a by (cases "ar_monitor_instance a = la_instance monitor \<and> ar_subject a = subject
        \<and> ar_state a \<noteq> RImplicit") auto
    with Cons.IH [OF rs, of h1] show ?thesis by fastforce
  qed (use a in auto)
qed simp

lemma get_record_total:
  assumes ok: "table_ok cfg t" and n: "at_nodes t i = Some n"
  obtains found h where "get_record cfg i monitor subject ml sl b t = Some (found, h)"
    "\<forall>r. found = Some r \<longrightarrow> (\<exists>a. at_store t r = Some a \<and> ar_node a = i \<and>
      ar_monitor_instance a = la_instance monitor \<and> ar_subject a = subject \<and> ar_state a \<noteq> RImplicit)"
proof -
  have mem: "\<forall>r \<in> set (nh_records n). at_store t r \<noteq> None"
    using linked_nodeD(2) [OF table_okD(1) [OF ok] n] by auto
  obtain found h where f: "get_record_loop (at_store t) monitor subject ml sl
       (time_sub b (ac_suspicion_expire cfg)) False (nh_records n) = Some (found, h)"
    "\<And>r. found = Some r \<Longrightarrow> r \<in> set (nh_records n) \<and> (\<exists>a. at_store t r = Some a
      \<and> ar_monitor_instance a = la_instance monitor \<and> ar_subject a = subject \<and> ar_state a \<noteq> RImplicit)"
    using get_record_loop_total [OF mem, of monitor subject ml sl _ False] by blast
  have "\<exists>a. at_store t r = Some a \<and> ar_node a = i \<and>
      ar_monitor_instance a = la_instance monitor \<and> ar_subject a = subject \<and> ar_state a \<noteq> RImplicit"
    if "found = Some r" for r
    using f(2) [OF that] linked_nodeD(2) [OF table_okD(1) [OF ok] n, of r] by auto
  with f(1) n that show ?thesis by (simp add: get_record_def)
qed

lemma first_record_total:
  assumes "\<forall>r \<in> set rs. st r \<noteq> None"
  shows "\<exists>found. first_record st P rs = Some found \<and>
    (\<forall>r. found = Some r \<longrightarrow> r \<in> set rs \<and> (\<exists>a. st r = Some a \<and> P a))"
  using assms
proof (induction rs)
  case (Cons r rs)
  then show ?case by (cases "st r") auto
qed simp

end
