(* ===== verification/Arbitration_Decisions.thy ===== *)
theory Arbitration_Decisions
  imports Arbitration_Requests
begin

text \<open>
  The decision rule of the arbitration table, the requests that apply it, and the properties of the
  table over any sequence of requests and timer runs.
\<close>

section \<open>A new pair of records\<close>

lemma add_pair_sound:
  assumes ok: "table_ok cfg t" and i: "at_nodes t i \<noteq> None" and k: "at_nodes t k \<noteq> None"
    and a: "ar_node a = i" "ar_peer a = Some s" "ar_state a = RNone" "ar_decision a = DNone"
    and b: "ar_node b = k" "ar_peer b = Some m" "ar_state b = RNone" "ar_decision b = DNone"
    and ids: "m = at_next t" "s = at_next t + 1"
  obtains t' where
    "do { t \<leftarrow> add_record i m (set_rec s b (set_rec m a (t\<lparr>at_next := s + 1\<rparr>))); add_record k s t } = Some t'"
    "sound_step cfg t t'" "at_store t' = (at_store t)(m \<mapsto> a, s \<mapsto> b)"
proof -
  have linked: "linked t" using table_okD [OF ok] by simp
  have fresh: "at_store t q = None" if "q \<ge> at_next t" for q
  proof (rule ccontr)
    assume "at_store t q \<noteq> None"
    then obtain c where "at_store t q = Some c" by auto
    then have "q < at_next t" by (rule linked_recordD [OF linked])
    with that show False by simp
  qed
  have new: "m \<notin> set (nh_records n)" "s \<notin> set (nh_records n)" if "at_nodes t j = Some n" for j n
    using linked_nodeD(2) [OF linked that, of m] linked_nodeD(2) [OF linked that, of s] fresh ids by auto
  let ?t0 = "set_rec s b (set_rec m a (t\<lparr>at_next := s + 1\<rparr>))"
  obtain n where n: "at_nodes t i = Some n" using i by auto
  let ?t1 = "set_node i (n\<lparr>nh_records := m # nh_records n\<rparr>) ?t0"
  obtain l where l: "at_nodes ?t1 k = Some l" using k by (cases "k = i") auto
  define t2 where "t2 = set_node k (l\<lparr>nh_records := s # nh_records l\<rparr>) ?t1"
  have ret: "do { t \<leftarrow> add_record i m ?t0; add_record k s t } = Some t2"
    using n l by (simp add: add_record_def t2_def)
  have store: "at_store t2 = (at_store t)(m \<mapsto> a, s \<mapsto> b)" by (simp add: t2_def)
  have nodes: "at_nodes t2 j = map_option (\<lambda>n. n\<lparr>nh_records := (if j = k then [s] else []) @
      (if j = i then [m] else []) @ nh_records n\<rparr>) (at_nodes t j)" for j
    using n l by (cases "j = k"; cases "j = i") (auto simp: option.map_ident t2_def)
  have next2: "at_next t2 = s + 1" "at_history_start t2 = at_history_start t" "at_delayed t2 = at_delayed t"
    by (simp_all add: t2_def)
  have neq: "m \<noteq> s" using ids by simp
  have linked2: "linked t2"
    unfolding linked_def
  proof (intro conjI allI impI ballI)
    fix r c assume c: "at_store t2 r = Some c"
    have "r = m \<and> c = a \<or> r = s \<and> c = b \<or> r \<noteq> m \<and> r \<noteq> s \<and> at_store t r = Some c"
      using c unfolding store by (simp add: fun_upd_def split: if_splits)
    then consider "r = m" "c = a" | "r = s" "c = b" | "at_store t r = Some c" "r \<noteq> m" "r \<noteq> s"
      by blast
    then have "r < at_next t2 \<and> (\<exists>n. at_nodes t2 (ar_node c) = Some n \<and> r \<in> set (nh_records n)) \<and>
      (\<forall>p. ar_peer c = Some p \<longrightarrow> p \<noteq> r \<and> (\<exists>d. at_store t2 p = Some d \<and> ar_peer d = Some r))"
    proof cases
      case 1
      then show ?thesis using nodes [of i] n a b neq ids store next2(1) by simp
    next
      case 2
      obtain n' where "at_nodes t k = Some n'" using k by auto
      with 2 show ?thesis using nodes [of k] a b neq ids store next2(1) by simp
    next
      case 3
      obtain n' where "at_nodes t (ar_node c) = Some n'" "r \<in> set (nh_records n')" "r < at_next t"
        by (rule linked_recordD [OF linked 3(1)])
      moreover have "p \<noteq> r \<and> (\<exists>d. at_store t2 p = Some d \<and> ar_peer d = Some r)" if p: "ar_peer c = Some p" for p
      proof -
        obtain d where d: "at_store t p = Some d" "ar_peer d = Some r" "p \<noteq> r"
          by (rule linked_peerD [OF linked 3(1) p])
        then have "p \<noteq> m" "p \<noteq> s" using fresh [of m] fresh [of s] ids by auto
        with d store show ?thesis by simp
      qed
      ultimately show ?thesis using nodes [of "ar_node c"] ids next2(1) by simp
    qed
    then show "r < at_next t2" "\<exists>n. at_nodes t2 (ar_node c) = Some n \<and> r \<in> set (nh_records n)"
      "\<And>p. ar_peer c = Some p \<Longrightarrow> p \<noteq> r"
      "\<And>p. ar_peer c = Some p \<Longrightarrow> \<exists>d. at_store t2 p = Some d \<and> ar_peer d = Some r" by blast+
  next
    fix j n2 assume n2: "at_nodes t2 j = Some n2"
    then obtain n' where n': "at_nodes t j = Some n'"
      and recs: "nh_records n2 = (if j = k then [s] else []) @ (if j = i then [m] else []) @ nh_records n'"
      unfolding nodes by auto
    show "distinct (nh_records n2)" using linked_nodeD(1) [OF linked n'] new [OF n'] neq recs by auto
    fix q assume q: "q \<in> set (nh_records n2)"
    then consider "q = s" "j = k" | "q = m" "j = i" | "q \<in> set (nh_records n')"
      using recs by (auto split: if_splits)
    then show "\<exists>c. at_store t2 q = Some c \<and> ar_node c = j"
    proof cases
      case 3
      then show ?thesis using linked_nodeD(2) [OF linked n', of q] new [OF n'] store by auto
    qed (use store a b neq in auto)
  qed
  have "drift kind j t2 = drift kind j t" for kind j
  proof (cases "at_nodes t j")
    case None
    then show ?thesis using nodes [of j] by (simp add: drift_def)
  next
    case (Some n')
    have "\<not> counted kind RNone" by (cases kind) (simp_all add: is_weakly_suspicious_def is_reported_def)
    then have sc: "state_counted kind t2 q = (q \<noteq> m \<and> q \<noteq> s \<and> state_counted kind t q)" for q
      using a b store by (simp add: state_counted_def)
    have "filter (state_counted kind t2) (nh_records n') = filter (state_counted kind t) (nh_records n')"
      using new [OF Some] sc by (intro filter_cong) auto
    then have "tally kind t2 ((if j = k then [s] else []) @ (if j = i then [m] else []) @ nh_records n')
        = tally kind t (nh_records n')"
      by (simp add: tally_def sc)
    moreover have "counter kind (n'\<lparr>nh_records := rs\<rparr>) = counter kind n'" for rs by (cases kind) simp_all
    ultimately show ?thesis using nodes [of j] Some by (simp add: drift_def)
  qed
  moreover have "levels_cached cfg t2"
    unfolding levels_cached_def nodes using table_okD(3) [OF ok] by (auto simp: levels_cached_def)
  moreover have "peers_present t2"
    using table_okD(4) [OF ok] a b unfolding peers_present_def store by auto
  moreover have "pair_exclusive t2"
    unfolding pair_exclusive_def
  proof (intro allI impI)
    fix r c p d
    assume c: "at_store t2 r = Some c" and p: "ar_peer c = Some p" and d: "at_store t2 p = Some d"
    show "compatible (ar_decision c) (ar_decision d)"
    proof (cases "r = m \<or> r = s \<or> p = m \<or> p = s")
      case True
      then show ?thesis using c d a b store neq by (auto split: if_splits)
    next
      case False
      then show ?thesis using c p d store pair_exclusiveD [OF ok, of r c p d] by auto
    qed
  qed
  ultimately have "table_ok cfg t2"
    using linked2 table_okD(2) [OF ok] by (simp add: table_ok_def tallied_def)
  moreover have "keeps_links t t2"
    unfolding keeps_links_def
  proof (intro conjI allI impI)
    fix r c assume "at_store t r = Some c"
    then show "\<exists>c'. at_store t2 r = Some c' \<and> ar_node c' = ar_node c \<and> ar_peer c' = ar_peer c"
      using fresh [of m] fresh [of s] ids store by auto
  next
    fix j n' assume "at_nodes t j = Some n'"
    then show "\<exists>n''. at_nodes t2 j = Some n'' \<and> set (nh_records n') \<subseteq> set (nh_records n'')"
      unfolding nodes by auto
  qed
  moreover have "at_next t \<le> at_next t2" "at_history_start t2 = at_history_start t"
    "at_delayed t2 = at_delayed t" using ids next2 by simp_all
  ultimately have "sound_step cfg t t2" unfolding sound_step_def by simp
  with ret store that show ?thesis by blast
qed

lemma create_records_sound:
  assumes ok: "table_ok cfg t" and i: "i = la_id (rq_monitor q)" "at_nodes t i \<noteq> None"
  obtains m s t' a b where "create_records cfg now q i h t = Some (m, s, t')" "sound_step cfg t t'"
    "at_store t' m = Some a" "ar_peer a = Some s" "ar_decision a = DNone" "ar_state a = RNone"
    "at_store t' s = Some b" "ar_peer b = Some m" "ar_decision b = DNone"
    "decision_of t m = None" "decision_of t s = None" "ar_node a = i"
proof -
  have fresh: "decision_of t r = None" if "at_next t \<le> r" for r
  proof (rule ccontr)
    assume "decision_of t r \<noteq> None"
    then obtain c where "at_store t r = Some c" by (auto simp: decision_of_def)
    then have "r < at_next t" by (rule linked_recordD [OF table_okD(1) [OF ok]])
    with that show False by simp
  qed
  let ?k = "la_id (rq_subject q)"
  obtain t1 where t1: "get_node_history cfg (rq_subject q) True t = Some (Some ?k, t1)"
    "sound_step cfg t t1" "at_nodes t1 ?k \<noteq> None"
    by (rule get_node_history_sound [OF ok, of "rq_subject q" True]) auto
  obtain n where "at_nodes t i = Some n" using i by auto
  then have i1: "at_nodes t1 i \<noteq> None" using sound_nodeD [OF t1(2)] by (metis option.simps(3))
  let ?m = "at_next t1" and ?s = "at_next t1 + 1"
  let ?a = "(new_record now (rq_monitor q) (rq_subject q) (rq_monitor_lease q) (rq_subject_lease q))
    \<lparr>ar_peer := Some ?s\<rparr>"
  let ?b = "(new_record now (rq_subject q) (rq_monitor q) (rq_subject_lease q) (rq_monitor_lease q))
    \<lparr>ar_peer := Some ?m, ar_flags := (if h then flag_extended OR flag_continuous else flag_extended)\<rparr>"
  obtain t2 where t2: "do { t \<leftarrow> add_record i ?m (set_rec ?s ?b (set_rec ?m ?a (t1\<lparr>at_next := ?s + 1\<rparr>)));
      add_record ?k ?s t } = Some t2" "sound_step cfg t1 t2" "at_store t2 = (at_store t1)(?m \<mapsto> ?a, ?s \<mapsto> ?b)"
    by (rule add_pair_sound [OF sound_step_ok [OF t1(2)] i1 t1(3), of ?a ?s ?b ?m])
      (simp_all add: new_record_def i(1))
  have "create_records cfg now q i h t = Some (?m, ?s, t2)"
    using t2(1) unfolding create_records_def t1(1) by (auto simp: Let_def bind_Some_iff)
  moreover have "sound_step cfg t t2" using sound_step_trans [OF t1(2) t2(2)] .
  ultimately show ?thesis
    using that [of ?m ?s t2 ?a ?b] t2(3) fresh [of ?m] fresh [of ?s] t1(2)
    by (simp add: new_record_def sound_step_def i(1))
qed

section \<open>The decision rule\<close>

text \<open>
  What a decision may be, given the kind of request and what was decided for the two sides before:
  \<open>dm\<close> and \<open>ds\<close> are the decisions for the monitor and for the subject afterwards.
\<close>

definition decision_rule :: "arbitration_type \<Rightarrow> arbitration_decision \<Rightarrow> arbitration_decision
    \<Rightarrow> arbitration_decision \<Rightarrow> arbitration_decision \<Rightarrow> bool" where
  "decision_rule ty monitor subject dm ds =
     (case subject of
        DGrant \<Rightarrow> dm = DReject \<and> ds = DGrant
      | DReject \<Rightarrow> dm = (if ty = OneWay then DNeutral else DGrant) \<and> ds = DReject
      | DNeutral \<Rightarrow> dm = DNeutral \<and> ds = DNeutral
      | DDelay \<Rightarrow> dm = DNeutral \<and> ds = DNeutral
      | DNone \<Rightarrow> ds = DNone \<and>
          (if ty = OneWay then dm = DNeutral
           else if monitor \<noteq> DNone then dm = monitor
           else dm = DGrant \<or> dm = DReject \<or> ty \<noteq> TwoWaySimple \<and> dm = DDelay))"

lemma compatible_neutral [simp]: "compatible DNeutral v \<longleftrightarrow> \<not> wins v" "compatible v DNeutral \<longleftrightarrow> \<not> wins v"
  by (cases v; simp add: compatible_def wins_def)+

lemma compatible_reject [simp]: "compatible DReject v" "compatible v DReject"
  by (cases v; simp add: compatible_def wins_def)+

text \<open>The two records of a pair, in a table in order.\<close>

definition pair_of :: "arb_table \<Rightarrow> rec_id \<Rightarrow> rec_id \<Rightarrow> arb_record \<Rightarrow> arb_record \<Rightarrow> bool" where
  "pair_of t m s a b \<longleftrightarrow> at_store t m = Some a \<and> ar_peer a = Some s \<and> at_store t s = Some b \<and> ar_peer b = Some m"

lemma pair_step:
  assumes "pair_of t m s a b" "sound_step cfg t t'"
  obtains a' b' where "pair_of t' m s a' b'" "ar_node a' = ar_node a" "ar_node b' = ar_node b"
proof -
  obtain a' where "at_store t' m = Some a'" "ar_node a' = ar_node a" "ar_peer a' = ar_peer a"
    using assms(1) by (auto simp: pair_of_def elim: sound_storeD [OF assms(2)])
  moreover obtain b' where "at_store t' s = Some b'" "ar_node b' = ar_node b" "ar_peer b' = ar_peer b"
    using assms(1) by (auto simp: pair_of_def elim: sound_storeD [OF assms(2)])
  ultimately show ?thesis using assms(1) that by (simp add: pair_of_def)
qed

lemma pair_sym: "pair_of t m s a b \<Longrightarrow> pair_of t s m b a"
  by (simp add: pair_of_def)

lemma pair_decisions: "pair_of t m s a b \<Longrightarrow> decision_of t m = Some (ar_decision a) \<and> decision_of t s = Some (ar_decision b)"
  by (simp add: pair_of_def decision_of_def)

lemma pair_neq: "table_ok cfg t \<Longrightarrow> pair_of t m s a b \<Longrightarrow> m \<noteq> s"
  by (auto simp: pair_of_def dest: table_okD(1) elim: linked_peerD)

lemma decide_pair:
  assumes ok: "table_ok cfg t" and pair: "pair_of t m s a b" and compat: "compatible v (ar_decision b)"
  obtains t' where "set_decision cfg m v t = Some t'" "sound_step cfg t t'"
    "decision_of t' = (decision_of t)(m \<mapsto> v)"
proof (rule set_decision_sound [OF ok, of m a v])
  show "at_store t m = Some a" using pair by (simp add: pair_of_def)
qed (use pair compat that in \<open>auto simp: pair_of_def\<close>)

lemma flag_pair:
  assumes ok: "table_ok cfg t" and pair: "pair_of t m s a b"
  shows "\<exists>t'. add_flag cfg m f t = Some t' \<and> sound_step cfg t t' \<and> decision_of t' = decision_of t"
    and "\<exists>t'. clear_flag cfg m f t = Some t' \<and> sound_step cfg t t' \<and> decision_of t' = decision_of t"
proof -
  have a: "at_store t m = Some a" using pair by (simp add: pair_of_def)
  show "\<exists>t'. add_flag cfg m f t = Some t' \<and> sound_step cfg t t' \<and> decision_of t' = decision_of t"
    unfolding add_flag_def by (rule upd_rec_sound [OF ok a, of "\<lambda>a. a\<lparr>ar_flags := ar_flags a OR f\<rparr>"]) auto
  show "\<exists>t'. clear_flag cfg m f t = Some t' \<and> sound_step cfg t t' \<and> decision_of t' = decision_of t"
    unfolding clear_flag_def by (rule upd_rec_sound [OF ok a, of "\<lambda>a. a\<lparr>ar_flags := ar_flags a AND NOT f\<rparr>"]) auto
qed

lemma flag_if:
  assumes "table_ok cfg t" "pair_of t m s a b"
  shows "\<exists>t'. (if c then add_flag cfg m f t else Some t) = Some t' \<and> sound_step cfg t t' \<and> decision_of t' = decision_of t"
  using flag_pair(1) [OF assms, of f] sound_step_refl [OF assms(1)] by (cases c) auto

lemma decide_against_present_sound:
  assumes ok: "table_ok cfg t" and pair: "pair_of t m s a b" and present: "is_present b"
    and simple: "rq_type q = TwoWaySimple \<longrightarrow> ar_decision b = DGrant \<or> ar_decision b = DReject"
  obtains resp t' dm ds where "decide_against_present cfg q m s t = Some (resp, t')" "sound_step cfg t t'"
    "decision_of t' m = Some dm" "decision_of t' s = Some ds"
    "decision_rule (rq_type q) (ar_decision a) (ar_decision b) dm ds"
proof -
  note result = that
  have b: "at_store t s = Some b" using pair by (simp add: pair_of_def)
  have neq: "m \<noteq> s" using pair_neq [OF ok pair] .
  define t1 where "t1 = (if ar_flags b AND flag_strong \<noteq> 0 then add_flag cfg m flag_strong t else Some t)"
  obtain t2 where t2: "t1 = Some t2" "sound_step cfg t t2" "decision_of t2 = decision_of t"
    using flag_if [OF ok pair] unfolding t1_def by blast
  obtain a2 b2 where p2: "pair_of t2 m s a2 b2" by (rule pair_step [OF pair t2(2)])
  have d2: "ar_decision a2 = ar_decision a" "ar_decision b2 = ar_decision b"
    using pair_decisions [OF p2] pair_decisions [OF pair] t2(3) by simp_all
  note ok2 = sound_step_ok [OF t2(2)]
  have unfold: "decide_against_present cfg q m s t =
     (if ar_decision b = DGrant then do { t \<leftarrow> set_decision cfg m DReject t2; Some (None, t) }
      else if ar_decision b = DReject \<and> rq_type q \<noteq> OneWay then do { t \<leftarrow> set_decision cfg m DGrant t2; Some (None, t) }
      else do {
       assert_if (rq_type q = TwoWaySimple);
       (resp, t) \<leftarrow> (if ar_decision b = DDelay then do {
           t \<leftarrow> set_decision cfg s DNeutral t2;
           t \<leftarrow> clear_flag cfg s flag_delayed t;
           b \<leftarrow> at_store t s;
           n \<leftarrow> at_nodes t (ar_node b);
           Some (Some (delayed_reply_of q DNeutral span_max True (ar_flags b), nh_from n), t) }
         else Some (None, t2));
       t \<leftarrow> set_decision cfg m DNeutral t;
       Some (resp, t) })"
    unfolding decide_against_present_def b Option.bind.simps t1_def [symmetric] t2(1) ..
  have decide: thesis
    if ret: "\<And>t3. set_decision cfg m v t2 = Some t3 \<Longrightarrow> decide_against_present cfg q m s t = Some (None, t3)"
      and compat: "compatible v (ar_decision b)"
      and rule: "decision_rule (rq_type q) (ar_decision a) (ar_decision b) v (ar_decision b)" for v
  proof -
    obtain t3 where t3: "set_decision cfg m v t2 = Some t3" "sound_step cfg t2 t3"
      "decision_of t3 = (decision_of t2)(m \<mapsto> v)"
      by (rule decide_pair [OF ok2 p2, of v]) (use compat d2 in simp_all)
    show thesis
      by (rule result [of None t3 v "ar_decision b"])
        (use ret [OF t3(1)] sound_step_trans [OF t2(2) t3(2)] t3(3) neq pair_decisions [OF p2] d2 rule in auto)
  qed
  consider (grant) "ar_decision b = DGrant" | (reject) "ar_decision b = DReject" "rq_type q \<noteq> OneWay"
    | (oneway) "ar_decision b = DReject" "rq_type q = OneWay" | (neutral) "ar_decision b = DNeutral"
    | (delay) "ar_decision b = DDelay"
    using present by (cases "ar_decision b") (auto simp: is_present_def)
  then show ?thesis
  proof cases
    case grant
    show ?thesis by (rule decide [of DReject]) (use grant in \<open>simp_all add: unfold decision_rule_def\<close>)
  next
    case reject
    show ?thesis by (rule decide [of DGrant]) (use reject in \<open>simp_all add: unfold decision_rule_def\<close>)
  next
    case oneway
    show ?thesis by (rule decide [of DNeutral]) (use oneway in \<open>simp_all add: unfold decision_rule_def wins_def\<close>)
  next
    case neutral
    show ?thesis
      by (rule decide [of DNeutral]) (use neutral simple in \<open>auto simp: unfold decision_rule_def wins_def\<close>)
  next
    case delay
    have "compatible DNeutral (ar_decision a2)"
      using pair_exclusiveD [OF ok2, of s b2 m a2] p2 delay d2
      by (auto simp: pair_of_def compatible_def wins_def)
    then obtain t3 where t3: "set_decision cfg s DNeutral t2 = Some t3" "sound_step cfg t2 t3"
      "decision_of t3 = (decision_of t2)(s \<mapsto> DNeutral)"
      by (rule decide_pair [OF ok2 pair_sym [OF p2]])
    obtain a3 b3 where p3: "pair_of t3 m s a3 b3" by (rule pair_step [OF p2 t3(2)])
    obtain t4 where t4: "clear_flag cfg s flag_delayed t3 = Some t4" "sound_step cfg t3 t4" "decision_of t4 = decision_of t3"
      using flag_pair(2) [OF sound_step_ok [OF t3(2)] pair_sym [OF p3]] by blast
    obtain a4 b4 where p4: "pair_of t4 m s a4 b4" by (rule pair_step [OF p3 t4(2)])
    have b4: "at_store t4 s = Some b4" "ar_decision b4 = DNeutral"
      using p4 pair_decisions [OF p4] t4(3) t3(3) by (auto simp: pair_of_def)
    obtain n where n: "at_nodes t4 (ar_node b4) = Some n"
      by (rule linked_recordD [OF table_okD(1) [OF sound_step_ok [OF t4(2)]] b4(1)])
    obtain t5 where t5: "set_decision cfg m DNeutral t4 = Some t5" "sound_step cfg t4 t5"
      "decision_of t5 = (decision_of t4)(m \<mapsto> DNeutral)"
      by (rule decide_pair [OF sound_step_ok [OF t4(2)] p4, of DNeutral]) (simp_all add: b4 wins_def)
    have "decide_against_present cfg q m s t =
        Some (Some (delayed_reply_of q DNeutral span_max True (ar_flags b4), nh_from n), t5)"
      using delay simple t3(1) t4(1) b4(1) n t5(1) by (simp add: unfold)
    moreover have "sound_step cfg t t5"
      using t2(2) t3(2) t4(2) t5(2) sound_step_trans by blast
    moreover have "decision_of t5 m = Some DNeutral" "decision_of t5 s = Some DNeutral"
      using t5(3) t4(3) t3(3) neq by simp_all
    ultimately show ?thesis using that delay by (simp add: decision_rule_def)
  qed
qed

text \<open>The subject is not decided: only the monitor's record is.\<close>

lemma decide_alone:
  assumes ok: "table_ok cfg t" and pair: "pair_of t m s a b" and none: "ar_decision b = DNone"
  obtains t' where "set_decision cfg m v t = Some t'" "sound_step cfg t t'"
    "decision_of t' = (decision_of t)(m \<mapsto> v)"
  by (rule decide_pair [OF ok pair, of v]) (use none that in simp_all)

lemma flag_if_alone:
  assumes ok: "table_ok cfg t" and pair: "pair_of t m s a b" and none: "ar_decision b = DNone"
  shows "\<exists>t'. (do { t \<leftarrow> (if c then add_flag cfg m f t else Some t); set_decision cfg m v t }) = Some t' \<and>
    sound_step cfg t t' \<and> decision_of t' = (decision_of t)(m \<mapsto> v)"
proof -
  obtain t1 where t1: "(if c then add_flag cfg m f t else Some t) = Some t1" "sound_step cfg t t1"
    "decision_of t1 = decision_of t"
    using flag_if [OF ok pair] by blast
  obtain a1 b1 where p1: "pair_of t1 m s a1 b1" by (rule pair_step [OF pair t1(2)])
  have "ar_decision b1 = DNone" using pair_decisions [OF p1] pair_decisions [OF pair] t1(3) none by simp
  then obtain t2 where t2: "set_decision cfg m v t1 = Some t2" "sound_step cfg t1 t2"
    "decision_of t2 = (decision_of t1)(m \<mapsto> v)"
    by (rule decide_alone [OF sound_step_ok [OF t1(2)] p1])
  have "(do { t \<leftarrow> (if c then add_flag cfg m f t else Some t); set_decision cfg m v t }) = Some t2"
    using t1(1) t2(1) by simp
  with sound_step_trans [OF t1(2) t2(2)] t2(3) t1(3) show ?thesis by auto
qed

lemma pair_nodes:
  assumes ok: "table_ok cfg t" and pair: "pair_of t m s a b"
  obtains n k where "at_nodes t (ar_node a) = Some n" "at_nodes t (ar_node b) = Some k"
  using pair linked_recordD [OF table_okD(1) [OF ok], of m a] linked_recordD [OF table_okD(1) [OF ok], of s b]
  unfolding pair_of_def by metis

lemma pair_core:
  assumes "pair_of t m s a b" "core t' = core t"
  obtains a' b' where "pair_of t' m s a' b'" "ar_node a' = ar_node a" "ar_node b' = ar_node b"
    "ar_decision a' = ar_decision a" "ar_decision b' = ar_decision b"
proof -
  obtain x y where "at_store t' m = Some (a\<lparr>ar_state := x\<rparr>)" "at_store t' s = Some (b\<lparr>ar_state := y\<rparr>)"
    using assms core_storeD [OF assms(2)] unfolding pair_of_def by metis
  with assms(1) show ?thesis
    by (intro that [of "a\<lparr>ar_state := x\<rparr>" "b\<lparr>ar_state := y\<rparr>"]) (simp_all add: pair_of_def)
qed

lemma decide_by_level_sound:
  assumes ok: "table_ok cfg t" and pair: "pair_of t m s a b" and none: "ar_decision b = DNone"
  shows "\<exists>t' v. decide_by_level cfg now m s received t = Some t' \<and> sound_step cfg t t' \<and>
    decision_of t' = (decision_of t)(m \<mapsto> v) \<and> (v = DGrant \<or> v = DReject)"
proof -
  have ab: "at_store t m = Some a" "at_store t s = Some b" using pair by (simp_all add: pair_of_def)
  obtain n k where nk: "at_nodes t (ar_node a) = Some n" "at_nodes t (ar_node b) = Some k"
    by (rule pair_nodes [OF ok pair])
  obtain l1 t1 where t1: "get_suspicion_level cfg now (ar_node a) t = Some (l1, t1)" "sound_step cfg t t1" "core t1 = core t"
    by (rule suspicion_level_sound [OF ok nk(1)])
  obtain k1 where k1: "at_nodes t1 (ar_node b) = Some k1" by (rule core_nodeD [OF t1(3) nk(2)])
  obtain l2 t2 where t2: "get_suspicion_level cfg now (ar_node b) t1 = Some (l2, t2)" "sound_step cfg t1 t2" "core t2 = core t1"
    by (rule suspicion_level_sound [OF sound_step_ok [OF t1(2)] k1])
  have core: "core t2 = core t" using t1(3) t2(3) by simp
  have step: "sound_step cfg t t2" using sound_step_trans [OF t1(2) t2(2)] .
  obtain n2 where n2: "at_nodes t2 (ar_node a) = Some n2" by (rule core_nodeD [OF core nk(1)])
  obtain a2 b2 where p2: "pair_of t2 m s a2 b2" "ar_decision b2 = ar_decision b" by (rule pair_core [OF pair core])
  define good where "good e \<longleftrightarrow> (\<exists>t' v. e = Some t' \<and> sound_step cfg t t' \<and>
    decision_of t' = (decision_of t)(m \<mapsto> v) \<and> (v = DGrant \<or> v = DReject))" for e
  have flagged: "good (do { t \<leftarrow> (if c then add_flag cfg m flag_strong t2 else Some t2); set_decision cfg m v t })"
    if v: "v = DGrant \<or> v = DReject" for c v
  proof -
    have "ar_decision b2 = DNone" using p2(2) none by simp
    from flag_if_alone [OF sound_step_ok [OF step] p2(1) this, of c flag_strong v]
    obtain t' where t': "(do { t \<leftarrow> (if c then add_flag cfg m flag_strong t2 else Some t2); set_decision cfg m v t }) = Some t'"
      "sound_step cfg t2 t'" "decision_of t' = (decision_of t2)(m \<mapsto> v)" by blast
    show ?thesis
      unfolding good_def t'(1) using sound_step_trans [OF step t'(2)] t'(3) decision_core [OF core] v by auto
  qed
  then have plain: "good (set_decision cfg m v t2)" if "v = DGrant \<or> v = DReject" for v
    using that flagged [of v False] by simp
  have strong: "good (add_flag cfg m flag_strong t2 \<bind> set_decision cfg m v)" if "v = DGrant \<or> v = DReject" for v
    using that flagged [of v True] by simp
  have "good (decide_by_level cfg now m s received t)"
    unfolding decide_by_level_def ab t1(1) t2(1) n2 Option.bind.simps case_prod_conv Let_def
    by (simp add: plain strong)
  then show ?thesis unfolding good_def .
qed

lemma decide_or_delay_sound:
  assumes ok: "table_ok cfg t" and pair: "pair_of t m s a b" and none: "ar_decision b = DNone"
  shows "\<exists>t' v. decide_or_delay cfg now m s received t = Some t' \<and> sound_step cfg t t' \<and>
    decision_of t' = (decision_of t)(m \<mapsto> v) \<and> (v = DGrant \<or> v = DDelay)"
proof -
  have ab: "at_store t m = Some a" "at_store t s = Some b" using pair by (simp_all add: pair_of_def)
  obtain n k where nk: "at_nodes t (ar_node a) = Some n" "at_nodes t (ar_node b) = Some k"
    by (rule pair_nodes [OF ok pair])
  define fine where "fine = (if received then do {
         (suspicious, t) \<leftarrow> is_suspicious cfg now (ar_node b) True t; Some (\<not> suspicious, t) }
       else Some (False, t))"
  obtain f t1 where t1: "fine = Some (f, t1)" "sound_step cfg t t1" "core t1 = core t"
  proof (cases received)
    case True
    obtain x t1 where "is_suspicious cfg now (ar_node b) True t = Some (x, t1)" "sound_step cfg t t1" "core t1 = core t"
      by (rule is_suspicious_sound [OF ok nk(2)])
    with True that show thesis by (simp add: fine_def)
  qed (use that sound_step_refl [OF ok] in \<open>simp add: fine_def\<close>)
  obtain n1 where n1: "at_nodes t1 (ar_node a) = Some n1" by (rule core_nodeD [OF t1(3) nk(1)])
  obtain d t2 where t2: "(if f then Some (True, t1) else is_suspicious cfg now (ar_node a) False t1) = Some (d, t2)"
    "sound_step cfg t1 t2" "core t2 = core t1"
  proof (cases f)
    case False
    obtain x t2 where "is_suspicious cfg now (ar_node a) False t1 = Some (x, t2)" "sound_step cfg t1 t2" "core t2 = core t1"
      by (rule is_suspicious_sound [OF sound_step_ok [OF t1(2)] n1])
    with False that show thesis by simp
  qed (use that sound_step_refl [OF sound_step_ok [OF t1(2)]] in simp)
  have core: "core t2 = core t" using t1(3) t2(3) by simp
  have step: "sound_step cfg t t2" using sound_step_trans [OF t1(2) t2(2)] .
  obtain a2 b2 where p2: "pair_of t2 m s a2 b2" "ar_decision b2 = ar_decision b" by (rule pair_core [OF pair core])
  have unfold: "decide_or_delay cfg now m s received t =
      (if d then do { t \<leftarrow> add_flag cfg m flag_delayed (t2\<lparr>at_delayed := at_delayed t2 @ [m]\<rparr>); set_decision cfg m DDelay t }
       else set_decision cfg m DGrant t2)"
    unfolding decide_or_delay_def ab Option.bind.simps fine_def [symmetric] t1(1) case_prod_conv t2(1) by simp
  show ?thesis
  proof (cases d)
    case False
    obtain t' where "set_decision cfg m DGrant t2 = Some t'" "sound_step cfg t2 t'" "decision_of t' = (decision_of t2)(m \<mapsto> DGrant)"
      by (rule decide_alone [OF sound_step_ok [OF step] p2(1)]) (use p2(2) none in simp)
    with False sound_step_trans [OF step] decision_core [OF core] show ?thesis by (auto simp: unfold)
  next
    case True
    let ?t = "t2\<lparr>at_delayed := at_delayed t2 @ [m]\<rparr>"
    have "linked ?t" using table_okD(1) [OF sound_step_ok [OF step]] by (simp add: linked_def)
    moreover have "drift k i ?t = drift k i t2" for k i
    proof -
      have "state_counted k ?t = state_counted k t2" by (simp add: state_counted_def [abs_def])
      then show ?thesis by (simp add: drift_def tally_def split: option.split)
    qed
    ultimately have "table_ok cfg ?t"
      using table_okD [OF sound_step_ok [OF step]]
      by (simp add: table_ok_def tallied_def levels_cached_def peers_present_def pair_exclusive_def)
    moreover have "keeps_links t2 ?t" by (simp add: keeps_links_def)
    moreover have "m \<in> dom (at_store t2)" using p2(1) by (auto simp: pair_of_def)
    ultimately have stepd: "sound_step cfg t2 ?t" by (auto simp: sound_step_def)
    have pd: "pair_of ?t m s a2 b2" using p2(1) by (simp add: pair_of_def)
    have dd: "decision_of ?t = decision_of t2" by (simp add: decision_of_def [abs_def])
    obtain t' where t': "(do { t \<leftarrow> (if True then add_flag cfg m flag_delayed ?t else Some ?t); set_decision cfg m DDelay t }) = Some t'"
      "sound_step cfg ?t t'" "decision_of t' = (decision_of ?t)(m \<mapsto> DDelay)"
      using flag_if_alone [OF sound_step_ok [OF stepd] pd, of True flag_delayed DDelay] p2(2) none by auto
    have "sound_step cfg t t'" using step stepd t'(2) sound_step_trans by blast
    with True t' dd decision_core [OF core] show ?thesis by (auto simp: unfold)
  qed
qed

lemma make_decision_sound:
  assumes ok: "table_ok cfg t" and pair: "pair_of t m s a b"
    and simple: "rq_type q = TwoWaySimple \<longrightarrow> ar_decision b \<in> {DNone, DGrant, DReject}"
  obtains resp t' dm ds where "make_decision cfg now q m s continuous t = Some (resp, t')" "sound_step cfg t t'"
    "decision_of t' m = Some dm" "decision_of t' s = Some ds"
    "decision_rule (if continuous \<and> rq_type q = TwoWayExtended then TwoWaySimple else rq_type q)
       (ar_decision a) (ar_decision b) dm ds"
proof -
  have ab: "at_store t m = Some a" "at_store t s = Some b" using pair by (simp_all add: pair_of_def)
  have neq: "m \<noteq> s" using pair_neq [OF ok pair] .
  let ?ty = "if continuous \<and> rq_type q = TwoWayExtended then TwoWaySimple else rq_type q"
  show ?thesis
  proof (cases "is_present b")
    case True
    obtain resp t' dm ds where d: "decide_against_present cfg q m s t = Some (resp, t')" "sound_step cfg t t'"
      "decision_of t' m = Some dm" "decision_of t' s = Some ds"
      "decision_rule (rq_type q) (ar_decision a) (ar_decision b) dm ds"
      by (rule decide_against_present_sound [OF ok pair True]) (use simple True in \<open>auto simp: is_present_def\<close>)
    have "decision_rule ?ty (ar_decision a) (ar_decision b) dm ds"
      using d(5) True by (auto simp: decision_rule_def is_present_def split: arbitration_decision.splits)
    with True d ab that show ?thesis by (simp add: make_decision_def)
  next
    case False
    then have none: "ar_decision b = DNone" by (simp add: is_present_def)
    have keep: "decision_of t' s = Some DNone" if "decision_of t' = (decision_of t)(m \<mapsto> v)" for t' v
      using that neq pair_decisions [OF pair] none by simp
    show ?thesis
    proof (cases "rq_type q = OneWay")
      case True
      obtain t' where t': "set_decision cfg m DNeutral t = Some t'" "sound_step cfg t t'"
        "decision_of t' = (decision_of t)(m \<mapsto> DNeutral)"
        by (rule decide_alone [OF ok pair none])
      show ?thesis
        by (rule that [of None t' DNeutral DNone])
          (use t' keep [OF t'(3)] True False ab none in \<open>simp_all add: make_decision_def decision_rule_def\<close>)
    next
      case two: False
      show ?thesis
      proof (cases "is_present a")
        case True
        show ?thesis
          by (rule that [of None t "ar_decision a" DNone])
            (use True two False ab none pair_decisions [OF pair] sound_step_refl [OF ok] in
              \<open>simp_all add: make_decision_def decision_rule_def is_present_def\<close>)
      next
        case absent: False
        obtain n k where nk: "at_nodes t (ar_node a) = Some n" "at_nodes t (ar_node b) = Some k"
          by (rule pair_nodes [OF ok pair])
        let ?rec = "now < time_add (nh_last_received k) (ac_lease_duration cfg)"
        obtain t' v where t': "(if continuous \<or> rq_type q = TwoWaySimple then decide_by_level cfg now m s ?rec t
            else decide_or_delay cfg now m s ?rec t) = Some t'" "sound_step cfg t t'"
          "decision_of t' = (decision_of t)(m \<mapsto> v)"
          "v = DGrant \<or> v = DReject \<or> (\<not> continuous \<and> rq_type q \<noteq> TwoWaySimple) \<and> v = DDelay"
          using decide_by_level_sound [OF ok pair none, of now ?rec] decide_or_delay_sound [OF ok pair none, of now ?rec]
          by (cases "continuous \<or> rq_type q = TwoWaySimple") auto
        have "make_decision cfg now q m s continuous t = Some (None, t')"
          using ab nk False two absent t'(1) by (simp add: make_decision_def Let_def)
        then show ?thesis
          by (rule that [OF _ t'(2), of _ v DNone])
            (use t'(3,4) keep [OF t'(3)] none two absent in \<open>auto simp: decision_rule_def is_present_def\<close>)
      qed
    qed
  qed
qed

section \<open>The requests\<close>

lemma update_pair_state:
  assumes ok: "table_ok cfg t" and pair: "pair_of t m s a b" and v: "v \<noteq> RImplicit"
  obtains t' where "update_state cfg m v t = Some t'" "sound_step cfg t t'" "core t' = core t"
  by (rule update_state_sound [OF ok, of m a v]) (use pair v that in \<open>auto simp: pair_of_def\<close>)

lemma update_request_sound:
  assumes ok: "table_ok cfg t" and pair: "pair_of t m s a b"
  obtains t' where "update_request cfg now m q t = Some t'" "sound_step cfg t t'" "decision_of t' = decision_of t"
proof -
  let ?f = "\<lambda>a. a\<lparr>ar_process_time := now, ar_subject_expire := time_add now (rq_subject_ttl q)\<rparr>"
  have a: "at_store t m = Some a" using pair by (simp add: pair_of_def)
  obtain t1 where t1: "upd_rec m ?f t = Some t1" "sound_step cfg t t1" "decision_of t1 = decision_of t"
    "at_store t1 m = Some (?f a)"
    by (rule upd_rec_sound [OF ok a, of ?f]) auto
  note ok1 = sound_step_ok [OF t1(2)]
  obtain a1 b1 where p1: "pair_of t1 m s a1 b1" by (rule pair_step [OF pair t1(2)])
  have r1: "at_store t1 m = Some a1" "ar_peer a1 = Some s" "at_store t1 s = Some b1" using p1 by (simp_all add: pair_of_def)
  let ?rest = "if \<not> is_present b1 then do {
       t \<leftarrow> update_state cfg m (if rq_subject_ttl q > 0 then RPending else RConfirmed) t1;
       update_state cfg s RReported t }
     else if ar_state b1 = RPending then update_state cfg s RReported t1
     else Some t1"
  have unfold: "update_request cfg now m q t = ?rest"
    unfolding update_request_def t1(1) by (simp add: r1)
  have "\<exists>t'. ?rest = Some t' \<and> sound_step cfg t1 t' \<and> core t' = core t1"
  proof (cases "is_present b1")
    case False
    obtain t2 where t2: "update_state cfg m (if rq_subject_ttl q > 0 then RPending else RConfirmed) t1 = Some t2"
      "sound_step cfg t1 t2" "core t2 = core t1"
      by (rule update_pair_state [OF ok1 p1, where v = "if rq_subject_ttl q > 0 then RPending else RConfirmed"]) auto
    obtain a2 b2 where p2: "pair_of t2 m s a2 b2" by (rule pair_core [OF p1 t2(3)])
    obtain t3 where t3: "update_state cfg s RReported t2 = Some t3" "sound_step cfg t2 t3" "core t3 = core t2"
      by (rule update_pair_state [OF sound_step_ok [OF t2(2)] pair_sym [OF p2], where v = RReported]) auto
    show ?thesis
      using False t2 t3 sound_step_trans [OF t2(2) t3(2)] by (intro exI [of _ t3]) simp
  next
    case True
    show ?thesis
    proof (cases "ar_state b1 = RPending")
      case pend: True
      obtain t3 where "update_state cfg s RReported t1 = Some t3" "sound_step cfg t1 t3" "core t3 = core t1"
        by (rule update_pair_state [OF ok1 pair_sym [OF p1], where v = RReported]) auto
      with True pend show ?thesis by simp
    qed (use True sound_step_refl [OF ok1] in simp)
  qed
  then obtain t' where t': "?rest = Some t'" "sound_step cfg t1 t'" "core t' = core t1" by blast
  show ?thesis
    by (rule that [of t']) (use t' unfold sound_step_trans [OF t1(2) t'(2)] decision_core [OF t'(3)] t1(3) in auto)
qed

text \<open>
  What may stop the process: a record found for the request that has no peer, or a one-step request
  that meets a decision it does not know.
\<close>

definition request_safe :: "arbitration_request \<Rightarrow> arb_table \<Rightarrow> bool" where
  "request_safe q t \<longleftrightarrow> (\<forall>r a. at_store t r = Some a \<longrightarrow> ar_node a = la_id (rq_monitor q) \<longrightarrow>
     ar_monitor_instance a = la_instance (rq_monitor q) \<longrightarrow> ar_subject a = rq_subject q \<longrightarrow>
     ar_state a \<noteq> RImplicit \<longrightarrow> (\<exists>p b. ar_peer a = Some p \<and> at_store t p = Some b \<and>
       (rq_type q = TwoWaySimple \<longrightarrow> ar_decision b \<in> {DNone, DGrant, DReject})))"

text \<open>The same for the record that the search of the request finds.\<close>

definition search :: "arb_config \<Rightarrow> arbitration_request \<Rightarrow> stopwatch_time \<Rightarrow> arb_table \<Rightarrow> (rec_id option \<times> bool) option" where
  "search cfg q bound t = get_record cfg (la_id (rq_monitor q)) (rq_monitor q) (rq_subject q)
     (rq_monitor_lease q) (rq_subject_lease q) bound t"

definition found_safe :: "arb_config \<Rightarrow> arbitration_request \<Rightarrow> stopwatch_time \<Rightarrow> arb_table \<Rightarrow> bool" where
  "found_safe cfg q bound t \<longleftrightarrow> (\<forall>m h a. search cfg q bound t = Some (Some m, h) \<longrightarrow> at_store t m = Some a \<longrightarrow>
     (\<exists>p b. ar_peer a = Some p \<and> at_store t p = Some b \<and>
       (rq_type q = TwoWaySimple \<and> \<not> at_history_start t > bound \<longrightarrow> ar_decision b \<in> {DNone, DGrant, DReject})))"

lemma search_total:
  assumes ok: "table_ok cfg t" and n: "at_nodes t (la_id (rq_monitor q)) = Some n"
  obtains found h where "search cfg q bound t = Some (found, h)"
    "\<forall>r. found = Some r \<longrightarrow> (\<exists>a. at_store t r = Some a \<and> ar_node a = la_id (rq_monitor q) \<and>
      ar_monitor_instance a = la_instance (rq_monitor q) \<and> ar_subject a = rq_subject q \<and> ar_state a \<noteq> RImplicit)"
  using get_record_total [OF ok n, where monitor = "rq_monitor q" and subject = "rq_subject q"
      and ml = "rq_monitor_lease q" and sl = "rq_subject_lease q" and b = bound] that
  unfolding search_def by metis

lemma request_found_safe:
  assumes ok: "table_ok cfg t" and n: "at_nodes t (la_id (rq_monitor q)) = Some n" and safe: "request_safe q t"
  shows "found_safe cfg q bound t"
  unfolding found_safe_def
proof (intro allI impI)
  fix m h a assume m: "search cfg q bound t = Some (Some m, h)" and a: "at_store t m = Some a"
  obtain found h' where "search cfg q bound t = Some (found, h')"
    "\<forall>r. found = Some r \<longrightarrow> (\<exists>a. at_store t r = Some a \<and> ar_node a = la_id (rq_monitor q) \<and>
      ar_monitor_instance a = la_instance (rq_monitor q) \<and> ar_subject a = rq_subject q \<and> ar_state a \<noteq> RImplicit)"
    by (rule search_total [OF ok n])
  with m a safe show "\<exists>p b. ar_peer a = Some p \<and> at_store t p = Some b \<and>
      (rq_type q = TwoWaySimple \<and> \<not> at_history_start t > bound \<longrightarrow> ar_decision b \<in> {DNone, DGrant, DReject})"
    unfolding request_safe_def by fastforce
qed

lemma found_safeD:
  assumes ok: "table_ok cfg t" and safe: "found_safe cfg q bound t" and n: "at_nodes t (la_id (rq_monitor q)) = Some n"
    and m: "search cfg q bound t = Some (Some m, h)"
  obtains s a b where "pair_of t m s a b" "ar_node a = la_id (rq_monitor q)"
    "rq_type q = TwoWaySimple \<and> \<not> at_history_start t > bound \<longrightarrow> ar_decision b \<in> {DNone, DGrant, DReject}"
proof -
  obtain a where a: "at_store t m = Some a" and i: "ar_node a = la_id (rq_monitor q)" by (rule search_total [OF ok n, of bound]) (use m in auto)
  with safe m obtain p b where b: "ar_peer a = Some p" "at_store t p = Some b"
    "rq_type q = TwoWaySimple \<and> \<not> at_history_start t > bound \<longrightarrow> ar_decision b \<in> {DNone, DGrant, DReject}"
    unfolding found_safe_def by blast
  obtain b' where "at_store t p = Some b'" "ar_peer b' = Some m"
    by (rule linked_peerD [OF table_okD(1) [OF ok] a b(1)])
  with a i b that show ?thesis by (auto simp: pair_of_def)
qed

lemma lease_request_updates:
  assumes ok: "table_ok cfg t" and pair: "pair_of t m s a b"
  obtains t2 t3 where "(if \<not> is_present a then update_request cfg now m q t else Some t) = Some t2"
    "(if h then add_flag cfg m flag_continuous t2 else Some t2) = Some t3"
    "sound_step cfg t t3" "decision_of t3 = decision_of t"
proof -
  obtain t2 where t2: "(if \<not> is_present a then update_request cfg now m q t else Some t) = Some t2"
    "sound_step cfg t t2" "decision_of t2 = decision_of t"
  proof (cases "is_present a")
    case False
    show thesis by (rule update_request_sound [OF ok pair, of now q]) (use False that in simp)
  qed (use that sound_step_refl [OF ok] in simp)
  obtain a2 b2 where p2: "pair_of t2 m s a2 b2" by (rule pair_step [OF pair t2(2)])
  obtain t3 where t3: "(if h then add_flag cfg m flag_continuous t2 else Some t2) = Some t3"
    "sound_step cfg t2 t3" "decision_of t3 = decision_of t2"
    using flag_if [OF sound_step_ok [OF t2(2)] p2] by blast
  show ?thesis
    by (rule that [OF t2(1) t3(1) sound_step_trans [OF t2(2) t3(2)]]) (use t2(3) t3(3) in simp)
qed

lemma process_lease_request_sound:
  assumes ok: "table_ok cfg t" and n: "at_nodes t (la_id (rq_monitor q)) = Some n" and safe: "found_safe cfg q bound t"
  obtains rep resp t' m s a b da db where
    "process_lease_request cfg now q (la_id (rq_monitor q)) bound t = Some (rep, resp, t')" "sound_step cfg t t'"
    "pair_of t' m s a b" "ar_node a = la_id (rq_monitor q)" "decision_of t m = Some da \<or> decision_of t m = None \<and> da = DNone"
    "decision_of t s = Some db \<or> decision_of t s = None \<and> db = DNone"
    "rep = arbitration_reply_body (if ar_decision a = DGrant then rq_subject_ttl q else span_max)
             (if ar_decision a = DReject then 0 else span_max) (is_present b) (ar_flags a)"
    "if at_history_start t > bound then ar_decision a = DReject \<and> ar_decision b = db
     else \<exists>ty. (ty = rq_type q \<or> rq_type q = TwoWayExtended \<and> ty = TwoWaySimple) \<and>
       decision_rule ty da db (ar_decision a) (ar_decision b)"
proof -
  let ?i = "la_id (rq_monitor q)"
  obtain found h where get: "get_record cfg ?i (rq_monitor q) (rq_subject q) (rq_monitor_lease q)
      (rq_subject_lease q) bound t = Some (found, h)"
    by (rule search_total [OF ok n, of bound]) (simp add: search_def)
  obtain m s t1 a1 b1 where
    t1: "(case found of None \<Rightarrow> create_records cfg now q ?i h t
       | Some m \<Rightarrow> do { a \<leftarrow> at_store t m; s \<leftarrow> ar_peer a; Some (m, s, t) }) = Some (m, s, t1)"
    "sound_step cfg t t1" and p1: "pair_of t1 m s a1 b1" and i1: "ar_node a1 = ?i"
    and simple: "rq_type q = TwoWaySimple \<and> \<not> at_history_start t > bound \<longrightarrow> ar_decision b1 \<in> {DNone, DGrant, DReject}"
    and old: "decision_of t m = Some (ar_decision a1) \<or> decision_of t m = None \<and> ar_decision a1 = DNone"
      "decision_of t s = Some (ar_decision b1) \<or> decision_of t s = None \<and> ar_decision b1 = DNone"
  proof (cases found)
    case None
    obtain m s t1 a1 b1 where c: "create_records cfg now q ?i h t = Some (m, s, t1)" "sound_step cfg t t1"
      "at_store t1 m = Some a1" "ar_peer a1 = Some s" "ar_decision a1 = DNone" "ar_state a1 = RNone"
      "at_store t1 s = Some b1" "ar_peer b1 = Some m" "ar_decision b1 = DNone"
      and fresh: "decision_of t m = None" "decision_of t s = None" "ar_node a1 = ?i"
      by (rule create_records_sound [OF ok refl, where now = now and h = h]) (use n in auto)
    show thesis
      by (rule that [of m s t1 a1 b1]) (use None c fresh in \<open>simp_all add: pair_of_def\<close>)
  next
    case (Some m)
    obtain s a b where "pair_of t m s a b" "ar_node a = ?i"
      "rq_type q = TwoWaySimple \<and> \<not> at_history_start t > bound \<longrightarrow> ar_decision b \<in> {DNone, DGrant, DReject}"
      by (rule found_safeD [OF ok safe n get [unfolded Some, folded search_def]])
    then show thesis
      by (intro that [of m s t a b])
        (use Some sound_step_refl [OF ok] pair_decisions in \<open>auto simp: pair_of_def\<close>)
  qed
  note ok1 = sound_step_ok [OF t1(2)]
  have a1: "at_store t1 m = Some a1" using p1 by (simp add: pair_of_def)
  obtain t2 t3 where t2: "(if \<not> is_present a1 then update_request cfg now m q t1 else Some t1) = Some t2"
    and t3: "(if h then add_flag cfg m flag_continuous t2 else Some t2) = Some t3"
      "sound_step cfg t1 t3" "decision_of t3 = decision_of t1"
    by (rule lease_request_updates [OF ok1 p1])
  obtain a3 b3 where p3: "pair_of t3 m s a3 b3" and i3: "ar_node a3 = ar_node a1" by (rule pair_step [OF p1 t3(2)])
  note ok3 = sound_step_ok [OF t3(2)]
  have d3: "ar_decision a3 = ar_decision a1" "ar_decision b3 = ar_decision b1"
    using pair_decisions [OF p1] pair_decisions [OF p3] t3(3) by auto
  have start: "at_history_start t3 = at_history_start t"
    using t1(2) t3(2) by (simp add: sound_step_def)
  have step3: "sound_step cfg t t3" using t1(2) t3(2) sound_step_trans by blast
  have neq: "m \<noteq> s" using pair_neq [OF ok3 p3] .
  obtain resp t4 dm ds where
    t4: "(if at_history_start t3 > bound then do { t \<leftarrow> set_decision cfg m DReject t3; Some (None, t) }
       else make_decision cfg now q m s h t3) = Some (resp, t4)" "sound_step cfg t3 t4"
    and d4: "decision_of t4 m = Some dm" "decision_of t4 s = Some ds"
    and rule: "if at_history_start t > bound then dm = DReject \<and> ds = ar_decision b1
     else \<exists>ty. (ty = rq_type q \<or> rq_type q = TwoWayExtended \<and> ty = TwoWaySimple) \<and>
       decision_rule ty (ar_decision a1) (ar_decision b1) dm ds"
  proof (cases "at_history_start t3 > bound")
    case True
    obtain t4 where t4: "set_decision cfg m DReject t3 = Some t4" "sound_step cfg t3 t4"
      "decision_of t4 = (decision_of t3)(m \<mapsto> DReject)"
      by (rule decide_pair [OF ok3 p3, of DReject]) simp_all
    show thesis
      by (rule that [of None t4 DReject "ar_decision b1"])
        (use True t4 start neq pair_decisions [OF p3] d3 in auto)
  next
    case False
    obtain resp t4 dm ds where "make_decision cfg now q m s h t3 = Some (resp, t4)" "sound_step cfg t3 t4"
      "decision_of t4 m = Some dm" "decision_of t4 s = Some ds"
      "decision_rule (if h \<and> rq_type q = TwoWayExtended then TwoWaySimple else rq_type q)
         (ar_decision a3) (ar_decision b3) dm ds"
      by (rule make_decision_sound [OF ok3 p3, of q]) (use simple d3 False start in auto)
    with False start d3 show thesis
      by (intro that [of resp t4 dm ds]) (auto split: if_splits)
  qed
  obtain a b where p: "pair_of t4 m s a b" and i4: "ar_node a = ar_node a3" by (rule pair_step [OF p3 t4(2)])
  have d: "ar_decision a = dm" "ar_decision b = ds" using pair_decisions [OF p] d4 by simp_all
  have ab: "at_store t4 m = Some a" "at_store t4 s = Some b" using p by (simp_all add: pair_of_def)
  let ?rep = "arbitration_reply_body (if ar_decision a = DGrant then rq_subject_ttl q else span_max)
             (if ar_decision a = DReject then 0 else span_max) (is_present b) (ar_flags a)"
  have "process_lease_request cfg now q ?i bound t = Some (?rep, resp, t4)"
    unfolding process_lease_request_def get Option.bind.simps case_prod_conv t1(1) a1 t2 t3(1) t4(1) ab ..
  then show ?thesis
    by (rule that [OF _ sound_step_trans [OF step3 t4(2)] p]) (use old rule d i1 i3 i4 in auto)
qed

text \<open>Otherwise the process stops.\<close>

lemma decide_unknown:
  assumes ok: "table_ok cfg t" and pair: "pair_of t m s a b" and simple: "rq_type q = TwoWaySimple"
    and unknown: "ar_decision b \<notin> {DNone, DGrant, DReject}"
  shows "make_decision cfg now q m s h t = None"
proof -
  have b: "at_store t s = Some b" "at_store t m = Some a" "is_present b"
    using pair unknown by (auto simp: pair_of_def is_present_def)
  obtain t1 where t1: "(if ar_flags b AND flag_strong \<noteq> 0 then add_flag cfg m flag_strong t else Some t) = Some t1"
    using flag_if [OF ok pair] by blast
  show ?thesis
    unfolding make_decision_def decide_against_present_def
    using b unknown simple t1 by (simp add: assert_if_def)
qed

lemma process_lease_request_stops:
  assumes ok: "table_ok cfg t" and unsafe: "\<not> found_safe cfg q bound t"
  shows "process_lease_request cfg now q (la_id (rq_monitor q)) bound t = None"
proof -
  obtain m h a where get: "search cfg q bound t = Some (Some m, h)" and a: "at_store t m = Some a"
    and not: "\<not> (\<exists>p b. ar_peer a = Some p \<and> at_store t p = Some b \<and>
       (rq_type q = TwoWaySimple \<and> \<not> at_history_start t > bound \<longrightarrow> ar_decision b \<in> {DNone, DGrant, DReject}))"
    using unsafe unfolding found_safe_def by blast
  note head = process_lease_request_def get [unfolded search_def] a Option.bind.simps case_prod_conv option.case
  show ?thesis
  proof (cases "ar_peer a")
    case None
    then show ?thesis unfolding head by simp
  next
    case (Some s)
    obtain b where b: "at_store t s = Some b" "ar_peer b = Some m"
      by (rule linked_peerD [OF table_okD(1) [OF ok] a Some])
    with Some not have simple: "rq_type q = TwoWaySimple" "\<not> at_history_start t > bound"
      and unknown: "ar_decision b \<notin> {DNone, DGrant, DReject}" by auto
    have pair: "pair_of t m s a b" using a Some b by (simp add: pair_of_def)
    obtain t2 t3 where t2: "(if \<not> is_present a then update_request cfg now m q t else Some t) = Some t2"
      and t3: "(if h then add_flag cfg m flag_continuous t2 else Some t2) = Some t3"
        "sound_step cfg t t3" "decision_of t3 = decision_of t"
      by (rule lease_request_updates [OF ok pair])
    obtain a3 b3 where p3: "pair_of t3 m s a3 b3" by (rule pair_step [OF pair t3(2)])
    have "ar_decision b3 = ar_decision b" using pair_decisions [OF p3] pair_decisions [OF pair] t3(3) by simp
    then have none: "make_decision cfg now q m s h t3 = None"
      by (intro decide_unknown [OF sound_step_ok [OF t3(2)] p3 simple(1)]) (use unknown in simp)
    have start: "\<not> at_history_start t3 > bound" using simple(2) t3(2) by (simp add: sound_step_def)
    show ?thesis
      unfolding head Some t2 t3(1) if_not_P [OF start] none Option.bind.simps ..
  qed
qed

lemma process_revert_sound:
  assumes ok: "table_ok cfg t" and n: "at_nodes t (la_id (rq_monitor q)) = Some n" and safe: "found_safe cfg q bound t"
  obtains resp t' where "process_revert cfg now q (la_id (rq_monitor q)) bound t = Some (resp, t')" "sound_step cfg t t'"
proof -
  let ?i = "la_id (rq_monitor q)"
  let ?own = "if rq_type q = RevertToNeutral then DNeutral else DReject"
  let ?other = "if rq_type q = RevertToNeutral then DNeutral else DGrant"
  obtain found h where get: "get_record cfg ?i (rq_monitor q) (rq_subject q) (rq_monitor_lease q)
      (rq_subject_lease q) bound t = Some (found, h)"
    by (rule search_total [OF ok n, of bound]) (simp add: search_def)
  show ?thesis
  proof (cases found)
    case None
    with get that [of None t] sound_step_refl [OF ok] show ?thesis by (simp add: process_revert_def)
  next
    case (Some m)
    obtain s a b where p: "pair_of t m s a b" by (rule found_safeD [OF ok safe n get [unfolded Some, folded search_def]])
    have a: "at_store t m = Some a" "ar_peer a = Some s" using p by (simp_all add: pair_of_def)
    show ?thesis
    proof (cases "ar_decision a = DGrant")
      case False
      with get Some a that [of None t] sound_step_refl [OF ok] show ?thesis by (simp add: process_revert_def)
    next
      case True
      have b: "ar_decision b = DNone \<or> ar_decision b = DReject"
        using pair_exclusiveD [OF ok, of m a s b] p True by (simp add: pair_of_def compatible_def wins_def)
      obtain t1 where t1: "set_decision cfg m ?own t = Some t1" "sound_step cfg t t1"
        "decision_of t1 = (decision_of t)(m \<mapsto> ?own)"
        by (rule decide_pair [OF ok p, where v = ?own]) (use b in \<open>auto simp: wins_def\<close>)
      obtain a1 b1 where p1: "pair_of t1 m s a1 b1" by (rule pair_step [OF p t1(2)])
      note ok1 = sound_step_ok [OF t1(2)]
      have b1: "at_store t1 s = Some b1" using p1 by (simp add: pair_of_def)
      have a1: "ar_decision a1 = ?own" using pair_decisions [OF p1] t1(3) by simp
      consider (present) "is_present b1" | (rejected) "\<not> is_present b1" "ar_state b1 = RRejected"
        | (other) "\<not> is_present b1" "ar_state b1 \<noteq> RRejected" by blast
      then show ?thesis
      proof cases
        case present
        obtain t2 where t2: "set_decision cfg s ?other t1 = Some t2" "sound_step cfg t1 t2"
          by (rule decide_pair [OF ok1 pair_sym [OF p1], where v = ?other]) (use a1 in \<open>auto simp: wins_def\<close>)
        obtain a2 b2 where p2: "pair_of t2 m s a2 b2" by (rule pair_step [OF p1 t2(2)])
        obtain k2 l2 where "at_nodes t2 (ar_node a2) = Some k2" "at_nodes t2 (ar_node b2) = Some l2"
          by (rule pair_nodes [OF sound_step_ok [OF t2(2)] p2])
        then show ?thesis
          using that get Some a True t1(1) b1 present t2 p2 sound_step_trans [OF t1(2) t2(2)]
          by (simp add: process_revert_def pair_of_def)
      next
        case rejected
        obtain t2 where t2: "update_state cfg s RReported t1 = Some t2" "sound_step cfg t1 t2" "core t2 = core t1"
          by (rule update_pair_state [OF ok1 pair_sym [OF p1], where v = RReported]) auto
        then show ?thesis
          using that get Some a True t1(1) b1 rejected sound_step_trans [OF t1(2) t2(2)]
          by (simp add: process_revert_def)
      next
        case other
        then show ?thesis
          using that get Some a True t1 b1 by (simp add: process_revert_def)
      qed
    qed
  qed
qed

lemma process_revert_keeps:
  assumes ok: "table_ok cfg t" and n: "at_nodes t (la_id (rq_monitor q)) = Some n"
    and ret: "process_revert cfg now q (la_id (rq_monitor q)) bound t = Some (resp, t')"
    and revert: "rq_type q \<noteq> TwoWaySimple"
  shows "sound_step cfg t t'"
proof (cases "found_safe cfg q bound t")
  case True
  obtain resp1 t1 where "process_revert cfg now q (la_id (rq_monitor q)) bound t = Some (resp1, t1)" "sound_step cfg t t1"
    by (rule process_revert_sound [OF ok n True])
  with ret show ?thesis by simp
next
  case False
  obtain m h a where get: "search cfg q bound t = Some (Some m, h)" and a: "at_store t m = Some a"
    and not: "\<not> (\<exists>p b. ar_peer a = Some p \<and> at_store t p = Some b)"
    using False revert unfolding found_safe_def by blast
  have none: "ar_peer a = None"
    using not linked_peerD [OF table_okD(1) [OF ok] a] by (cases "ar_peer a") blast+
  have "t' = t"
    using ret none a unfolding process_revert_def get [unfolded search_def]
    by (cases "ar_decision a = DGrant") (simp_all add: bind_eq_None_conv split: bind_split_asm)
  then show ?thesis using sound_step_refl [OF ok] by simp
qed

lemma found_in_node:
  assumes ok: "table_ok cfg t" and n: "at_nodes t i = Some n"
  shows "\<exists>found. first_record (at_store t) P (nh_records n) = Some found \<and>
    (\<forall>r. found = Some r \<longrightarrow> (\<exists>a. at_store t r = Some a \<and> ar_node a = i \<and> P a))"
proof -
  have "\<forall>r \<in> set (nh_records n). at_store t r \<noteq> None"
    using linked_nodeD(2) [OF table_okD(1) [OF ok] n] by auto
  from first_record_total [OF this, of P] obtain found where f:
    "first_record (at_store t) P (nh_records n) = Some found"
    "\<forall>r. found = Some r \<longrightarrow> r \<in> set (nh_records n) \<and> (\<exists>a. at_store t r = Some a \<and> P a)" by blast
  then have "\<forall>r. found = Some r \<longrightarrow> (\<exists>a. at_store t r = Some a \<and> ar_node a = i \<and> P a)"
    using linked_nodeD(2) [OF table_okD(1) [OF ok] n] by fastforce
  with f(1) show ?thesis by blast
qed

lemma process_query_sound:
  assumes ok: "table_ok cfg t"
  obtains rep t' where "process_query cfg now q t = Some (rep, t')" "sound_step cfg t t'"
    "rp_monitor_ttl rep = span_max"
proof -
  obtain t1 where t1: "get_node_history cfg (rq_subject q) False t =
      Some (if False \<or> at_nodes t (la_id (rq_subject q)) \<noteq> None then Some (la_id (rq_subject q)) else None, t1)"
    "sound_step cfg t t1" "same_records t t1"
    "False \<or> at_nodes t (la_id (rq_subject q)) \<noteq> None \<longrightarrow> at_nodes t1 (la_id (rq_subject q)) \<noteq> None"
    by (rule get_node_history_sound [OF ok, of "rq_subject q" False]) auto
  note ok1 = sound_step_ok [OF t1(2)]
  show ?thesis
  proof (cases "at_nodes t (la_id (rq_subject q))")
    case None
    with t1 that show ?thesis by (simp add: process_query_def arbitration_reply_body_def)
  next
    case (Some n)
    then obtain n1 where n1: "at_nodes t1 (la_id (rq_subject q)) = Some n1" using t1(4) by auto
    obtain found where f: "get_success_record (la_id (rq_subject q)) t1 = Some found"
      "\<forall>r. found = Some r \<longrightarrow> (\<exists>a. at_store t1 r = Some a)"
      using found_in_node [OF ok1 n1, of "\<lambda>a. is_present a \<and> ar_decision a \<noteq> DReject"] n1
      by (auto simp: get_success_record_def)
    show ?thesis
    proof (cases found)
      case None
      with t1 Some f that show ?thesis by (simp add: process_query_def arbitration_reply_body_def)
    next
      case found: (Some r)
      then obtain a where "at_store t1 r = Some a" using f(2) by auto
      with found t1 Some f(1) that show ?thesis by (simp add: process_query_def arbitration_reply_body_def)
    qed
  qed
qed

lemma add_implicit_sound:
  assumes ok: "table_ok cfg t" and n: "at_nodes t i = Some n"
    and a: "ar_node a = i" "ar_peer a = None" "ar_state a = RImplicit"
  obtains t' where "set_decision cfg (at_next t) d (set_rec (at_next t) a (t\<lparr>at_next := at_next t + 1\<rparr>))
      \<bind> add_record i (at_next t) = Some t'" "sound_step cfg t t'"
proof -
  let ?m = "at_next t"
  have linked: "linked t" using table_okD [OF ok] by simp
  have fresh: "at_store t ?m = None"
    using linked_recordD [OF linked, of ?m] by (metis not_Some_eq less_irrefl)
  have new: "?m \<notin> set (nh_records n')" if "at_nodes t j = Some n'" for j n'
    using linked_nodeD(2) [OF linked that, of ?m] fresh by auto
  let ?a = "a\<lparr>ar_decision := d\<rparr>"
  define t2 where "t2 = set_node i (n\<lparr>nh_records := ?m # nh_records n\<rparr>)
    (set_rec ?m ?a (set_rec ?m a (t\<lparr>at_next := ?m + 1\<rparr>)))"
  have ret: "set_decision cfg ?m d (set_rec ?m a (t\<lparr>at_next := ?m + 1\<rparr>)) \<bind> add_record i ?m = Some t2"
    using n a(3) by (simp add: set_decision_def add_record_def t2_def)
  have store: "at_store t2 = (at_store t)(?m \<mapsto> ?a)" by (simp add: t2_def)
  have nodes: "at_nodes t2 j = map_option (\<lambda>n. n\<lparr>nh_records := (if j = i then [?m] else []) @ nh_records n\<rparr>) (at_nodes t j)" for j
    using n by (cases "j = i") (auto simp: option.map_ident t2_def)
  have next2: "at_next t2 = ?m + 1" "at_history_start t2 = at_history_start t" "at_delayed t2 = at_delayed t"
    by (simp_all add: t2_def)
  have linked2: "linked t2"
    unfolding linked_def
  proof (intro conjI allI impI ballI)
    fix r c assume c: "at_store t2 r = Some c"
    have "r = ?m \<and> c = ?a \<or> r \<noteq> ?m \<and> at_store t r = Some c"
      using c unfolding store by (simp add: fun_upd_def split: if_splits)
    then have "r < at_next t2 \<and> (\<exists>n. at_nodes t2 (ar_node c) = Some n \<and> r \<in> set (nh_records n)) \<and>
      (\<forall>p. ar_peer c = Some p \<longrightarrow> p \<noteq> r \<and> (\<exists>d. at_store t2 p = Some d \<and> ar_peer d = Some r))"
    proof (elim disjE conjE)
      assume "r = ?m" "c = ?a"
      then show ?thesis using nodes [of i] n a next2(1) by simp
    next
      assume r: "at_store t r = Some c" "r \<noteq> ?m"
      obtain n' where "at_nodes t (ar_node c) = Some n'" "r \<in> set (nh_records n')" "r < at_next t"
        by (rule linked_recordD [OF linked r(1)])
      moreover have "p \<noteq> r \<and> (\<exists>d. at_store t2 p = Some d \<and> ar_peer d = Some r)" if p: "ar_peer c = Some p" for p
      proof -
        obtain d where d: "at_store t p = Some d" "ar_peer d = Some r" "p \<noteq> r"
          by (rule linked_peerD [OF linked r(1) p])
        then have "p \<noteq> ?m" using fresh by auto
        with d store show ?thesis by simp
      qed
      ultimately show ?thesis using nodes [of "ar_node c"] next2(1) by simp
    qed
    then show "r < at_next t2" "\<exists>n. at_nodes t2 (ar_node c) = Some n \<and> r \<in> set (nh_records n)"
      "\<And>p. ar_peer c = Some p \<Longrightarrow> p \<noteq> r"
      "\<And>p. ar_peer c = Some p \<Longrightarrow> \<exists>d. at_store t2 p = Some d \<and> ar_peer d = Some r" by blast+
  next
    fix j n2 assume n2: "at_nodes t2 j = Some n2"
    then obtain n' where n': "at_nodes t j = Some n'"
      and recs: "nh_records n2 = (if j = i then [?m] else []) @ nh_records n'"
      unfolding nodes by auto
    show "distinct (nh_records n2)" using linked_nodeD(1) [OF linked n'] new [OF n'] recs by auto
    fix q assume q: "q \<in> set (nh_records n2)"
    then consider "q = ?m" "j = i" | "q \<in> set (nh_records n')"
      using recs by (auto split: if_splits)
    then show "\<exists>c. at_store t2 q = Some c \<and> ar_node c = j"
    proof cases
      case 2
      then show ?thesis using linked_nodeD(2) [OF linked n', of q] new [OF n'] store by auto
    qed (use store a in auto)
  qed
  have "drift kind j t2 = drift kind j t" for kind j
  proof (cases "at_nodes t j")
    case None
    then show ?thesis using nodes [of j] by (simp add: drift_def)
  next
    case (Some n')
    have "\<not> counted kind RImplicit" by (cases kind) (simp_all add: is_weakly_suspicious_def is_reported_def)
    then have sc: "state_counted kind t2 q = (q \<noteq> ?m \<and> state_counted kind t q)" for q
      using a store by (simp add: state_counted_def)
    have "filter (state_counted kind t2) (nh_records n') = filter (state_counted kind t) (nh_records n')"
      using new [OF Some] sc by (intro filter_cong) auto
    then have "tally kind t2 ((if j = i then [?m] else []) @ nh_records n') = tally kind t (nh_records n')"
      by (simp add: tally_def sc)
    moreover have "counter kind (n'\<lparr>nh_records := rs\<rparr>) = counter kind n'" for rs by (cases kind) simp_all
    ultimately show ?thesis using nodes [of j] Some by (simp add: drift_def)
  qed
  moreover have "levels_cached cfg t2"
    unfolding levels_cached_def nodes using table_okD(3) [OF ok] by (auto simp: levels_cached_def)
  moreover have "peers_present t2"
    using table_okD(4) [OF ok] a unfolding peers_present_def store by auto
  moreover have "pair_exclusive t2"
    unfolding pair_exclusive_def
  proof (intro allI impI)
    fix r c p e
    assume c: "at_store t2 r = Some c" and p: "ar_peer c = Some p" and e: "at_store t2 p = Some e"
    have "r \<noteq> ?m" using c p a store by auto
    then have r: "at_store t r = Some c" using c store by simp
    obtain e' where "at_store t p = Some e'" by (rule linked_peerD [OF linked r p])
    then have "at_store t p = Some e" using e fresh store by (auto split: if_splits)
    then show "compatible (ar_decision c) (ar_decision e)" using pair_exclusiveD [OF ok r p] by blast
  qed
  ultimately have "table_ok cfg t2"
    using linked2 table_okD(2) [OF ok] by (simp add: table_ok_def tallied_def)
  moreover have "keeps_links t t2"
    unfolding keeps_links_def
  proof (intro conjI allI impI)
    fix r c assume "at_store t r = Some c"
    then show "\<exists>c'. at_store t2 r = Some c' \<and> ar_node c' = ar_node c \<and> ar_peer c' = ar_peer c"
      using fresh store by auto
  next
    fix j n' assume "at_nodes t j = Some n'"
    then show "\<exists>n''. at_nodes t2 j = Some n'' \<and> set (nh_records n') \<subseteq> set (nh_records n'')"
      unfolding nodes by auto
  qed
  ultimately have "sound_step cfg t t2" unfolding sound_step_def using next2 by simp
  with ret that show ?thesis by blast
qed

lemma implicit_decision_sound:
  assumes ok: "table_ok cfg t" and i: "at_nodes t i \<noteq> None"
    and k: "\<forall>k b. subject = Some (k, b) \<longrightarrow> at_nodes t k \<noteq> None"
  shows "\<exists>d t'. implicit_decision cfg now q i subject t = Some (d, t') \<and> sound_step cfg t t' \<and> core t' = core t"
proof (cases subject)
  case None
  with sound_step_refl [OF ok] show ?thesis by (simp add: implicit_decision_def)
next
  case (Some kb)
  obtain k b where kb: "kb = (k, b)" by (cases kb)
  obtain n where n: "at_nodes t i = Some n" using i by auto
  obtain l where l: "at_nodes t k = Some l" using k Some kb by auto
  obtain l1 t1 where t1: "get_suspicion_level cfg now i t = Some (l1, t1)" "sound_step cfg t t1" "core t1 = core t"
    by (rule suspicion_level_sound [OF ok n])
  obtain l' where l': "at_nodes t1 k = Some l'" by (rule core_nodeD [OF t1(3) l])
  obtain l2 t2 where t2: "get_suspicion_level cfg now k t1 = Some (l2, t2)" "sound_step cfg t1 t2" "core t2 = core t1"
    by (rule suspicion_level_sound [OF sound_step_ok [OF t1(2)] l'])
  show ?thesis
    using t1 t2 sound_step_trans [OF t1(2) t2(2)] sound_step_refl [OF ok]
    by (simp add: implicit_decision_def Some kb)
qed

lemma process_implicit_sound:
  assumes ok: "table_ok cfg t" and i: "at_nodes t (la_id (rq_monitor q)) \<noteq> None"
  obtains rep t' where "process_implicit cfg now q (la_id (rq_monitor q)) t = Some (rep, t')" "sound_step cfg t t'"
proof -
  let ?i = "la_id (rq_monitor q)" and ?k = "la_id (rq_subject q)"
  obtain t1 where t1: "get_node_history cfg (rq_subject q) False t =
      Some (if False \<or> at_nodes t ?k \<noteq> None then Some ?k else None, t1)"
    "sound_step cfg t t1" "at_nodes t ?k \<noteq> None \<longrightarrow> at_nodes t1 ?k \<noteq> None"
    by (rule get_node_history_sound [OF ok, of "rq_subject q" False]) auto
  note ok1 = sound_step_ok [OF t1(2)]
  obtain n where "at_nodes t ?i = Some n" using i by auto
  then obtain n1 where n1: "at_nodes t1 ?i = Some n1" by (rule sound_nodeD [OF t1(2)])
  obtain found where f: "(case (if False \<or> at_nodes t ?k \<noteq> None then Some ?k else None) of None \<Rightarrow> Some None
       | Some k \<Rightarrow> do {
           r \<leftarrow> get_implicit_record k t1;
           (case r of
              None \<Rightarrow> Some None
            | Some r \<Rightarrow> do { b \<leftarrow> at_store t1 r; Some (Some (k, b)) }) }) = Some found"
    "\<forall>k b. found = Some (k, b) \<longrightarrow> at_nodes t1 k \<noteq> None"
  proof (cases "at_nodes t ?k = None")
    case False
    then obtain k1 where k1: "at_nodes t1 ?k = Some k1" using t1(3) by auto
    obtain r where r: "get_implicit_record ?k t1 = Some r" "\<forall>x. r = Some x \<longrightarrow> (\<exists>a. at_store t1 x = Some a)"
      using found_in_node [OF ok1 k1, of "\<lambda>a. ar_state a = RImplicit"] k1 by (auto simp: get_implicit_record_def)
    show thesis
      using that r False k1 by (cases r) auto
  qed (use that in simp)
  obtain d t2 where t2: "implicit_decision cfg now q ?i found t1 = Some (d, t2)" "sound_step cfg t1 t2" "core t2 = core t1"
    using implicit_decision_sound [OF ok1 _ f(2), of ?i] n1 by blast
  obtain n2 where n2: "at_nodes t2 ?i = Some n2" by (rule core_nodeD [OF t2(3) n1])
  let ?a = "(new_record now (rq_monitor q) (rq_subject q) (rq_monitor_lease q) (rq_subject_lease q))
               \<lparr>ar_state := RImplicit, ar_implicit1 := implicit_arbitration1 q,
                ar_implicit2 := implicit_arbitration2 q\<rparr>"
  obtain t3 where t3: "set_decision cfg (at_next t2) d (set_rec (at_next t2) ?a (t2\<lparr>at_next := at_next t2 + 1\<rparr>))
      \<bind> add_record ?i (at_next t2) = Some t3" "sound_step cfg t2 t3"
    by (rule add_implicit_sound [OF sound_step_ok [OF t2(2)] n2, of ?a d]) (simp_all add: new_record_def)
  have "\<exists>rep. process_implicit cfg now q ?i t = Some (rep, t3)"
    unfolding process_implicit_def t1(1) Option.bind.simps case_prod_conv f(1) t2(1) Let_def
    using t3(1) by (auto simp: bind_Some_iff)
  moreover have "sound_step cfg t t3" using t1(2) t2(2) t3(2) sound_step_trans by blast
  ultimately show ?thesis using that by blast
qed

lemma receive_request_sound:
  assumes ok: "table_ok cfg t" and n: "at_nodes t i = Some n"
  obtains t' where "receive_request now i from t = Some t'" "sound_step cfg t t'" "at_store t' = at_store t"
    "at_nodes t' i \<noteq> None"
proof -
  let ?f = "\<lambda>n. n\<lparr>nh_from := (case nh_from n of None \<Rightarrow> Some from
      | Some f \<Rightarrow> if ni_less (pn_instance f) (pn_instance from) then Some from else Some f), nh_last_received := now\<rparr>"
  have "counter k (?f n) = counter k n" for k by (cases k) simp_all
  then obtain t' where "upd_node i ?f t = Some t'" "sound_step cfg t t'" "at_store t' = at_store t"
    "at_nodes t' i = Some (?f n)"
    by (rule_tac upd_node_sound [OF ok n, of ?f]) auto
  with that show ?thesis by (simp add: receive_request_def)
qed

lemma request_safe_same:
  assumes ok: "table_ok cfg t" and same: "same_records t t'" and safe: "request_safe q t"
  shows "request_safe q t'"
  unfolding request_safe_def
proof (intro allI impI)
  fix r a
  assume a: "at_store t' r = Some a" and h: "ar_node a = la_id (rq_monitor q)"
    "ar_monitor_instance a = la_instance (rq_monitor q)" "ar_subject a = rq_subject q" "ar_state a \<noteq> RImplicit"
  obtain s where s: "at_store t r = Some (a\<lparr>ar_state := s\<rparr>)" "ar_peer a = None \<longrightarrow> s = ar_state a"
    by (rule same_recordsD [OF same a])
  have "s \<noteq> RImplicit"
    using table_okD(4) [OF ok] s h(4) unfolding peers_present_def by force
  then obtain p b where b: "ar_peer a = Some p" "at_store t p = Some b"
    "rq_type q = TwoWaySimple \<longrightarrow> ar_decision b \<in> {DNone, DGrant, DReject}"
    using safe s(1) h unfolding request_safe_def by fastforce
  then obtain b' where b': "at_store t' p = Some b'" "core_record b' = core_record b"
    using same unfolding same_records_def by (metis (no_types) map_option_eq_Some)
  have "ar_decision b' = ar_decision b"
    using arg_cong [OF core_record_eqD [OF b'(2)], of ar_decision] by simp
  with b b' show "\<exists>p b. ar_peer a = Some p \<and> at_store t' p = Some b \<and>
      (rq_type q = TwoWaySimple \<longrightarrow> ar_decision b \<in> {DNone, DGrant, DReject})" by auto
qed

lemma process_request_head:
  assumes ok: "table_ok cfg t"
  obtains (finished) rep resp t' where "process_request cfg now q from t = Some (rep, resp, t')" "sound_step cfg t t'"
      "rep = None \<or> pn_shutdown from \<or> rq_type q = QueryType \<or> rq_type q = ImplicitType"
  | (revert) t2 n2 where "rq_type q = RevertToReject \<or> rq_type q = RevertToNeutral"
      "sound_step cfg t t2" "same_records t t2" "at_nodes t2 (la_id (rq_monitor q)) = Some n2"
      "process_request cfg now q from t = do {
         (resp, t) \<leftarrow> process_revert cfg now q (la_id (rq_monitor q)) (time_sub now (history_needed cfg q)) t2;
         Some (None, resp, t) }"
  | (lease) t2 n2 where "rq_type q = TwoWaySimple \<or> rq_type q = TwoWayExtended \<or> rq_type q = OneWay"
      "sound_step cfg t t2" "same_records t t2" "at_nodes t2 (la_id (rq_monitor q)) = Some n2"
      "process_request cfg now q from t = do {
         (rep, resp, t) \<leftarrow> process_lease_request cfg now q (la_id (rq_monitor q)) (time_sub now (history_needed cfg q)) t2;
         Some (Some rep, resp, t) }"
proof (cases "rq_type q = QueryType")
  case True
  obtain rep t' where "process_query cfg now q t = Some (rep, t')" "sound_step cfg t t'"
    by (rule process_query_sound [OF ok])
  with True finished show ?thesis by (simp add: process_request_def)
next
  case False
  let ?i = "la_id (rq_monitor q)"
  obtain t1 where t1: "get_node_history cfg (rq_monitor q) True t = Some (Some ?i, t1)" "sound_step cfg t t1"
    "same_records t t1" "at_nodes t1 ?i \<noteq> None"
    by (rule get_node_history_sound [OF ok, of "rq_monitor q" True]) auto
  obtain n1 where n1: "at_nodes t1 ?i = Some n1" using t1(4) by auto
  obtain t2 where t2: "receive_request now ?i from t1 = Some t2" "sound_step cfg t1 t2" "at_store t2 = at_store t1"
    "at_nodes t2 ?i \<noteq> None"
    by (rule receive_request_sound [OF sound_step_ok [OF t1(2)] n1])
  obtain n2 where n2: "at_nodes t2 ?i = Some n2" using t2(4) by auto
  have step2: "sound_step cfg t t2" using sound_step_trans [OF t1(2) t2(2)] .
  have same2: "same_records t t2" using same_records_trans [OF t1(3) same_records_store [OF t2(3)]] .
  note head = process_request_def [of cfg now q "from" t] False t1(1) n1
  consider (old) "nh_instance n1 > la_instance (rq_monitor q)"
    | (down) "\<not> nh_instance n1 > la_instance (rq_monitor q)" "pn_shutdown from"
    | (up) "\<not> nh_instance n1 > la_instance (rq_monitor q)" "\<not> pn_shutdown from" by blast
  then show ?thesis
  proof cases
    case old
    with t1(2) finished show ?thesis by (simp add: head)
  next
    case down
    with t1(2) finished show ?thesis by (simp add: head)
  next
    case up
    consider (alive) "rq_type q = KeepAlive" | (implicit) "rq_type q = ImplicitType"
      | (undo) "rq_type q = RevertToReject \<or> rq_type q = RevertToNeutral"
      | (fail) "rq_type q = TwoWaySimple \<or> rq_type q = TwoWayExtended \<or> rq_type q = OneWay"
      using False by (cases "rq_type q") auto
    then show ?thesis
    proof cases
      case alive
      with up t2(1) step2 finished show ?thesis by (simp add: head)
    next
      case implicit
      obtain rep t3 where "process_implicit cfg now q ?i t2 = Some (rep, t3)" "sound_step cfg t2 t3"
        by (rule process_implicit_sound [OF sound_step_ok [OF step2] t2(4)])
      with implicit up t2(1) finished sound_step_trans [OF step2] show ?thesis by (simp add: head)
    next
      case undo
      show ?thesis
        by (rule revert [OF undo step2 same2 n2]) (use undo up t2(1) in \<open>auto simp: head Let_def\<close>)
    next
      case fail
      show ?thesis
        by (rule lease [OF fail step2 same2 n2]) (use fail up t2(1) in \<open>auto simp: head Let_def\<close>)
    qed
  qed
qed

lemma process_request_sound:
  assumes ok: "table_ok cfg t" and safe: "request_safe q t"
  obtains rep resp t' where "process_request cfg now q from t = Some (rep, resp, t')" "sound_step cfg t t'"
proof (rule process_request_head [OF ok, of now q "from"], goal_cases)
  case (1 rep resp t')
  then show ?thesis using that by blast
next
  case (2 t2 n2)
  note ok2 = sound_step_ok [OF 2(3)]
  have safe2: "found_safe cfg q b t2" for b
    using request_found_safe [OF ok2 2(5) request_safe_same [OF ok 2(4) safe]] .
  obtain resp t3 where "process_revert cfg now q (la_id (rq_monitor q)) (time_sub now (history_needed cfg q)) t2
      = Some (resp, t3)" "sound_step cfg t2 t3"
    by (rule process_revert_sound [OF ok2 2(5) safe2])
  with 2(6) that sound_step_trans [OF 2(3)] show ?thesis by simp
next
  case (3 t2 n2)
  note ok2 = sound_step_ok [OF 3(3)]
  have safe2: "found_safe cfg q b t2" for b
    using request_found_safe [OF ok2 3(5) request_safe_same [OF ok 3(4) safe]] .
  obtain rep resp t3 where "process_lease_request cfg now q (la_id (rq_monitor q)) (time_sub now (history_needed cfg q)) t2
      = Some (rep, resp, t3)" "sound_step cfg t2 t3"
    by (rule process_lease_request_sound [OF ok2 3(5) safe2])
  with 3(6) that sound_step_trans [OF 3(3)] show ?thesis by simp
qed

text \<open>A request that returns keeps the table in order, whatever it found.\<close>

lemma process_request_keeps:
  assumes ok: "table_ok cfg t" and ret: "process_request cfg now q from t = Some (rep, resp, t')"
  shows "sound_step cfg t t'"
proof (rule process_request_head [OF ok, of now q "from"], goal_cases)
  case (1 rep1 resp1 t1)
  then show ?case using ret by simp
next
  case (2 t2 n2)
  obtain resp1 where "process_revert cfg now q (la_id (rq_monitor q)) (time_sub now (history_needed cfg q)) t2
      = Some (resp1, t')"
    using trans [OF 2(5) [symmetric] ret] by (auto simp: bind_Some_iff)
  from process_revert_keeps [OF sound_step_ok [OF 2(2)] 2(4) this] 2(1) sound_step_trans [OF 2(2)]
  show ?case by auto
next
  case (3 t2 n2)
  let ?bound = "time_sub now (history_needed cfg q)"
  note ok2 = sound_step_ok [OF 3(2)]
  obtain rep1 resp1 where lease: "process_lease_request cfg now q (la_id (rq_monitor q)) ?bound t2 = Some (rep1, resp1, t')"
    using trans [OF 3(5) [symmetric] ret] by (auto simp: bind_Some_iff)
  then have safe: "found_safe cfg q ?bound t2"
    using process_lease_request_stops [OF ok2, of q ?bound now] by force
  obtain rep2 resp2 t3 where "process_lease_request cfg now q (la_id (rq_monitor q)) ?bound t2 = Some (rep2, resp2, t3)"
    "sound_step cfg t2 t3"
    by (rule process_lease_request_sound [OF ok2 3(4) safe])
  with lease sound_step_trans [OF 3(2)] show ?case by simp
qed

end
