(* ===== verification/Arbitration_Delays.thy ===== *)
theory Arbitration_Delays
  imports Arbitration_Decisions
begin

text \<open>
  What a request may do to the times and the presence of the records, whether the table is in order
  or not: needed for the list of delayed records, whose pointers must not outlive the records.
\<close>

section \<open>Operations that leave all but the states alone\<close>

lemma promote_core:
  assumes "\<And>r s t t'. update r s t = Some t' \<Longrightarrow> core t' = core t"
  shows "promote_peers update rs t = Some t' \<Longrightarrow> core t' = core t"
proof (induction rs arbitrary: t)
  case (Cons r rs)
  then show ?case
    by (fastforce simp: bind_Some_iff split: option.splits if_splits dest: assms)
qed simp

lemma update_state_depth_core: "update_state_depth cfg d r s t = Some t' \<Longrightarrow> core t' = core t"
proof (induction d arbitrary: r s t t')
  case (Suc d)
  have upd: "core t2 = core t1"
    if up: "update_record_state cfg (update_state_depth cfg d) i old new t1 = Some t2" for i old new t1 t2
  proof -
    obtain n u where n: "at_nodes t1 i = Some n"
      and u: "(if nh_reported n < ac_report_threshold cfg \<and> nh_reported (count_reported old new n) \<ge> ac_report_threshold cfg
          then promote_peers (update_state_depth cfg d) (nh_records (count_reported old new n))
                 (set_node i (count_reported old new n) t1)
          else Some (set_node i (count_reported old new n) t1)) = Some u"
      and t2: "upd_node i (count_states cfg old new) u = Some t2"
      using up unfolding update_record_state_def Let_def bind_Some_iff by blast
    have "core u = core (set_node i (count_reported old new n) t1)"
      using u promote_core [of "update_state_depth cfg d", OF Suc.IH] by (auto split: if_splits)
    moreover have "core (set_node i (count_reported old new n) t1) = core t1"
      using n by (intro core_set_node) simp_all
    moreover have "core t2 = core u"
      using t2 by (auto simp: upd_iff intro: core_set_node)
    ultimately show ?thesis by simp
  qed
  from Suc.prems obtain a s' where a: "at_store t r = Some a"
    and ret: "(if s' \<noteq> ar_state a then do {
         t \<leftarrow> update_record_state cfg (update_state_depth cfg d) (ar_node a) (ar_state a) s' t;
         upd_rec r (\<lambda>a. a\<lparr>ar_state := s'\<rparr>) t } else Some t) = Some t'"
    unfolding update_state_depth.simps bind_Some_iff by blast
  show ?case
  proof (cases "s' = ar_state a")
    case False
    then obtain u where u: "update_record_state cfg (update_state_depth cfg d) (ar_node a) (ar_state a) s' t = Some u"
      "upd_rec r (\<lambda>a. a\<lparr>ar_state := s'\<rparr>) u = Some t'"
      using ret by (auto simp: bind_Some_iff)
    then obtain c where "at_store u r = Some c" "t' = set_rec r (c\<lparr>ar_state := s'\<rparr>) u" by (auto simp: upd_iff)
    with upd [OF u(1)] show ?thesis using core_set_rec [of u r c "c\<lparr>ar_state := s'\<rparr>"] by simp
  qed (use ret in simp)
qed (simp add: update_state_depth.simps)

lemma update_state_core [dest]: "update_state cfg r s t = Some t' \<Longrightarrow> core t' = core t"
  by (simp add: update_state_def update_state_depth_core)

lemma suspicion_loop_core: "suspicion_loop cfg now rs t = Some t' \<Longrightarrow> core t' = core t"
  by (induction rs arbitrary: t) (fastforce simp: bind_Some_iff split: if_splits)+

lemma suspicion_core:
  "get_suspicion_level cfg now i t = Some (l, t') \<Longrightarrow> core t' = core t"
  "is_suspicious cfg now i k t = Some (b, t') \<Longrightarrow> core t' = core t"
  by (auto simp: is_suspicious_def get_suspicion_level_def bind_Some_iff Let_def split: if_splits
      dest: suspicion_loop_core)

lemma demote_rejected_core: "demote_rejected cfg rs t = Some t' \<Longrightarrow> core t' = core t"
  by (induction rs arbitrary: t) (fastforce simp: bind_Some_iff split: if_splits)+

section \<open>How records age\<close>

text \<open>
  What a request may do to a record: a decided one keeps its time and stays decided, an undecided one
  may be renewed, and only a record that was not decided, and whose peer was not, may become delayed.
\<close>

definition ages :: "stopwatch_time \<Rightarrow> arb_table \<Rightarrow> arb_record \<Rightarrow> arb_record \<Rightarrow> bool" where
  "ages now t a a' \<longleftrightarrow> ar_peer a' = ar_peer a \<and>
     (ar_process_time a' = ar_process_time a \<or> \<not> is_present a \<and> ar_process_time a' = now) \<and>
     (is_present a \<longrightarrow> is_present a') \<and>
     (ar_decision a' = DDelay \<longrightarrow> ar_decision a = DDelay \<or>
        \<not> is_present a \<and> (\<forall>p b. ar_peer a = Some p \<longrightarrow> at_store t p = Some b \<longrightarrow> \<not> is_present b))"

definition aged :: "stopwatch_time \<Rightarrow> arb_table \<Rightarrow> arb_table \<Rightarrow> bool" where
  "aged now t t' \<longleftrightarrow> dom (at_store t') = dom (at_store t) \<and>
     set (at_delayed t') \<subseteq> set (at_delayed t) \<union> dom (at_store t) \<and>
     (\<forall>r a. at_store t r = Some a \<longrightarrow> (\<exists>a'. at_store t' r = Some a' \<and> ages now t a a'))"

lemma ages_refl [simp]: "ages now t a a"
  by (simp add: ages_def)

lemma aged_refl [simp]: "aged now t t"
  by (simp add: aged_def)

lemma agedD:
  assumes "aged now t t'" "at_store t r = Some a"
  obtains a' where "at_store t' r = Some a'" "ages now t a a'"
  using assms unfolding aged_def by blast

lemma aged_peerD:
  assumes "aged now t t'" "at_store t r = Some a"
  shows "\<exists>a'. at_store t' r = Some a' \<and> ar_peer a' = ar_peer a"
  by (rule agedD [OF assms]) (auto simp: ages_def)

lemma aged_trans [trans]:
  assumes 1: "aged now t t'" and 2: "aged now t' t''"
  shows "aged now t t''"
proof -
  have "\<exists>c. at_store t'' r = Some c \<and> ages now t a c" if a: "at_store t r = Some a" for r a
  proof -
    obtain b where b: "at_store t' r = Some b" "ages now t a b" by (rule agedD [OF 1 a])
    obtain c where c: "at_store t'' r = Some c" "ages now t' b c" by (rule agedD [OF 2 b(1)])
    have "\<not> is_present x" if "at_store t p = Some x" "at_store t' p = Some y" "\<not> is_present y" for p x y
      using agedD [OF 1 that(1)] that(2,3) by (auto simp: ages_def)
    moreover have "\<exists>y. at_store t' p = Some y" if "at_store t p = Some x" for p x
      using agedD [OF 1 that] by blast
    ultimately have "ages now t a c"
      using b(2) c(2) unfolding ages_def by metis
    with c(1) show ?thesis by blast
  qed
  then show ?thesis using 1 2 unfolding aged_def by fastforce
qed

lemma aged_core: "core t' = core t \<Longrightarrow> aged now t t'"
proof -
  assume core: "core t' = core t"
  have "\<exists>a'. at_store t' r = Some a' \<and> ages now t a a'" if "at_store t r = Some a" for r a
    using core_storeD [OF core that] by (auto simp: ages_def is_present_def)
  moreover have "dom (at_store t') = dom (at_store t)"
    using core_store_None [OF core] by (auto simp: dom_def)
  ultimately show ?thesis using core_eqD(2) [OF core] by (auto simp: aged_def)
qed

lemma aged_store: "at_store t' = at_store t \<Longrightarrow> at_delayed t' = at_delayed t \<Longrightarrow> aged now t t'"
  by (simp add: aged_def)

lemma aged_set_rec: "at_store t r = Some a \<Longrightarrow> ages now t a a' \<Longrightarrow> aged now t (set_rec r a' t)"
  by (auto simp: aged_def)

lemma aged_upd_node: "upd_node i f t = Some t' \<Longrightarrow> aged now t t'"
  by (auto simp: upd_iff intro: aged_store)

lemma aged_flag:
  "add_flag cfg r f t = Some t' \<Longrightarrow> aged now t t'" "clear_flag cfg r f t = Some t' \<Longrightarrow> aged now t t'"
  by (auto simp: add_flag_def clear_flag_def upd_iff ages_def is_present_def intro: aged_set_rec)

lemma set_decision_writes:
  assumes "set_decision cfg r v t = Some t'"
  obtains t1 a where "core t1 = core t" "at_store t1 r = Some a" "t' = set_rec r (a\<lparr>ar_decision := v\<rparr>) t1"
proof -
  obtain a where a: "at_store t r = Some a"
    using assms unfolding set_decision_def bind_Some_iff by blast
  have "\<exists>t1. core t1 = core t \<and> upd_rec r (\<lambda>a. a\<lparr>ar_decision := v\<rparr>) t1 = Some t'"
  proof (cases "ar_peer a")
    case None
    with a assms show ?thesis
      by (auto simp: set_decision_def bind_Some_iff split: if_splits dest!: update_state_core)
  next
    case (Some p)
    with a assms show ?thesis
      by (auto simp: set_decision_def bind_Some_iff split: if_splits dest!: update_state_core)
  qed
  then show ?thesis using that by (auto simp: upd_iff)
qed

lemma aged_decision:
  assumes ret: "set_decision cfg r v t = Some t'" and v: "v \<noteq> DNone"
    and delay: "v = DDelay \<Longrightarrow> \<exists>a. at_store t r = Some a \<and> \<not> is_present a \<and>
      (\<forall>p b. ar_peer a = Some p \<longrightarrow> at_store t p = Some b \<longrightarrow> \<not> is_present b)"
  shows "aged now t t'"
proof -
  obtain t1 a where t1: "core t1 = core t" "at_store t1 r = Some a" "t' = set_rec r (a\<lparr>ar_decision := v\<rparr>) t1"
    by (rule set_decision_writes [OF ret])
  obtain s where s: "at_store t r = Some (a\<lparr>ar_state := s\<rparr>)"
    using core_storeD [OF t1(1) [symmetric] t1(2)] by blast
  have "ages now t1 a (a\<lparr>ar_decision := v\<rparr>)"
  proof (cases "v = DDelay")
    case True
    have "\<not> is_present b" if p: "ar_peer a = Some p" and b: "at_store t1 p = Some b" for p b
      using delay [OF True] s p core_storeD [OF t1(1) [symmetric] b] by (auto simp: is_present_def)
    with True delay s show ?thesis by (auto simp: ages_def is_present_def)
  qed (use v in \<open>simp add: ages_def is_present_def\<close>)
  then have "aged now t1 t'" unfolding t1(3) by (rule aged_set_rec [OF t1(2)])
  with aged_core [OF t1(1)] show ?thesis by (rule aged_trans)
qed

lemma aged_decide: "set_decision cfg r v t = Some t' \<Longrightarrow> v \<noteq> DNone \<Longrightarrow> v \<noteq> DDelay \<Longrightarrow> aged now t t'"
  by (rule aged_decision) auto

lemma aged_update_state: "update_state cfg r s t = Some t' \<Longrightarrow> aged now t t'"
  by (intro aged_core update_state_core)

lemma aged_suspicion:
  "get_suspicion_level cfg now' i t = Some (l, t') \<Longrightarrow> aged now t t'"
  "is_suspicious cfg now' i k t = Some (b, t') \<Longrightarrow> aged now t t'"
  by (auto intro: aged_core dest: suspicion_core)

lemma aged_update_request:
  assumes ret: "update_request cfg now r q t = Some t'" and new: "at_store t r = Some a" "\<not> is_present a"
  shows "aged now t t'"
proof -
  let ?t = "set_rec r (a\<lparr>ar_process_time := now, ar_subject_expire := time_add now (rq_subject_ttl q)\<rparr>) t"
  have "aged now t ?t" by (rule aged_set_rec [OF new(1)]) (use new(2) in \<open>simp add: ages_def is_present_def\<close>)
  moreover have "core t' = core ?t"
    using ret new by (auto simp: update_request_def bind_Some_iff split: if_splits dest!: update_state_core)
  ultimately show ?thesis by (blast intro: aged_trans aged_core)
qed

text \<open>Neither side of a record is decided.\<close>

definition undecided :: "arb_table \<Rightarrow> rec_id \<Rightarrow> bool" where
  "undecided t r \<longleftrightarrow> (\<exists>a. at_store t r = Some a \<and> \<not> is_present a \<and>
     (\<forall>p b. ar_peer a = Some p \<longrightarrow> at_store t p = Some b \<longrightarrow> \<not> is_present b))"

lemma undecided_core: "core t' = core t \<Longrightarrow> undecided t r \<Longrightarrow> undecided t' r"
proof -
  assume core: "core t' = core t" and u: "undecided t r"
  then obtain a where a: "at_store t r = Some a" "\<not> is_present a"
    "\<forall>p b. ar_peer a = Some p \<longrightarrow> at_store t p = Some b \<longrightarrow> \<not> is_present b" by (auto simp: undecided_def)
  obtain s where s: "at_store t' r = Some (a\<lparr>ar_state := s\<rparr>)" using core_storeD [OF core a(1)] by blast
  have "\<not> is_present b" if "ar_peer a = Some p" "at_store t' p = Some b" for p b
    using a(3) that core_storeD [OF core [symmetric] that(2)] by (auto simp: is_present_def)
  with s a(2) show ?thesis by (simp add: undecided_def is_present_def)
qed

lemma undecided_flag: "add_flag cfg r f t = Some t' \<Longrightarrow> undecided t r \<Longrightarrow> undecided t' r"
  by (auto simp: add_flag_def upd_iff undecided_def is_present_def)

lemma aged_flag_if: "(if c then add_flag cfg m f t else Some t) = Some t' \<Longrightarrow> aged now t t'"
  by (cases c) (auto dest: aged_flag)

lemma aged_flag_decide:
  assumes "do { t \<leftarrow> (if c then add_flag cfg m f t else Some t); set_decision cfg m v t } = Some t'"
    and "v \<noteq> DNone" "v \<noteq> DDelay"
  shows "aged now t t'"
proof -
  obtain u where u: "(if c then add_flag cfg m f t else Some t) = Some u" "set_decision cfg m v u = Some t'"
    using assms(1) unfolding bind_Some_iff by blast
  show ?thesis using aged_trans [OF aged_flag_if [OF u(1)] aged_decide [OF u(2) assms(2,3)]] .
qed

lemma aged_decide_against:
  assumes "decide_against_present cfg q m s t = Some (resp, t')"
  shows "aged now t t'"
proof -
  obtain b u where b: "at_store t s = Some b"
    and u: "(if ar_flags b AND flag_strong \<noteq> 0 then add_flag cfg m flag_strong t else Some t) = Some u"
    and rest: "(if ar_decision b = DGrant then do { t \<leftarrow> set_decision cfg m DReject u; Some (None, t) }
     else if ar_decision b = DReject \<and> rq_type q \<noteq> OneWay then do { t \<leftarrow> set_decision cfg m DGrant u; Some (None, t) }
     else do {
       assert_if (rq_type q = TwoWaySimple);
       (resp, t) \<leftarrow> (if ar_decision b = DDelay then do {
           t \<leftarrow> set_decision cfg s DNeutral u;
           t \<leftarrow> clear_flag cfg s flag_delayed t;
           b \<leftarrow> at_store t s;
           n \<leftarrow> at_nodes t (ar_node b);
           Some (Some (delayed_reply_of q DNeutral span_max True (ar_flags b), nh_from n), t) }
         else Some (None, u));
       t \<leftarrow> set_decision cfg m DNeutral t;
       Some (resp, t) }) = Some (resp, t')"
    using assms unfolding decide_against_present_def bind_Some_iff by blast
  obtain v w where w: "aged now u w" "set_decision cfg m v w = Some t'" "v \<noteq> DNone" "v \<noteq> DDelay"
  proof (cases "ar_decision b = DDelay")
    case True
    with rest obtain w1 w where "set_decision cfg s DNeutral u = Some w1" "clear_flag cfg s flag_delayed w1 = Some w"
      "set_decision cfg m DNeutral w = Some t'"
      by (auto simp: bind_Some_iff)
    with that [of w DNeutral] aged_decide aged_flag(2) aged_trans show thesis by blast
  next
    case False
    with rest that [of u DReject] that [of u DGrant] that [of u DNeutral] show thesis
      by (auto simp: bind_Some_iff split: if_splits)
  qed
  show ?thesis
    using aged_trans [OF aged_trans [OF aged_flag_if [OF u] w(1)] aged_decide [OF w(2-4)]] .
qed

lemma aged_level_choice:
  assumes "(if c1 then do { t \<leftarrow> (if f1 then add_flag cfg m f t else Some t); set_decision cfg m DReject t }
      else if c2 then set_decision cfg m DReject t
      else do { t \<leftarrow> (if f2 then add_flag cfg m f t else Some t); set_decision cfg m DGrant t }) = Some t'"
  shows "aged now t t'"
  using assms
  by (auto split: if_splits simp: bind_Some_iff
      dest!: aged_flag(1) [where now = now] aged_decide [where now = now] intro: aged_trans)

lemma aged_decide_by_level:
  assumes "decide_by_level cfg now m s received t = Some t'"
  shows "aged now t t'"
proof -
  obtain i j l1 t1 l2 t2 where s: "get_suspicion_level cfg now i t = Some (l1, t1)"
      "get_suspicion_level cfg now j t1 = Some (l2, t2)" and rest: "aged now t2 t'"
    using assms unfolding decide_by_level_def bind_Some_iff Let_def
    by (auto simp: bind_Some_iff dest!: aged_level_choice [where now = now])
  from aged_trans [OF aged_trans [OF aged_suspicion(1) [OF s(1)] aged_suspicion(1) [OF s(2)]] rest]
  show ?thesis .
qed

lemma aged_delay:
  assumes t: "undecided t m" "at_store t m \<noteq> None"
    and ret: "do { t \<leftarrow> Some (t\<lparr>at_delayed := at_delayed t @ [m]\<rparr>);
       t \<leftarrow> add_flag cfg m flag_delayed t;
       set_decision cfg m DDelay t } = Some t'"
  shows "aged now t t'"
proof -
  let ?t = "t\<lparr>at_delayed := at_delayed t @ [m]\<rparr>"
  obtain u where u: "add_flag cfg m flag_delayed ?t = Some u" "set_decision cfg m DDelay u = Some t'"
    using ret by (auto simp: bind_Some_iff)
  have "aged now t ?t" using t(2) by (auto simp: aged_def)
  moreover have "aged now ?t u" by (rule aged_flag(1) [OF u(1)])
  moreover have "undecided u m" by (rule undecided_flag [OF u(1)]) (use t(1) in \<open>simp add: undecided_def\<close>)
  then have "aged now u t'" by (intro aged_decision [OF u(2)]) (simp_all add: undecided_def)
  ultimately show ?thesis by (blast intro: aged_trans)
qed

lemma aged_decide_or_delay:
  assumes u: "undecided t m" and ret: "decide_or_delay cfg now m s received t = Some t'"
  shows "aged now t t'"
proof -
  obtain a b f t1 d t2 where ab: "at_store t m = Some a" "at_store t s = Some b"
    and 1: "(if received then do { (suspicious, t) \<leftarrow> is_suspicious cfg now (ar_node b) True t; Some (\<not> suspicious, t) }
       else Some (False, t)) = Some (f, t1)"
    and 2: "(if f then Some (True, t1) else is_suspicious cfg now (ar_node a) False t1) = Some (d, t2)"
    and 3: "(if d then do {
       t \<leftarrow> Some (t2\<lparr>at_delayed := at_delayed t2 @ [m]\<rparr>);
       t \<leftarrow> add_flag cfg m flag_delayed t;
       set_decision cfg m DDelay t }
     else set_decision cfg m DGrant t2) = Some t'"
    using ret unfolding decide_or_delay_def by - (elim bind_pairE bind_SomeE, blast)
  have "core t1 = core t" using 1 by (auto simp: bind_Some_iff split: if_splits dest: suspicion_core)
  moreover have "core t2 = core t1" using 2 by (auto split: if_splits dest: suspicion_core)
  ultimately have core: "core t2 = core t" by simp
  have u2: "undecided t2 m" by (rule undecided_core [OF core u])
  then have "aged now t2 t'"
  proof (cases d)
    case True
    from u2 show ?thesis by (rule aged_delay) (use u2 3 True in \<open>auto simp: undecided_def\<close>)
  qed (use 3 in \<open>auto intro: aged_decide\<close>)
  with aged_core [OF core] show ?thesis by (rule aged_trans)
qed

lemma aged_make_decision:
  assumes ret: "make_decision cfg now q m s h t = Some (resp, t')" and peer: "at_store t m = Some a" "ar_peer a = Some s"
  shows "aged now t t'"
proof -
  obtain b where b: "at_store t s = Some b"
    using ret unfolding make_decision_def bind_Some_iff by blast
  show ?thesis
  proof (cases "is_present b")
    case True
    with ret b peer show ?thesis by (auto simp: make_decision_def intro: aged_decide_against)
  next
    case False
    with b peer(2) have u: "undecided t m" if "\<not> is_present a" using that peer(1) by (auto simp: undecided_def)
    show ?thesis
    proof (cases "rq_type q = OneWay \<or> is_present a")
      case True
      with False ret b peer show ?thesis
        by (auto simp: make_decision_def bind_Some_iff split: if_splits intro: aged_decide)
    next
      case undec: False
      with False ret b peer show ?thesis
        by (auto simp: make_decision_def Let_def bind_Some_iff split: if_splits
            intro: aged_decide_by_level aged_decide_or_delay [OF u])
    qed
  qed
qed

lemma set_decision_present:
  assumes "set_decision cfg r v t = Some t'" "v \<noteq> DNone"
  shows "\<exists>a. at_store t' r = Some a \<and> is_present a"
  by (rule set_decision_writes [OF assms(1)]) (use assms(2) in \<open>simp add: is_present_def\<close>)

lemma make_decision_present:
  assumes "make_decision cfg now q m s h t = Some (resp, t')"
  shows "\<exists>a. at_store t' m = Some a \<and> is_present a"
  using assms
  by (auto simp: make_decision_def decide_against_present_def decide_by_level_def decide_or_delay_def Let_def
      bind_Some_iff split: if_splits dest!: set_decision_present)

section \<open>Requests\<close>

text \<open>The same for a request, which may also create records: they carry the time of the request.\<close>

definition extended :: "stopwatch_time \<Rightarrow> arb_table \<Rightarrow> arb_table \<Rightarrow> bool" where
  "extended now t t' \<longleftrightarrow> set (at_delayed t') \<subseteq> set (at_delayed t) \<union> dom (at_store t') \<and>
     (\<forall>r a. at_store t r = Some a \<longrightarrow> (\<exists>a'. at_store t' r = Some a' \<and> ages now t a a')) \<and>
     (\<forall>r a'. at_store t r = None \<longrightarrow> at_store t' r = Some a' \<longrightarrow> ar_process_time a' = now)"

lemma aged_extended: "aged now t t' \<Longrightarrow> extended now t t'"
  unfolding aged_def extended_def by (metis domI domIff option.distinct(1))

lemma extendedD:
  assumes "extended now t t'" "at_store t r = Some a"
  obtains a' where "at_store t' r = Some a'" "ages now t a a'"
  using assms unfolding extended_def by blast

lemma extended_trans:
  assumes 1: "extended now t t'" and 2: "extended now t' t''"
  shows "extended now t t''"
proof -
  have old: "\<exists>c. at_store t'' r = Some c \<and> ages now t a c" if a: "at_store t r = Some a" for r a
  proof -
    obtain b where b: "at_store t' r = Some b" "ages now t a b" by (rule extendedD [OF 1 a])
    obtain c where c: "at_store t'' r = Some c" "ages now t' b c" by (rule extendedD [OF 2 b(1)])
    have "\<not> is_present x" if "at_store t p = Some x" "at_store t' p = Some y" "\<not> is_present y" for p x y
      using extendedD [OF 1 that(1)] that(2,3) by (auto simp: ages_def)
    moreover have "\<exists>y. at_store t' p = Some y" if "at_store t p = Some x" for p x
      using extendedD [OF 1 that] by blast
    ultimately have "ages now t a c"
      using b(2) c(2) unfolding ages_def by metis
    with c(1) show ?thesis by blast
  qed
  moreover have "ar_process_time c = now" if "at_store t r = None" "at_store t'' r = Some c" for r c
  proof (cases "at_store t' r")
    case None
    with 2 that show ?thesis by (simp add: extended_def)
  next
    case (Some b)
    then have "ar_process_time b = now" using 1 that by (simp add: extended_def)
    with extendedD [OF 2 Some] that(2) show ?thesis by (auto simp: ages_def)
  qed
  moreover have "dom (at_store t') \<subseteq> dom (at_store t'')"
    using extendedD [OF 2] by blast
  ultimately show ?thesis using 1 2 unfolding extended_def by blast
qed

lemma aged_node_history:
  assumes "get_node_history cfg inst create t = Some (found, t')"
  shows "aged now t t'"
proof (cases "at_nodes t (la_id inst)")
  case None
  with assms show ?thesis by (auto simp: get_node_history_def split: if_splits intro: aged_store)
next
  case (Some n)
  with assms have "update_instance cfg (la_id inst) (la_instance inst) t = Some t'"
    by (auto simp: get_node_history_def bind_Some_iff)
  then consider "t' = t" | u n' where "core u = core t" "t' = set_node (la_id inst) n' u"
    by (auto simp: update_instance_def bind_Some_iff split: if_splits dest!: demote_rejected_core)
  then show ?thesis
  proof cases
    case 2
    have "aged now u t'" by (rule aged_store) (simp_all add: 2(2))
    with aged_core [OF 2(1)] show ?thesis by (rule aged_trans)
  qed simp
qed

lemma aged_revert:
  assumes "process_revert cfg now q i bound t = Some (resp, t')"
  shows "aged now t t'"
proof -
  let ?own = "if rq_type q = RevertToNeutral then DNeutral else DReject"
  let ?other = "if rq_type q = RevertToNeutral then DNeutral else DGrant"
  obtain found h where get: "get_record cfg i (rq_monitor q) (rq_subject q) (rq_monitor_lease q)
      (rq_subject_lease q) bound t = Some (found, h)"
    using assms unfolding process_revert_def by (auto simp: bind_Some_iff)
  show ?thesis
  proof (cases "\<exists>m a. found = Some m \<and> at_store t m = Some a \<and> ar_decision a = DGrant")
    case False
    with assms get have "t' = t" by (auto simp: process_revert_def bind_Some_iff split: option.splits if_splits)
    then show ?thesis by simp
  next
    case True
    with assms get obtain m u s b where u: "set_decision cfg m ?own t = Some u" "at_store u s = Some b"
      and rest: "(if is_present b then do {
              t \<leftarrow> set_decision cfg s ?other u;
              b \<leftarrow> at_store t s;
              n \<leftarrow> at_nodes t (ar_node b);
              Some (if record_is_extended b
                    then Some (delayed_reply_of q (ar_decision b)
                           (remaining_duration now (ar_subject_expire b)) True (ar_flags b), nh_from n)
                    else None, t) }
            else if ar_state b = RRejected then do {
              t \<leftarrow> update_state cfg s RReported u;
              Some (None, t) }
            else Some (None, u)) = Some (resp, t')"
      unfolding process_revert_def by (fastforce simp: bind_Some_iff)
    have "aged now t u" using u(1) by (rule aged_decide) simp_all
    moreover have "aged now u t'"
    proof (cases "is_present b")
      case True
      with rest obtain v where "set_decision cfg s ?other u = Some v" "v = t'" by (auto simp: bind_Some_iff)
      then show ?thesis using aged_decide [of cfg s ?other u v now] by (cases "rq_type q = RevertToNeutral") auto
    next
      case False
      with rest show ?thesis by (auto simp: bind_Some_iff split: if_splits intro: aged_update_state)
    qed
    ultimately show ?thesis by (rule aged_trans)
  qed
qed

lemma fresh_id: "linked t \<Longrightarrow> at_next t \<le> r \<Longrightarrow> at_store t r = None"
  by (cases "at_store t r") (auto elim: linked_recordD)

lemma node_history_ok:
  assumes "table_ok cfg t" "get_node_history cfg inst create t = Some (found, t')"
  shows "table_ok cfg t'"
  by (rule get_node_history_sound [OF assms(1), of inst create]) (use assms(2) in \<open>auto dest: sound_step_ok\<close>)

lemma implicit_decision_core:
  assumes "implicit_decision cfg now q i subject t = Some (d, t')"
  shows "core t' = core t \<and> d \<noteq> DNone \<and> d \<noteq> DDelay"
  using assms unfolding implicit_decision_def
  by (auto simp: bind_Some_iff split: option.splits if_splits dest!: suspicion_core)

lemma extended_fresh:
  assumes "linked t" "at_next t \<le> m" "ar_process_time a = now"
  shows "extended now t (set_rec m a (t\<lparr>at_next := k\<rparr>))"
  using fresh_id [OF assms(1,2)] assms(3) by (auto simp: extended_def)

definition unpaired_news :: "arb_table \<Rightarrow> arb_table \<Rightarrow> bool" where
  "unpaired_news t t' \<longleftrightarrow> (\<forall>r a. at_store t r = None \<longrightarrow> at_store t' r = Some a \<longrightarrow> ar_peer a = None)"

lemma aged_unpaired: "aged now t t' \<Longrightarrow> unpaired_news t t'"
  unfolding aged_def unpaired_news_def by (metis domI domIff)

lemma extended_implicit:
  assumes ok: "table_ok cfg t" and ret: "process_implicit cfg now q i t = Some (rep, t')"
  shows "extended now t t' \<and> unpaired_news t t'"
proof -
  define a where "a = (new_record now (rq_monitor q) (rq_subject q) (rq_monitor_lease q) (rq_subject_lease q))
               \<lparr>ar_state := RImplicit, ar_implicit1 := implicit_arbitration1 q,
                ar_implicit2 := implicit_arbitration2 q\<rparr>"
  obtain k t1 found d t2 t3 where t1: "get_node_history cfg (rq_subject q) False t = Some (k, t1)"
    and t2: "implicit_decision cfg now q i found t1 = Some (d, t2)"
    and t3: "set_decision cfg (at_next t2) d (set_rec (at_next t2) a (t2\<lparr>at_next := at_next t2 + 1\<rparr>)) = Some t3"
      "add_record i (at_next t2) t3 = Some t'"
    using ret unfolding process_implicit_def Let_def a_def [symmetric]
    by - (elim bind_pairE bind_SomeE, blast)
  let ?m = "at_next t2" and ?t = "set_rec (at_next t2) a (t2\<lparr>at_next := at_next t2 + 1\<rparr>)"
  have core: "core t2 = core t1" and d: "d \<noteq> DNone" "d \<noteq> DDelay" using implicit_decision_core [OF t2] by auto
  have "linked t2" using linked_core [OF core table_okD(1) [OF node_history_ok [OF ok t1]]] .
  then have fresh: "extended now t2 ?t" "at_store t2 ?m = None"
    by (auto intro: extended_fresh fresh_id simp: a_def new_record_def)
  have aged2: "aged now t t2" using aged_trans [OF aged_node_history [OF t1] aged_core [OF core]] .
  have aged3: "aged now ?t t'"
    using aged_trans [OF aged_decide [OF t3(1) d] aged_upd_node [OF t3(2) [unfolded add_record_def]]] .
  have "extended now t t'"
    using extended_trans [OF extended_trans [OF aged_extended [OF aged2] fresh(1)] aged_extended [OF aged3]] .
  moreover have "ar_peer c = None" if new: "at_store t r = None" and c: "at_store t' r = Some c" for r c
  proof -
    obtain b where b: "at_store ?t r = Some b" using aged3 c unfolding aged_def by blast
    have "at_store t2 r = None" using aged2 new unfolding aged_def by blast
    with b have "b = a" by (simp split: if_splits)
    then have "ar_peer b = None" by (simp add: a_def new_record_def)
    with agedD [OF aged3 b] c show ?thesis by (auto simp: ages_def)
  qed
  ultimately show ?thesis by (simp add: unpaired_news_def)
qed

text \<open>A lease request creates at most one pair and decides at least one side of it.\<close>

definition decided_news :: "arb_table \<Rightarrow> arb_table \<Rightarrow> bool" where
  "decided_news t t' \<longleftrightarrow> (\<forall>r a p b. at_store t r = None \<longrightarrow> at_store t' r = Some a \<longrightarrow> ar_peer a = Some p \<longrightarrow>
     at_store t' p = Some b \<longrightarrow> is_present a \<or> is_present b)"

lemma unpaired_decided: "unpaired_news t t' \<Longrightarrow> decided_news t t'"
  by (fastforce simp: unpaired_news_def decided_news_def)

lemma aged_create:
  assumes ok: "table_ok cfg t" and ret: "create_records cfg now q i h t = Some (m, s, t')"
  obtains a b where "extended now t t'" "dom (at_store t') = dom (at_store t) \<union> {m, s}"
    "at_store t' m = Some a" "ar_peer a = Some s" "at_store t' s = Some b" "ar_peer b = Some m"
proof -
  obtain k t1 where t1: "get_node_history cfg (rq_subject q) True t = Some (Some k, t1)"
    using ret unfolding create_records_def by (auto simp: bind_Some_iff)
  let ?m = "at_next t1" and ?s = "at_next t1 + 1"
  define a where "a = (new_record now (rq_monitor q) (rq_subject q) (rq_monitor_lease q) (rq_subject_lease q))
    \<lparr>ar_peer := Some ?s\<rparr>"
  define b where "b = (new_record now (rq_subject q) (rq_monitor q) (rq_subject_lease q) (rq_monitor_lease q))
    \<lparr>ar_peer := Some ?m, ar_flags := (if h then flag_extended OR flag_continuous else flag_extended)\<rparr>"
  have ids: "m = ?m" "s = ?s" and adds: "do { t \<leftarrow> add_record i ?m (set_rec ?s b (set_rec ?m a (t1\<lparr>at_next := ?s + 1\<rparr>)));
      add_record k ?s t } = Some t'"
    using ret t1 unfolding create_records_def Let_def a_def b_def by (auto simp: bind_Some_iff)
  have same: "at_store t' = at_store (set_rec ?s b (set_rec ?m a (t1\<lparr>at_next := ?s + 1\<rparr>)))" "at_delayed t' = at_delayed t1"
    using adds by (auto simp: add_record_def bind_Some_iff upd_iff)
  have fresh: "at_store t1 ?m = None" "at_store t1 ?s = None"
    using fresh_id [OF table_okD(1) [OF node_history_ok [OF ok t1]]] by simp_all
  have aged: "aged now t t1" by (rule aged_node_history [OF t1])
  have "extended now t1 t'"
    using fresh by (auto simp: extended_def same a_def b_def new_record_def)
  with aged_extended [OF aged] have "extended now t t'" by (rule extended_trans)
  moreover have "dom (at_store t') = dom (at_store t) \<union> {?m, ?s}"
    using aged by (auto simp: aged_def same)
  ultimately show ?thesis
    by (intro that [of a b]) (simp_all add: ids same, simp_all add: a_def b_def new_record_def)
qed

lemma extended_lease_request:
  assumes ok: "table_ok cfg t" and ret: "process_lease_request cfg now q i bound t = Some (rep, resp, t')"
  shows "extended now t t' \<and> decided_news t t'"
proof -
  obtain found h m s t1 a t2 t3 where
    t1: "(case found of None \<Rightarrow> create_records cfg now q i h t
       | Some m \<Rightarrow> do { a \<leftarrow> at_store t m; s \<leftarrow> ar_peer a; Some (m, s, t) }) = Some (m, s, t1)"
    and a: "at_store t1 m = Some a"
    and t2: "(if \<not> is_present a then update_request cfg now m q t1 else Some t1) = Some t2"
    and t3: "(if h then add_flag cfg m flag_continuous t2 else Some t2) = Some t3"
    and t4: "(if at_history_start t3 > bound then do { t \<leftarrow> set_decision cfg m DReject t3; Some (None, t) }
       else make_decision cfg now q m s h t3) = Some (resp, t')"
    using ret unfolding process_lease_request_def
  proof (elim bind_tripleE bind_pairE bind_SomeE, goal_cases)
    case (1 found h m s t1 a t2 t3 resp' t4 a' b')
    then have "resp' = resp" "t4 = t'" by simp_all
    with 1 show ?case by (intro 1(1) [of h found m s t1 a t2 t3]) simp_all
  qed
  obtain b where pair: "extended now t t1" "dom (at_store t1) \<subseteq> dom (at_store t) \<union> {m, s}" "ar_peer a = Some s"
    "at_store t1 s = Some b" "ar_peer b = Some m"
  proof (cases found)
    case None
    with t1 have "create_records cfg now q i h t = Some (m, s, t1)" by simp
    from aged_create [OF ok this] a that show thesis by (metis option.inject subset_refl)
  next
    case (Some r)
    with t1 a have eq: "t1 = t" "ar_peer a = Some s" by (auto simp: bind_Some_iff)
    obtain b where "at_store t s = Some b" "ar_peer b = Some m"
      by (rule linked_peerD [OF table_okD(1) [OF ok] _ eq(2), of m]) (use a eq in auto)
    then show thesis by (intro that [of b]) (auto simp: eq intro: aged_extended)
  qed
  have aged2: "aged now t1 t2" using t2 a by (auto split: if_splits intro: aged_update_request)
  have aged3: "aged now t1 t3" using aged_trans [OF aged2 aged_flag_if [OF t3]] .
  obtain a3 where a3: "at_store t3 m = Some a3" "ar_peer a3 = Some s"
    using aged_peerD [OF aged3 a] pair(3) by auto
  have aged4: "aged now t3 t'" and present: "\<exists>a. at_store t' m = Some a \<and> is_present a"
    using t4 aged_make_decision [OF _ a3] make_decision_present
    by (auto simp: bind_Some_iff split: if_splits intro: aged_decide dest: set_decision_present)
  have aged: "aged now t1 t'" using aged_trans [OF aged3 aged4] .
  have "is_present c \<or> is_present d"
    if new: "at_store t r = None" and c: "at_store t' r = Some c" "ar_peer c = Some p" and d: "at_store t' p = Some d" for r c p d
  proof -
    obtain c1 where c1: "at_store t1 r = Some c1" using aged c(1) unfolding aged_def by blast
    then have peer: "ar_peer c1 = Some p" using aged_peerD [OF aged c1] c by auto
    have "r = m \<or> r = s" using c1 new pair(2) by blast
    with c1 peer a pair(3-5) have "r = m \<or> p = m" by auto
    with present c d show ?thesis by auto
  qed
  then have "decided_news t t'" by (simp add: decided_news_def)
  with extended_trans [OF pair(1) aged_extended [OF aged]] show ?thesis by blast
qed

lemma decided_news_trans:
  assumes "aged now t t1" "decided_news t1 t'"
  shows "decided_news t t'"
  using assms unfolding aged_def decided_news_def by (metis domIff)

lemma process_request_extends:
  assumes ok: "table_ok cfg t" and ret: "process_request cfg now q from t = Some (rep, resp, t')"
  shows "extended now t t' \<and> decided_news t t'"
proof -
  have aged: ?thesis if "aged now t t'"
    using aged_extended [OF that] unpaired_decided [OF aged_unpaired [OF that]] by blast
  have after: ?thesis if "aged now t u" "table_ok cfg u" "extended now u t' \<and> decided_news u t'" for u
    using that extended_trans [OF aged_extended] decided_news_trans by blast
  show ?thesis
  proof (cases "rq_type q = QueryType")
    case True
    with ret have "\<exists>rep. process_query cfg now q t = Some (rep, t')"
      by (auto simp: process_request_def bind_Some_iff)
    then show ?thesis
      by (intro aged) (auto simp: process_query_def bind_Some_iff dest: aged_node_history [where now = now])
  next
    case False
    then obtain i t1 where t1: "get_node_history cfg (rq_monitor q) True t = Some (Some i, t1)"
      using ret unfolding process_request_def by (auto simp: bind_Some_iff)
    note a1 = aged_node_history [OF t1, of now] and ok1 = node_history_ok [OF ok t1]
    obtain n where n: "at_nodes t1 i = Some n"
      using ret False t1 unfolding process_request_def by (auto simp: bind_Some_iff)
    show ?thesis
    proof (cases "nh_instance n > la_instance (rq_monitor q) \<or> pn_shutdown from")
      case True
      with ret False t1 n have "t' = t1" by (auto simp: process_request_def split: if_splits)
      with a1 show ?thesis by (intro aged) simp
    next
      case up: False
      then obtain t2 where t2: "receive_request now i from t1 = Some t2"
        using ret False t1 n unfolding process_request_def by (auto simp: bind_Some_iff)
      note a2 = aged_trans [OF a1 aged_upd_node [OF t2 [unfolded receive_request_def]]]
      have ok2: "table_ok cfg t2" by (rule receive_request_sound [OF ok1 n, of now "from"]) (use t2 in \<open>auto dest: sound_step_ok\<close>)
      have rest: "(if rq_type q = KeepAlive then Some (None, None, t2)
          else if rq_type q = ImplicitType then do {
            (rep, t) \<leftarrow> process_implicit cfg now q i t2;
            Some (Some rep, None, t) }
          else if rq_type q = RevertToReject \<or> rq_type q = RevertToNeutral then do {
              (resp, t) \<leftarrow> process_revert cfg now q i (time_sub now (history_needed cfg q)) t2;
              Some (None, resp, t) }
          else do {
              (rep, resp, t) \<leftarrow> process_lease_request cfg now q i (time_sub now (history_needed cfg q)) t2;
              Some (Some rep, resp, t) }) = Some (rep, resp, t')"
        using ret False t1 n up t2 unfolding process_request_def Let_def by (simp split del: if_split)
      show ?thesis
      proof (cases "rq_type q = KeepAlive")
        case True
        with rest a2 show ?thesis by (intro aged) simp
      next
        case alive: False
        have "extended now t2 t' \<and> decided_news t2 t'"
          using rest alive extended_implicit [OF ok2] extended_lease_request [OF ok2]
          by (fastforce simp: bind_Some_iff split: if_splits intro: aged_extended unpaired_decided aged_unpaired
              dest: aged_revert [where now = now])
        then show ?thesis by (rule after [OF a2 ok2])
      qed
    qed
  qed
qed

end
