(* ===== verification/Arbitration_Timer.thy ===== *)
theory Arbitration_Timer
  imports Arbitration_Delays
begin

text \<open>
  The timer of the arbitration table: delayed decisions become grants, and records that are too old
  are deleted with their peers.
\<close>

section \<open>The list of delayed records\<close>

text \<open>
  No pointer of \<open>delayed_\<close> dangles, every pair has a decided side, and the peer of a delayed record
  is at least as young as the record.
\<close>

definition delayed_ok :: "stopwatch_time \<Rightarrow> arb_table \<Rightarrow> bool" where
  "delayed_ok now t \<longleftrightarrow> set (at_delayed t) \<subseteq> dom (at_store t) \<and>
     (\<forall>r a. at_store t r = Some a \<longrightarrow> ar_process_time a \<le> now \<and>
        (\<forall>p b. ar_peer a = Some p \<longrightarrow> at_store t p = Some b \<longrightarrow> (is_present a \<or> is_present b) \<and>
           (ar_decision a = DDelay \<longrightarrow> ar_process_time a \<le> ar_process_time b)))"

lemma delayed_okD:
  assumes "delayed_ok now t" "at_store t r = Some a"
  shows "ar_process_time a \<le> now"
    and "ar_peer a = Some p \<Longrightarrow> at_store t p = Some b \<Longrightarrow> is_present a \<or> is_present b"
    and "ar_peer a = Some p \<Longrightarrow> at_store t p = Some b \<Longrightarrow> ar_decision a = DDelay \<Longrightarrow>
      ar_process_time a \<le> ar_process_time b"
  using assms unfolding delayed_ok_def by blast+

lemma delayed_ok_extends:
  assumes ok: "linked t" "linked t'" and inv: "delayed_ok now0 t" "now0 \<le> now"
    and step: "extended now t t'" "decided_news t t'"
  shows "delayed_ok now t'"
proof -
  have time: "ar_process_time c \<le> now" if c: "at_store t' r = Some c" for r c
  proof (cases "at_store t r")
    case None
    with step(1) c show ?thesis by (simp add: extended_def)
  next
    case (Some a)
    obtain c' where "at_store t' r = Some c'" "ages now t a c'" by (rule extendedD [OF step(1) Some])
    with c delayed_okD(1) [OF inv(1) Some] inv(2) show ?thesis by (auto simp: ages_def)
  qed
  have pair: "(is_present c \<or> is_present d) \<and> (ar_decision c = DDelay \<longrightarrow> ar_process_time c \<le> ar_process_time d)"
    if c: "at_store t' r = Some c" "ar_peer c = Some p" and d: "at_store t' p = Some d" for r c p d
  proof (cases "at_store t r")
    case None
    have "at_store t p = None"
    proof (cases "at_store t p")
      case (Some b)
      obtain d' where "at_store t' p = Some d'" "ages now t b d'" by (rule extendedD [OF step(1) Some])
      then have "ar_peer b = ar_peer d" using d by (simp add: ages_def)
      also have "ar_peer d = Some r" using linked_peerD [OF ok(2) c] d by auto
      finally have "at_store t r \<noteq> None" using linked_peerD [OF ok(1) Some] by auto
      with None show ?thesis by simp
    qed simp
    with None c d step show ?thesis by (auto simp: extended_def decided_news_def)
  next
    case (Some a)
    obtain c' where "at_store t' r = Some c'" "ages now t a c'" by (rule extendedD [OF step(1) Some])
    then have ac: "ages now t a c" using c by simp
    then have peer: "ar_peer a = Some p" using c by (simp add: ages_def)
    obtain b where b: "at_store t p = Some b" using linked_peerD [OF ok(1) Some peer] by blast
    obtain d' where "at_store t' p = Some d'" "ages now t b d'" by (rule extendedD [OF step(1) b])
    then have bd: "ages now t b d" using d by simp
    note old = delayed_okD [OF inv(1) Some] delayed_okD(1) [OF inv(1) b]
    show ?thesis
    proof (intro conjI impI)
      show "is_present c \<or> is_present d" using old(2) [OF peer b] ac bd by (auto simp: ages_def)
      assume "ar_decision c = DDelay"
      then have delay: "ar_decision a = DDelay"
        using ac peer b old(2) [OF peer b] by (auto simp: ages_def)
      then have "ar_process_time c = ar_process_time a" using ac by (auto simp: ages_def is_present_def)
      with delay old inv(2) peer b bd show "ar_process_time c \<le> ar_process_time d" by (fastforce simp: ages_def)
    qed
  qed
  have "set (at_delayed t') \<subseteq> dom (at_store t')"
    using step(1) inv(1) extendedD [OF step(1)] unfolding delayed_ok_def extended_def by blast
  then show ?thesis unfolding delayed_ok_def using time pair by blast
qed

lemma process_request_delayed:
  assumes "table_ok cfg t" "delayed_ok now0 t" "now0 \<le> now" "process_request cfg now q from t = Some (rep, resp, t')"
  shows "delayed_ok now t'"
  using delayed_ok_extends [OF _ _ assms(2,3)] process_request_extends [OF assms(1,4)]
    process_request_keeps [OF assms(1,4)] assms(1) by (blast dest: sound_step_ok table_okD)

lemma delayed_ok_aged:
  assumes "linked t" "linked t'" "delayed_ok now0 t" "now0 \<le> now" "aged now t t'"
  shows "delayed_ok now t'"
  using delayed_ok_extends [OF assms(1-4)] aged_extended [OF assms(5)]
    unpaired_decided [OF aged_unpaired [OF assms(5)]] by blast

section \<open>Delayed decisions\<close>

lemma grant_delayed:
  assumes ok: "table_ok cfg t" and a: "at_store t r = Some a" "ar_decision a = DDelay"
  obtains t1 t2 b t3 n where "set_decision cfg r DGrant t = Some t1" "clear_flag cfg r flag_delayed t1 = Some t2"
    "at_store t2 r = Some b" "(if ar_state b = RPending then update_state cfg r RConfirmed t2 else Some t2) = Some t3"
    "at_nodes t3 (ar_node b) = Some n" "sound_step cfg t t3" "aged now t t3"
    "decision_of t3 = (decision_of t)(r \<mapsto> DGrant)"
proof -
  have compat: "compatible DGrant (ar_decision b)" if "ar_peer a = Some p" "at_store t p = Some b" for p b
    using pair_exclusiveD [OF ok a(1) that] a(2) by (simp add: compatible_def wins_def)
  obtain t1 where t1: "set_decision cfg r DGrant t = Some t1" "sound_step cfg t t1"
    "decision_of t1 = (decision_of t)(r \<mapsto> DGrant)"
    by (rule set_decision_sound [OF ok a(1), where v = DGrant]) (use compat in auto)
  obtain a1 where a1: "at_store t1 r = Some a1" by (rule sound_storeD [OF t1(2) a(1)])
  obtain t2 where t2: "clear_flag cfg r flag_delayed t1 = Some t2" "sound_step cfg t1 t2"
      "decision_of t2 = decision_of t1" "at_store t2 r = Some (a1\<lparr>ar_flags := ar_flags a1 AND NOT flag_delayed\<rparr>)"
    unfolding clear_flag_def
    by (rule upd_rec_sound [OF sound_step_ok [OF t1(2)] a1, of "\<lambda>a. a\<lparr>ar_flags := ar_flags a AND NOT flag_delayed\<rparr>"])
      (use that in auto)
  note ok2 = sound_step_ok [OF t2(2)]
  obtain b where b: "at_store t2 r = Some b" using t2(4) by simp
  obtain t3 where t3: "(if ar_state b = RPending then update_state cfg r RConfirmed t2 else Some t2) = Some t3"
    "sound_step cfg t2 t3" "core t3 = core t2"
  proof (cases "ar_state b = RPending")
    case True
    then have "ar_peer b \<noteq> None" using table_okD(4) [OF ok2] b by (fastforce simp: peers_present_def)
    then show thesis
      by (rule_tac update_state_sound [OF ok2 b, of RConfirmed]) (use True that in auto)
  qed (use that sound_step_refl [OF ok2] in simp)
  obtain n where "at_nodes t2 (ar_node b) = Some n" by (rule linked_recordD [OF table_okD(1) [OF ok2] b])
  then obtain m where n: "at_nodes t3 (ar_node b) = Some m" by (rule core_nodeD [OF t3(3)])
  have "aged now t t3"
    using aged_trans [OF aged_trans [OF aged_decide [OF t1(1)] aged_flag(2) [OF t2(1)]] aged_core [OF t3(3)]] by simp
  then show ?thesis
    using that [OF t1(1) t2(1) b t3(1) n] t1 t2 t3 sound_step_trans decision_core [OF t3(3)] by metis
qed

lemma compact_delayed_sound:
  assumes "table_ok cfg t" "\<forall>r \<in> set rs. at_store t r \<noteq> None"
  shows "\<exists>kept sent t'. compact_delayed cfg now rs t = Some (kept, sent, t') \<and> sound_step cfg t t' \<and>
    aged now t t' \<and> (\<forall>r. decision_of t' r = decision_of t r \<or> decision_of t' r = Some DGrant) \<and>
    (\<forall>r \<in> set kept. r \<in> set rs \<and> (\<exists>a. at_store t r = Some a \<and> ar_decision a = DDelay \<and>
       ar_process_time a > time_sub now (ac_delay_interval cfg)))"
  using assms
proof (induction rs arbitrary: t)
  case Nil
  then show ?case using sound_step_refl by simp
next
  case (Cons r rs)
  obtain a where a: "at_store t r = Some a" using Cons.prems(2) by auto
  have rs: "\<forall>r \<in> set rs. at_store t r \<noteq> None" using Cons.prems(2) by simp
  consider (gone) "ar_decision a \<noteq> DDelay"
    | (due) "ar_decision a = DDelay" "ar_process_time a \<le> time_sub now (ac_delay_interval cfg)"
    | (waiting) "ar_decision a = DDelay" "\<not> ar_process_time a \<le> time_sub now (ac_delay_interval cfg)" by blast
  then show ?case
  proof cases
    case gone
    from Cons.IH [OF Cons.prems(1) rs] gone a show ?thesis by (simp, blast)
  next
    case due
    obtain t1 t2 b t3 n where g: "set_decision cfg r DGrant t = Some t1" "clear_flag cfg r flag_delayed t1 = Some t2"
      "at_store t2 r = Some b" "(if ar_state b = RPending then update_state cfg r RConfirmed t2 else Some t2) = Some t3"
      "at_nodes t3 (ar_node b) = Some n" and step: "sound_step cfg t t3" and aged: "aged now t t3"
      and d: "decision_of t3 = (decision_of t)(r \<mapsto> DGrant)"
      by (rule grant_delayed [OF Cons.prems(1) a due(1)])
    have dom: "dom (at_store t3) = dom (at_store t)" using aged by (simp add: aged_def)
    then have "\<forall>r \<in> set rs. at_store t3 r \<noteq> None" using rs by (metis domIff)
    then obtain kept sent t' where t': "compact_delayed cfg now rs t3 = Some (kept, sent, t')" "sound_step cfg t3 t'"
      "aged now t3 t'" "\<forall>r. decision_of t' r = decision_of t3 r \<or> decision_of t' r = Some DGrant"
      "\<forall>r \<in> set kept. r \<in> set rs \<and> (\<exists>a. at_store t3 r = Some a \<and> ar_decision a = DDelay \<and>
       ar_process_time a > time_sub now (ac_delay_interval cfg))"
      using Cons.IH [OF sound_step_ok [OF step]] by blast
    have "\<exists>sent. compact_delayed cfg now (r # rs) t = Some (kept, sent, t')"
      using a due g(1-3) g(4,5) t'(1) by (simp add: split del: if_split)
    moreover have "\<exists>a. at_store t x = Some a \<and> ar_decision a = DDelay \<and>
       ar_process_time a > time_sub now (ac_delay_interval cfg)" if x: "x \<in> set kept" for x
    proof -
      obtain c where c: "at_store t3 x = Some c" "ar_decision c = DDelay"
        "ar_process_time c > time_sub now (ac_delay_interval cfg)" using t'(5) x by blast
      obtain y where y: "at_store t x = Some y" using c(1) dom by blast
      have "decision_of t3 x = Some DDelay" using c by (simp add: decision_of_def)
      then have "ar_decision y = DDelay" using d y by (auto simp: decision_of_def split: if_splits)
      moreover have "ages now t y c" using agedD [OF aged y] c(1) by auto
      ultimately show ?thesis using y c(3) by (auto simp: ages_def is_present_def)
    qed
    ultimately show ?thesis
      using t' d sound_step_trans [OF step t'(2)] aged_trans [OF aged t'(3)]
      by (metis fun_upd_apply list.set_intros(2))
  next
    case waiting
    obtain kept sent t' where t': "compact_delayed cfg now rs t = Some (kept, sent, t')" "sound_step cfg t t'"
      "aged now t t'" "\<forall>r. decision_of t' r = decision_of t r \<or> decision_of t' r = Some DGrant"
      "\<forall>r \<in> set kept. r \<in> set rs \<and> (\<exists>a. at_store t r = Some a \<and> ar_decision a = DDelay \<and>
       ar_process_time a > time_sub now (ac_delay_interval cfg))"
      using Cons.IH [OF Cons.prems(1) rs] by blast
    with a waiting show ?thesis by auto
  qed
qed

section \<open>Deleting records\<close>

text \<open>\<^const>\<open>linked\<close> in two parts: where the records are, and the pairs.\<close>

definition placed :: "arb_table \<Rightarrow> bool" where
  "placed t \<longleftrightarrow>
     (\<forall>r a. at_store t r = Some a \<longrightarrow>
        r < at_next t \<and> (\<exists>n. at_nodes t (ar_node a) = Some n \<and> r \<in> set (nh_records n))) \<and>
     (\<forall>i n. at_nodes t i = Some n \<longrightarrow>
        distinct (nh_records n) \<and> (\<forall>r \<in> set (nh_records n). \<exists>a. at_store t r = Some a \<and> ar_node a = i))"

definition paired :: "arb_table \<Rightarrow> bool" where
  "paired t \<longleftrightarrow> (\<forall>r a p. at_store t r = Some a \<longrightarrow> ar_peer a = Some p \<longrightarrow>
     p \<noteq> r \<and> (\<exists>b. at_store t p = Some b \<and> ar_peer b = Some r))"

lemma linked_parts: "linked t \<longleftrightarrow> placed t \<and> paired t"
  unfolding linked_def placed_def paired_def by blast

lemma placed_recordD:
  assumes "placed t" "at_store t r = Some a"
  obtains n where "at_nodes t (ar_node a) = Some n" "r \<in> set (nh_records n)" "distinct (nh_records n)"
  using assms unfolding placed_def by blast

lemma placed_nodeD:
  assumes "placed t" "at_nodes t i = Some n"
  shows "distinct (nh_records n)" "r \<in> set (nh_records n) \<Longrightarrow> \<exists>a. at_store t r = Some a \<and> ar_node a = i"
  using assms unfolding placed_def by blast+

text \<open>What is left of a node and of the table when a record is deleted.\<close>

definition retire :: "arb_config \<Rightarrow> record_state \<Rightarrow> node_history \<Rightarrow> node_history" where
  "retire cfg s n = (if s = RNone then n else count_states cfg s RNone (count_reported s RNone n))"

definition drop_record :: "arb_config \<Rightarrow> rec_id \<Rightarrow> arb_record \<Rightarrow> node_history \<Rightarrow> arb_table \<Rightarrow> arb_table" where
  "drop_record cfg r a n t = t\<lparr>at_store := (at_store t)(r := None),
     at_nodes := (at_nodes t)(ar_node a \<mapsto> (retire cfg (ar_state a) n)\<lparr>nh_records := remove1 r (nh_records n)\<rparr>)\<rparr>"

lemma counted_none [simp]: "\<not> counted k RNone"
  by (cases k) (simp_all add: is_weakly_suspicious_def is_reported_def)

lemma retire_sel [simp]:
  "nh_records (retire cfg s n) = nh_records n"
  "counter k (retire cfg s n) = counter k n - of_bool (counted k s)"
  by (simp_all add: retire_def counter_count_states counter_count_reported)

lemma retire_level:
  assumes "nh_level n = nh_weak n * ac_weak_level cfg + nh_strong n * ac_strong_level cfg + nh_reject n * ac_reject_level cfg"
  shows "nh_level (retire cfg s n) = nh_weak (retire cfg s n) * ac_weak_level cfg
    + nh_strong (retire cfg s n) * ac_strong_level cfg + nh_reject (retire cfg s n) * ac_reject_level cfg"
  using assms level_count_states by (simp add: retire_def)

lemma update_state_none:
  assumes a: "at_store t r = Some a" and n: "at_nodes t (ar_node a) = Some n"
  shows "update_state cfg r RNone t = Some (if ar_state a = RNone then t
    else set_rec r (a\<lparr>ar_state := RNone\<rparr>) (set_node (ar_node a) (retire cfg (ar_state a) n) t))"
proof -
  have eq: "set_node i m (set_node i k t) = set_node i m t" for i m k by (simp add: set_node_def)
  have "\<not> (nh_reported n < ac_report_threshold cfg \<and> nh_reported (count_reported (ar_state a) RNone n) \<ge> ac_report_threshold cfg)"
    by (auto simp: count_reported_def is_reported_def)
  with assms show ?thesis
    by (auto simp: update_state_def numeral_2_eq_2 update_state_depth.simps(2) [of _ "Suc 0"]
        update_record_state_def Let_def retire_def eq)
qed

lemma remove_record_drops:
  assumes a: "at_store t r = Some a" and n: "at_nodes t (ar_node a) = Some n"
  shows "remove_record cfg (ar_node a) r t = Some (drop_record cfg r a n t)"
proof (cases "ar_state a = RNone")
  case True
  with assms show ?thesis
    by (simp add: remove_record_def update_state_none [OF assms] drop_record_def retire_def set_node_def)
next
  case False
  let ?n = "retire cfg (ar_state a) n"
  have "remove_record cfg (ar_node a) r t =
      Some ((set_node (ar_node a) (?n\<lparr>nh_records := remove1 r (nh_records n)\<rparr>)
        (set_rec r (a\<lparr>ar_state := RNone\<rparr>) (set_node (ar_node a) ?n t)))
        \<lparr>at_store := (at_store t)(r := None)\<rparr>)"
    using False by (simp add: remove_record_def update_state_none [OF assms])
  also have "\<dots> = Some (drop_record cfg r a n t)"
    by (simp add: drop_record_def set_node_def set_rec_def)
  finally show ?thesis .
qed

lemma drop_sel [simp]:
  "at_store (drop_record cfg r a n t) = (at_store t)(r := None)"
  "at_nodes (drop_record cfg r a n t) = (at_nodes t)(ar_node a \<mapsto>
     (retire cfg (ar_state a) n)\<lparr>nh_records := remove1 r (nh_records n)\<rparr>)"
  "at_next (drop_record cfg r a n t) = at_next t" "at_delayed (drop_record cfg r a n t) = at_delayed t"
  "at_history_start (drop_record cfg r a n t) = at_history_start t"
  "at_last_compact (drop_record cfg r a n t) = at_last_compact t"
  by (simp_all add: drop_record_def)

lemma counter_records [simp]: "counter k (n\<lparr>nh_records := rs\<rparr>) = counter k n"
  by (cases k) simp_all

lemma tally_remove1:
  assumes "distinct rs" "r \<in> set rs" "at_store t r = Some a" "at_store t' = (at_store t)(r := None)"
  shows "tally k t' (remove1 r rs) = tally k t rs - of_bool (counted k (ar_state a))"
proof -
  have "filter (state_counted k t') (remove1 r rs) = remove1 r (filter (state_counted k t) rs)"
    using assms(1,3,4) by (induction rs) (auto simp: state_counted_def remove1_filter_not split: if_splits intro!: filter_cong)
  moreover have "r \<in> set (filter (state_counted k t) rs) \<longleftrightarrow> counted k (ar_state a)"
    using assms(2,3) by (simp add: state_counted_def)
  ultimately show ?thesis
    using length_pos_if_in_set [of r "filter (state_counted k t) rs"]
    by (auto simp: tally_def length_remove1 of_nat_diff Suc_leI)
qed

lemma drop_keeps:
  assumes placed: "placed t" and tallied: "tallied t" and levels: "levels_cached cfg t"
    and a: "at_store t r = Some a" and n: "at_nodes t (ar_node a) = Some n"
  shows "placed (drop_record cfg r a n t)" "tallied (drop_record cfg r a n t)"
    "levels_cached cfg (drop_record cfg r a n t)"
proof -
  let ?t = "drop_record cfg r a n t"
  have r: "r \<in> set (nh_records n)" "distinct (nh_records n)"
    using placed_recordD [OF placed a] n by auto
  have other: "r \<notin> set (nh_records m)" if "at_nodes t j = Some m" "j \<noteq> ar_node a" for j m
    using placed_nodeD(2) [OF placed that(1), of r] a that(2) by auto
  show "placed ?t"
    unfolding placed_def
  proof (intro conjI allI impI ballI)
    fix q b assume b: "at_store ?t q = Some b"
    then have q: "q \<noteq> r" "at_store t q = Some b" by (auto split: if_splits)
    obtain m where m: "at_nodes t (ar_node b) = Some m" "q \<in> set (nh_records m)"
      by (rule placed_recordD [OF placed q(2)])
    then show "\<exists>n. at_nodes ?t (ar_node b) = Some n \<and> q \<in> set (nh_records n)"
      using q n by (cases "ar_node b = ar_node a") auto
    show "q < at_next ?t" using placed q(2) by (simp add: placed_def)
  next
    fix j m assume m: "at_nodes ?t j = Some m"
    show "distinct (nh_records m)"
      using m placed_nodeD(1) [OF placed, of j] r(2) by (auto split: if_splits intro: distinct_remove1)
    fix q assume q: "q \<in> set (nh_records m)"
    then obtain k where k: "at_nodes t j = Some k" "q \<in> set (nh_records k)" "q \<noteq> r"
    proof (cases "j = ar_node a")
      case True
      with m q r(2) n that show thesis by auto
    next
      case False
      with m q other [of j m] that show thesis by auto
    qed
    from placed_nodeD(2) [OF placed k(1,2)] k(3) show "\<exists>a. at_store ?t q = Some a \<and> ar_node a = j" by auto
  qed
  have "drift k j ?t = drift k j t" for k j
  proof (cases "j = ar_node a")
    case True
    have "tally k ?t (remove1 r (nh_records n)) = tally k t (nh_records n) - of_bool (counted k (ar_state a))"
      by (rule tally_remove1 [OF r(2,1) a]) simp
    with True n show ?thesis by (simp add: drift_def)
  next
    case False
    show ?thesis
    proof (cases "at_nodes t j")
      case (Some m)
      have "filter (state_counted k ?t) (nh_records m) = filter (state_counted k t) (nh_records m)"
        using other [OF Some False] by (intro filter_cong) (auto simp: state_counted_def)
      with False Some show ?thesis by (simp add: drift_def tally_def)
    qed (use False in \<open>simp add: drift_def\<close>)
  qed
  with tallied show "tallied ?t" by (simp add: tallied_def)
  show "levels_cached cfg ?t"
    using levels n retire_level [of n cfg "ar_state a"] by (auto simp: levels_cached_def)
qed

section \<open>Compaction\<close>

text \<open>
  \<open>t'\<close> is what is left of \<open>t\<close>: the records that are gone are older than the bound, or their peers are.
\<close>

definition compacted :: "arb_config \<Rightarrow> stopwatch_time \<Rightarrow> arb_table \<Rightarrow> arb_table \<Rightarrow> bool" where
  "compacted cfg bound t t' \<longleftrightarrow> table_ok cfg t' \<and> (\<forall>r a. at_store t' r = Some a \<longrightarrow> at_store t r = Some a) \<and>
     (\<forall>r a. at_store t r = Some a \<longrightarrow> at_store t' r = None \<longrightarrow> ar_process_time a < bound \<or>
        (\<exists>p b. ar_peer a = Some p \<and> at_store t p = Some b \<and> ar_process_time b < bound)) \<and>
     at_delayed t' = at_delayed t \<and> at_last_compact t' = at_last_compact t \<and>
     (\<forall>i. at_nodes t i = None \<longrightarrow> at_nodes t' i = None)"

lemma compacted_refl: "table_ok cfg t \<Longrightarrow> compacted cfg bound t t"
  by (simp add: compacted_def)

lemma compacted_goneD:
  assumes "compacted cfg bound t t'" "at_store t r = Some a" "at_store t' r = None"
  shows "ar_process_time a < bound \<or> (\<exists>p b. ar_peer a = Some p \<and> at_store t p = Some b \<and> ar_process_time b < bound)"
  using assms unfolding compacted_def by blast

lemma compacted_trans:
  assumes "compacted cfg bound t t'" "compacted cfg bound t' t''"
  shows "compacted cfg bound t t''"
proof -
  have "ar_process_time a < bound \<or> (\<exists>p b. ar_peer a = Some p \<and> at_store t p = Some b \<and> ar_process_time b < bound)"
    if a: "at_store t r = Some a" "at_store t'' r = None" for r a
  proof (cases "at_store t' r")
    case None
    with assms(1) a(1) show ?thesis by (simp add: compacted_def)
  next
    case (Some b)
    then have "b = a" using assms(1) a(1) unfolding compacted_def by (metis option.inject)
    with Some a(2) assms show ?thesis unfolding compacted_def by blast
  qed
  then show ?thesis using assms by (auto simp: compacted_def)
qed

lemma table_ok_substore:
  assumes ok: "table_ok cfg t" and parts: "placed t'" "tallied t'" "levels_cached cfg t'"
    and sub: "\<And>r a. at_store t' r = Some a \<Longrightarrow> at_store t r = Some a"
    and closed: "\<And>r a p. at_store t' r = Some a \<Longrightarrow> ar_peer a = Some p \<Longrightarrow> at_store t' p \<noteq> None"
  shows "table_ok cfg t'"
proof -
  have "paired t'"
    unfolding paired_def
  proof (intro allI impI)
    fix r a p assume a: "at_store t' r = Some a" and p: "ar_peer a = Some p"
    obtain b where "at_store t p = Some b" "ar_peer b = Some r" "p \<noteq> r"
      by (rule linked_peerD [OF table_okD(1) [OF ok] sub [OF a] p])
    with closed [OF a p] sub show "p \<noteq> r \<and> (\<exists>b. at_store t' p = Some b \<and> ar_peer b = Some r)" by fastforce
  qed
  moreover have "peers_present t'" "pair_exclusive t'"
    using table_okD(4,5) [OF ok] sub unfolding peers_present_def pair_exclusive_def by blast+
  ultimately show ?thesis using parts by (simp add: table_ok_def linked_parts)
qed

lemma last_remove1: "distinct xs \<Longrightarrow> xs \<noteq> [] \<Longrightarrow> x \<noteq> last xs \<Longrightarrow> last (remove1 x xs) = last xs \<and> remove1 x xs \<noteq> []"
  by (induction xs) auto

lemma remove_oldest:
  assumes ok: "table_ok cfg t" and n: "at_nodes t i = Some n" and recs: "nh_records n \<noteq> []"
    and a: "at_store t (last (nh_records n)) = Some a" and old: "ar_process_time a < bound"
  obtains t1 n1 t2 n2 where
    "(case ar_peer a of None \<Rightarrow> Some t
       | Some p \<Rightarrow> do { b \<leftarrow> at_store t p; remove_record cfg (ar_node b) p t }) = Some t1"
    "at_nodes t1 i = Some n1" "nh_records n1 \<noteq> []" "remove_record cfg i (last (nh_records n1)) t1 = Some t2"
    "compacted cfg bound t t2" "at_nodes t2 i = Some n2" "length (nh_records n2) < length (nh_records n)"
proof -
  note result = that
  let ?r = "last (nh_records n)"
  have linked: "linked t" using table_okD(1) [OF ok] .
  note parts = linked [unfolded linked_parts, THEN conjunct1] table_okD(2,3) [OF ok]
  have i: "ar_node a = i" using linked_nodeD(2) [OF linked n, of ?r] a recs by auto
  have dist: "distinct (nh_records n)" using linked_nodeD(1) [OF linked n] .
  have final: thesis
    if t1: "(case ar_peer a of None \<Rightarrow> Some t
       | Some p \<Rightarrow> do { b \<leftarrow> at_store t p; remove_record cfg (ar_node b) p t }) = Some t1"
      and n1: "at_nodes t1 i = Some n1" "nh_records n1 \<noteq> []" "last (nh_records n1) = ?r"
        "length (nh_records n1) \<le> length (nh_records n)"
      and p1: "placed t1" "tallied t1" "levels_cached cfg t1" and a1: "at_store t1 ?r = Some a"
      and store: "at_store (drop_record cfg ?r a n1 t1) = at_store t |` (- D)"
      and D: "?r \<in> D" "\<And>q b. q \<in> D \<Longrightarrow> at_store t q = Some b \<Longrightarrow> q \<noteq> ?r \<Longrightarrow> ar_peer b = Some ?r"
        "\<And>q b p. at_store t q = Some b \<Longrightarrow> ar_peer b = Some p \<Longrightarrow> p \<in> D \<Longrightarrow> q \<in> D"
      and same: "at_delayed t1 = at_delayed t" "at_last_compact t1 = at_last_compact t"
        "\<And>j. at_nodes t1 j = None \<longleftrightarrow> at_nodes t j = None" for t1 n1 D
  proof -
    let ?t2 = "drop_record cfg ?r a n1 t1"
    have n1': "at_nodes t1 (ar_node a) = Some n1" using n1(1) i by simp
    have ret: "remove_record cfg i ?r t1 = Some ?t2" using remove_record_drops [OF a1 n1'] i by simp
    have sub: "at_store ?t2 q = Some b \<Longrightarrow> at_store t q = Some b" for q b
      unfolding store by (simp add: restrict_map_def split: if_splits)
    have "table_ok cfg ?t2"
    proof (rule table_ok_substore [OF ok drop_keeps [OF p1 a1 n1'] sub])
      fix q b p assume b: "at_store ?t2 q = Some b" "ar_peer b = Some p"
      then have q: "at_store t q = Some b" "q \<notin> D"
        unfolding store by (auto simp: restrict_map_def split: if_splits)
      obtain c where "at_store t p = Some c" by (rule linked_peerD [OF linked q(1) b(2)])
      moreover have "p \<notin> D" using D(3) [OF q(1) b(2)] q(2) by blast
      ultimately show "at_store ?t2 p \<noteq> None" unfolding store by simp
    qed
    moreover have "ar_process_time b < bound \<or> (\<exists>p c. ar_peer b = Some p \<and> at_store t p = Some c \<and> ar_process_time c < bound)"
      if b: "at_store t q = Some b" "at_store ?t2 q = None" for q b
    proof -
      have "q \<in> D" using b unfolding store by (simp add: restrict_map_def split: if_splits)
      then show ?thesis using D(2) [of q b] a b(1) old by (cases "q = ?r") auto
    qed
    ultimately have "compacted cfg bound t ?t2"
      using sub same n1' n i by (auto simp: compacted_def)
    moreover have "length (remove1 ?r (nh_records n1)) < length (nh_records n)"
    proof -
      have "?r \<in> set (nh_records n1)" using n1(2,3) last_in_set by metis
      then show ?thesis using n1(4) by (simp add: length_remove1) (metis One_nat_def Suc_pred length_pos_if_in_set less_eq_Suc_le)
    qed
    ultimately show thesis using result [OF t1 n1(1,2)] ret n1(3) i n1(1) by simp
  qed
  show ?thesis
  proof (cases "ar_peer a")
    case None
    show ?thesis
    proof (rule final [of t n "{?r}"])
      fix q b p assume "at_store t q = Some b" "ar_peer b = Some p" "p \<in> {?r}"
      then show "q \<in> {?r}" using linked_peerD [OF linked, of q b p] a None by auto
    qed (use None n recs parts a in \<open>auto simp: fun_eq_iff restrict_map_def\<close>)
  next
    case (Some p)
    obtain b where b: "at_store t p = Some b" "ar_peer b = Some ?r" "p \<noteq> ?r"
      by (rule linked_peerD [OF linked a Some])
    obtain m where m: "at_nodes t (ar_node b) = Some m" by (rule linked_recordD [OF linked b(1)])
    let ?t1 = "drop_record cfg p b m t"
    define n1 where "n1 = the (at_nodes ?t1 i)"
    have n1: "at_nodes ?t1 i = Some n1" "nh_records n1 = (if ar_node b = i then remove1 p (nh_records n) else nh_records n)"
      using n m by (auto simp: n1_def)
    show ?thesis
    proof (rule final [of ?t1 n1 "{?r, p}"])
      show "nh_records n1 \<noteq> []" "last (nh_records n1) = ?r"
        using last_remove1 [OF dist recs b(3)] recs n1(2) by auto
      show "length (nh_records n1) \<le> length (nh_records n)" using n1(2) by (simp add: length_remove1)
      show "at_store (drop_record cfg ?r a n1 ?t1) = at_store t |` (- {?r, p})"
        by (auto simp: fun_eq_iff restrict_map_def)
      fix q c x assume c: "at_store t q = Some c" "ar_peer c = Some x" "x \<in> {?r, p}"
      obtain d where "at_store t x = Some d" "ar_peer d = Some q" by (rule linked_peerD [OF linked c(1,2)])
      with c(3) a b Some show "q \<in> {?r, p}" by auto
    qed (use Some b m n1(1) drop_keeps [OF parts b(1) m] remove_record_drops [OF b(1) m] a in \<open>auto split: if_splits\<close>)
  qed
qed

lemma node_compact_loop_sound:
  assumes "table_ok cfg t" "at_nodes t i = Some n" "length (nh_records n) < k"
  shows "\<exists>t' n'. node_compact_loop cfg i bound k t = Some t' \<and> compacted cfg bound t t' \<and> at_nodes t' i = Some n'"
  using assms
proof (induction k arbitrary: t n)
  case (Suc k)
  show ?case
  proof (cases "nh_records n = []")
    case True
    with Suc.prems compacted_refl show ?thesis by auto
  next
    case recs: False
    then obtain a where a: "at_store t (last (nh_records n)) = Some a"
      using linked_nodeD(2) [OF table_okD(1) [OF Suc.prems(1)] Suc.prems(2), of "last (nh_records n)"] by auto
    show ?thesis
    proof (cases "ar_process_time a < bound")
      case False
      with Suc.prems a recs compacted_refl show ?thesis by (auto simp: Let_def)
    next
      case True
      obtain t1 n1 t2 n2 where
        1: "(case ar_peer a of None \<Rightarrow> Some t
           | Some p \<Rightarrow> do { b \<leftarrow> at_store t p; remove_record cfg (ar_node b) p t }) = Some t1"
        and 2: "at_nodes t1 i = Some n1" "nh_records n1 \<noteq> []" "remove_record cfg i (last (nh_records n1)) t1 = Some t2"
        and 3: "compacted cfg bound t t2" "at_nodes t2 i = Some n2" "length (nh_records n2) < length (nh_records n)"
        by (rule remove_oldest [OF Suc.prems(1,2) recs a True])
      have "node_compact_loop cfg i bound (Suc k) t = node_compact_loop cfg i bound k t2"
        unfolding node_compact_loop.simps Suc.prems(2) Option.bind.simps if_not_P [OF recs] Let_def a if_P [OF True]
          1 2(1,3) if_not_P [OF 2(2)] ..
      moreover have "length (nh_records n2) < k" using 3(3) Suc.prems(3) by simp
      moreover have "table_ok cfg t2" using 3(1) by (simp add: compacted_def)
      ultimately show ?thesis using Suc.IH [OF _ 3(2)] compacted_trans [OF 3(1)] by metis
    qed
  qed
qed simp

lemma tally_store: "at_store t' = at_store t \<Longrightarrow> tally k t' rs = tally k t rs"
  by (simp add: tally_def state_counted_def [abs_def])

lemma tally_other [simp]:
  "tally k (t\<lparr>at_nodes := ns\<rparr>) rs = tally k t rs" "tally k (t\<lparr>at_history_start := x\<rparr>) rs = tally k t rs"
  "tally k (t\<lparr>at_last_compact := x\<rparr>) rs = tally k t rs" "tally k (t\<lparr>at_delayed := qs\<rparr>) rs = tally k t rs"
  by (rule tally_store, simp)+

lemma erase_node:
  assumes ok: "table_ok cfg t" and n: "at_nodes t i = Some n" "nh_records n = []"
  shows "compacted cfg bound t (t\<lparr>at_nodes := (at_nodes t)(i := None)\<rparr>)" (is "compacted cfg bound t ?t")
proof -
  have none: "ar_node a \<noteq> i" if "at_store t r = Some a" for r a
    by (rule linked_recordD [OF table_okD(1) [OF ok] that]) (use n in auto)
  have "placed ?t"
    using table_okD(1) [OF ok, unfolded linked_parts] none unfolding placed_def by (auto split: if_splits)
  moreover have "drift k j ?t = 0" for k j
    using table_okD(2) [OF ok] by (simp add: tallied_def drift_def split: option.splits)
  moreover have "levels_cached cfg ?t"
    using table_okD(3) [OF ok] by (auto simp: levels_cached_def)
  moreover have "at_store t p \<noteq> None" if "at_store t r = Some a" "ar_peer a = Some p" for r a p
    by (rule linked_peerD [OF table_okD(1) [OF ok] that]) simp
  ultimately have "table_ok cfg ?t"
    by (intro table_ok_substore [OF ok]) (simp_all add: tallied_def)
  then show ?thesis by (simp add: compacted_def)
qed

lemma compact_nodes_sound:
  assumes "table_ok cfg t"
  shows "\<exists>t'. compact_nodes cfg bound is t = Some t' \<and> compacted cfg bound t t'"
  using assms
proof (induction "is" arbitrary: t)
  case Nil
  then show ?case using compacted_refl by simp
next
  case (Cons i "is")
  show ?case
  proof (cases "at_nodes t i")
    case None
    with Cons show ?thesis by simp
  next
    case (Some n)
    obtain t1 n1 where t1: "node_compact_loop cfg i bound (Suc (length (nh_records n))) t = Some t1"
      "compacted cfg bound t t1" "at_nodes t1 i = Some n1"
      using node_compact_loop_sound [OF Cons.prems Some lessI] by blast
    define t2 where "t2 = (if nh_records n1 = [] \<and> nh_last_received n1 < bound
      then t1\<lparr>at_nodes := (at_nodes t1)(i := None)\<rparr> else t1)"
    have ok1: "table_ok cfg t1" using t1(2) by (simp add: compacted_def)
    have t2: "compacted cfg bound t1 t2"
      using erase_node [OF ok1 t1(3)] compacted_refl [OF ok1] by (simp add: t2_def)
    then obtain t' where t': "compact_nodes cfg bound is t2 = Some t'" "compacted cfg bound t2 t'"
      using Cons.IH [of t2] by (auto simp: compacted_def)
    have "compact_nodes cfg bound (i # is) t = Some t'"
      using Some t1(1,3) t'(1) by (simp add: node_compact_def t2_def del: node_compact_loop.simps)
    with compacted_trans [OF compacted_trans [OF t1(2) t2] t'(2)] show ?thesis by blast
  qed
qed

text \<open>The invariants do not mention the two times of the table or the list of delayed records.\<close>

lemma table_ok_times [simp]:
  "table_ok cfg (t\<lparr>at_history_start := x\<rparr>) = table_ok cfg t"
  "table_ok cfg (t\<lparr>at_last_compact := x\<rparr>) = table_ok cfg t"
  "table_ok cfg (t\<lparr>at_delayed := rs\<rparr>) = table_ok cfg t"
  by (simp_all add: table_ok_def linked_def tallied_def drift_def levels_cached_def peers_present_def
      pair_exclusive_def split: option.split)

text \<open>The keep interval is at least the delay interval, as the defaults of the configuration have it.\<close>

definition timely :: "arb_config \<Rightarrow> stopwatch_time \<Rightarrow> bool" where
  "timely cfg now \<longleftrightarrow> time_sub now (record_keep_interval cfg) \<le> time_sub now (ac_delay_interval cfg)"

lemma timelyI:
  assumes "0 \<le> ac_delay_interval cfg" "ac_delay_interval cfg \<le> record_keep_interval cfg"
    "record_keep_interval cfg < span_max" "0 \<le> now" "now < time_max"
  shows "timely cfg now"
proof -
  have "in_int64 (now - ac_delay_interval cfg)" "in_int64 (now - record_keep_interval cfg)"
    using assms by (simp_all add: in_int64_iff time_max_def span_max_def int64_max_def)
  with assms show ?thesis by (simp add: timely_def time_sub_exact)
qed

text \<open>Neither the record nor its peer is old enough to be deleted.\<close>

definition younger :: "stopwatch_time \<Rightarrow> arb_table \<Rightarrow> rec_id \<Rightarrow> bool" where
  "younger bound t r \<longleftrightarrow> (\<exists>a. at_store t r = Some a \<and> bound \<le> ar_process_time a \<and>
     (\<forall>p b. ar_peer a = Some p \<longrightarrow> at_store t p = Some b \<longrightarrow> bound \<le> ar_process_time b))"

lemma younger_aged:
  assumes aged: "aged now t t'" and young: "younger bound t r" and now: "bound \<le> now"
  shows "younger bound t' r"
proof -
  obtain a where a: "at_store t r = Some a" "bound \<le> ar_process_time a"
    "\<And>p b. ar_peer a = Some p \<Longrightarrow> at_store t p = Some b \<Longrightarrow> bound \<le> ar_process_time b"
    using young unfolding younger_def by blast
  obtain a' where a': "at_store t' r = Some a'" "ages now t a a'" by (rule agedD [OF aged a(1)])
  have "bound \<le> ar_process_time b'" if p: "ar_peer a = Some p" "at_store t' p = Some b'" for p b'
  proof -
    obtain b where b: "at_store t p = Some b" using aged p(2) unfolding aged_def by blast
    obtain b2 where "at_store t' p = Some b2" "ages now t b b2" by (rule agedD [OF aged b])
    with p a(3) [OF p(1) b] now show ?thesis by (auto simp: ages_def)
  qed
  with a' a(2) now show ?thesis by (auto simp: younger_def ages_def)
qed

lemma delayed_ok_compacted:
  assumes inv: "delayed_ok now t" and comp: "compacted cfg bound t t'"
    and young: "\<And>r. r \<in> set (at_delayed t) \<Longrightarrow> younger bound t r"
  shows "delayed_ok now t'"
proof -
  have sub: "\<And>r a. at_store t' r = Some a \<Longrightarrow> at_store t r = Some a" using comp by (simp add: compacted_def)
  have "r \<in> dom (at_store t')" if r: "r \<in> set (at_delayed t')" for r
  proof (rule ccontr)
    assume gone: "r \<notin> dom (at_store t')"
    obtain a where a: "at_store t r = Some a" "bound \<le> ar_process_time a"
      "\<forall>p b. ar_peer a = Some p \<longrightarrow> at_store t p = Some b \<longrightarrow> bound \<le> ar_process_time b"
      using young [of r] r comp by (auto simp: younger_def compacted_def)
    have "at_store t' r = None" using gone by (simp add: domIff)
    from compacted_goneD [OF comp a(1) this] a(2,3) show False by (metis not_less)
  qed
  then show ?thesis using inv sub unfolding delayed_ok_def by blast
qed

lemma compact_sound:
  assumes ok: "table_ok cfg t" and inv: "delayed_ok now0 t" "now0 \<le> now" and timely: "timely cfg now"
  shows "\<exists>wait sent t'. compact cfg now visited t = Some (wait, sent, t') \<and> table_ok cfg t' \<and> delayed_ok now t'"
proof -
  let ?bound = "time_sub now (record_keep_interval cfg)"
  have "\<forall>r \<in> set (at_delayed t). at_store t r \<noteq> None"
    using inv(1) by (auto simp: delayed_ok_def)
  then obtain kept sent t1 where t1: "compact_delayed cfg now (at_delayed t) t = Some (kept, sent, t1)" "sound_step cfg t t1" "aged now t t1"
      "\<forall>r. decision_of t1 r = decision_of t r \<or> decision_of t1 r = Some DGrant"
    and kept: "\<And>r. r \<in> set kept \<Longrightarrow> \<exists>a. at_store t r = Some a \<and> ar_decision a = DDelay \<and>
       ar_process_time a > time_sub now (ac_delay_interval cfg)"
    using compact_delayed_sound [OF ok, of "at_delayed t" now] that by meson
  note ok1 = sound_step_ok [OF t1(2)]
  define t2 where "t2 = t1\<lparr>at_delayed := kept\<rparr>"
  have ok2: "table_ok cfg t2" using ok1 by (simp add: t2_def)
  have inv1: "delayed_ok now t1"
    by (rule delayed_ok_aged [OF _ _ inv t1(3)]) (use ok ok1 in \<open>auto dest: table_okD\<close>)
  have "dom (at_store t1) = dom (at_store t)" using t1(3) by (simp add: aged_def)
  then have inv2: "delayed_ok now t2" using inv1 kept by (fastforce simp: delayed_ok_def t2_def)
  have young: "younger ?bound t2 r" if r: "r \<in> set (at_delayed t2)" for r
  proof -
    obtain a where a: "at_store t r = Some a" "ar_decision a = DDelay"
      "ar_process_time a > time_sub now (ac_delay_interval cfg)" using kept [of r] r by (auto simp: t2_def)
    have bound: "?bound < ar_process_time a" using a(3) timely by (simp add: timely_def)
    have "?bound \<le> ar_process_time b" if "ar_peer a = Some p" "at_store t p = Some b" for p b
      using delayed_okD(3) [OF inv(1) a(1) that a(2)] bound by simp
    with a bound have "younger ?bound t r" by (auto simp: younger_def)
    moreover have "?bound \<le> now" using bound delayed_okD(1) [OF inv(1) a(1)] inv(2) by simp
    ultimately have "younger ?bound t1 r" using younger_aged [OF t1(3)] by blast
    then show ?thesis by (simp add: younger_def t2_def)
  qed
  obtain t3 where t3: "(if now > time_add (at_last_compact t2) (ac_cleanup_interval cfg) then do {
            t \<leftarrow> compact_internal cfg now visited t2;
            Some (t\<lparr>at_last_compact := now\<rparr>) }
          else Some t2) = Some t3" "table_ok cfg t3" "delayed_ok now t3"
  proof (cases "now > time_add (at_last_compact t2) (ac_cleanup_interval cfg)")
    case True
    obtain u where u: "compact_nodes cfg ?bound visited t2 = Some u" "compacted cfg ?bound t2 u"
      using compact_nodes_sound [OF ok2] by blast
    have "delayed_ok now u" by (rule delayed_ok_compacted [OF inv2 u(2) young])
    moreover have "table_ok cfg u" using u(2) by (simp add: compacted_def)
    ultimately show thesis
      using that [of "u\<lparr>at_history_start := max (at_history_start u) ?bound, at_last_compact := now\<rparr>"] True u(1)
      by (simp add: compact_internal_def delayed_ok_def)
  next
    case False
    with ok2 inv2 show thesis by (intro that [of t2]) simp_all
  qed
  obtain wait where wait: "(case at_delayed t3 of [] \<Rightarrow> Some (ac_delay_interval cfg)
       | r # _ \<Rightarrow> do { a \<leftarrow> at_store t3 r;
           Some (time_diff (ar_process_time a) (time_sub now (ac_delay_interval cfg))) }) = Some wait"
    using t3(3) by (cases "at_delayed t3") (auto simp: delayed_ok_def)
  have "compact cfg now visited t = Some (wait, sent, t3)"
    unfolding compact_def t1(1) Option.bind.simps case_prod_conv Let_def t2_def [symmetric] t3(1) wait ..
  with t3(2,3) show ?thesis by blast
qed

section \<open>Runs of the table\<close>

text \<open>
  One request or one run of the timer, at a time that does not go back. A call that does not return
  has no step. The timer may visit any nodes in any order.
\<close>

inductive arb_step :: "arb_config \<Rightarrow> stopwatch_time \<times> arb_table \<Rightarrow> stopwatch_time \<times> arb_table \<Rightarrow> bool" for cfg where
  request: "now \<le> now' \<Longrightarrow> process_request cfg now' q from t = Some (rep, resp, t') \<Longrightarrow>
    arb_step cfg (now, t) (now', t')"
| timer: "now \<le> now' \<Longrightarrow> timely cfg now' \<Longrightarrow> compact cfg now' visited t = Some (wait, sent, t') \<Longrightarrow>
    arb_step cfg (now, t) (now', t')"

inductive_cases arb_stepE: "arb_step cfg (now, t) (now', t')"

definition arb_inv :: "arb_config \<Rightarrow> stopwatch_time \<times> arb_table \<Rightarrow> bool" where
  "arb_inv cfg = (\<lambda>(now, t). table_ok cfg t \<and> delayed_ok now t)"

lemma arb_inv_start: "arb_inv cfg (now, new_table now)"
  by (simp add: arb_inv_def table_ok_def new_table_def linked_def tallied_def drift_def levels_cached_def
      peers_present_def pair_exclusive_def delayed_ok_def)

lemma arb_inv_step: "arb_step cfg s s' \<Longrightarrow> arb_inv cfg s \<Longrightarrow> arb_inv cfg s'"
proof (induction rule: arb_step.induct)
  case (request now now' q "from" t rep resp t')
  then show ?case
    using process_request_keeps process_request_delayed sound_step_ok by (fastforce simp: arb_inv_def)
next
  case (timer now now' visited t wait sent t')
  then show ?case using compact_sound [of cfg t now now' visited] by (auto simp: arb_inv_def)
qed

interpretation arb: kept_invariant "arb_step cfg" "arb_inv cfg" for cfg
  by unfold_locales (rule arb_inv_step)

lemma arb_reach:
  assumes "(arb_step cfg)\<^sup>*\<^sup>* (start, new_table start) (now, t)"
  shows "table_ok cfg t" "delayed_ok now t"
  using arb.run_keeps [OF assms arb_inv_start] by (simp_all add: arb_inv_def)

end
