(* ===== verification/Arbitration_Properties.thy ===== *)
theory Arbitration_Properties
  imports Arbitration_Timer
begin

text \<open>
  The properties of the arbitration table: what holds of every table that requests and timer runs,
  in any order, can make of the empty one.
\<close>

lemma same_records_decision: "same_records t t' \<Longrightarrow> decision_of t' = decision_of t"
proof -
  assume same: "same_records t t'"
  have eq: "decision_of u r = map_option ar_decision (map_option core_record (at_store u r))" for u r
    by (simp add: decision_of_def option.map_comp comp_def core_record_def)
  show ?thesis using same by (intro ext) (simp only: eq, simp only: same_records_def)
qed

section \<open>The properties\<close>

text \<open>C2: of the two sides of a failed lease never both are granted, now or when a delay is over: a side that
  is granted or delayed faces one that is rejected or not yet decided.\<close>

theorem arbitration_exclusive:
  assumes "(arb_step cfg)\<^sup>*\<^sup>* (start, new_table start) (now, t)"
    and "at_store t r = Some a" "ar_peer a = Some p" "at_store t p = Some b" "wins (ar_decision a)"
  shows "ar_decision b = DNone \<or> ar_decision b = DReject"
  using pair_exclusiveD [OF arb_reach(1) [OF assms(1)] assms(2-4)] assms(5) by (simp add: compatible_def)

text \<open>C10: the reply to a report is the decision of the monitor's record, and that decision follows the rule:
  it is determined by what was decided for the other side, and only an open case may be granted or delayed.\<close>

theorem arbitration_reply_correct:
  assumes "(arb_step cfg)\<^sup>*\<^sup>* (start, new_table start) (before, t)"
    and "rq_type q = TwoWaySimple \<or> rq_type q = TwoWayExtended \<or> rq_type q = OneWay" "\<not> pn_shutdown from"
    and "process_request cfg now q from t = Some (Some rep, resp, t')"
  shows "\<exists>m s a b da db. pair_of t' m s a b \<and> ar_node a = la_id (rq_monitor q) \<and>
    (decision_of t m = Some da \<or> decision_of t m = None \<and> da = DNone) \<and>
    (decision_of t s = Some db \<or> decision_of t s = None \<and> db = DNone) \<and>
    rep = arbitration_reply_body (if ar_decision a = DGrant then rq_subject_ttl q else span_max)
            (if ar_decision a = DReject then 0 else span_max) (is_present b) (ar_flags a) \<and>
    (if at_history_start t > time_sub now (history_needed cfg q) then ar_decision a = DReject \<and> ar_decision b = db
     else decision_rule (rq_type q) da db (ar_decision a) (ar_decision b) \<or>
       rq_type q = TwoWayExtended \<and> decision_rule TwoWaySimple da db (ar_decision a) (ar_decision b))"
proof (rule process_request_head [OF arb_reach(1) [OF assms(1)], of now q "from"], goal_cases)
  case (1 rep1 resp1 t1)
  then show ?case using assms(2-4) by auto
next
  case (2 t2 n2)
  then show ?case using assms(2) by auto
next
  case (3 t2 n2)
  let ?bound = "time_sub now (history_needed cfg q)"
  note ok2 = sound_step_ok [OF 3(2)]
  have ret: "process_lease_request cfg now q (la_id (rq_monitor q)) ?bound t2 = Some (rep, resp, t')"
    using trans [OF 3(5) [symmetric] assms(4)] by (auto simp: bind_Some_iff)
  then have safe: "found_safe cfg q ?bound t2" using process_lease_request_stops [OF ok2, of q ?bound now] by force
  obtain rep2 resp2 t3 m s a b da db where
    lease: "process_lease_request cfg now q (la_id (rq_monitor q)) ?bound t2 = Some (rep2, resp2, t3)"
    and p: "pair_of t3 m s a b" "ar_node a = la_id (rq_monitor q)"
      "decision_of t2 m = Some da \<or> decision_of t2 m = None \<and> da = DNone"
      "decision_of t2 s = Some db \<or> decision_of t2 s = None \<and> db = DNone"
      "rep2 = arbitration_reply_body (if ar_decision a = DGrant then rq_subject_ttl q else span_max)
             (if ar_decision a = DReject then 0 else span_max) (is_present b) (ar_flags a)"
      "if at_history_start t2 > ?bound then ar_decision a = DReject \<and> ar_decision b = db
       else \<exists>ty. (ty = rq_type q \<or> rq_type q = TwoWayExtended \<and> ty = TwoWaySimple) \<and>
         decision_rule ty da db (ar_decision a) (ar_decision b)"
    by (rule process_lease_request_sound [OF ok2 3(4) safe, of now])
  have eq: "rep2 = rep" "t3 = t'" using lease ret by simp_all
  have start: "at_history_start t2 = at_history_start t" using 3(2) by (simp add: sound_step_def)
  note p = p [unfolded eq start same_records_decision [OF 3(3)]]
  have rule: "if at_history_start t > ?bound then ar_decision a = DReject \<and> ar_decision b = db
     else decision_rule (rq_type q) da db (ar_decision a) (ar_decision b) \<or>
       rq_type q = TwoWayExtended \<and> decision_rule TwoWaySimple da db (ar_decision a) (ar_decision b)"
    using p(6) by (cases "at_history_start t > ?bound") auto
  show ?case
    by (rule exI [of _ m], rule exI [of _ s], rule exI [of _ a], rule exI [of _ b], rule exI [of _ da], rule exI [of _ db])
      (intro conjI p rule)
qed

text \<open>C5: the timer always returns: no pointer of the list of delayed records dangles, a compaction deletes
  both sides of a pair in turn and ends, and the wait it returns is read from a record that is there.\<close>

theorem arbitration_timer_total:
  assumes "(arb_step cfg)\<^sup>*\<^sup>* (start, new_table start) (before, t)" "before \<le> now" "timely cfg now"
  shows "\<exists>wait sent t'. compact cfg now visited t = Some (wait, sent, t') \<and>
    set (at_delayed t') \<subseteq> dom (at_store t')"
  using compact_sound [OF arb_reach [OF assms(1)] assms(2,3), of visited] by (auto simp: delayed_ok_def)


text \<open>C18: the counters of a node are the numbers of its records in the states they stand for, and its cached
  suspicion level is their weighted sum.\<close>

theorem suspicion_counters_exact:
  assumes "(arb_step cfg)\<^sup>*\<^sup>* (start, new_table start) (now, t)" "at_nodes t i = Some n"
  shows "nh_weak n = tally KWeak t (nh_records n) \<and> nh_strong n = tally KStrong t (nh_records n) \<and>
    nh_reject n = tally KReject t (nh_records n) \<and> nh_reported n = tally KReported t (nh_records n) \<and>
    nh_level n = nh_weak n * ac_weak_level cfg + nh_strong n * ac_strong_level cfg + nh_reject n * ac_reject_level cfg"
proof -
  note ok = table_okD [OF arb_reach(1) [OF assms(1)]]
  have "counter k n = tally k t (nh_records n)" for k
    using ok(2) assms(2) by (simp add: tallied_def drift_def) (metis diff_eq_eq add_0 option.simps(5))
  from this [of KWeak] this [of KStrong] this [of KReject] this [of KReported] show ?thesis
    using ok(3) assms(2) by (simp add: levels_cached_def)
qed

text \<open>C30: two mutually recursive calls are enough for every update of a state: it returns, and leaves all but
  the states and counters as they were.\<close>

theorem update_state_returns:
  assumes "(arb_step cfg)\<^sup>*\<^sup>* (start, new_table start) (now, t)" "at_store t r = Some a"
    and "s \<noteq> RImplicit" "ar_peer a = None \<longrightarrow> s = RExpired"
  shows "\<exists>t'. update_state cfg r s t = Some t' \<and> core t' = core t \<and> table_ok cfg t'"
  by (rule update_state_ok [OF arb_reach(1) [OF assms(1)] assms(2-4)]) blast

section \<open>Concrete runs\<close>

definition sample_config :: arb_config where
  "sample_config = \<lparr>ac_report_threshold = 3, ac_weak_level = 1, ac_strong_level = 5, ac_reject_level = 10,
    ac_level_threshold = 5, ac_keep_alive_threshold = 1, ac_comparison_threshold = 5, ac_suspicion_expire = 1000,
    ac_max_arbitration_timeout = 200, ac_lease_duration = 30, ac_max_lease_duration = 300,
    ac_max_implicit_lease = 400, ac_delay_interval = 20, ac_cleanup_interval = 600\<rparr>"

definition sample_partner :: arb_partner where
  "sample_partner = \<lparr>pn_instance = NodeInstance (NodeId (LargeInteger 0 1)) 1, pn_shutdown = False\<rparr>"

definition sample_request :: "arbitration_type \<Rightarrow> string \<Rightarrow> string \<Rightarrow> arbitration_request" where
  "sample_request ty a b =
     \<lparr>rq_monitor = LeaseAgentInstance a 1, rq_subject = LeaseAgentInstance b 1, rq_subject_ttl = 50,
      rq_history_needed = 0, rq_monitor_lease = 0, rq_subject_lease = 0, rq_extra_data = 0, rq_type = ty\<rparr>"

definition sample_reply :: "stopwatch_time \<Rightarrow> arbitration_request \<Rightarrow> arb_table
    \<Rightarrow> (arbitration_reply option \<times> delayed_response \<times> arb_table) option" where
  "sample_reply now q t = process_request sample_config now q sample_partner t"

definition sample_next :: "stopwatch_time \<Rightarrow> arbitration_request \<Rightarrow> arb_table \<Rightarrow> arb_table" where
  "sample_next now q t = snd (snd (the (sample_reply now q t)))"

text \<open>Two nodes report each other.\<close>

definition one_report :: arb_table where
  "one_report = sample_next 600 (sample_request TwoWaySimple ''a'' ''b'') (new_table 0)"

definition two_reports :: arb_table where
  "two_reports = sample_next 610 (sample_request TwoWaySimple ''b'' ''a'') one_report"

lemma sample_step:
  assumes "\<not> Option.is_none (sample_reply now' q t)" "now \<le> now'"
  shows "arb_step sample_config (now, t) (now', sample_next now' q t)"
proof -
  obtain rep resp t' where "sample_reply now' q t = Some (rep, resp, t')"
    using assms(1) by (cases "sample_reply now' q t") (auto simp: Option.is_none_def)
  then show ?thesis
    unfolding sample_next_def by (simp add: sample_reply_def arb_step.request [OF assms(2)])
qed

lemma one_report_run: "(arb_step sample_config)\<^sup>*\<^sup>* (0, new_table 0) (600, one_report)"
proof -
  have "\<not> Option.is_none (sample_reply 600 (sample_request TwoWaySimple ''a'' ''b'') (new_table 0))" by code_simp
  then show ?thesis unfolding one_report_def by (intro r_into_rtranclp sample_step) simp_all
qed

lemma two_reports_run: "(arb_step sample_config)\<^sup>*\<^sup>* (0, new_table 0) (610, two_reports)"
proof -
  have "\<not> Option.is_none (sample_reply 610 (sample_request TwoWaySimple ''b'' ''a'') one_report)" by code_simp
  then have "arb_step sample_config (600, one_report) (610, two_reports)"
    unfolding two_reports_def by (intro sample_step) simp_all
  with one_report_run show ?thesis by (rule rtranclp.rtrancl_into_rtrancl)
qed

lemma two_reports_pair:
  obtains a b where "at_store two_reports 0 = Some a" "ar_peer a = Some 1" "ar_decision a = DGrant"
    "at_store two_reports 1 = Some b"
proof -
  have "map_option ar_peer (at_store two_reports 0) = Some (Some 1) \<and> decision_of two_reports 0 = Some DGrant \<and>
    \<not> Option.is_none (at_store two_reports 1)" by code_simp
  with that show ?thesis by (cases "at_store two_reports 1") (auto simp: decision_of_def)
qed

theorem arbitration_exclusive_witness:
  "\<exists>a b. at_store two_reports 0 = Some a \<and> ar_decision a = DGrant \<and> at_store two_reports 1 = Some b \<and>
     (ar_decision b = DNone \<or> ar_decision b = DReject)"
proof -
  obtain a b where p: "at_store two_reports 0 = Some a" "ar_peer a = Some 1" "ar_decision a = DGrant"
    "at_store two_reports 1 = Some b" by (rule two_reports_pair)
  with arbitration_exclusive [OF two_reports_run p(1,2,4)] show ?thesis by (auto simp: wins_def)
qed

theorem arbitration_reply_correct_witness:
  "\<exists>rep resp t' m s a b. process_request sample_config 610 (sample_request TwoWaySimple ''b'' ''a'') sample_partner one_report
       = Some (Some rep, resp, t') \<and> pair_of t' m s a b \<and> ar_node a = ''b'' \<and>
     rp_monitor_ttl rep = (if ar_decision a = DReject then 0 else span_max)"
proof -
  let ?q = "sample_request TwoWaySimple ''b'' ''a''"
  have "(case sample_reply 610 ?q one_report of Some (Some rep, x) \<Rightarrow> True | _ \<Rightarrow> False)" by code_simp
  then obtain rep resp t' where ret: "process_request sample_config 610 ?q sample_partner one_report = Some (Some rep, resp, t')"
    unfolding sample_reply_def by (auto split: option.splits)
  have "rq_type ?q = TwoWaySimple" "\<not> pn_shutdown sample_partner" "la_id (rq_monitor ?q) = ''b''"
    by (simp_all add: sample_request_def sample_partner_def)
  with arbitration_reply_correct [OF one_report_run _ _ ret] ret show ?thesis
    by (fastforce simp: arbitration_reply_body_def)
qed

theorem arbitration_timer_total_witness:
  "\<exists>wait sent t'. compact sample_config 700 [''a'', ''b''] two_reports = Some (wait, sent, t')"
proof -
  have "timely sample_config 700" by code_simp
  with arbitration_timer_total [OF two_reports_run, of 700 "[''a'', ''b'']"] show ?thesis by auto
qed


theorem suspicion_counters_exact_witness:
  "\<exists>n. at_nodes two_reports ''a'' = Some n \<and> nh_reported n = tally KReported two_reports (nh_records n)"
proof -
  have "\<not> Option.is_none (at_nodes two_reports ''a'')" by code_simp
  then obtain n where n: "at_nodes two_reports ''a'' = Some n" by (auto simp: Option.is_none_def)
  with suspicion_counters_exact [OF two_reports_run n] show ?thesis by blast
qed

theorem update_state_returns_witness: "\<exists>t'. update_state sample_config 0 RConfirmed two_reports = Some t'"
proof -
  obtain a b where "at_store two_reports 0 = Some a" "ar_peer a = Some 1" by (rule two_reports_pair)
  with update_state_returns [OF two_reports_run, of 0 a RConfirmed] show ?thesis by auto
qed


end
