(* ===== verification/Nt_Status.thy ===== *)
theory Nt_Status
  imports Fabric_Base
begin

section \<open>Status codes and the outcome of a stream operation\<close>

text \<open>
  The serialization layer reports through \<open>NTSTATUS\<close> values. \<open>ntstatus\<close> lists the ones its code
  uses, \<open>status_code\<close> their numbers (ktl/src/linuxinc/kstatus.h, src/pal/src/ntstatus.h), and
  \<open>nt_success\<close>, \<open>nt_error\<close> are the two macros of src/pal/src/ntdef.h on those numbers: a status can
  be neither (a warning, \<open>STATUS_END_OF_MEDIA\<close>), and \<open>K_STATUS_SCOPE_END\<close> and
  \<open>K_STATUS_BUFFER_TOO_SMALL\<close> are successes.

  The code tests \<open>NT_ERROR(status)\<close> after each call and returns the status at once. An operation
  that does so is a function into \<open>outcome\<close>: \<^term>\<open>Inl e\<close> for a returned error status (the stream is
  not used afterwards), \<^term>\<open>Inr (x, s)\<close> for a result and the stream. Two constructors are not
  statuses of the code: \<open>PROCESS_STOPPED\<close> stands for a failed \<open>ASSERT\<close> or \<open>KInvariant\<close> or an access
  outside a buffer, \<open>FUEL_EXHAUSTED\<close> for a loop that has not ended in the rounds it was given.
\<close>

datatype ntstatus =
    STATUS_SUCCESS
  | K_STATUS_BUFFER_TOO_SMALL
  | K_STATUS_SCOPE_END
  | STATUS_END_OF_MEDIA
  | STATUS_NO_MORE_ENTRIES
  | STATUS_INVALID_PARAMETER
  | STATUS_INVALID_PARAMETER_1
  | STATUS_INSUFFICIENT_RESOURCES
  | STATUS_INTERNAL_ERROR
  | K_STATUS_INVALID_STREAM_FORMAT
  | K_STATUS_OBJECT_ACTIVATION_FAILED
  | K_STATUS_UNEXPECTED_METADATA_READ
  | K_STATUS_NO_MORE_EXTENSION_BUFFERS
  | K_STATUS_INVALID_UNKNOWN_EXTENSION_BUFFERS
  | K_STATUS_COULD_NOT_READ_STREAM
  | K_STATUS_NO_MORE_UNKNOWN_BUFFERS
  | K_STATUS_OTHER_SERIALIZATION_ERRORS
  | PROCESS_STOPPED
  | FUEL_EXHAUSTED

fun status_code :: "ntstatus \<Rightarrow> u32" where
  "status_code STATUS_SUCCESS = 0"
| "status_code K_STATUS_BUFFER_TOO_SMALL = 0x20FF0014"
| "status_code K_STATUS_SCOPE_END = 0x20FF0019"
| "status_code STATUS_END_OF_MEDIA = 0x8000001E"
| "status_code STATUS_NO_MORE_ENTRIES = 0x8000001A"
| "status_code STATUS_INVALID_PARAMETER = 0xC000000D"
| "status_code STATUS_INVALID_PARAMETER_1 = 0xC00000EF"
| "status_code STATUS_INSUFFICIENT_RESOURCES = 0xC000009A"
| "status_code STATUS_INTERNAL_ERROR = 0xC00000E5"
| "status_code K_STATUS_INVALID_STREAM_FORMAT = 0xE0FF0015"
| "status_code K_STATUS_OBJECT_ACTIVATION_FAILED = 0xE0FF0016"
| "status_code K_STATUS_UNEXPECTED_METADATA_READ = 0xE0FF0017"
| "status_code K_STATUS_NO_MORE_EXTENSION_BUFFERS = 0xE0FF0018"
| "status_code K_STATUS_INVALID_UNKNOWN_EXTENSION_BUFFERS = 0xE0FF001A"
| "status_code K_STATUS_COULD_NOT_READ_STREAM = 0xE0FF001B"
| "status_code K_STATUS_NO_MORE_UNKNOWN_BUFFERS = 0xE0FF001C"
| "status_code K_STATUS_OTHER_SERIALIZATION_ERRORS = 0xE0FF0028"
| "status_code PROCESS_STOPPED = 0xFFFFFFFF"
| "status_code FUEL_EXHAUSTED = 0xFFFFFFFE"

definition nt_success :: "ntstatus \<Rightarrow> bool" where
  "nt_success st = (0 \<le> sint (status_code st))"

definition nt_error :: "ntstatus \<Rightarrow> bool" where
  "nt_error st = (drop_bit 30 (status_code st) = 3)"

lemma nt_success_cases [simp]:
  "nt_success st \<longleftrightarrow> st \<in> {STATUS_SUCCESS, K_STATUS_BUFFER_TOO_SMALL, K_STATUS_SCOPE_END}"
  by (cases st) (simp_all add: nt_success_def)

lemma nt_error_cases [simp]:
  "nt_error st \<longleftrightarrow>
     st \<notin> {STATUS_SUCCESS, K_STATUS_BUFFER_TOO_SMALL, K_STATUS_SCOPE_END, STATUS_END_OF_MEDIA,
       STATUS_NO_MORE_ENTRIES}"
  by (induction st; code_simp)

type_synonym ('a, 's) outcome = "ntstatus + 'a \<times> 's"

definition and_then :: "('a, 's) outcome \<Rightarrow> ('a \<Rightarrow> 's \<Rightarrow> ('b, 't) outcome) \<Rightarrow> ('b, 't) outcome" where
  "and_then r f = (case r of Inl e \<Rightarrow> Inl e | Inr (x, s) \<Rightarrow> f x s)"

lemma and_then_simps [simp]:
  "and_then (Inl e) f = Inl e"
  "and_then (Inr (x, s)) f = f x s"
  by (simp_all add: and_then_def)

lemma and_then_Inr_iff:
  "and_then r f = Inr y \<longleftrightarrow> (\<exists>x s. r = Inr (x, s) \<and> f x s = Inr y)"
  by (auto simp: and_then_def split: sum.split)

text \<open>A call that must succeed: it gives a result and a stream that satisfy \<open>Q\<close>.\<close>

definition yields :: "('a, 's) outcome \<Rightarrow> ('a \<Rightarrow> 's \<Rightarrow> bool) \<Rightarrow> bool" where
  "yields r Q = (case r of Inl e \<Rightarrow> False | Inr (x, s) \<Rightarrow> Q x s)"

lemma yields_Inr [simp]: "yields (Inr (x, s)) Q = Q x s"
  by (simp add: yields_def)

lemma yieldsE:
  assumes "yields r Q"
  obtains x s where "r = Inr (x, s)" "Q x s"
  using assms by (cases r) (auto simp: yields_def)

lemma yields_and_then:
  assumes "yields r Q" and "\<And>x s. Q x s \<Longrightarrow> yields (f x s) R"
  shows "yields (and_then r f) R"
  using assms by (auto elim: yieldsE)

lemma yields_weaken:
  assumes "yields r Q" and "\<And>x s. Q x s \<Longrightarrow> R x s"
  shows "yields r R"
  using assms by (auto elim: yieldsE)

end
