(* ===== verification/Mem_Channel.thy ===== *)
theory Mem_Channel
  imports Nt_Status
begin

section \<open>The memory channel\<close>

text \<open>
  ktl/src/inc/kmemchannel.h and ktl/src/src/kmemchannel.cpp: a seekable stream of bytes kept in
  blocks of different sizes. A block (\<open>KMemRef\<close>) is its bytes, whose number is \<open>_Size\<close>, and \<open>_Param\<close>,
  the number of bytes in use. \<open>_CurrentPtr\<close> is a block index and an offset. \<open>_TotalSize\<close> and
  \<open>_LogicalCursor\<close> are \<open>ULONG\<close> values and wrap; \<open>_RemainingInBlock\<close> is only decremented below a
  test and is a natural number, as are the counts of bytes a caller passes together with a buffer.
  A failed status is latched in \<open>ch_status\<close>. Memory allocation succeeds; a growth of zero bytes is
  the failure the code has.

  The abstraction is \<open>holds c bs p\<close>: the channel stands for the bytes \<open>bs\<close> with the cursor at \<open>p\<close>.
\<close>

record kmem_ref =
  ref_bytes :: "u8 list"
  ref_param :: u32

record kmem_channel =
  ch_buffers :: "kmem_ref list"
  ch_first_block :: nat
  ch_min_grow :: nat
  ch_max_grow :: nat
  ch_index :: int
  ch_ptr :: "nat \<times> nat"
  ch_remaining :: nat
  ch_total :: u32
  ch_cursor :: u32
  ch_short_fails :: bool
  ch_status :: ntstatus

subsection \<open>Construction, growth and block selection\<close>

definition mc_initialize :: "kmem_channel \<Rightarrow> kmem_channel" where
  "mc_initialize c = c\<lparr>ch_index := -1, ch_ptr := (0, 0), ch_remaining := 0, ch_total := 0,
     ch_cursor := 0, ch_short_fails := False, ch_status := STATUS_SUCCESS\<rparr>"

definition mc_new :: "nat \<Rightarrow> nat \<Rightarrow> nat \<Rightarrow> kmem_channel" where
  "mc_new first min_grow max_grow = mc_initialize
    \<lparr>ch_buffers = [], ch_first_block = first, ch_min_grow = min_grow, ch_max_grow = max_grow,
     ch_index = -1, ch_ptr = (0, 0), ch_remaining = 0, ch_total = 0, ch_cursor = 0,
     ch_short_fails = False, ch_status = STATUS_SUCCESS\<rparr>"

definition mc_cleanup :: "kmem_channel \<Rightarrow> kmem_channel" where
  "mc_cleanup c = mc_initialize (c\<lparr>ch_buffers := []\<rparr>)"

definition mc_reset :: "kmem_channel \<Rightarrow> kmem_channel" where
  "mc_reset c = mc_initialize (mc_cleanup c)"

definition mc_reset_to :: "nat \<Rightarrow> nat \<Rightarrow> nat \<Rightarrow> kmem_channel \<Rightarrow> kmem_channel" where
  "mc_reset_to first min_grow max_grow c =
    mc_initialize (mc_cleanup (c\<lparr>ch_first_block := first, ch_min_grow := min_grow, ch_max_grow := max_grow\<rparr>))"

definition mc_set_read_full_required :: "bool \<Rightarrow> kmem_channel \<Rightarrow> kmem_channel" where
  "mc_set_read_full_required on c = c\<lparr>ch_short_fails := on\<rparr>"

definition latch :: "ntstatus \<Rightarrow> kmem_channel \<Rightarrow> ntstatus \<times> kmem_channel" where
  "latch st c = (st, c\<lparr>ch_status := st\<rparr>)"

definition block_size :: "nat \<Rightarrow> kmem_channel \<Rightarrow> nat option" where
  "block_size hint c =
    (if ch_buffers c = [] then Some (ch_first_block c)
     else if hint < ch_min_grow c then Some (ch_min_grow c)
     else if ch_max_grow c < hint then Some (ch_max_grow c)
     else if hint mod ch_min_grow c = 0 then Some hint
     else let grown = (hint div ch_min_grow c + 1) * ch_min_grow c
          in if grown < 2 ^ 32 then Some grown else None)"

definition mc_grow :: "nat \<Rightarrow> kmem_channel \<Rightarrow> ntstatus \<times> kmem_channel" where
  "mc_grow hint c =
    (if \<not> nt_success (ch_status c) then (ch_status c, c)
     else case block_size hint c of
       None \<Rightarrow> (PROCESS_STOPPED, c)
     | Some grown \<Rightarrow>
         if grown = 0 then latch STATUS_INSUFFICIENT_RESOURCES c
         else (STATUS_SUCCESS,
               c\<lparr>ch_buffers := ch_buffers c @ [\<lparr>ref_bytes = replicate grown 0, ref_param = 0\<rparr>]\<rparr>))"

definition select_block :: "nat \<Rightarrow> kmem_channel \<Rightarrow> ntstatus \<times> kmem_channel" where
  "select_block block c =
    (if \<not> nt_success (ch_status c) then (ch_status c, c)
     else if length (ch_buffers c) < block then latch STATUS_INTERNAL_ERROR c
     else if block = length (ch_buffers c) then (STATUS_END_OF_MEDIA, c)
     else (STATUS_SUCCESS, c\<lparr>ch_index := int block, ch_ptr := (block, 0),
            ch_remaining := length (ref_bytes (ch_buffers c ! block))\<rparr>))"

subsection \<open>Writing\<close>

definition overwrite :: "'a list \<Rightarrow> nat \<Rightarrow> 'a list \<Rightarrow> 'a list" where
  "overwrite bs p data = take p bs @ data @ drop (p + length data) bs"

text \<open>The copy into the current block and the moves that follow it.\<close>

definition copy_in :: "u8 list \<Rightarrow> kmem_channel \<Rightarrow> kmem_channel" where
  "copy_in data c =
    (let (block, offset) = ch_ptr c
     in c\<lparr>ch_buffers := (ch_buffers c)[block :=
              (ch_buffers c ! block)\<lparr>ref_bytes := overwrite (ref_bytes (ch_buffers c ! block)) offset data\<rparr>],
          ch_ptr := (block, offset + length data),
          ch_remaining := ch_remaining c - length data,
          ch_cursor := ch_cursor c + of_nat (length data)\<rparr>)"

definition raise_total :: "kmem_channel \<Rightarrow> kmem_channel" where
  "raise_total c = (if ch_total c \<le> ch_cursor c then c\<lparr>ch_total := ch_cursor c\<rparr> else c)"

definition next_block :: "kmem_channel \<Rightarrow> nat" where
  "next_block c = nat (ch_index c + 1)"

text \<open>
  One round of the loop of \<open>SplitWrite\<close>: what fits goes into the current block; if more is left the
  next block is selected, after growing the channel when there is none.
\<close>

definition fill_block :: "u8 list \<Rightarrow> kmem_channel \<Rightarrow> kmem_channel" where
  "fill_block data c = (if 0 < ch_remaining c then copy_in (take (ch_remaining c) data) c else c)"

definition enter_next_block :: "nat \<Rightarrow> kmem_channel \<Rightarrow> ntstatus \<times> kmem_channel" where
  "enter_next_block hint c =
    (let block = next_block c;
         c = c\<lparr>ch_index := int block\<rparr>
     in if block = length (ch_buffers c) then
          let (st, c) = mc_grow hint c
          in if \<not> nt_success st then (st, c) else select_block block c
        else select_block block c)"

function split_write :: "u8 list \<Rightarrow> kmem_channel \<Rightarrow> ntstatus \<times> kmem_channel" where
  "split_write data c =
    (if 0 < ch_remaining c \<and> length data \<le> ch_remaining c
     then (STATUS_SUCCESS, raise_total (copy_in data c))
     else
       let data' = drop (ch_remaining c) data;
           (st, c') = enter_next_block (length data') (fill_block data c)
       in if \<not> nt_success st then (st, c') else split_write data' c')"
  by pat_completeness auto

lemma copy_in_simps [simp]:
  "ch_index (copy_in data c) = ch_index c" "ch_status (copy_in data c) = ch_status c"
  "ch_total (copy_in data c) = ch_total c" "ch_remaining (copy_in data c) = ch_remaining c - length data"
  "ch_cursor (copy_in data c) = ch_cursor c + of_nat (length data)"
  "length (ch_buffers (copy_in data c)) = length (ch_buffers c)"
  "ch_ptr (copy_in data c) = (fst (ch_ptr c), snd (ch_ptr c) + length data)"
  "ch_first_block (copy_in data c) = ch_first_block c" "ch_min_grow (copy_in data c) = ch_min_grow c"
  "ch_max_grow (copy_in data c) = ch_max_grow c" "ch_short_fails (copy_in data c) = ch_short_fails c"
  by (simp_all add: copy_in_def split: prod.split)

lemma latch_status [simp]: "latch st c = (st', c') \<longleftrightarrow> st' = st \<and> c' = c\<lparr>ch_status := st\<rparr>"
  by (auto simp: latch_def)

lemma mc_grow_success:
  assumes "mc_grow hint c = (st, c')" "nt_success st"
  shows "\<exists>grown. 0 < grown \<and> block_size hint c = Some grown \<and>
    c' = c\<lparr>ch_buffers := ch_buffers c @ [\<lparr>ref_bytes = replicate grown 0, ref_param = 0\<rparr>]\<rparr>"
proof -
  have "nt_success (ch_status c)"
  proof (rule ccontr)
    assume "\<not> nt_success (ch_status c)"
    then have "st = ch_status c" using assms(1) by (auto simp: mc_grow_def simp del: nt_success_cases)
    with assms(2) \<open>\<not> nt_success (ch_status c)\<close> show False by simp
  qed
  then show ?thesis
    using assms by (cases "block_size hint c") (auto simp: mc_grow_def split: if_splits)
qed

lemma select_block_success:
  assumes "select_block block c = (st, c')" "nt_success st"
  shows "block < length (ch_buffers c)"
    "c' = c\<lparr>ch_index := int block, ch_ptr := (block, 0),
        ch_remaining := length (ref_bytes (ch_buffers c ! block))\<rparr>"
  using assms by (auto simp: select_block_def split: if_splits)

lemma enter_next_block_success:
  assumes "enter_next_block hint c = (st, c')" "nt_success st"
  shows "ch_index c' = int (next_block c) \<and> next_block c < length (ch_buffers c') \<and>
    (if next_block c = length (ch_buffers c) then length (ch_buffers c') = Suc (next_block c) \<and> 0 < ch_remaining c'
     else length (ch_buffers c') = length (ch_buffers c))"
proof (cases "next_block c = length (ch_buffers c)")
  case True
  obtain st1 c1 where g: "mc_grow hint (c\<lparr>ch_index := int (next_block c)\<rparr>) = (st1, c1)" by fastforce
  have ok: "nt_success st1"
    using assms True g by (rule_tac contrapos_pp [of "nt_success st"]) (auto simp: enter_next_block_def)
  have sel: "select_block (next_block c) c1 = (st, c')"
    using assms True g ok by (simp add: enter_next_block_def del: nt_success_cases)
  from mc_grow_success [OF g ok] obtain grown where "0 < grown"
      "c1 = c\<lparr>ch_index := int (next_block c),
        ch_buffers := ch_buffers c @ [\<lparr>ref_bytes = replicate grown 0, ref_param = 0\<rparr>]\<rparr>"
    by auto
  then show ?thesis
    using select_block_success [OF sel assms(2)] True by (simp add: nth_append)
next
  case False
  then have "select_block (next_block c) (c\<lparr>ch_index := int (next_block c)\<rparr>) = (st, c')"
    using assms by (simp add: enter_next_block_def Let_def)
  then show ?thesis
    using select_block_success [OF _ assms(2)] False by fastforce
qed

termination split_write
proof (relation "measures [\<lambda>(data, c). length data, \<lambda>(data, c). nat (int (length (ch_buffers c)) - ch_index c),
    \<lambda>(data, c). if ch_remaining c = 0 then 1 else 0]", goal_cases)
  case 1
  then show ?case by simp
next
  case (2 data c data' p st c')
  let ?d = "fill_block data c"
  have same: "length (ch_buffers ?d) = length (ch_buffers c)" "next_block ?d = next_block c"
    by (simp_all add: fill_block_def next_block_def)
  have "enter_next_block (length data') ?d = (st, c')" "nt_success st"
    using 2(3,4,5) by simp_all
  from enter_next_block_success [OF this] same
  have e: "ch_index c' = int (next_block c)" "next_block c < length (ch_buffers c')"
    "if next_block c = length (ch_buffers c) then length (ch_buffers c') = Suc (next_block c) \<and> 0 < ch_remaining c'
     else length (ch_buffers c') = length (ch_buffers c)"
    by simp_all
  show ?case
  proof (cases "length data' < length data")
    case False
    then have "ch_remaining c = 0" "length data' = length data"
      using 2(1,2) by (auto simp: not_less)
    then show ?thesis
      using e by (auto simp: next_block_def split: if_splits)
  qed simp
qed

declare split_write.simps [simp del]

definition mc_write :: "u8 list \<Rightarrow> kmem_channel \<Rightarrow> ntstatus \<times> kmem_channel" where
  "mc_write data c =
    (if \<not> nt_success (ch_status c) then (ch_status c, c)
     else if length data \<le> ch_remaining c then (STATUS_SUCCESS, raise_total (copy_in data c))
     else split_write data c)"

subsection \<open>Reading\<close>

text \<open>
  A read returns the bytes it put into the destination, whose number is \<open>*ActuallyRead\<close>;
  \<^term>\<open>None\<close> when it returns before it sets \<open>*ActuallyRead\<close>.
\<close>

definition unread :: "kmem_channel \<Rightarrow> nat" where
  "unread c = unat (ch_total c - ch_cursor c)"

definition copy_out :: "nat \<Rightarrow> kmem_channel \<Rightarrow> u8 list \<times> kmem_channel" where
  "copy_out n c =
    (let (block, offset) = ch_ptr c
     in (take n (drop offset (ref_bytes (ch_buffers c ! block))),
         c\<lparr>ch_ptr := (block, offset + n), ch_remaining := ch_remaining c - n,
           ch_cursor := ch_cursor c + of_nat n\<rparr>))"

lemma copy_out_keeps [simp]:
  "ch_index (snd (copy_out n c)) = ch_index c" "ch_buffers (snd (copy_out n c)) = ch_buffers c"
  by (auto simp: copy_out_def split: prod.splits)

definition end_short_read :: "nat \<Rightarrow> u8 list \<Rightarrow> kmem_channel \<Rightarrow> ntstatus \<times> u8 list option \<times> kmem_channel" where
  "end_short_read left bs c =
    (if 0 < left \<and> ch_short_fails c
     then (K_STATUS_COULD_NOT_READ_STREAM, Some bs, c\<lparr>ch_status := K_STATUS_COULD_NOT_READ_STREAM\<rparr>)
     else (STATUS_SUCCESS, Some bs, c))"

function split_read :: "nat \<Rightarrow> u8 list \<Rightarrow> kmem_channel \<Rightarrow> ntstatus \<times> u8 list option \<times> kmem_channel" where
  "split_read count acc c =
    (let n = (if 0 < ch_remaining c then min (min count (ch_remaining c)) (unread c) else 0);
         (bs, c1) = (if 0 < ch_remaining c then copy_out n c else ([], c))
     in if 0 < ch_remaining c \<and> count = n then end_short_read 0 (acc @ bs) c1
        else
          let block = next_block c1;
              (st, c2) = select_block block (c1\<lparr>ch_index := int block\<rparr>)
          in if \<not> nt_success st then end_short_read (count - n) (acc @ bs) c2
             else split_read (count - n) (acc @ bs) c2)"
  by pat_completeness auto

termination split_read
proof (relation "measure (\<lambda>(count, acc, c). nat (int (length (ch_buffers c)) - ch_index c))", goal_cases)
  case 1
  then show ?case by simp
next
  case (2 count acc c n q bs c1 block p st c2)
  have b: "block = next_block c" "length (ch_buffers c1) = length (ch_buffers c)"
    using 2(2) 2(5) arg_cong [OF 2(3), of snd] by (auto simp: next_block_def split: if_splits)
  have "select_block block (c1\<lparr>ch_index := int block\<rparr>) = (st, c2)" "nt_success st"
    using 2(6,7,8) by simp_all
  from select_block_success [OF this] b
  have "ch_index c2 = int (next_block c)" "next_block c < length (ch_buffers c)"
      "length (ch_buffers c2) = length (ch_buffers c)"
    by simp_all
  then show ?case by (auto simp: next_block_def)
qed

declare split_read.simps [simp del]

definition mc_read :: "nat \<Rightarrow> kmem_channel \<Rightarrow> ntstatus \<times> u8 list option \<times> kmem_channel" where
  "mc_read count c =
    (if \<not> nt_success (ch_status c) then (ch_status c, None, c)
     else if ch_cursor c = ch_total c then
       (if ch_short_fails c
        then (K_STATUS_COULD_NOT_READ_STREAM, Some [], c\<lparr>ch_status := K_STATUS_COULD_NOT_READ_STREAM\<rparr>)
        else (STATUS_END_OF_MEDIA, Some [], c))
     else if count \<le> ch_remaining c then
       (if unread c < count \<and> ch_short_fails c
        then (K_STATUS_COULD_NOT_READ_STREAM, None, c\<lparr>ch_status := K_STATUS_COULD_NOT_READ_STREAM\<rparr>)
        else let (bs, c) = copy_out (min count (unread c)) c in (STATUS_SUCCESS, Some bs, c))
     else split_read count [] c)"

subsection \<open>Moving the cursor\<close>

datatype move_method = From_Begin | Before_End | After_Current | Before_Current | Other_Move

fun new_cursor :: "move_method \<Rightarrow> u32 \<Rightarrow> kmem_channel \<Rightarrow> u32 option" where
  "new_cursor From_Begin v c = Some v"
| "new_cursor Before_End v c = Some (ch_total c - v)"
| "new_cursor Before_Current v c = Some (ch_cursor c - v)"
| "new_cursor After_Current v c = Some (ch_cursor c + v)"
| "new_cursor Other_Move v c = None"

fun locate :: "nat \<Rightarrow> nat \<Rightarrow> kmem_ref list \<Rightarrow> (nat \<times> nat) option" where
  "locate i pos [] = None"
| "locate i pos (r # rs) =
    (if pos < length (ref_bytes r) then Some (i, pos) else locate (Suc i) (pos - length (ref_bytes r)) rs)"

definition mc_set_cursor :: "u32 \<Rightarrow> move_method \<Rightarrow> kmem_channel \<Rightarrow> ntstatus \<times> kmem_channel" where
  "mc_set_cursor v method c =
    (if \<not> nt_success (ch_status c) then (ch_status c, c)
     else case new_cursor method v c of
       None \<Rightarrow> latch STATUS_INVALID_PARAMETER c
     | Some pos \<Rightarrow>
         if ch_total c < pos then latch STATUS_INVALID_PARAMETER c
         else
           let c = c\<lparr>ch_cursor := pos\<rparr>
           in case locate 0 (unat pos) (ch_buffers c) of
                Some (block, offset) \<Rightarrow>
                  let (st, c) = select_block block c
                  in if \<not> nt_success st then (st, c)
                     else (STATUS_SUCCESS, c\<lparr>ch_ptr := (block, offset), ch_remaining := ch_remaining c - offset\<rparr>)
              | None \<Rightarrow>
                  if ch_cursor c = ch_total c then
                    (STATUS_SUCCESS, c\<lparr>ch_remaining := 0, ch_index := int (length (ch_buffers c)) - 1\<rparr>)
                  else latch STATUS_INTERNAL_ERROR c)"

subsection \<open>Handing over and capturing blocks\<close>

fun set_params :: "u32 \<Rightarrow> kmem_ref list \<Rightarrow> kmem_ref list" where
  "set_params tracer [] = []"
| "set_params tracer [r] = [r\<lparr>ref_param := tracer\<rparr>]"
| "set_params tracer (r # r' # rs) =
    r\<lparr>ref_param := of_nat (length (ref_bytes r))\<rparr>
    # set_params (tracer - of_nat (length (ref_bytes r))) (r' # rs)"

definition mc_get_block_count :: "kmem_channel \<Rightarrow> nat \<times> kmem_channel" where
  "mc_get_block_count c =
    (length (ch_buffers c), c\<lparr>ch_buffers := set_params (ch_total c) (ch_buffers c)\<rparr>)"

definition mc_get_block :: "nat \<Rightarrow> kmem_channel \<Rightarrow> ntstatus + kmem_ref" where
  "mc_get_block i c =
    (if \<not> nt_success (ch_status c) then Inl (ch_status c)
     else if length (ch_buffers c) \<le> i then Inl STATUS_NO_MORE_ENTRIES
     else Inr (ch_buffers c ! i))"

definition mc_detach_memory :: "kmem_channel \<Rightarrow> kmem_channel" where
  "mc_detach_memory c = mc_initialize (c\<lparr>ch_buffers := []\<rparr>)"

definition mc_start_capture :: "kmem_channel \<Rightarrow> ntstatus \<times> kmem_channel" where
  "mc_start_capture c = (STATUS_SUCCESS, mc_cleanup c)"

definition mc_capture :: "kmem_ref \<Rightarrow> kmem_channel \<Rightarrow> ntstatus \<times> kmem_channel" where
  "mc_capture r c =
    (if \<not> nt_success (ch_status c) then (ch_status c, c)
     else if ref_bytes r = [] then latch STATUS_INVALID_PARAMETER_1 c
     else (STATUS_SUCCESS, c\<lparr>ch_buffers := ch_buffers c @ [r]\<rparr>))"

fun captured_total :: "kmem_ref list \<Rightarrow> u32" where
  "captured_total [] = 0"
| "captured_total [r] = ref_param r"
| "captured_total (r # r' # rs) = of_nat (length (ref_bytes r)) + captured_total (r' # rs)"

fun fill_params :: "kmem_ref list \<Rightarrow> kmem_ref list" where
  "fill_params [] = []"
| "fill_params [r] = [r]"
| "fill_params (r # r' # rs) = r\<lparr>ref_param := of_nat (length (ref_bytes r))\<rparr> # fill_params (r' # rs)"

definition mc_end_capture :: "kmem_channel \<Rightarrow> ntstatus \<times> kmem_channel" where
  "mc_end_capture c =
    (if \<not> nt_success (ch_status c) then (ch_status c, c)
     else if ch_buffers c = [] then latch STATUS_INTERNAL_ERROR (mc_initialize c)
     else select_block 0
       (c\<lparr>ch_total := captured_total (ch_buffers c), ch_buffers := fill_params (ch_buffers c), ch_cursor := 0\<rparr>))"

end
