(* ===== verification/Mem_Channel_Spec.thy ===== *)
theory Mem_Channel_Spec
  imports Mem_Channel
begin

section \<open>The memory channel implements a file of bytes\<close>

text \<open>
  \<open>capacity\<close> is the contents of all blocks, used or not. \<open>placed\<close> says that the block index, the
  pointer and the remaining count describe the place of the cursor; \<open>holds c bs p\<close> that the channel
  stands for the bytes \<open>bs\<close> with the cursor at \<open>p\<close>. Every operation of a channel that holds a file
  is the operation on that file: a write overwrites and extends it, a read takes what is there, a
  seek within it moves the cursor; capturing the blocks of one channel gives another the same file.
\<close>

lemma length_overwrite: "p \<le> length bs \<Longrightarrow> length (overwrite bs p d) = max (length bs) (p + length d)"
  by (simp add: overwrite_def)

lemma overwrite_Nil [simp]: "overwrite bs p [] = bs"
  by (simp add: overwrite_def)

lemma overwrite_at_end [simp]: "overwrite bs (length bs) d = bs @ d"
  by (simp add: overwrite_def)

lemma overwrite_append:
  assumes "p + length d \<le> length bs"
  shows "overwrite (bs @ cs) p d = overwrite bs p d @ cs"
  using assms by (simp add: overwrite_def)

lemma overwrite_twice:
  assumes "p + length d1 \<le> length bs"
  shows "overwrite (overwrite bs p d1) (p + length d1) d2 = overwrite bs p (d1 @ d2)"
  using assms by (simp add: overwrite_def add.assoc) (simp add: add.commute add.left_commute)

lemma take_overwrite:
  assumes "p \<le> n" "n \<le> length bs"
  shows "take (max n (p + length d)) (overwrite bs p d) = overwrite (take n bs) p d"
proof (cases "p + length d \<le> n")
  case True
  have "overwrite (take n bs @ drop n bs) p d = overwrite (take n bs) p d @ drop n bs"
    using True assms(2) by (intro overwrite_append) simp
  then show ?thesis
    using True assms length_overwrite [of p "take n bs" d] by simp
next
  case False
  then show ?thesis using assms by (simp add: overwrite_def)
qed

lemma concat_update:
  assumes "i < length xss" "off + length d \<le> length (xss ! i)"
  shows "concat (xss[i := overwrite (xss ! i) off d]) =
    overwrite (concat xss) (length (concat (take i xss)) + off) d"
proof -
  have split: "concat xss = concat (take i xss) @ xss ! i @ concat (drop (Suc i) xss)"
    using assms(1) by (metis concat.simps(2) concat_append id_take_nth_drop)
  show ?thesis
    using assms unfolding split overwrite_def
    by (simp add: upd_conv_take_nth_drop)
qed

definition capacity :: "kmem_channel \<Rightarrow> u8 list" where
  "capacity c = concat (map ref_bytes (ch_buffers c))"

definition block_start :: "nat \<Rightarrow> kmem_channel \<Rightarrow> nat" where
  "block_start i c = length (concat (map ref_bytes (take i (ch_buffers c))))"

definition placed :: "kmem_channel \<Rightarrow> bool" where
  "placed c \<longleftrightarrow> -1 \<le> ch_index c \<and> next_block c \<le> length (ch_buffers c) \<and>
    unat (ch_cursor c) + ch_remaining c = block_start (next_block c) c \<and>
    (0 < ch_remaining c \<longrightarrow> (\<exists>i. ch_index c = int i \<and>
       ch_remaining c \<le> length (ref_bytes (ch_buffers c ! i)) \<and>
       ch_ptr c = (i, length (ref_bytes (ch_buffers c ! i)) - ch_remaining c)))"

definition growable :: "kmem_channel \<Rightarrow> bool" where
  "growable c \<longleftrightarrow> 0 < ch_first_block c \<and> 0 < ch_min_grow c \<and> 0 < ch_max_grow c \<and>
    ch_max_grow c + ch_min_grow c \<le> 2 ^ 32"

definition tight :: "kmem_channel \<Rightarrow> bool" where
  "tight c \<longleftrightarrow> block_start (length (ch_buffers c) - 1) c \<le> max (unat (ch_total c)) (unat (ch_cursor c))"

definition holds :: "kmem_channel \<Rightarrow> u8 list \<Rightarrow> nat \<Rightarrow> bool" where
  "holds c bs p \<longleftrightarrow> ch_status c = STATUS_SUCCESS \<and> growable c \<and> placed c \<and> tight c \<and>
    unat (ch_total c) = length bs \<and> unat (ch_cursor c) = p \<and> p \<le> length bs \<and>
    length bs \<le> length (capacity c) \<and> take (length bs) (capacity c) = bs"

lemma block_start_Suc:
  "i < length (ch_buffers c) \<Longrightarrow> block_start (Suc i) c = block_start i c + length (ref_bytes (ch_buffers c ! i))"
  by (simp add: block_start_def take_Suc_conv_app_nth)

lemma block_start_all: "block_start (length (ch_buffers c)) c = length (capacity c)"
  by (simp add: block_start_def capacity_def)

lemma block_start_mono: "i \<le> j \<Longrightarrow> block_start i c \<le> block_start j c"
  using le_Suc_ex [of i j] by (auto simp: block_start_def take_add)

lemma unat_add_bytes:
  "unat w + n < 2 ^ LENGTH('a) \<Longrightarrow> unat (w + of_nat n) = unat w + n" for w :: "'a::len word"
  by (simp add: unat_word_ariths(1) unat_of_nat mod_simps)

text \<open>The cursor in the current block.\<close>

lemma placed_in_block:
  assumes "placed c" "0 < ch_remaining c"
  obtains i off where "ch_index c = int i" "i < length (ch_buffers c)" "ch_ptr c = (i, off)"
    "off + ch_remaining c = length (ref_bytes (ch_buffers c ! i))" "unat (ch_cursor c) = block_start i c + off"
proof -
  from assms obtain i where i: "ch_index c = int i" "ch_remaining c \<le> length (ref_bytes (ch_buffers c ! i))"
      "ch_ptr c = (i, length (ref_bytes (ch_buffers c ! i)) - ch_remaining c)"
      "unat (ch_cursor c) + ch_remaining c = block_start (Suc i) c" "i < length (ch_buffers c)"
    by (auto simp: placed_def next_block_def nat_add_distrib)
  then show ?thesis
    using that [of i "length (ref_bytes (ch_buffers c ! i)) - ch_remaining c"] block_start_Suc [of i c] by auto
qed

lemma copy_in_at:
  assumes "ch_ptr c = (i, off)" "i < length (ch_buffers c)" "off + length d \<le> length (ref_bytes (ch_buffers c ! i))"
  shows "map ref_bytes (ch_buffers (copy_in d c)) =
      (map ref_bytes (ch_buffers c))[i := overwrite (ref_bytes (ch_buffers c ! i)) off d]"
    "length (ref_bytes (ch_buffers (copy_in d c) ! j)) = length (ref_bytes (ch_buffers c ! j))"
    "block_start j (copy_in d c) = block_start j c"
proof -
  have b: "ch_buffers (copy_in d c) = (ch_buffers c)[i :=
      (ch_buffers c ! i)\<lparr>ref_bytes := overwrite (ref_bytes (ch_buffers c ! i)) off d\<rparr>]"
    using assms(1) by (simp add: copy_in_def)
  show m: "map ref_bytes (ch_buffers (copy_in d c)) =
      (map ref_bytes (ch_buffers c))[i := overwrite (ref_bytes (ch_buffers c ! i)) off d]"
    by (simp add: b map_update)
  have l: "length (overwrite (ref_bytes (ch_buffers c ! i)) off d) = length (ref_bytes (ch_buffers c ! i))"
    using assms(3) by (simp add: length_overwrite)
  show "length (ref_bytes (ch_buffers (copy_in d c) ! j)) = length (ref_bytes (ch_buffers c ! j))"
    unfolding b using assms(2) l by (cases "j = i") simp_all
  have "map length (map ref_bytes (ch_buffers (copy_in d c))) = map length (map ref_bytes (ch_buffers c))"
    unfolding m using l assms(2) by (metis length_map list_update_id map_update nth_map)
  then show "block_start j (copy_in d c) = block_start j c"
    unfolding block_start_def length_concat by (metis take_map)
qed

lemma copy_in_spec:
  assumes "placed c" "length d \<le> ch_remaining c" "unat (ch_cursor c) + length d < 2 ^ 32"
  shows "placed (copy_in d c)" "capacity (copy_in d c) = overwrite (capacity c) (unat (ch_cursor c)) d"
    "unat (ch_cursor (copy_in d c)) = unat (ch_cursor c) + length d"
    "block_start i (copy_in d c) = block_start i c"
    "unat (ch_cursor c) + length d \<le> length (capacity c)"
proof -
  have cur: "unat (ch_cursor (copy_in d c)) = unat (ch_cursor c) + length d"
    using assms(3) by (simp add: unat_add_bytes)
  have le: "unat (ch_cursor c) + length d \<le> length (capacity c)"
    using assms(1,2) block_start_mono [of "next_block c" "length (ch_buffers c)" c]
    by (simp add: placed_def block_start_all)
  have "placed (copy_in d c) \<and> capacity (copy_in d c) = overwrite (capacity c) (unat (ch_cursor c)) d \<and>
    block_start i (copy_in d c) = block_start i c"
  proof (cases "d = []")
    case True
    have "copy_in [] c = c"
      by (simp add: copy_in_def split: prod.split)
    then show ?thesis using True assms(1) by simp
  next
    case False
    then have r: "0 < ch_remaining c" using assms(2) by (cases d) auto
    from placed_in_block [OF assms(1) r] obtain j off where j: "ch_index c = int j" "j < length (ch_buffers c)"
        "ch_ptr c = (j, off)" "off + ch_remaining c = length (ref_bytes (ch_buffers c ! j))"
        "unat (ch_cursor c) = block_start j c + off"
      by blast
    have o: "off + length d \<le> length (ref_bytes (ch_buffers c ! j))" using assms(2) j(4) by simp
    note at = copy_in_at [OF j(3,2) o]
    have "capacity (copy_in d c) = overwrite (capacity c) (unat (ch_cursor c)) d"
      unfolding capacity_def at(1) using concat_update [of j "map ref_bytes (ch_buffers c)" off d] j(2) o
      by (simp add: j(5) block_start_def take_map)
    moreover have "placed (copy_in d c)"
    proof -
      have "ch_remaining c - length d \<le> length (ref_bytes (ch_buffers c ! j))" using j(4) by simp
      then show ?thesis
        using assms(1,2) j o cur at(2) [of j] unfolding placed_def next_block_def at(3) by auto
    qed
    ultimately show ?thesis using at(3) by blast
  qed
  then show "placed (copy_in d c)" "capacity (copy_in d c) = overwrite (capacity c) (unat (ch_cursor c)) d"
      "block_start i (copy_in d c) = block_start i c"
    by simp_all
  show "unat (ch_cursor (copy_in d c)) = unat (ch_cursor c) + length d"
      "unat (ch_cursor c) + length d \<le> length (capacity c)"
    by (rule cur le)+
qed

subsection \<open>Writing\<close>

lemma block_size_index [simp]: "block_size hint (c\<lparr>ch_index := k\<rparr>) = block_size hint c"
  by (simp add: block_size_def)

lemma block_size_growable:
  assumes "growable c"
  obtains grown where "block_size hint c = Some grown" "0 < grown"
proof -
  have "(hint div ch_min_grow c + 1) * ch_min_grow c < 2 ^ 32" if "hint \<le> ch_max_grow c" "hint mod ch_min_grow c \<noteq> 0"
  proof -
    have "hint div ch_min_grow c * ch_min_grow c + hint mod ch_min_grow c = hint" by simp
    moreover have "(hint div ch_min_grow c + 1) * ch_min_grow c = hint div ch_min_grow c * ch_min_grow c + ch_min_grow c"
      by simp
    ultimately have "(hint div ch_min_grow c + 1) * ch_min_grow c < hint + ch_min_grow c"
      using that(2) by linarith
    then show ?thesis using that(1) assms by (simp add: growable_def)
  qed
  then have "\<exists>grown. block_size hint c = Some grown \<and> 0 < grown"
    using assms by (auto simp: block_size_def growable_def Let_def)
  then show ?thesis using that by blast
qed

lemma select_block_in_range:
  assumes "i < length (ch_buffers c)" "ch_status c = STATUS_SUCCESS"
  shows "select_block i c = (STATUS_SUCCESS, c\<lparr>ch_index := int i, ch_ptr := (i, 0),
    ch_remaining := length (ref_bytes (ch_buffers c ! i))\<rparr>)"
  using assms by (simp add: select_block_def)

lemma placed_selected:
  assumes "i < length (ch_buffers c)" "unat (ch_cursor c) = block_start i c"
  shows "placed (c\<lparr>ch_index := int i, ch_ptr := (i, 0), ch_remaining := length (ref_bytes (ch_buffers c ! i))\<rparr>)"
  using assms block_start_Suc [OF assms(1)]
  by (simp add: placed_def next_block_def nat_add_distrib block_start_def)

lemma enter_next_block_spec:
  assumes "placed c" "ch_remaining c = 0" "ch_status c = STATUS_SUCCESS" "growable c" "tight c"
  obtains c' Z where "enter_next_block hint c = (STATUS_SUCCESS, c')" "placed c'" "capacity c' = capacity c @ Z"
    "ch_cursor c' = ch_cursor c" "ch_total c' = ch_total c" "ch_status c' = STATUS_SUCCESS" "growable c'" "tight c'"
proof -
  define k where "k = next_block c"
  have k: "k \<le> length (ch_buffers c)" "unat (ch_cursor c) = block_start k c"
    using assms(1,2) by (simp_all add: placed_def k_def)
  show ?thesis
  proof (cases "k = length (ch_buffers c)")
    case True
    obtain grown where g: "block_size hint c = Some grown" "0 < grown"
      using block_size_growable [OF assms(4)] .
    define c1 where "c1 = c\<lparr>ch_index := int k,
      ch_buffers := ch_buffers c @ [\<lparr>ref_bytes = replicate grown 0, ref_param = 0\<rparr>]\<rparr>"
    define c' where "c' = c1\<lparr>ch_index := int k, ch_ptr := (k, 0),
        ch_remaining := length (ref_bytes (ch_buffers c1 ! k))\<rparr>"
    have start: "block_start k c1 = block_start k c"
      using True by (simp add: block_start_def c1_def)
    have "mc_grow hint (c\<lparr>ch_index := int k\<rparr>) = (STATUS_SUCCESS, c1)"
    proof -
      have "block_size hint (c\<lparr>ch_index := int k\<rparr>) = Some grown" using g(1) by simp
      then show ?thesis using g(2) assms(3) by (simp add: mc_grow_def c1_def)
    qed
    moreover have "select_block k c1 = (STATUS_SUCCESS, c')"
      unfolding c'_def using True assms(3) by (intro select_block_in_range) (simp_all add: c1_def)
    ultimately have "enter_next_block hint c = (STATUS_SUCCESS, c')"
      using True by (simp add: enter_next_block_def k_def [symmetric])
    moreover have "placed c'"
      unfolding c'_def using True start k by (intro placed_selected) (simp_all add: c1_def)
    moreover have "tight c'"
      using start k True by (simp add: tight_def c'_def c1_def block_start_def)
    ultimately show ?thesis
      using that [of c' "replicate grown 0"] assms(3,4) by (simp add: c'_def c1_def capacity_def growable_def)
  next
    case False
    then have lt: "k < length (ch_buffers c)" using k(1) by simp
    define c' where "c' = (c\<lparr>ch_index := int k\<rparr>)\<lparr>ch_index := int k, ch_ptr := (k, 0),
        ch_remaining := length (ref_bytes (ch_buffers c ! k))\<rparr>"
    have "enter_next_block hint c = (STATUS_SUCCESS, c')"
      using lt assms(3) select_block_in_range [of k "c\<lparr>ch_index := int k\<rparr>"]
      by (simp add: enter_next_block_def k_def [symmetric] c'_def)
    moreover have "placed c'"
      using placed_selected [OF lt k(2)] by (simp add: c'_def)
    ultimately show ?thesis
      using that [of c' "[]"] assms(3,4,5) by (simp add: c'_def capacity_def growable_def tight_def block_start_def)
  qed
qed

definition wrote :: "u8 list \<Rightarrow> kmem_channel \<Rightarrow> kmem_channel \<Rightarrow> bool" where
  "wrote d c c' \<longleftrightarrow> placed c' \<and> growable c' \<and> tight c' \<and> ch_status c' = STATUS_SUCCESS \<and>
    unat (ch_cursor c') = unat (ch_cursor c) + length d \<and>
    unat (ch_total c') = max (unat (ch_total c)) (unat (ch_cursor c')) \<and>
    unat (ch_cursor c) + length d \<le> length (capacity c') \<and>
    (\<exists>Z. capacity c' = overwrite (capacity c @ Z) (unat (ch_cursor c)) d)"

lemma raise_total_simps [simp]:
  "unat (ch_total (raise_total c)) = max (unat (ch_total c)) (unat (ch_cursor c))"
  "ch_cursor (raise_total c) = ch_cursor c" "ch_status (raise_total c) = ch_status c"
  "capacity (raise_total c) = capacity c" "placed (raise_total c) = placed c"
  "growable (raise_total c) = growable c" "tight (raise_total c) = tight c"
  by (auto simp: raise_total_def capacity_def placed_def growable_def tight_def next_block_def block_start_def
      word_le_nat_alt)

lemma copy_in_wrote:
  assumes "placed c" "length d \<le> ch_remaining c" "unat (ch_cursor c) + length d < 2 ^ 32"
    "growable c" "tight c" "ch_status c = STATUS_SUCCESS"
  shows "wrote d c (raise_total (copy_in d c))"
proof -
  note s = copy_in_spec [OF assms(1,2,3)]
  have "tight (copy_in d c)" using assms(5) s(3,4) by (auto simp: tight_def)
  moreover have "growable (copy_in d c)" using assms(4) by (simp add: growable_def)
  moreover have "capacity (copy_in d c) = overwrite (capacity c @ []) (unat (ch_cursor c)) d" using s(2) by simp
  moreover have "length (capacity (copy_in d c)) = length (capacity c)"
    using s(2,5) by (simp add: length_overwrite)
  ultimately show ?thesis
    using s assms(6) unfolding wrote_def by (auto intro: exI [of _ "[]"])
qed

lemma fill_block_spec:
  assumes "placed c" "growable c" "tight c" "ch_status c = STATUS_SUCCESS" "unat (ch_cursor c) + length d < 2 ^ 32"
    "\<not> (0 < ch_remaining c \<and> length d \<le> ch_remaining c)"
  shows "placed (fill_block d c)" "ch_remaining (fill_block d c) = 0" "growable (fill_block d c)"
    "tight (fill_block d c)" "ch_status (fill_block d c) = STATUS_SUCCESS" "ch_total (fill_block d c) = ch_total c"
    "unat (ch_cursor (fill_block d c)) = unat (ch_cursor c) + length (take (ch_remaining c) d)"
    "capacity (fill_block d c) = overwrite (capacity c) (unat (ch_cursor c)) (take (ch_remaining c) d)"
    "unat (ch_cursor c) + length (take (ch_remaining c) d) \<le> length (capacity c)"
proof -
  let ?d = "take (ch_remaining c) d"
  have len: "length ?d = ch_remaining c" using assms(6) by auto
  have "unat (ch_cursor c) + length ?d < 2 ^ 32" using assms(5) by (auto simp: min_def)
  note s = copy_in_spec [OF assms(1) eq_refl [OF len] this]
  have t: "tight (copy_in ?d c)" using assms(3) s(3,4) by (auto simp: tight_def)
  have z: "c = fill_block d c" if "ch_remaining c = 0" using that by (simp add: fill_block_def)
  show "placed (fill_block d c)" "ch_remaining (fill_block d c) = 0" "growable (fill_block d c)"
    "tight (fill_block d c)" "ch_status (fill_block d c) = STATUS_SUCCESS" "ch_total (fill_block d c) = ch_total c"
    "unat (ch_cursor (fill_block d c)) = unat (ch_cursor c) + length ?d"
    "capacity (fill_block d c) = overwrite (capacity c) (unat (ch_cursor c)) ?d"
    "unat (ch_cursor c) + length ?d \<le> length (capacity c)"
    using assms len s t by (auto simp: fill_block_def growable_def)
qed

lemma wrote_after:
  assumes "wrote d2 c2 c'" "unat (ch_cursor c2) = p + length d1" "p = unat (ch_cursor c)" "ch_total c2 = ch_total c"
    "capacity c2 = overwrite (capacity c) p d1 @ Z" "p + length d1 \<le> length (capacity c)"
  shows "wrote (d1 @ d2) c c'"
proof -
  obtain Z' where Z': "capacity c' = overwrite (capacity c2 @ Z') (unat (ch_cursor c2)) d2"
    using assms(1) by (auto simp: wrote_def)
  have "capacity c2 @ Z' = overwrite (capacity c @ Z @ Z') p d1"
    using assms(5) overwrite_append [OF assms(6), of "Z @ Z'"] by simp
  then have "capacity c' = overwrite (capacity c @ Z @ Z') p (d1 @ d2)"
    using Z' assms(2,6) overwrite_twice [of p d1 "capacity c @ Z @ Z'"] by simp
  then show ?thesis
    using assms(1,2,3,4) unfolding wrote_def by (auto intro: exI [of _ "Z @ Z'"])
qed

lemma split_write_wrote:
  assumes "placed c" "growable c" "tight c" "ch_status c = STATUS_SUCCESS" "unat (ch_cursor c) + length d < 2 ^ 32"
  shows "\<exists>c'. split_write d c = (STATUS_SUCCESS, c') \<and> wrote d c c'"
  using assms
proof (induction d c rule: split_write.induct)
  case (1 d c)
  show ?case
  proof (cases "0 < ch_remaining c \<and> length d \<le> ch_remaining c")
    case True
    then show ?thesis using copy_in_wrote [of c d] 1 by (simp add: split_write.simps [of d c])
  next
    case False
    let ?d1 = "take (ch_remaining c) d" and ?d2 = "drop (ch_remaining c) d"
    note f = fill_block_spec [OF "1.prems" False]
    obtain c2 Z where n: "enter_next_block (length ?d2) (fill_block d c) = (STATUS_SUCCESS, c2)" "placed c2"
        "capacity c2 = capacity (fill_block d c) @ Z" "ch_cursor c2 = ch_cursor (fill_block d c)"
        "ch_total c2 = ch_total (fill_block d c)" "ch_status c2 = STATUS_SUCCESS" "growable c2" "tight c2"
      using enter_next_block_spec [OF f(1,2,5,3,4)] .
    have "unat (ch_cursor c2) + length ?d2 < 2 ^ 32"
      using "1.prems"(5) n(4) f(7) by simp
    then obtain c' where c': "split_write ?d2 c2 = (STATUS_SUCCESS, c')" "wrote ?d2 c2 c'"
      using "1.IH" [OF False refl n(1) [symmetric]] n by auto
    have "wrote (?d1 @ ?d2) c c'"
      using c'(2) n f by (intro wrote_after [OF c'(2), where p = "unat (ch_cursor c)" and Z = Z]) simp_all
    then show ?thesis
      using c'(1) n(1) False by (auto simp: split_write.simps [of d c])
  qed
qed

theorem mc_write_holds:
  assumes "holds c bs p" "p + length d < 2 ^ 32"
  shows "\<exists>c'. mc_write d c = (STATUS_SUCCESS, c') \<and> holds c' (overwrite bs p d) (p + length d)"
proof -
  have c: "placed c" "growable c" "tight c" "ch_status c = STATUS_SUCCESS" "unat (ch_cursor c) = p"
      "unat (ch_total c) = length bs" "p \<le> length bs" "length bs \<le> length (capacity c)"
      "take (length bs) (capacity c) = bs"
    using assms(1) by (simp_all add: holds_def)
  obtain c' where w: "mc_write d c = (STATUS_SUCCESS, c')" "wrote d c c'"
  proof (cases "length d \<le> ch_remaining c")
    case True
    with that c assms(2) copy_in_wrote [of c d] show ?thesis by (simp add: mc_write_def)
  next
    case False
    with that c assms(2) split_write_wrote [of c d] show ?thesis by (auto simp: mc_write_def)
  qed
  obtain Z where Z: "capacity c' = overwrite (capacity c @ Z) p d"
    using w(2) c(5) by (auto simp: wrote_def)
  have len: "length (overwrite bs p d) = max (length bs) (p + length d)"
    using c(7) by (rule length_overwrite)
  have "take (length (overwrite bs p d)) (capacity c') = overwrite (take (length bs) (capacity c @ Z)) p d"
    unfolding len Z using c(7,8) by (intro take_overwrite) simp_all
  also have "\<dots> = overwrite bs p d" using c(8,9) by simp
  finally have "take (length (overwrite bs p d)) (capacity c') = overwrite bs p d" .
  moreover have "length (overwrite bs p d) \<le> length (capacity c')"
    using len w(2) Z c by (simp add: wrote_def length_overwrite)
  ultimately have "holds c' (overwrite bs p d) (p + length d)"
    using w(2) c len by (simp add: holds_def wrote_def)
  then show ?thesis using w(1) by blast
qed

subsection \<open>Reading\<close>

text \<open>A read that stays in the file leaves the channel in place; any read delivers the bytes there are.\<close>

definition left_in :: "kmem_channel \<Rightarrow> u8 list" where
  "left_in c = drop (unat (ch_cursor c)) (take (unat (ch_total c)) (capacity c))"

lemma unread_eq: "unat (ch_cursor c) \<le> unat (ch_total c) \<Longrightarrow> unread c = unat (ch_total c) - unat (ch_cursor c)"
  by (simp add: unread_def unat_sub word_le_nat_alt)

lemma copy_out_spec:
  assumes "placed c" "n \<le> ch_remaining c" "0 < ch_remaining c" "n \<le> unread c" "unat (ch_cursor c) \<le> unat (ch_total c)"
    "unat (ch_total c) \<le> length (capacity c)" "copy_out n c = (bs, c')"
  shows "bs = take n (left_in c)" "placed c'" "unat (ch_cursor c') = unat (ch_cursor c) + n"
    "ch_remaining c' = ch_remaining c - n" "ch_total c' = ch_total c" "ch_buffers c' = ch_buffers c"
    "ch_status c' = ch_status c" "growable c' = growable c" "ch_short_fails c' = ch_short_fails c"
proof -
  from placed_in_block [OF assms(1,3)] obtain i off where i: "ch_index c = int i" "i < length (ch_buffers c)"
      "ch_ptr c = (i, off)" "off + ch_remaining c = length (ref_bytes (ch_buffers c ! i))"
      "unat (ch_cursor c) = block_start i c + off"
    by blast
  have c': "c' = c\<lparr>ch_ptr := (i, off + n), ch_remaining := ch_remaining c - n, ch_cursor := ch_cursor c + of_nat n\<rparr>"
    and bs: "bs = take n (drop off (ref_bytes (ch_buffers c ! i)))"
    using assms(7) i(3) by (simp_all add: copy_out_def)
  have n: "unat (ch_cursor c) + n \<le> unat (ch_total c)" using assms(4,5) by (simp add: unread_eq)
  then show cur: "unat (ch_cursor c') = unat (ch_cursor c) + n"
    unfolding c' using unsigned_less [of "ch_total c", where 'a = nat] by (simp add: unat_add_bytes)
  have "capacity c = concat (map ref_bytes (take i (ch_buffers c))) @ ref_bytes (ch_buffers c ! i) @
      concat (map ref_bytes (drop (Suc i) (ch_buffers c)))"
    unfolding capacity_def using i(2)
    by (metis concat.simps(2) concat_append id_take_nth_drop list.simps(9) map_append)
  then have "drop (block_start i c) (capacity c) =
      ref_bytes (ch_buffers c ! i) @ concat (map ref_bytes (drop (Suc i) (ch_buffers c)))"
    by (simp add: block_start_def)
  then have "drop (unat (ch_cursor c)) (capacity c) =
      drop off (ref_bytes (ch_buffers c ! i)) @ concat (map ref_bytes (drop (Suc i) (ch_buffers c)))"
    unfolding i(5) using i(4) by (simp add: add.commute flip: drop_drop)
  then have "take n (drop (unat (ch_cursor c)) (capacity c)) = bs"
    using bs assms(2) i(4) by simp
  then show "bs = take n (left_in c)"
    using n by (simp add: left_in_def drop_take)
  have "ch_remaining c - n \<le> length (ref_bytes (ch_buffers c ! i))" using i(4) by simp
  then show "placed c'"
    using assms(1,2) i cur unfolding placed_def c' next_block_def block_start_def by auto
  show "ch_remaining c' = ch_remaining c - n" "ch_total c' = ch_total c" "ch_buffers c' = ch_buffers c"
    "ch_status c' = ch_status c" "growable c' = growable c" "ch_short_fails c' = ch_short_fails c"
    by (simp_all add: c' growable_def)
qed

lemma left_in_after:
  assumes "unat (ch_cursor c') = unat (ch_cursor c) + n" "ch_total c' = ch_total c" "ch_buffers c' = ch_buffers c"
  shows "left_in c' = drop n (left_in c)"
  using assms by (simp add: left_in_def capacity_def add.commute)

lemma length_left_in:
  "unat (ch_cursor c) \<le> unat (ch_total c) \<Longrightarrow> unat (ch_total c) \<le> length (capacity c) \<Longrightarrow>
    length (left_in c) = unread c"
  by (simp add: left_in_def unread_eq)

definition in_file :: "kmem_channel \<Rightarrow> bool" where
  "in_file c \<longleftrightarrow> placed c \<and> tight c \<and> ch_status c = STATUS_SUCCESS \<and>
    unat (ch_cursor c) \<le> unat (ch_total c) \<and> unat (ch_total c) \<le> length (capacity c)"

definition advanced :: "nat \<Rightarrow> kmem_channel \<Rightarrow> kmem_channel \<Rightarrow> bool" where
  "advanced n c c' \<longleftrightarrow> in_file c' \<and> ch_total c' = ch_total c \<and> capacity c' = capacity c \<and>
    growable c' = growable c \<and> unat (ch_cursor c') = unat (ch_cursor c) + n"

lemma advanced_trans: "advanced n c c1 \<Longrightarrow> advanced m c1 c2 \<Longrightarrow> advanced (n + m) c c2"
  by (auto simp: advanced_def)

lemma copy_out_advanced:
  assumes "in_file c" "n \<le> ch_remaining c" "0 < ch_remaining c" "n \<le> unread c" "copy_out n c = (bs, c')"
  shows "bs = take n (left_in c)" "advanced n c c'" "left_in c' = drop n (left_in c)"
    "ch_remaining c' = ch_remaining c - n" "ch_buffers c' = ch_buffers c"
proof -
  have f: "placed c" "unat (ch_cursor c) \<le> unat (ch_total c)" "unat (ch_total c) \<le> length (capacity c)"
    using assms(1) by (simp_all add: in_file_def)
  note s = copy_out_spec [OF f(1) assms(2,3,4) f(2,3) assms(5)]
  have "unat (ch_cursor c') \<le> unat (ch_total c')"
    using assms(4) s(3,5) f(2) by (simp add: unread_eq)
  moreover have "capacity c' = capacity c" "block_start i c' = block_start i c" for i
    using s(6) by (simp_all add: capacity_def block_start_def)
  ultimately show "advanced n c c'"
    using assms(1) s unfolding advanced_def in_file_def tight_def by auto
  show "left_in c' = drop n (left_in c)" using s by (intro left_in_after) simp_all
qed (use copy_out_spec [OF _ assms(2,3,4) _ _ assms(5)] assms(1) in \<open>simp_all add: in_file_def\<close>)

lemma split_read_last_block:
  assumes "in_file c" "unread c < ch_remaining c"
  shows "next_block c = length (ch_buffers c)"
proof (rule ccontr)
  assume "next_block c \<noteq> length (ch_buffers c)"
  moreover have "next_block c \<le> length (ch_buffers c)" using assms(1) by (simp add: in_file_def placed_def)
  ultimately have "next_block c \<le> length (ch_buffers c) - 1" by simp
  from block_start_mono [OF this, of c] show False
    using assms by (auto simp: in_file_def tight_def placed_def unread_eq)
qed

lemma select_block_past_end:
  "ch_status c = STATUS_SUCCESS \<Longrightarrow> i = length (ch_buffers c) \<Longrightarrow> select_block i c = (STATUS_END_OF_MEDIA, c)"
  by (simp add: select_block_def)

lemma select_block_advanced:
  assumes "in_file c" "ch_remaining c = 0" "next_block c < length (ch_buffers c)"
    "select_block (next_block c) (c\<lparr>ch_index := int (next_block c)\<rparr>) = (st, c')"
  shows "st = STATUS_SUCCESS" "advanced 0 c c'" "left_in c' = left_in c" "ch_buffers c' = ch_buffers c"
proof -
  let ?i = "next_block c"
  have c': "st = STATUS_SUCCESS" "c' = c\<lparr>ch_index := int ?i, ch_ptr := (?i, 0),
      ch_remaining := length (ref_bytes (ch_buffers c ! ?i))\<rparr>"
    using select_block_in_range [of ?i "c\<lparr>ch_index := int ?i\<rparr>"] assms(1,3,4) by (simp_all add: in_file_def)
  moreover have "placed c'"
    unfolding c' using assms by (intro placed_selected) (simp_all add: in_file_def placed_def)
  ultimately show "st = STATUS_SUCCESS" "advanced 0 c c'" "left_in c' = left_in c" "ch_buffers c' = ch_buffers c"
    using assms(1) by (auto simp: advanced_def in_file_def tight_def left_in_def capacity_def growable_def block_start_def)
qed

definition reads_file :: "nat \<Rightarrow> u8 list \<Rightarrow> kmem_channel \<Rightarrow> ntstatus \<times> u8 list option \<times> kmem_channel \<Rightarrow> bool" where
  "reads_file n acc c r \<longleftrightarrow> (\<exists>st c'. r = (st, Some (acc @ take n (left_in c)), c') \<and>
    (n \<le> unread c \<longrightarrow> st = STATUS_SUCCESS \<and> advanced n c c'))"

lemma split_read_reads:
  assumes "in_file c" "0 < count"
  shows "reads_file count acc c (split_read count acc c)"
  using assms
proof (induction count acc c rule: split_read.induct)
  case (1 count acc c)
  define n where "n = (if 0 < ch_remaining c then min (min count (ch_remaining c)) (unread c) else 0)"
  obtain bs c1 where out: "(if 0 < ch_remaining c then copy_out n c else ([], c)) = (bs, c1)" by fastforce
  have c1: "bs = take n (left_in c)" "advanced n c c1" "left_in c1 = drop n (left_in c)"
      "ch_remaining c1 = ch_remaining c - n" "ch_buffers c1 = ch_buffers c"
    using copy_out_advanced [of c n bs c1] out "1.prems"(1)
    by (auto simp: n_def advanced_def split: if_splits)
  have len: "length (left_in c) = unread c"
    using "1.prems"(1) by (simp add: in_file_def length_left_in)
  have in1: "in_file c1" using c1(2) by (simp add: advanced_def)
  have u1: "unread c1 = unread c - n"
    using c1(3) len length_left_in [of c1] in1 by (simp add: in_file_def)
  note unfold = split_read.simps [of count acc c, folded n_def, unfolded out Let_def prod.case]
  show ?case
  proof (cases "0 < ch_remaining c \<and> count = n")
    case True
    then show ?thesis
      unfolding unfold reads_file_def using c1 by (auto simp: end_short_read_def)
  next
    case False
    then have lt: "n < count" using "1.prems"(2) by (auto simp: n_def)
    obtain st c2 where sel: "select_block (next_block c1) (c1\<lparr>ch_index := int (next_block c1)\<rparr>) = (st, c2)"
      by fastforce
    show ?thesis
    proof (cases "next_block c1 < length (ch_buffers c1)")
      case True
      have z: "ch_remaining c1 = 0"
      proof (rule ccontr)
        assume "ch_remaining c1 \<noteq> 0"
        then have "unread c1 < ch_remaining c1" using c1(4) u1 lt by (auto simp: n_def min_def split: if_splits)
        then show False using split_read_last_block [OF in1] True by simp
      qed
      note s = select_block_advanced [OF in1 z True sel]
      have "reads_file (count - n) (acc @ bs) c2 (split_read (count - n) (acc @ bs) c2)"
        using "1.IH" [OF n_def out [symmetric] refl False refl sel [symmetric]] s(1,2) lt by (simp add: advanced_def)
      then obtain st' c' where r: "split_read (count - n) (acc @ bs) c2 = (st', Some ((acc @ bs) @ take (count - n) (left_in c2)), c')"
          "count - n \<le> unread c2 \<longrightarrow> st' = STATUS_SUCCESS \<and> advanced (count - n) c2 c'"
        by (auto simp: reads_file_def)
      have "bs @ take (count - n) (left_in c2) = take count (left_in c)"
        using lt s(3) c1(1,3) take_add [of n "count - n" "left_in c"] by simp
      moreover have "unread c2 = unread c - n"
        using s(2,3) u1 length_left_in [of c2] length_left_in [of c1] in1 by (simp add: advanced_def in_file_def)
      moreover have "advanced count c c'" if "advanced (count - n) c2 c'"
        using advanced_trans [OF advanced_trans [OF c1(2) s(2)] that] lt by simp
      moreover have "split_read count acc c = split_read (count - n) (acc @ bs) c2"
        unfolding unfold using False sel s(1) by auto
      ultimately show ?thesis using r lt by (auto simp: reads_file_def)
    next
      case False': False
      then have nb: "next_block c1 = length (ch_buffers c1)"
        using in1 by (simp add: in_file_def placed_def)
      have "unread c1 = 0"
      proof (cases "ch_remaining c1 = 0")
        case True
        then show ?thesis
          using in1 nb by (simp add: in_file_def placed_def block_start_all unread_eq)
      next
        case False
        then show ?thesis using c1(4) u1 lt by (auto simp: n_def min_def split: if_splits)
      qed
      then have "unread c < count" "take count (left_in c) = bs"
        using u1 lt len c1(1) by simp_all
      then show ?thesis
        unfolding unfold using False sel select_block_past_end [of "c1\<lparr>ch_index := int (next_block c1)\<rparr>"] nb in1
        by (auto simp: reads_file_def end_short_read_def in_file_def)
    qed
  qed
qed

lemma holds_in_file: "holds c bs p \<Longrightarrow> in_file c \<and> growable c \<and> left_in c = drop p bs \<and> unread c = length bs - p"
  by (auto simp: holds_def in_file_def left_in_def unread_eq)

lemma advanced_holds: "holds c bs p \<Longrightarrow> advanced n c c' \<Longrightarrow> p + n \<le> length bs \<Longrightarrow> holds c' bs (p + n)"
  by (auto simp: holds_def advanced_def in_file_def)

lemma mc_read_reads:
  assumes "holds c bs p" "p < length bs" "0 < n" "n \<le> ch_remaining c \<longrightarrow> \<not> (length bs - p < n \<and> ch_short_fails c)"
  obtains st c' where "mc_read n c = (st, Some (take n (drop p bs)), c')"
    "n \<le> length bs - p \<longrightarrow> st = STATUS_SUCCESS \<and> holds c' bs (p + n)"
proof -
  note f = holds_in_file [OF assms(1)]
  have c: "ch_status c = STATUS_SUCCESS" "ch_cursor c \<noteq> ch_total c"
    using assms(1,2) by (auto simp: holds_def)
  show ?thesis
  proof (cases "n \<le> ch_remaining c")
    case True
    obtain xs c' where out: "copy_out (min n (unread c)) c = (xs, c')" by fastforce
    note s = copy_out_advanced [OF _ _ _ _ out]
    have "xs = take (min n (unread c)) (drop p bs)" "advanced (min n (unread c)) c c'"
      using s(1,2) f True assms(3) by auto
    moreover have "mc_read n c = (STATUS_SUCCESS, Some xs, c')"
      using c True assms(4) out f by (auto simp: mc_read_def)
    moreover have "take (min n (unread c)) (drop p bs) = take n (drop p bs)" using f by (simp add: min_def)
    moreover have "n \<le> length bs - p \<longrightarrow> min n (unread c) = n" using f by simp
    ultimately show ?thesis
      using that [of STATUS_SUCCESS c'] advanced_holds [OF assms(1), of n c'] assms(2) by auto
  next
    case False
    have "mc_read n c = split_read n [] c" using c False by (simp add: mc_read_def)
    moreover have "reads_file n [] c (split_read n [] c)" using split_read_reads f assms(3) by blast
    ultimately show ?thesis
      using that f advanced_holds [OF assms(1), of n] assms(2) by (fastforce simp: reads_file_def)
  qed
qed

theorem mc_read_holds:
  assumes "holds c bs p" "0 < n" "p + n \<le> length bs"
  shows "\<exists>c'. mc_read n c = (STATUS_SUCCESS, Some (take n (drop p bs)), c') \<and> holds c' bs (p + n)"
proof -
  have "p < length bs" "n \<le> length bs - p" using assms(2,3) by simp_all
  then show ?thesis using mc_read_reads [OF assms(1) _ assms(2)] by fastforce
qed

theorem mc_read_short:
  assumes "holds c bs p" "length bs < p + n"
  shows "\<exists>st r c'. mc_read n c = (st, r, c') \<and>
    (case r of None \<Rightarrow> st = K_STATUS_COULD_NOT_READ_STREAM | Some xs \<Rightarrow> length xs < n)"
proof (cases "p < length bs")
  case False
  then have "ch_cursor c = ch_total c" "0 < n" "ch_status c = STATUS_SUCCESS"
    using assms by (auto simp: holds_def word_unat_eq_iff)
  then show ?thesis by (simp add: mc_read_def)
next
  case True
  have n: "0 < n" "length (take n (drop p bs)) < n" using assms(2) True by auto
  show ?thesis
  proof (cases "n \<le> ch_remaining c \<and> length bs - p < n \<and> ch_short_fails c")
    case True
    have "ch_cursor c \<noteq> ch_total c" "unread c = length bs - p" "ch_status c = STATUS_SUCCESS"
      using assms(1) \<open>p < length bs\<close> holds_in_file [OF assms(1)] by (auto simp: holds_def)
    then show ?thesis using True by (simp add: mc_read_def)
  next
    case False
    then obtain st c' where "mc_read n c = (st, Some (take n (drop p bs)), c')"
      using mc_read_reads [OF assms(1) True n(1)] by metis
    then show ?thesis using n(2) by simp
  qed
qed

subsection \<open>Seeking\<close>

lemma locate_Some:
  "locate k pos rs = Some (b, off) \<Longrightarrow>
    \<exists>i < length rs. b = k + i \<and> pos = length (concat (map ref_bytes (take i rs))) + off \<and> off < length (ref_bytes (rs ! i))"
proof (induction k pos rs rule: locate.induct)
  case (2 k pos r rs)
  show ?case
  proof (cases "pos < length (ref_bytes r)")
    case True
    then show ?thesis using 2(2) by (auto intro: exI [of _ 0])
  next
    case False
    with 2 obtain i where "i < length rs" "b = Suc k + i"
        "pos - length (ref_bytes r) = length (concat (map ref_bytes (take i rs))) + off" "off < length (ref_bytes (rs ! i))"
      by auto
    then show ?thesis using False by (intro exI [of _ "Suc i"]) auto
  qed
qed simp

lemma locate_None: "locate k pos rs = None \<Longrightarrow> length (concat (map ref_bytes rs)) \<le> pos"
  by (induction k pos rs rule: locate.induct) (auto split: if_splits)

theorem mc_seek_holds:
  assumes "holds c bs p" "new_cursor method v c = Some pos" "unat pos \<le> length bs"
  shows "\<exists>c'. mc_set_cursor v method c = (STATUS_SUCCESS, c') \<and> holds c' bs (unat pos)"
proof -
  define c1 where "c1 = c\<lparr>ch_cursor := pos\<rparr>"
  have c: "ch_status c = STATUS_SUCCESS" "\<not> ch_total c < pos" "unat (ch_total c) = length bs"
      "length bs \<le> length (capacity c)" "take (length bs) (capacity c) = bs" "growable c"
    using assms(1,3) by (simp_all add: holds_def word_less_nat_alt)
  have t: "block_start (length (ch_buffers c) - 1) c \<le> length bs"
    using assms(1) by (auto simp: holds_def tight_def)
  show ?thesis
  proof (cases "locate 0 (unat pos) (ch_buffers c)")
    case None
    then have "length (capacity c) \<le> unat pos" by (simp add: capacity_def locate_None)
    then have e: "unat pos = length bs" "length (capacity c) = length bs" using c(4) assms(3) by simp_all
    define c' where "c' = c1\<lparr>ch_remaining := 0, ch_index := int (length (ch_buffers c)) - 1\<rparr>"
    have "pos = ch_total c" using e(1) c(3) by (simp add: word_unat_eq_iff)
    then have "mc_set_cursor v method c = (STATUS_SUCCESS, c')"
      using c assms(2) None by (simp add: mc_set_cursor_def c1_def c'_def)
    moreover have "placed c'"
      using e block_start_all [of c] by (simp add: placed_def c'_def c1_def next_block_def block_start_def)
    ultimately show ?thesis
      using c t e by (auto simp: holds_def c'_def c1_def growable_def tight_def block_start_def capacity_def)
  next
    case (Some x)
    then obtain i off where x: "x = (i, off)" "i < length (ch_buffers c)" "unat pos = block_start i c + off"
        "off < length (ref_bytes (ch_buffers c ! i))"
      using locate_Some [of 0 "unat pos" "ch_buffers c"] by (cases x) (auto simp: block_start_def)
    define c' where "c' = c1\<lparr>ch_index := int i, ch_ptr := (i, off),
        ch_remaining := length (ref_bytes (ch_buffers c ! i)) - off\<rparr>"
    have "select_block i c1 = (STATUS_SUCCESS, c1\<lparr>ch_index := int i, ch_ptr := (i, 0),
        ch_remaining := length (ref_bytes (ch_buffers c1 ! i))\<rparr>)"
      using x(2) c(1) by (intro select_block_in_range) (simp_all add: c1_def)
    then have "mc_set_cursor v method c = (STATUS_SUCCESS, c')"
      using c assms(2) Some x(1) by (simp add: mc_set_cursor_def c1_def c'_def)
    moreover have "placed c'"
      using x block_start_Suc [OF x(2)] by (simp add: placed_def c'_def c1_def next_block_def nat_add_distrib block_start_def)
    ultimately show ?thesis
      using c t assms(3) by (auto simp: holds_def c'_def c1_def growable_def tight_def block_start_def capacity_def)
  qed
qed

theorem mc_seek_outside:
  assumes "holds c bs p" "new_cursor method v c = Some pos" "length bs < unat pos"
  shows "mc_set_cursor v method c = (STATUS_INVALID_PARAMETER, c\<lparr>ch_status := STATUS_INVALID_PARAMETER\<rparr>)"
  using assms by (simp add: mc_set_cursor_def holds_def word_less_nat_alt latch_def)

lemma mc_new_holds:
  assumes "0 < first" "0 < min_grow" "0 < max_grow" "max_grow + min_grow \<le> 2 ^ 32"
  shows "holds (mc_new first min_grow max_grow) [] 0"
  using assms by (simp add: holds_def mc_new_def mc_initialize_def growable_def placed_def tight_def next_block_def
      block_start_def)

subsection \<open>Blocks handed over and captured\<close>

definition bytes_in_use :: "kmem_ref \<Rightarrow> u8 list" where
  "bytes_in_use r = take (unat (ref_param r)) (ref_bytes r)"

definition block_bytes :: "kmem_ref list \<Rightarrow> u8 list" where
  "block_bytes rs = concat (map ref_bytes rs)"

lemma set_params_bytes [simp]: "map ref_bytes (set_params t rs) = map ref_bytes rs"
  by (induction t rs rule: set_params.induct) simp_all

lemma set_params_in_use:
  assumes "length (block_bytes (butlast rs)) \<le> unat t" "unat t \<le> length (block_bytes rs)"
  shows "concat (map bytes_in_use (set_params t rs)) = take (unat t) (block_bytes rs)"
  using assms
proof (induction t rs rule: set_params.induct)
  case (3 t r r' rs)
  have len: "length (ref_bytes r) \<le> unat t" "length (ref_bytes r) < 2 ^ 32"
    using 3(2) unsigned_less [of t, where 'a = nat] by (auto simp: block_bytes_def)
  then have u: "unat (of_nat (length (ref_bytes r)) :: u32) = length (ref_bytes r)"
    by (simp add: unat_of_nat)
  then have s: "unat (t - of_nat (length (ref_bytes r))) = unat t - length (ref_bytes r)"
    using len(1) by (simp add: unat_sub word_le_nat_alt)
  show ?case
    using 3 s u len(1) by (auto simp: block_bytes_def bytes_in_use_def)
qed (simp_all add: block_bytes_def bytes_in_use_def)

lemma captured_total_set_params: "rs \<noteq> [] \<Longrightarrow> captured_total (set_params t rs) = t"
proof (induction t rs rule: set_params.induct)
  case (3 t r r' rs)
  obtain x xs where "set_params (t - of_nat (length (ref_bytes r))) (r' # rs) = x # xs"
    by (cases rs) auto
  then show ?case using 3 by simp
qed simp_all

lemma captured_total_full:
  "\<forall>r \<in> set rs. ref_param r = of_nat (length (ref_bytes r)) \<Longrightarrow> captured_total rs = of_nat (length (block_bytes rs))"
  by (induction rs rule: captured_total.induct) (simp_all add: block_bytes_def)

lemma fill_params_bytes [simp]: "map ref_bytes (fill_params rs) = map ref_bytes rs"
  by (induction rs rule: fill_params.induct) simp_all

text \<open>The blocks of a channel, cut at their \<open>_Param\<close>, are its file.\<close>

theorem blocks_in_use:
  assumes "holds c bs p" "mc_get_block_count c = (n, c')"
  shows "n = length (ch_buffers c')" "concat (map bytes_in_use (ch_buffers c')) = bs"
    "holds c' bs p" "ch_buffers c' = set_params (ch_total c) (ch_buffers c)"
proof -
  have c': "n = length (ch_buffers c)" "c' = c\<lparr>ch_buffers := set_params (ch_total c) (ch_buffers c)\<rparr>"
    using assms(2) by (simp_all add: mc_get_block_count_def)
  have len: "length (set_params t rs) = length rs" for t rs by (metis length_map set_params_bytes)
  have tk: "map ref_bytes (take i (set_params t rs)) = map ref_bytes (take i rs)" for i t rs
    by (metis set_params_bytes take_map)
  have nt: "ref_bytes (set_params t rs ! i) = ref_bytes (rs ! i)" if "i < length rs" for i t rs
    using that len [of t rs] by (metis nth_map set_params_bytes)
  have "length (block_bytes (butlast (ch_buffers c))) \<le> length bs"
    using assms(1) by (auto simp: holds_def tight_def block_start_def block_bytes_def butlast_conv_take)
  then show "concat (map bytes_in_use (ch_buffers c')) = bs"
    using assms(1) set_params_in_use [of "ch_buffers c" "ch_total c"]
    by (simp add: holds_def c' capacity_def block_bytes_def)
  have st: "block_start i c' = block_start i c" for i by (simp add: c' block_start_def tk)
  have "placed c'"
    using assms(1) nt unfolding holds_def placed_def st
    by (auto simp: c' len next_block_def)
  then show "holds c' bs p"
    using assms(1) st unfolding holds_def tight_def by (auto simp: c' growable_def capacity_def len max_def split: if_splits)
  show "n = length (ch_buffers c')" "ch_buffers c' = set_params (ch_total c) (ch_buffers c)"
    by (simp_all add: c' len)
qed

text \<open>A capture of blocks gives a channel with their bytes in use, the cursor at the start.\<close>

theorem end_capture_holds:
  assumes "growable c" "ch_status c = STATUS_SUCCESS" "ch_buffers c = rs" "rs \<noteq> []"
    "length (block_bytes (butlast rs)) \<le> unat (captured_total rs)" "unat (captured_total rs) \<le> length (block_bytes rs)"
  shows "\<exists>c'. mc_end_capture c = (STATUS_SUCCESS, c') \<and> holds c' (take (unat (captured_total rs)) (block_bytes rs)) 0"
proof -
  define c1 where "c1 = c\<lparr>ch_total := captured_total rs, ch_buffers := fill_params rs, ch_cursor := 0\<rparr>"
  have len: "length (fill_params rs) = length rs" by (metis length_map fill_params_bytes)
  have pos: "0 < length (ch_buffers c1)" using assms(4) len by (simp add: c1_def)
  let ?c' = "c1\<lparr>ch_index := int 0, ch_ptr := (0, 0), ch_remaining := length (ref_bytes (ch_buffers c1 ! 0))\<rparr>"
  have "mc_end_capture c = select_block 0 c1"
    using assms(2,3,4) by (simp add: mc_end_capture_def c1_def)
  then have "mc_end_capture c = (STATUS_SUCCESS, ?c')"
    using select_block_in_range [OF pos] assms(2) by (simp add: c1_def)
  moreover have "placed ?c'"
    using pos by (intro placed_selected) (simp_all add: c1_def block_start_def)
  moreover have "block_start (length rs - 1) c1 = length (block_bytes (butlast rs))"
    by (simp add: block_start_def c1_def block_bytes_def butlast_conv_take take_map [symmetric])
  then have "tight ?c'" using assms(5) len by (simp add: tight_def c1_def block_start_def)
  ultimately show ?thesis
    using assms by (simp add: holds_def c1_def growable_def capacity_def block_bytes_def)
qed

subsection \<open>No block is empty\<close>

definition no_empty_block :: "kmem_channel \<Rightarrow> bool" where
  "no_empty_block c \<longleftrightarrow> (\<forall>r \<in> set (ch_buffers c). ref_bytes r \<noteq> [])"

lemma overwrite_nonempty: "bs \<noteq> [] \<Longrightarrow> overwrite bs p d \<noteq> []"
  by (auto simp: overwrite_def)

lemma no_empty_block_copy_in [simp]: "no_empty_block c \<Longrightarrow> no_empty_block (copy_in d c)"
proof -
  assume c: "no_empty_block c"
  obtain block off where p: "ch_ptr c = (block, off)" by fastforce
  show ?thesis
  proof (cases "block < length (ch_buffers c)")
    case True
    then show ?thesis
      using c p set_update_subset_insert [of "ch_buffers c" block]
      by (fastforce simp: no_empty_block_def copy_in_def overwrite_nonempty)
  next
    case False
    then show ?thesis using c p by (simp add: no_empty_block_def copy_in_def list_update_beyond)
  qed
qed

lemma no_empty_block_updates [simp]:
  "no_empty_block (raise_total c) = no_empty_block c"
  "no_empty_block (c\<lparr>ch_index := i\<rparr>) = no_empty_block c" "no_empty_block (c\<lparr>ch_status := st\<rparr>) = no_empty_block c"
  "no_empty_block (c\<lparr>ch_index := i, ch_ptr := q, ch_remaining := n\<rparr>) = no_empty_block c"
  by (simp_all add: no_empty_block_def raise_total_def)

lemma no_empty_block_select: "select_block b c = (st, c') \<Longrightarrow> no_empty_block c \<Longrightarrow> no_empty_block c'"
  by (auto simp: select_block_def split: if_splits)

lemma no_empty_block_grow: "mc_grow h c = (st, c') \<Longrightarrow> no_empty_block c \<Longrightarrow> no_empty_block c'"
  by (auto simp: mc_grow_def no_empty_block_def simp del: nt_success_cases split: if_splits option.splits)

lemma no_empty_block_enter: "enter_next_block h c = (st, c') \<Longrightarrow> no_empty_block c \<Longrightarrow> no_empty_block c'"
  by (auto simp: enter_next_block_def Let_def simp del: nt_success_cases split: if_splits prod.splits
      intro: no_empty_block_select no_empty_block_grow dest!: no_empty_block_grow)

lemma no_empty_block_split_write: "split_write d c = (st, c') \<Longrightarrow> no_empty_block c \<Longrightarrow> no_empty_block c'"
proof (induction d c arbitrary: st c' rule: split_write.induct)
  case (1 d c)
  show ?case
  proof (cases "0 < ch_remaining c \<and> length d \<le> ch_remaining c")
    case True
    then show ?thesis using 1(2,3) by (auto simp: split_write.simps [of d c])
  next
    case False
    obtain st1 c1 where e: "enter_next_block (length (drop (ch_remaining c) d)) (fill_block d c) = (st1, c1)" by fastforce
    have c1: "no_empty_block c1"
      using no_empty_block_enter [OF e] 1(3) by (simp add: fill_block_def)
    have "split_write d c = (if \<not> nt_success st1 then (st1, c1) else split_write (drop (ch_remaining c) d) c1)"
      by (subst split_write.simps) (simp only: False if_False Let_def e prod.case)
    then show ?thesis
      using 1(1) [OF False refl e [symmetric] refl] 1(2) c1 by (auto simp del: nt_success_cases split: if_splits dest: sym)
  qed
qed

lemma no_empty_block_write: "mc_write d c = (st, c') \<Longrightarrow> no_empty_block c \<Longrightarrow> no_empty_block c'"
  by (auto simp: mc_write_def simp del: nt_success_cases split: if_splits dest: no_empty_block_split_write)

lemma no_empty_block_seek: "mc_set_cursor v m c = (st, c') \<Longrightarrow> no_empty_block c \<Longrightarrow> no_empty_block c'"
  by (auto simp: mc_set_cursor_def Let_def select_block_def no_empty_block_def simp del: nt_success_cases
      split: if_splits option.splits prod.splits)

lemma no_empty_block_split_read: "split_read n acc c = (st, r, c') \<Longrightarrow> ch_buffers c' = ch_buffers c"
proof (induction n acc c arbitrary: st r c' rule: split_read.induct)
  case (1 n acc c)
  define m where "m = (if 0 < ch_remaining c then min (min n (ch_remaining c)) (unread c) else 0)"
  obtain bs c1 where o: "(if 0 < ch_remaining c then copy_out m c else ([], c)) = (bs, c1)" by fastforce
  obtain st2 c2 where e: "select_block (next_block c1) (c1\<lparr>ch_index := int (next_block c1)\<rparr>) = (st2, c2)" by fastforce
  have b: "ch_buffers c1 = ch_buffers c"
    using o copy_out_keeps(2) [of m c] by (auto split: if_splits) (metis copy_out_keeps(2) snd_conv)
  have b2: "ch_buffers c2 = ch_buffers c1" using e by (auto simp: select_block_def split: if_splits)
  have short: "end_short_read k xs c3 = (st, r, c') \<Longrightarrow> ch_buffers c' = ch_buffers c3" for k xs c3
    by (auto simp: end_short_read_def split: if_splits)
  have u: "split_read n acc c =
      (if 0 < ch_remaining c \<and> n = m then end_short_read 0 (acc @ bs) c1
       else if \<not> nt_success st2 then end_short_read (n - m) (acc @ bs) c2
       else split_read (n - m) (acc @ bs) c2)"
    by (subst split_read.simps) (simp only: Let_def m_def [symmetric] o e prod.case)
  consider "0 < ch_remaining c \<and> n = m" | "\<not> (0 < ch_remaining c \<and> n = m)" "\<not> nt_success st2"
    | "\<not> (0 < ch_remaining c \<and> n = m)" "nt_success st2" by blast
  then show ?case
  proof cases
    case 1
    then show ?thesis using "1.prems" u short b by simp
  next
    case 2
    then have "end_short_read (n - m) (acc @ bs) c2 = (st, r, c')" using "1.prems" unfolding u if_not_P [OF 2(1)] if_P [OF 2(2)] by simp
    then show ?thesis using short b b2 by simp
  next
    case 3
    then have "split_read (n - m) (acc @ bs) c2 = (st, r, c')" using "1.prems" unfolding u if_not_P [OF 3(1)] by simp
    then show ?thesis
      using "1.IH" [OF m_def o [symmetric] refl 3(1) refl e [symmetric]] 3(2) b b2 by (simp del: nt_success_cases)
  qed
qed

lemma no_empty_block_read: "mc_read n c = (st, r, c') \<Longrightarrow> no_empty_block c \<Longrightarrow> no_empty_block c'"
proof -
  assume r: "mc_read n c = (st, r, c')" and c: "no_empty_block c"
  have "ch_buffers c' = ch_buffers c"
    using r no_empty_block_split_read
    by (auto simp: mc_read_def copy_out_def simp del: nt_success_cases split: if_splits prod.splits)
  then show ?thesis using c by (simp add: no_empty_block_def)
qed

end
