(* ===== verification/Fabric_Stream.thy ===== *)
theory Fabric_Stream
  imports Mem_Channel_Spec
begin

section \<open>Streams of bytes\<close>

text \<open>
  \<open>IFabricStream\<close> (shared/serialization/inc/IFabricStream.h) is the interface the serializable stream
  writes to and reads from; here a record of its operations. What a caller may rely on is the locale
  \<open>byte_file\<close>: a state \<open>s\<close> stands for the bytes \<open>bs\<close> with the position \<open>p\<close>. \<open>FabricStream\<close>
  (shared/serialization/src/FabricStream.cpp) implements it over a memory channel.
\<close>

record 's stream_ops =
  op_write :: "u8 list \<Rightarrow> 's \<Rightarrow> ntstatus \<times> 's"
  op_write_no_copy :: "u8 list \<Rightarrow> 's \<Rightarrow> ntstatus \<times> 's"
  op_read :: "u32 \<Rightarrow> 's \<Rightarrow> ntstatus \<times> u8 list \<times> 's"
  op_read_no_copy :: "u32 \<Rightarrow> 's \<Rightarrow> ntstatus \<times> u8 list option \<times> 's"
  op_seek :: "u32 \<Rightarrow> 's \<Rightarrow> ntstatus \<times> 's"
  op_seek_to_end :: "'s \<Rightarrow> ntstatus \<times> 's"
  op_position :: "'s \<Rightarrow> u32"
  op_size :: "'s \<Rightarrow> u32"

locale byte_file =
  fixes ops :: "'s stream_ops" and stands :: "'s \<Rightarrow> u8 list \<Rightarrow> nat \<Rightarrow> bool"
  assumes stands_bounds: "stands s bs p \<Longrightarrow> p \<le> length bs \<and> length bs < 2 ^ 32"
    and position: "stands s bs p \<Longrightarrow> op_position ops s = of_nat p"
    and size: "stands s bs p \<Longrightarrow> op_size ops s = of_nat (length bs)"
    and write_at: "stands s bs p \<Longrightarrow> p + length d < 2 ^ 32 \<Longrightarrow>
      \<exists>s'. op_write ops d s = (STATUS_SUCCESS, s') \<and> stands s' (overwrite bs p d) (p + length d)"
    and read_at: "stands s bs p \<Longrightarrow> 0 < unat n \<Longrightarrow> p + unat n \<le> length bs \<Longrightarrow>
      \<exists>s'. op_read ops n s = (STATUS_SUCCESS, take (unat n) (drop p bs), s') \<and> stands s' bs (p + unat n)"
    and read_past_end: "stands s bs p \<Longrightarrow> length bs < p + unat n \<Longrightarrow>
      \<exists>d s'. op_read ops n s = (K_STATUS_COULD_NOT_READ_STREAM, d, s') \<and> length d < unat n"
    and seek_inside: "stands s bs p \<Longrightarrow> unat v \<le> length bs \<Longrightarrow>
      \<exists>s'. op_seek ops v s = (STATUS_SUCCESS, s') \<and> stands s' bs (unat v)"
    and seek_outside: "stands s bs p \<Longrightarrow> length bs < unat v \<Longrightarrow>
      \<exists>s'. op_seek ops v s = (STATUS_INVALID_PARAMETER, s')"
    and seek_to_end: "stands s bs p \<Longrightarrow>
      \<exists>s'. op_seek_to_end ops s = (STATUS_SUCCESS, s') \<and> stands s' bs (length bs)"

section \<open>FabricStream\<close>

text \<open>
  The channel, the extension buffers, the cursors of \<open>GetNextBuffer\<close> and the completion callbacks (a
  callback is a number). \<open>fs_garbage\<close> is the value of the local \<open>actuallyRead\<close> when the channel
  returns without setting it.
\<close>

record fabric_stream =
  fs_channel :: kmem_channel
  fs_extension :: "u8 list list"
  fs_regular_cursor :: nat
  fs_extension_cursor :: nat
  fs_on_extension :: bool
  fs_callbacks :: "nat list"
  fs_garbage :: nat

definition fs_over :: "kmem_channel \<Rightarrow> u8 list list \<Rightarrow> nat \<Rightarrow> fabric_stream" where
  "fs_over ch ext garbage =
    \<lparr>fs_channel = ch, fs_extension = ext, fs_regular_cursor = 0, fs_extension_cursor = 0,
     fs_on_extension = False, fs_callbacks = [], fs_garbage = garbage\<rparr>"

text \<open>The default growth of a channel: \<open>0x1000 - KAllocatorSupport::MaxAllocationBlockOverhead\<close>.\<close>

definition fs_create :: "nat \<Rightarrow> nat \<Rightarrow> nat \<Rightarrow> fabric_stream" where
  "fs_create default_grow max_grow_by garbage =
    fs_over (if max_grow_by = 0 then mc_new 128 default_grow default_grow else mc_new 128 4096 max_grow_by)
      [] garbage"

definition fs_write_bytes :: "u8 list \<Rightarrow> fabric_stream \<Rightarrow> ntstatus \<times> fabric_stream" where
  "fs_write_bytes d s = (let (st, ch) = mc_write d (fs_channel s) in (st, s\<lparr>fs_channel := ch\<rparr>))"

definition fs_write_bytes_no_copy :: "u8 list \<Rightarrow> fabric_stream \<Rightarrow> ntstatus \<times> fabric_stream" where
  "fs_write_bytes_no_copy d s = (STATUS_SUCCESS, s\<lparr>fs_extension := fs_extension s @ [d]\<rparr>)"

definition fs_read_bytes :: "u32 \<Rightarrow> fabric_stream \<Rightarrow> ntstatus \<times> u8 list \<times> fabric_stream" where
  "fs_read_bytes n s =
    (let (st, r, ch) = mc_read (unat n) (fs_channel s);
         actually_read = (case r of None \<Rightarrow> fs_garbage s | Some d \<Rightarrow> length d);
         destination = (case r of None \<Rightarrow> [] | Some d \<Rightarrow> d);
         s' = s\<lparr>fs_channel := ch\<rparr>
     in if actually_read \<noteq> unat n then (K_STATUS_COULD_NOT_READ_STREAM, destination, s')
        else (st, destination, s'))"

definition fs_read_bytes_no_copy :: "u32 \<Rightarrow> fabric_stream \<Rightarrow> ntstatus \<times> u8 list option \<times> fabric_stream" where
  "fs_read_bytes_no_copy i s =
    (if unat i < length (fs_extension s) then (STATUS_SUCCESS, Some (fs_extension s ! unat i), s)
     else (K_STATUS_NO_MORE_EXTENSION_BUFFERS, None, s))"

definition fs_seek :: "u32 \<Rightarrow> fabric_stream \<Rightarrow> ntstatus \<times> fabric_stream" where
  "fs_seek v s = (let (st, ch) = mc_set_cursor v From_Begin (fs_channel s) in (st, s\<lparr>fs_channel := ch\<rparr>))"

definition fs_seek_to_end :: "fabric_stream \<Rightarrow> ntstatus \<times> fabric_stream" where
  "fs_seek_to_end s = (let (st, ch) = mc_set_cursor 0 Before_End (fs_channel s) in (st, s\<lparr>fs_channel := ch\<rparr>))"

text \<open>\<open>GetNextBuffer\<close>: the blocks of the channel, then the extension buffers.\<close>

definition fs_get_next_buffer :: "fabric_stream \<Rightarrow> ntstatus \<times> (u8 list \<times> bool) option \<times> fabric_stream" where
  "fs_get_next_buffer s =
    (let (n, ch) = mc_get_block_count (fs_channel s);
         s' = s\<lparr>fs_channel := ch\<rparr>
     in if \<not> fs_on_extension s \<and> fs_regular_cursor s < n then
          let s'' = s'\<lparr>fs_regular_cursor := fs_regular_cursor s + 1\<rparr>
          in case mc_get_block (fs_regular_cursor s) ch of
               Inr r \<Rightarrow> (STATUS_SUCCESS, Some (bytes_in_use r, False), s'')
             | Inl st \<Rightarrow> (st, None, s'')
        else
          let s'' = (if fs_on_extension s then s else s'\<lparr>fs_on_extension := True\<rparr>)
          in if fs_extension_cursor s < length (fs_extension s) then
               (STATUS_SUCCESS, Some (fs_extension s ! fs_extension_cursor s, True),
                s''\<lparr>fs_extension_cursor := fs_extension_cursor s + 1\<rparr>)
             else (K_STATUS_NO_MORE_EXTENSION_BUFFERS, None, s''))"

definition fs_get_all_buffers :: "nat \<Rightarrow> fabric_stream \<Rightarrow> ntstatus \<times> nat \<times> u8 list list" where
  "fs_get_all_buffers count s =
    (let (n, ch) = mc_get_block_count (fs_channel s)
     in if count < n + length (fs_extension s) then (K_STATUS_BUFFER_TOO_SMALL, n + length (fs_extension s), [])
        else if \<not> nt_success (ch_status ch) \<and> 0 < n then (ch_status ch, count, [])
        else (STATUS_SUCCESS, n + length (fs_extension s), map bytes_in_use (ch_buffers ch) @ fs_extension s))"

definition fs_add_completion_callback :: "nat \<Rightarrow> fabric_stream \<Rightarrow> ntstatus \<times> fabric_stream" where
  "fs_add_completion_callback cb s = (STATUS_SUCCESS, s\<lparr>fs_callbacks := fs_callbacks s @ [cb]\<rparr>)"

text \<open>\<open>InvokeCompletionCallbacks\<close>: the callbacks it calls, in order.\<close>

definition fs_invoke_completion_callbacks :: "fabric_stream \<Rightarrow> ntstatus \<times> nat list" where
  "fs_invoke_completion_callbacks s = (STATUS_SUCCESS, fs_callbacks s)"

definition fabric_ops :: "fabric_stream stream_ops" where
  "fabric_ops =
    \<lparr>op_write = fs_write_bytes, op_write_no_copy = fs_write_bytes_no_copy, op_read = fs_read_bytes,
     op_read_no_copy = fs_read_bytes_no_copy, op_seek = fs_seek, op_seek_to_end = fs_seek_to_end,
     op_position = (\<lambda>s. ch_cursor (fs_channel s)), op_size = (\<lambda>s. ch_total (fs_channel s))\<rparr>"

definition fs_holds :: "fabric_stream \<Rightarrow> u8 list \<Rightarrow> nat \<Rightarrow> bool" where
  "fs_holds s bs p \<longleftrightarrow> holds (fs_channel s) bs p"

lemma holds_bounds: "holds c bs p \<Longrightarrow> p \<le> length bs \<and> length bs < 2 ^ 32"
  using unsigned_less [of "ch_total c", where 'a = nat] by (auto simp: holds_def)

interpretation fs: byte_file fabric_ops fs_holds
proof (unfold_locales, goal_cases)
  case (1 s bs p)
  then show ?case using holds_bounds unfolding fs_holds_def by blast
next
  case (2 s bs p)
  then show ?case by (auto simp: fs_holds_def holds_def fabric_ops_def)
next
  case (3 s bs p)
  then have u: "length bs = unat (ch_total (fs_channel s))" by (simp add: fs_holds_def holds_def)
  show ?case by (simp add: fabric_ops_def u)
next
  case (4 s bs p d)
  then show ?case using mc_write_holds [of "fs_channel s" bs p d]
    by (auto simp: fabric_ops_def fs_write_bytes_def fs_holds_def)
next
  case (5 s bs p n)
  then show ?case using mc_read_holds [of "fs_channel s" bs p "unat n"]
    by (auto simp: fabric_ops_def fs_read_bytes_def fs_holds_def)
next
  case (6 s bs p n)
  then obtain st r c' where "mc_read (unat n) (fs_channel s) = (st, r, c')"
      "case r of None \<Rightarrow> st = K_STATUS_COULD_NOT_READ_STREAM | Some xs \<Rightarrow> length xs < unat n"
    using mc_read_short [of "fs_channel s" bs p "unat n"] by (auto simp: fs_holds_def)
  moreover have "0 < unat n" using 6 holds_bounds unfolding fs_holds_def by fastforce
  ultimately show ?case by (cases r) (auto simp: fabric_ops_def fs_read_bytes_def)
next
  case (7 s bs p v)
  then show ?case using mc_seek_holds [of "fs_channel s" bs p From_Begin v v]
    by (auto simp: fabric_ops_def fs_seek_def fs_holds_def)
next
  case (8 s bs p v)
  then show ?case using mc_seek_outside [of "fs_channel s" bs p From_Begin v v]
    by (auto simp: fabric_ops_def fs_seek_def fs_holds_def)
next
  case (9 s bs p)
  then have "unat (ch_total (fs_channel s)) = length bs" by (simp add: fs_holds_def holds_def)
  then show ?case using 9 mc_seek_holds [of "fs_channel s" bs p Before_End 0 "ch_total (fs_channel s)"]
    by (auto simp: fabric_ops_def fs_seek_to_end_def fs_holds_def)
qed

end
