(* ===== verification/Byte_Compressor.thy ===== *)
theory Byte_Compressor
  imports Nt_Status
begin

section \<open>Variable-length integers\<close>

text \<open>
  shared/serialization/src/ByteCompressor.h. A value of an integer type \<open>T\<close> of at least two bytes is
  written as seven-bit groups, most significant group first, every byte but the last with the bit
  \<open>MASK_MOREDATA\<close>. The writer fills a buffer of \<open>MAX_COMPRESSION_SIZE(sizeof(T))\<close> bytes from its end
  and stops when the rest of the value is the sign fill and, for a signed type, the group just
  written shows the sign in \<open>MASK_NEGATIVE\<close>. The value 0 takes no byte at all.

  \<open>T\<close> is a word type \<^typ>\<open>'a::len word\<close>; the flag \<open>sg\<close> is \<open>isSigned\<close>, which the two wrapper classes
  set to the signedness of \<open>T\<close>, so it also selects the arithmetic or the logical \<open>>>=\<close>. The index
  into the buffer is the number of free slots: a write with none left, outside the buffer, is
  \<^term>\<open>None\<close>.
\<close>

definition max_compression_size :: "nat \<Rightarrow> nat" where
  "max_compression_size type_size = (type_size * 8 + 6) div 7"

definition shift_right_7 :: "bool \<Rightarrow> 'a::len word \<Rightarrow> 'a word" where
  "shift_right_7 sg v = (if sg then signed_drop_bit 7 v else drop_bit 7 v)"

definition grab :: "bool \<Rightarrow> 'a::len word \<Rightarrow> u8" where
  "grab is_first temp =
    (let b = ucast (0x7F AND temp) in if is_first then b else b OR 0x80)"

fun compress_loop :: "bool \<Rightarrow> 'a::len word \<Rightarrow> u8 \<Rightarrow> bool \<Rightarrow> nat \<Rightarrow> 'a word \<Rightarrow> u8 list \<Rightarrow> u8 list option" where
  "compress_loop sg target sign_bit is_first 0 temp out = None"
| "compress_loop sg target sign_bit is_first (Suc slots) temp out =
    (let b = grab is_first temp;
         temp' = shift_right_7 sg temp
     in if temp' = target \<and> (\<not> sg \<or> b AND 0x40 = sign_bit) then Some (b # out)
        else compress_loop sg target sign_bit False slots temp' (b # out))"

definition compress_value :: "bool \<Rightarrow> 'a::len word \<Rightarrow> u8 list option" where
  "compress_value sg v =
    (if v = 0 then Some []
     else let target = (if sg \<and> sint v < 0 then NOT 0 else 0) :: 'a word;
              sign_bit = ucast (target AND 0x40)
          in compress_loop sg target sign_bit True (max_compression_size (LENGTH('a) div 8)) v [])"

text \<open>
  The reader takes its bytes from a stream through \<open>rd\<close>, the call \<open>ReadRawBytes(1, ...)\<close>. The loop
  is entered with the byte just read and the number of bytes it may still read.
\<close>

definition sign_fill :: "bool \<Rightarrow> u8 \<Rightarrow> 'a::len word" where
  "sign_fill sg b = (if sg \<and> b AND 0x40 \<noteq> 0 then NOT 0 else 0)"

definition take_group :: "'a::len word \<Rightarrow> u8 \<Rightarrow> 'a word" where
  "take_group v b = push_bit 7 v OR ucast (b AND 0x7F)"

fun uncompress_loop ::
  "('s \<Rightarrow> (u8, 's) outcome) \<Rightarrow> nat \<Rightarrow> 'a::len word \<Rightarrow> u8 \<Rightarrow> 's \<Rightarrow> ('a word, 's) outcome" where
  "uncompress_loop rd left v b s =
    (let v' = take_group v b
     in if b AND 0x80 = 0 then Inr (v', s)
        else case left of
               0 \<Rightarrow> Inl K_STATUS_INVALID_STREAM_FORMAT
             | Suc left' \<Rightarrow> and_then (rd s) (\<lambda>b' s'. uncompress_loop rd left' v' b' s'))"

declare uncompress_loop.simps [simp del]

definition read_and_uncompress ::
  "('s \<Rightarrow> (u8, 's) outcome) \<Rightarrow> bool \<Rightarrow> 's \<Rightarrow> ('a::len word, 's) outcome" where
  "read_and_uncompress rd sg s =
    and_then (rd s) (\<lambda>b s'.
      uncompress_loop rd (max_compression_size (LENGTH('a) div 8) - 1) (sign_fill sg b) b s')"

subsection \<open>What a run of groups stands for\<close>

definition groups_value :: "bool \<Rightarrow> u8 list \<Rightarrow> 'a::len word" where
  "groups_value sg bs = foldl take_group (sign_fill sg (hd bs)) bs"

definition marked :: "u8 list \<Rightarrow> bool" where
  "marked bs \<longleftrightarrow> bs \<noteq> [] \<and> (\<forall>b \<in> set (butlast bs). b AND 0x80 \<noteq> 0) \<and> last bs AND 0x80 = 0"

text \<open>The reader's bytes: reading the list from \<open>s\<close> succeeds and leads to \<open>t\<close>.\<close>

fun feeds :: "('s \<Rightarrow> (u8, 's) outcome) \<Rightarrow> 's \<Rightarrow> u8 list \<Rightarrow> 's \<Rightarrow> bool" where
  "feeds rd s [] t = (s = t)"
| "feeds rd s (b # bs) t = (\<exists>s'. rd s = Inr (b, s') \<and> feeds rd s' bs t)"

lemma low7_bit [simp]: "bit (0x7F :: 'a::len word) i \<longleftrightarrow> i < 7 \<and> i < LENGTH('a)"
proof -
  have "(0x7F :: 'a word) = mask 7" by (simp add: mask_eq_exp_minus_1)
  then show ?thesis by (simp only: bit_mask_iff) auto
qed

lemma low7_bit_int [simp]: "bit (0x7F :: int) i \<longleftrightarrow> i < 7" and low7_bit_nat [simp]: "bit (0x7F :: nat) i \<longleftrightarrow> i < 7"
proof -
  have "(0x7F :: int) = mask 7" "(0x7F :: nat) = mask 7" by (simp_all add: mask_eq_exp_minus_1)
  then show "bit (0x7F :: int) i \<longleftrightarrow> i < 7" "bit (0x7F :: nat) i \<longleftrightarrow> i < 7" by (simp_all only: bit_mask_iff) auto
qed

lemma bit6 [simp]:
  "bit (0x40 :: 'a::len word) i \<longleftrightarrow> i = 6 \<and> 6 < LENGTH('a)" "bit (0x40 :: int) i \<longleftrightarrow> i = 6" "bit (0x40 :: nat) i \<longleftrightarrow> i = 6"
proof -
  have "(0x40 :: 'a word) = 2 ^ 6" "(0x40 :: int) = 2 ^ 6" "(0x40 :: nat) = 2 ^ 6" by simp_all
  then show "bit (0x40 :: 'a word) i \<longleftrightarrow> i = 6 \<and> 6 < LENGTH('a)" "bit (0x40 :: int) i \<longleftrightarrow> i = 6"
      "bit (0x40 :: nat) i \<longleftrightarrow> i = 6"
    by (simp_all only: bit_exp_iff) auto
qed

lemma group_bit [simp]: "bit (ucast (0x7F AND v) :: u8) i \<longleftrightarrow> i < 7 \<and> bit v i" for v :: "'a::len word"
  by (auto simp: bit_simps dest: bit_imp_le_length)

lemma and_one_bit [simp]:
  "b AND 0x80 = 0 \<longleftrightarrow> \<not> bit b 7" "b AND 0x40 = 0 \<longleftrightarrow> \<not> bit b 6" for b :: u8
  using and_exp_eq_0_iff_not_bit [of b 7] and_exp_eq_0_iff_not_bit [of b 6] by simp_all

lemma or_high_bit [simp]: "bit (b OR 0x80) i \<longleftrightarrow> bit b i \<or> i = 7" for b :: u8
proof -
  have "(0x80 :: u8) = 2 ^ 7" by simp
  then show ?thesis by (simp only: bit_or_iff bit_exp_iff) auto
qed

lemma grab_bit [simp]: "bit (grab is_first temp) i \<longleftrightarrow> (if i < 7 then bit temp i else i = 7 \<and> \<not> is_first)"
  by (auto simp: grab_def Let_def)

lemma mid_bit_eq: "b AND 0x40 = (if c then 0x40 else 0) \<longleftrightarrow> bit b 6 = c" for b :: u8
proof -
  have e: "(0x40 :: u8) = 2 ^ 6" by simp
  have "b AND 0x40 = (if bit b 6 then 0x40 else 0)"
    by (rule bit_word_eqI) (auto simp only: e bit_and_iff bit_exp_iff split: if_splits, auto)
  then show ?thesis by auto
qed

lemma take_group_bit [simp]:
  "bit (take_group v b) i \<longleftrightarrow> i < LENGTH('a) \<and> (if i < 7 then bit b i else bit v (i - 7))" for v :: "'a::len word"
  by (auto simp: take_group_def bit_simps)

lemma shift_right_7_bit:
  "bit (shift_right_7 sg v) i \<longleftrightarrow>
     i < LENGTH('a) \<and> (if i + 7 < LENGTH('a) then bit v (i + 7) else sg \<and> bit v (LENGTH('a) - 1))"
  for v :: "'a::len word"
  by (auto simp: shift_right_7_def bit_simps ac_simps dest: bit_imp_le_length)

lemma regroup:
  fixes v :: "'a::len word"
  assumes "\<And>i. i < 7 \<Longrightarrow> i < LENGTH('a) \<Longrightarrow> bit b i = bit v i"
  shows "take_group (shift_right_7 sg v) b = v"
  by (rule bit_word_eqI) (auto simp: shift_right_7_bit assms)

subsection \<open>The writer\<close>

lemma sign_fill_simps [simp]: "sign_fill False b = 0" "sign_fill True b = (if bit b 6 then NOT 0 else 0)"
  by (simp_all add: sign_fill_def)

lemma groups_value_snoc:
  "bs \<noteq> [] \<Longrightarrow> groups_value sg (bs @ [b]) = take_group (groups_value sg bs) b"
  by (simp add: groups_value_def)

lemma groups_value_single: "groups_value sg [b] = take_group (sign_fill sg b) b"
  by (simp add: groups_value_def)

lemma compress_loop_groups:
  fixes temp :: "'a::len word"
  assumes "compress_loop sg (if neg then NOT 0 else 0) (if neg then 0x40 else 0) is_first slots temp out = Some r"
    and "neg \<longrightarrow> sg"
  obtains pre where "r = pre @ out" "pre \<noteq> []" "length pre \<le> slots" "groups_value sg pre = temp"
    "\<forall>b \<in> set (butlast pre). bit b 7" "bit (last pre) 7 \<longleftrightarrow> \<not> is_first"
  using assms
proof (induction slots arbitrary: is_first temp out thesis)
  case 0
  then show ?case by simp
next
  case (Suc slots)
  define b where "b = grab is_first temp"
  define temp' where "temp' = shift_right_7 sg temp"
  have bits: "bit b i = bit temp i" if "i < 7" for i
    using that by (simp add: b_def)
  have mark: "bit b 7 \<longleftrightarrow> \<not> is_first"
    by (simp add: b_def)
  have regrouped: "take_group temp' b = temp"
    unfolding temp'_def by (rule regroup) (simp add: bits)
  show ?case
  proof (cases "temp' = (if neg then NOT 0 else 0) \<and> (\<not> sg \<or> b AND 0x40 = (if neg then 0x40 else 0))")
    case True
    have r: "r = [b] @ out"
      using Suc.prems(2) True by (simp add: Let_def b_def temp'_def)
    have "sign_fill sg b = temp'"
      using True Suc.prems(3) by (cases sg) (auto simp: mid_bit_eq)
    then have "groups_value sg [b] = temp"
      by (simp add: groups_value_single regrouped)
    with r mark show ?thesis by (intro Suc.prems(1) [of "[b]"]) simp_all
  next
    case False
    have "compress_loop sg (if neg then NOT 0 else 0) (if neg then 0x40 else 0) False slots temp' (b # out) = Some r"
      using Suc.prems(2) False by (simp add: Let_def b_def temp'_def split: if_split_asm)
    then obtain pre where pre: "r = pre @ b # out" "pre \<noteq> []" "length pre \<le> slots"
        "groups_value sg pre = temp'" "\<forall>b \<in> set (butlast pre). bit b 7" "bit (last pre) 7"
      using Suc.IH Suc.prems(3) by metis
    have "\<forall>b \<in> set pre. bit b 7"
      using pre by (metis append_butlast_last_id in_set_conv_decomp_last set_ConsD Un_iff set_append list.set(1) empty_iff insert_iff list.set(2))
    then show ?thesis
      using pre mark by (intro Suc.prems(1) [of "pre @ [b]"]) (simp_all add: groups_value_snoc regrouped)
  qed
qed

text \<open>The groups that are left: how far the rest of the value reaches.\<close>

definition reaches :: "bool \<Rightarrow> nat \<Rightarrow> 'a::len word \<Rightarrow> bool" where
  "reaches sg n v \<longleftrightarrow>
    (if sg then - (2 ^ (7 * n)) \<le> 2 * sint v \<and> 2 * sint v < 2 ^ (7 * n) else uint v < 2 ^ (7 * n))"

lemma shift_right_7_value:
  "sint (shift_right_7 True v) = sint v div 128" "uint (shift_right_7 False v) = uint v div 128"
proof -
  show "sint (shift_right_7 True v) = sint v div 128"
    by (simp add: shift_right_7_def sint_signed_drop_bit_eq drop_bit_eq_div)
  have "uint (drop_bit 7 v) = drop_bit 7 (uint v)"
    by (simp add: unsigned_drop_bit_eq take_bit_int_eq_self)
  then show "uint (shift_right_7 False v) = uint v div 128"
    by (simp only: shift_right_7_def if_False) (simp add: drop_bit_eq_div)
qed

lemma reaches_shift:
  assumes "reaches sg (Suc n) v" "0 < n"
  shows "reaches sg n (shift_right_7 sg v)"
proof (cases sg)
  case True
  obtain k :: int where k: "2 ^ (7 * n) = 2 * k" "2 ^ (7 * Suc n) = 128 * (2 * k)"
    using assms(2) by (cases "7 * n") (auto simp: power_add)
  have "- k \<le> sint v div 128 \<and> sint v div 128 < k"
    using assms(1) True div_mult_mod_eq [of "sint v" 128] pos_mod_bound [of 128 "sint v"] pos_mod_sign [of 128 "sint v"]
    unfolding reaches_def k by simp linarith
  then show ?thesis
    using True unfolding reaches_def k
    by (simp add: shift_right_7_value)
next
  case False
  have "uint v div 128 < 2 ^ (7 * n)"
    using assms(1) False by (simp add: reaches_def power_add)
  then show ?thesis
    using False by (simp add: reaches_def shift_right_7_value)
qed

lemma reaches_last:
  fixes v :: "'a::len word"
  assumes "reaches sg 1 v" "7 \<le> LENGTH('a)" "sg \<longrightarrow> (neg \<longleftrightarrow> sint v < 0)" "neg \<longrightarrow> sg"
  shows "shift_right_7 sg v = (if neg then NOT 0 else 0)" "sg \<longrightarrow> (bit v 6 \<longleftrightarrow> neg)"
proof -
  have "shift_right_7 sg v = (if neg then NOT 0 else 0) \<and> (sg \<longrightarrow> (bit v 6 \<longleftrightarrow> neg))"
  proof (cases sg)
    case True
    define x where "x = sint v"
    have x: "- 64 \<le> x" "x < 64" "neg \<longleftrightarrow> x < 0"
      using assms True by (simp_all add: reaches_def x_def)
    then have d: "x div 128 = (if neg then - 1 else 0)" "x div 64 = (if neg then - 1 else 0)"
      by auto
    have "sint (shift_right_7 sg v) = sint (if neg then - 1 else 0 :: 'a word)"
      using True d(1) by (simp add: shift_right_7_value x_def)
    then have a: "shift_right_7 sg v = (if neg then NOT 0 else 0)"
      by (intro signed_word_eqI) (simp split: if_splits)
    have "bit v 6 \<longleftrightarrow> bit x 6"
      using assms(2) by (simp add: x_def bit_sint_iff)
    also have "\<dots> \<longleftrightarrow> neg"
      using d(2) by (simp add: bit_iff_odd)
    finally show ?thesis using a by simp
  next
    case False
    have "uint v div 128 = 0"
      using assms(1) False by (simp add: reaches_def)
    then have "shift_right_7 sg v = 0"
      using False by (simp add: word_uint_eq_iff shift_right_7_value)
    then show ?thesis using False assms(4) by simp
  qed
  then show "shift_right_7 sg v = (if neg then NOT 0 else 0)" "sg \<longrightarrow> (bit v 6 \<longleftrightarrow> neg)" by simp_all
qed

lemma shift_keeps_sign: "sg \<Longrightarrow> sint (shift_right_7 sg v) < 0 \<longleftrightarrow> sint v < 0"
  by (simp add: shift_right_7_value) presburger

lemma compress_loop_total:
  fixes temp :: "'a::len word"
  assumes "reaches sg slots temp" "0 < slots" "7 \<le> LENGTH('a)" "sg \<longrightarrow> (neg \<longleftrightarrow> sint temp < 0)" "neg \<longrightarrow> sg"
  shows "\<exists>r. compress_loop sg (if neg then NOT 0 else 0) (if neg then 0x40 else 0) is_first slots temp out = Some r"
  using assms
proof (induction slots arbitrary: temp is_first out)
  case 0
  then show ?case by simp
next
  case (Suc slots)
  show ?case
  proof (cases slots)
    case 0
    then have "reaches sg 1 temp" using Suc.prems(1) by simp
    note l = reaches_last [OF this Suc.prems(3,4,5)]
    have "\<not> sg \<or> grab is_first temp AND 0x40 = (if neg then 0x40 else 0)"
      using l(2) unfolding mid_bit_eq by simp
    then show ?thesis
      using l(1) by (simp only: compress_loop.simps Let_def) simp
  next
    case Suc': (Suc m)
    have "reaches sg slots (shift_right_7 sg temp)"
      using Suc.prems(1) Suc' by (simp add: reaches_shift)
    moreover have "sg \<longrightarrow> (neg \<longleftrightarrow> sint (shift_right_7 sg temp) < 0)"
      using Suc.prems(4) shift_keeps_sign by blast
    ultimately show ?thesis
      using Suc.IH [of "shift_right_7 sg temp"] Suc.prems(3,5) Suc'
      by (simp only: compress_loop.simps Let_def split: if_split) auto
  qed
qed

lemma seven_times_size:
  assumes "8 dvd n" "0 < n"
  shows "n \<le> 7 * max_compression_size (n div 8)" "0 < max_compression_size (n div 8)"
  using assms by (auto simp: max_compression_size_def elim!: dvdE)

lemma reaches_all:
  fixes v :: "'a::len word"
  assumes "LENGTH('a) \<le> 7 * n"
  shows "reaches sg n v"
proof (cases sg)
  case True
  have "(2 :: int) ^ LENGTH('a) \<le> 2 ^ (7 * n)"
    using assms by (rule power_increasing) simp
  moreover have "(2 :: int) ^ LENGTH('a) = 2 * 2 ^ (LENGTH('a) - 1)"
    by (simp flip: power_Suc)
  ultimately show ?thesis
    using True sint_range_size [of v] by (simp add: reaches_def word_size)
next
  case False
  have "(2 :: int) ^ LENGTH('a) \<le> 2 ^ (7 * n)"
    using assms by (rule power_increasing) simp
  then show ?thesis
    using False order.strict_trans2 [OF unsigned_less [of v, where 'a = int]] by (simp add: reaches_def)
qed

text \<open>The buffer suffices for every value, and what is written stands for the value.\<close>

lemma compress_value_groups:
  fixes v :: "'a::len word"
  assumes "8 dvd LENGTH('a)" "v \<noteq> 0"
  obtains r where "compress_value sg v = Some r" "r \<noteq> []"
    "length r \<le> max_compression_size (LENGTH('a) div 8)" "groups_value sg r = v" "marked r"
proof -
  define neg where "neg = (sg \<and> sint v < 0)"
  have sb: "ucast ((if neg then NOT 0 else 0 :: 'a word) AND 0x40) = (if neg then 0x40 else 0 :: u8)"
  proof -
    have "7 \<le> LENGTH('a)" using dvd_imp_le [OF assms(1) len_gt_0] by simp
    then show ?thesis
      by (intro bit_word_eqI) (auto simp: bit_simps)
  qed
  have n: "LENGTH('a) \<le> 7 * max_compression_size (LENGTH('a) div 8)" "0 < max_compression_size (LENGTH('a) div 8)"
    using seven_times_size [OF assms(1)] by simp_all
  have eq: "compress_value sg v =
      compress_loop sg (if neg then NOT 0 else 0) (if neg then 0x40 else 0) True
        (max_compression_size (LENGTH('a) div 8)) v []"
    using assms(2) unfolding compress_value_def neg_def [symmetric] Let_def sb by simp
  have "7 \<le> LENGTH('a)" using dvd_imp_le [OF assms(1) len_gt_0] by simp
  then obtain r where r: "compress_value sg v = Some r"
    using compress_loop_total [OF reaches_all [OF n(1), of sg v] n(2), where is_first = True and neg = neg and out = "[]"] eq
    by (auto simp: neg_def)
  have "neg \<longrightarrow> sg" by (simp add: neg_def)
  with r obtain pre where "r = pre @ []" "pre \<noteq> []" "length pre \<le> max_compression_size (LENGTH('a) div 8)"
      "groups_value sg pre = v" "\<forall>b \<in> set (butlast pre). bit b 7" "bit (last pre) 7 \<longleftrightarrow> \<not> True"
    unfolding eq by (rule compress_loop_groups)
  then show ?thesis
    using that r by (simp add: marked_def)
qed

subsection \<open>The reader\<close>

lemma uncompress_loop_step:
  "\<not> bit b 7 \<Longrightarrow> uncompress_loop rd left v b s = Inr (take_group v b, s)"
  "bit b 7 \<Longrightarrow> uncompress_loop rd 0 v b s = Inl K_STATUS_INVALID_STREAM_FORMAT"
  "bit b 7 \<Longrightarrow> uncompress_loop rd (Suc n) v b s =
     and_then (rd s) (\<lambda>b' s'. uncompress_loop rd n (take_group v b) b' s')"
  by (subst uncompress_loop.simps, simp add: Let_def)+

lemma uncompress_loop_groups:
  fixes v :: "'a::len word"
  assumes "feeds rd s bs t" "bs \<noteq> [] \<longrightarrow> bit b 7 \<and> (\<forall>c \<in> set (butlast bs). bit c 7) \<and> \<not> bit (last bs) 7"
    "bs = [] \<longrightarrow> \<not> bit b 7" "length bs \<le> left"
  shows "uncompress_loop rd left v b s = Inr (foldl take_group v (b # bs), t)"
  using assms
proof (induction bs arbitrary: left v b s)
  case Nil
  then show ?case by (simp add: uncompress_loop_step)
next
  case (Cons c cs)
  then obtain s' where s': "rd s = Inr (c, s')" "feeds rd s' cs t" by auto
  from Cons.prems(4) obtain left' where left: "left = Suc left'" "length cs \<le> left'" by (cases left) auto
  have "uncompress_loop rd left' (take_group v b) c s' = Inr (foldl take_group (take_group v b) (c # cs), t)"
    using Cons.prems(2) by (intro Cons.IH s'(2) left(2)) (auto split: if_splits)
  then show ?case
    using Cons.prems(2) s'(1) left(1) by (simp add: uncompress_loop_step)
qed

lemma read_groups:
  assumes "feeds rd s bs t" "marked bs" "length bs \<le> max_compression_size (LENGTH('a::len) div 8)"
  shows "read_and_uncompress rd sg s = Inr (groups_value sg bs :: 'a word, t)"
proof -
  obtain b cs where bs: "bs = b # cs" using assms(2) by (cases bs) (auto simp: marked_def)
  then obtain s' where s': "rd s = Inr (b, s')" "feeds rd s' cs t" using assms(1) by auto
  have "uncompress_loop rd (max_compression_size (LENGTH('a) div 8) - 1) (sign_fill sg b) b s' =
      Inr (foldl take_group (sign_fill sg b :: 'a word) (b # cs), t)"
    using assms(2,3) bs by (intro uncompress_loop_groups s'(2)) (auto simp: marked_def split: if_splits)
  then show ?thesis
    by (simp add: read_and_uncompress_def s'(1) groups_value_def bs)
qed

text \<open>A value other than 0 is read back from what was written for it.\<close>

lemma compressed_read_back:
  fixes v :: "'a::len word"
  assumes "8 dvd LENGTH('a)" "v \<noteq> 0" "compress_value sg v = Some bs" "feeds rd s bs t"
  shows "read_and_uncompress rd sg s = Inr (v, t)"
  using compress_value_groups [OF assms(1,2), of sg] assms(3) read_groups [OF assms(4)] by (metis option.inject)

text \<open>A stream that ends inside a value, and a value of too many groups.\<close>

fun list_reader :: "u8 list \<Rightarrow> (u8, u8 list) outcome" where
  "list_reader [] = Inl K_STATUS_COULD_NOT_READ_STREAM"
| "list_reader (b # bs) = Inr (b, bs)"

lemma feeds_list: "feeds list_reader (bs @ rest) bs rest"
  by (induction bs) auto

lemma uncompress_loop_errors:
  assumes "bit b 7" "\<forall>c \<in> set bs. bit c 7"
  shows "length bs \<le> left \<Longrightarrow> feeds rd s bs t \<Longrightarrow> left = length bs \<or> rd t = Inl e \<Longrightarrow>
    uncompress_loop rd left v b s = Inl (if left = length bs then K_STATUS_INVALID_STREAM_FORMAT else e)"
  using assms
proof (induction bs arbitrary: left v b s)
  case Nil
  then show ?case by (cases left) (simp_all add: uncompress_loop_step)
next
  case (Cons c cs)
  then obtain s' where s': "rd s = Inr (c, s')" "feeds rd s' cs t" by auto
  from Cons.prems(1) obtain left' where left: "left = Suc left'" by (cases left) auto
  show ?case
    using Cons.IH [of left' s' c "take_group v b"] Cons.prems s' left
    by (simp add: uncompress_loop_step)
qed

lemma read_unfinished:
  assumes "bs \<noteq> []" "\<forall>c \<in> set bs. bit c 7" "feeds rd s bs t"
    "length bs \<le> max_compression_size (LENGTH('a::len) div 8)"
    "length bs = max_compression_size (LENGTH('a) div 8) \<or> rd t = Inl e"
  shows "(read_and_uncompress rd sg s :: ('a word, 's) outcome) =
    Inl (if length bs = max_compression_size (LENGTH('a) div 8) then K_STATUS_INVALID_STREAM_FORMAT else e)"
proof -
  obtain b cs where bs: "bs = b # cs" using assms(1) by (cases bs) auto
  then obtain s' where s': "rd s = Inr (b, s')" "feeds rd s' cs t" using assms(3) by auto
  show ?thesis
    unfolding read_and_uncompress_def s'(1) and_then_simps
    using uncompress_loop_errors [of b cs "max_compression_size (LENGTH('a) div 8) - 1" rd s' t e "sign_fill sg b"]
      assms(2,4,5) s'(2) bs by (cases "max_compression_size (LENGTH('a) div 8)") auto
qed

subsection \<open>The properties\<close>

lemma compress_loop_more_slots:
  "compress_loop sg target sb is_first n temp out = Some r \<Longrightarrow> n \<le> m \<Longrightarrow>
    compress_loop sg target sb is_first m temp out = Some r"
proof (induction sg target sb is_first n temp out arbitrary: m rule: compress_loop.induct)
  case (2 sg target sb is_first n temp out)
  from 2(3) obtain m' where m: "m = Suc m'" "n \<le> m'" by (cases m) auto
  show ?case
    using 2(1) [OF refl refl _ _ m(2)] 2(2) by (auto simp: m(1) Let_def split: if_splits)
qed simp

lemma compress_value_short:
  fixes v :: "'a::len word"
  assumes "8 dvd LENGTH('a)" "compress_value sg v = Some bs" "0 < n" "reaches sg n v"
  shows "length bs \<le> n"
proof (cases "v = 0")
  case True
  then show ?thesis using assms(2) by (simp add: compress_value_def)
next
  case False
  define neg where "neg = (sg \<and> sint v < 0)"
  let ?max = "max_compression_size (LENGTH('a) div 8)"
  have seven: "7 \<le> LENGTH('a)" using dvd_imp_le [OF assms(1) len_gt_0] by simp
  have sb: "ucast ((if neg then NOT 0 else 0 :: 'a word) AND 0x40) = (if neg then 0x40 else 0 :: u8)"
    using seven by (intro bit_word_eqI) (auto simp: bit_simps)
  have eq: "compress_value sg v =
      compress_loop sg (if neg then NOT 0 else 0) (if neg then 0x40 else 0) True ?max v []"
    using False unfolding compress_value_def neg_def [symmetric] Let_def sb by simp
  have sg: "neg \<longrightarrow> sg" "sg \<longrightarrow> neg = (sint v < 0)" by (simp_all add: neg_def)
  then obtain r where r: "compress_loop sg (if neg then NOT 0 else 0) (if neg then 0x40 else 0) True n v [] = Some r"
    using compress_loop_total [OF assms(4,3) seven] by blast
  from r sg(1) obtain pre where pre: "r = pre @ []" "length pre \<le> n"
    by (rule compress_loop_groups)
  have "compress_loop sg (if neg then NOT 0 else 0) (if neg then 0x40 else 0) True (max n ?max) v [] = Some r"
    "compress_loop sg (if neg then NOT 0 else 0) (if neg then 0x40 else 0) True (max n ?max) v [] = Some bs"
    using compress_loop_more_slots [OF r, of "max n ?max"] compress_loop_more_slots [OF assms(2) [unfolded eq], of "max n ?max"]
    by simp_all
  then show ?thesis using pre by simp
qed

text \<open>C9: The buffer of the writer is large enough for every value of every width; a value takes no more
  groups of seven bits than reach it, its sign included; and the reader gets it back, whatever follows.\<close>

theorem compressed_round_trip:
  fixes v :: "'a::len word"
  assumes "8 dvd LENGTH('a)" "v \<noteq> 0" "0 < n" "reaches sg n v"
  shows "\<exists>bs. compress_value sg v = Some bs \<and> length bs \<le> min n (max_compression_size (LENGTH('a) div 8)) \<and>
    read_and_uncompress list_reader sg (bs @ rest) = Inr (v, rest)"
proof -
  obtain bs where bs: "compress_value sg v = Some bs" "length bs \<le> max_compression_size (LENGTH('a) div 8)"
    using compress_value_groups [OF assms(1,2)] by metis
  moreover have "length bs \<le> n"
    by (rule compress_value_short [OF assms(1) bs(1) assms(3,4)])
  moreover have "read_and_uncompress list_reader sg (bs @ rest) = Inr (v, rest)"
    by (rule compressed_read_back [OF assms(1,2) bs(1) feeds_list])
  ultimately show ?thesis by auto
qed

theorem compressed_round_trip_witness:
  "\<exists>bs. compress_value True (-64 :: 16 word) = Some bs \<and> length bs \<le> min 1 (max_compression_size (LENGTH(16) div 8)) \<and>
    read_and_uncompress list_reader True (bs @ [7]) = Inr (-64 :: 16 word, [7])"
  by (rule compressed_round_trip) (simp_all add: reaches_def)

text \<open>C11: What the reader does on any bytes: it takes the groups up to the first one without the mark for
  more data and gives their value and the rest; it refuses a value of more groups than the widest one has,
  and reports the end of the stream when it comes first.\<close>

theorem compressed_reading:
  assumes "8 \<le> LENGTH('a::len)"
  shows "(read_and_uncompress list_reader sg xs :: ('a word, u8 list) outcome) =
    (let n = length (takeWhile (\<lambda>b. bit b 7) xs)
     in if max_compression_size (LENGTH('a) div 8) \<le> n then Inl K_STATUS_INVALID_STREAM_FORMAT
        else if n = length xs then Inl K_STATUS_COULD_NOT_READ_STREAM
        else Inr (groups_value sg (take (Suc n) xs), drop (Suc n) xs))"
proof -
  define n where "n = length (takeWhile (\<lambda>b. bit b 7) xs)"
  let ?max = "max_compression_size (LENGTH('a) div 8)"
  have m: "0 < ?max" using assms by (simp add: max_compression_size_def div_greater_zero_iff)
  have feeds: "feeds list_reader xs (take k xs) (drop k xs)" for k
    using feeds_list [of "take k xs" "drop k xs"] by simp
  have marks: "bit (xs ! k) 7" if "k < n" for k
    using that nth_mem takeWhile_nth [of k "\<lambda>b. bit b 7" xs] set_takeWhileD unfolding n_def by metis
  then have more: "\<forall>c \<in> set (take k xs). bit c 7" if "k \<le> n" for k
    using that by (auto simp: in_set_conv_nth)
  have len: "n \<le> length xs" by (simp add: n_def length_takeWhile_le)
  consider "?max \<le> n" | "n < ?max" "n = length xs" | "n < ?max" "n < length xs" using len by linarith
  then have "(read_and_uncompress list_reader sg xs :: ('a word, u8 list) outcome) =
    (if ?max \<le> n then Inl K_STATUS_INVALID_STREAM_FORMAT
     else if n = length xs then Inl K_STATUS_COULD_NOT_READ_STREAM
     else Inr (groups_value sg (take (Suc n) xs), drop (Suc n) xs))"
  proof cases
    case 1
    have "take ?max xs \<noteq> []" using 1 m len by auto
    then show ?thesis
      using read_unfinished [OF _ more [OF 1] feeds, where 'a = 'a and sg = sg] 1 len by simp
  next
    case 2
    show ?thesis
    proof (cases "xs = []")
      case True
      then show ?thesis using m by (simp add: read_and_uncompress_def n_def)
    next
      case False
      then show ?thesis
        using read_unfinished [of xs list_reader xs "[]" K_STATUS_COULD_NOT_READ_STREAM, where 'a = 'a and sg = sg]
          more [of n] feeds [of n] 2 by simp
    qed
  next
    case 3
    have l: "\<not> bit (xs ! n) 7" using nth_length_takeWhile [of "\<lambda>b. bit b 7" xs] 3(2) by (simp add: n_def)
    have "take (Suc n) xs = take n xs @ [xs ! n]" using 3(2) by (rule take_Suc_conv_app_nth)
    then have "marked (take (Suc n) xs)" using more [of n] l by (simp add: marked_def)
    then show ?thesis
      using read_groups [OF feeds, where 'a = 'a] 3 by simp
  qed
  then show ?thesis by (simp add: Let_def n_def)
qed

theorem compressed_reading_witness:
  "(read_and_uncompress list_reader False [0x81, 0x82, 0x83, 4] :: (16 word, u8 list) outcome) =
    Inl K_STATUS_INVALID_STREAM_FORMAT"
  by (subst compressed_reading) (simp_all add: max_compression_size_def)

end
