(* ===== verification/Serializable_Values.thy ===== *)
theory Serializable_Values
  imports Fabric_Stream Byte_Compressor
begin

section \<open>The serializable stream: metadata, values and arrays\<close>

text \<open>
  shared/serialization/src/FabricSerializableStream.cpp and FabricSerializationTypes. Every item in the
  stream starts with a metadata byte: its type in the low four bits, a bit for an array and a bit for
  an empty (zero, false, length 0) item, which is then the whole item. Fixed-width items follow as
  their bytes in memory (little-endian), integers of two bytes or more as variable-length groups,
  arrays as their element count and their elements.

  A \<open>DOUBLE\<close> is its 64 bits, a \<open>GUID\<close> its 128 bits; an array of \<open>bool\<close> is its bytes in memory. The
  state \<open>ser_stream\<close> has the inner stream, \<open>_lastMetadataPosition\<close>, the object stack (top first) and
  \<open>_noCopyIndex\<close>. Two parameters stand for memory the code does not initialise: \<open>ser_uninit\<close> is what
  an uninitialised metadata variable holds, \<open>ser_pad\<close> the three padding bytes of an \<open>ObjectHeader\<close>.
\<close>

subsection \<open>Metadata\<close>

definition EmptyValueBit :: u8 where "EmptyValueBit = 0x40"
definition ArrayBit :: u8 where "ArrayBit = 0x80"
definition BaseTypeMask :: u8 where "BaseTypeMask = 0x0F"

definition meta_object :: u8 where "meta_object = 0x00"
definition meta_pointer :: u8 where "meta_pointer = 0x01"
definition meta_bool :: u8 where "meta_bool = 0x02"
definition meta_bool_false :: u8 where "meta_bool_false = 0x32"
definition meta_char :: u8 where "meta_char = 0x03"
definition meta_uchar :: u8 where "meta_uchar = 0x04"
definition meta_short :: u8 where "meta_short = 0x05"
definition meta_ushort :: u8 where "meta_ushort = 0x06"
definition meta_int32 :: u8 where "meta_int32 = 0x07"
definition meta_uint32 :: u8 where "meta_uint32 = 0x08"
definition meta_int64 :: u8 where "meta_int64 = 0x09"
definition meta_uint64 :: u8 where "meta_uint64 = 0x0A"
definition meta_double :: u8 where "meta_double = 0x0B"
definition meta_guid :: u8 where "meta_guid = 0x0C"
definition meta_wstring :: u8 where "meta_wstring = 0x0D"
definition meta_no_copy :: u8 where "meta_no_copy = 0x8E"
definition meta_scope_begin :: u8 where "meta_scope_begin = 0x1F"
definition meta_scope_end :: u8 where "meta_scope_end = 0x2F"
definition meta_object_end :: u8 where "meta_object_end = 0x3F"

lemmas meta_defs = EmptyValueBit_def ArrayBit_def BaseTypeMask_def meta_object_def meta_pointer_def
  meta_bool_def meta_bool_false_def meta_char_def meta_uchar_def meta_short_def meta_ushort_def
  meta_int32_def meta_uint32_def meta_int64_def meta_uint64_def meta_double_def meta_guid_def
  meta_wstring_def meta_no_copy_def meta_scope_begin_def meta_scope_end_def meta_object_end_def

definition is_array :: "u8 \<Rightarrow> bool" where "is_array m = (0 < m AND ArrayBit)"
definition is_empty_value :: "u8 \<Rightarrow> bool" where "is_empty_value m = (0 < m AND EmptyValueBit)"
definition is_of_base_type :: "u8 \<Rightarrow> u8 \<Rightarrow> bool" where "is_of_base_type m base = (m AND BaseTypeMask = base)"
definition make_array :: "u8 \<Rightarrow> u8" where "make_array m = m OR ArrayBit"
definition make_empty :: "u8 \<Rightarrow> u8" where "make_empty m = m OR EmptyValueBit"

definition is_end :: "u8 \<Rightarrow> bool" where
  "is_end m = (m = meta_scope_end \<or> m = meta_object_end)"

subsection \<open>The stream\<close>

text \<open>The context of an object on the stack: its unknown data, its current scope, its header flags.\<close>

record object_context =
  ctx_unknown :: "u8 list list"
  ctx_scope :: nat
  ctx_flags :: u8

record 's ser_stream =
  ser_inner :: 's
  ser_last_meta :: u32
  ser_stack :: "object_context list"
  ser_no_copy_index :: u32
  ser_uninit :: u8
  ser_pad :: "u8 list"

type_synonym ('a, 's) ser_result = "('a, 's ser_stream) outcome"

definition ser_over :: "'s \<Rightarrow> u8 \<Rightarrow> u8 list \<Rightarrow> 's ser_stream" where
  "ser_over inner uninit pad =
    \<lparr>ser_inner = inner, ser_last_meta = 0, ser_stack = [], ser_no_copy_index = 0, ser_uninit = uninit, ser_pad = pad\<rparr>"

definition settle :: "ntstatus \<Rightarrow> 'a \<Rightarrow> 's \<Rightarrow> 's ser_stream \<Rightarrow> ('a, 's) ser_result" where
  "settle st x inner s = (if nt_error st then Inl st else Inr (x, s\<lparr>ser_inner := inner\<rparr>))"

definition ser_write :: "'s stream_ops \<Rightarrow> u8 list \<Rightarrow> 's ser_stream \<Rightarrow> (unit, 's) ser_result" where
  "ser_write I bs s = (let (st, t) = op_write I bs (ser_inner s) in settle st () t s)"

definition ser_read :: "'s stream_ops \<Rightarrow> u32 \<Rightarrow> 's ser_stream \<Rightarrow> (u8 list, 's) ser_result" where
  "ser_read I n s = (let (st, d, t) = op_read I n (ser_inner s) in settle st d t s)"

definition ser_seek :: "'s stream_ops \<Rightarrow> u32 \<Rightarrow> 's ser_stream \<Rightarrow> (unit, 's) ser_result" where
  "ser_seek I v s = (let (st, t) = op_seek I v (ser_inner s) in settle st () t s)"

definition ser_seek_to_end :: "'s stream_ops \<Rightarrow> 's ser_stream \<Rightarrow> (unit, 's) ser_result" where
  "ser_seek_to_end I s = (let (st, t) = op_seek_to_end I (ser_inner s) in settle st () t s)"

definition ser_position :: "'s stream_ops \<Rightarrow> 's ser_stream \<Rightarrow> u32" where
  "ser_position I s = op_position I (ser_inner s)"

definition write_metadata :: "'s stream_ops \<Rightarrow> u8 \<Rightarrow> 's ser_stream \<Rightarrow> (unit, 's) ser_result" where
  "write_metadata I m s = ser_write I [m] s"

text \<open>
  \<open>ReadMetadata\<close>. \<open>value\<close> is what the variable of the caller holds before: a failed read leaves it, and
  the test for an end mark is made on it even then. The result is the variable; the status is
  \<open>K_STATUS_SCOPE_END\<close> just when it is an end mark.
\<close>

definition read_metadata :: "'s stream_ops \<Rightarrow> u8 \<Rightarrow> 's ser_stream \<Rightarrow> (u8, 's) ser_result" where
  "read_metadata I previous s =
    (let position = ser_position I s;
         (st, d, t) = op_read I 1 (ser_inner s);
         v = (case d of [] \<Rightarrow> previous | b # _ \<Rightarrow> b);
         s' = (if nt_success st then s\<lparr>ser_inner := t, ser_last_meta := position\<rparr> else s\<lparr>ser_inner := t\<rparr>)
     in if is_end v then Inr (v, s')
        else if nt_error st then Inl st
        else Inr (v, s'))"

definition seek_to_last_metadata :: "'s stream_ops \<Rightarrow> 's ser_stream \<Rightarrow> (unit, 's) ser_result" where
  "seek_to_last_metadata I s = ser_seek I (ser_last_meta s) s"

definition read_byte :: "'s stream_ops \<Rightarrow> 's ser_stream \<Rightarrow> (u8, 's) ser_result" where
  "read_byte I s = and_then (ser_read I 1 s) (\<lambda>d s. Inr (hd d, s))"

definition written_groups :: "bool \<Rightarrow> 'a::len word \<Rightarrow> u8 list option" where
  "written_groups sg v = map_option (\<lambda>bs. if bs = [] then [0] else bs) (compress_value sg v)"

definition write_u32 :: "'s stream_ops \<Rightarrow> u32 \<Rightarrow> 's ser_stream \<Rightarrow> (unit, 's) ser_result" where
  "write_u32 I v s = (case written_groups False v of None \<Rightarrow> Inl PROCESS_STOPPED | Some bs \<Rightarrow> ser_write I bs s)"

definition read_u32 :: "'s stream_ops \<Rightarrow> 's ser_stream \<Rightarrow> (u32, 's) ser_result" where
  "read_u32 I s = read_and_uncompress (read_byte I) False s"

text \<open>The checks at the head of every read of a field; \<^term>\<open>None\<close> is \<open>K_STATUS_SCOPE_END\<close>.\<close>

definition expect :: "'s stream_ops \<Rightarrow> bool \<Rightarrow> u8 \<Rightarrow> 's ser_stream \<Rightarrow> (u8 option, 's) ser_result" where
  "expect I want_array base s =
    and_then (read_metadata I base s) (\<lambda>m s.
      if is_end m then and_then (seek_to_last_metadata I s) (\<lambda>_ s. Inr (None, s))
      else if \<not> is_of_base_type m base then Inl K_STATUS_UNEXPECTED_METADATA_READ
      else if is_array m \<noteq> want_array then Inl K_STATUS_UNEXPECTED_METADATA_READ
      else Inr (Some m, s))"

subsection \<open>Single values\<close>

definition word_to_bytes :: "'a::len word \<Rightarrow> u8 list" where
  "word_to_bytes w = map (\<lambda>i. ucast (drop_bit (8 * i) w)) [0..<LENGTH('a) div 8]"

definition bytes_to_word :: "u8 list \<Rightarrow> 'a::len word" where
  "bytes_to_word bs = foldr (\<lambda>b w. push_bit 8 w OR ucast b) bs 0"

definition type_size :: "'a::len itself \<Rightarrow> nat" where
  "type_size _ = LENGTH('a) div 8"

definition write_blittable ::
  "'s stream_ops \<Rightarrow> u8 \<Rightarrow> ('a::len word \<Rightarrow> bool) \<Rightarrow> 'a word \<Rightarrow> 's ser_stream \<Rightarrow> (unit, 's) ser_result" where
  "write_blittable I ty is_empty v s =
    (if is_empty v then write_metadata I (make_empty ty) s
     else and_then (write_metadata I ty s) (\<lambda>_ s. ser_write I (word_to_bytes v) s))"

definition read_blittable :: "'s stream_ops \<Rightarrow> u8 \<Rightarrow> 's ser_stream \<Rightarrow> ('a::len word option, 's) ser_result" where
  "read_blittable I ty s =
    and_then (expect I False ty s) (\<lambda>r s. case r of
      None \<Rightarrow> Inr (None, s)
    | Some m \<Rightarrow>
        if is_empty_value m then Inr (Some 0, s)
        else and_then (ser_read I (of_nat (type_size TYPE('a))) s) (\<lambda>d s. Inr (Some (bytes_to_word d), s)))"

definition write_bool :: "'s stream_ops \<Rightarrow> bool \<Rightarrow> 's ser_stream \<Rightarrow> (unit, 's) ser_result" where
  "write_bool I b s = write_metadata I (make_empty (if b then meta_bool else meta_bool_false)) s"

definition read_bool :: "'s stream_ops \<Rightarrow> 's ser_stream \<Rightarrow> (bool option, 's) ser_result" where
  "read_bool I s =
    and_then (expect I False meta_bool s) (\<lambda>r s. case r of
      None \<Rightarrow> Inr (None, s)
    | Some m \<Rightarrow>
        if is_empty_value m then Inr (Some (m = make_empty meta_bool), s)
        else and_then (ser_read I 1 s) (\<lambda>d s. Inr (Some (hd d \<noteq> 0), s)))"

definition write_compressable ::
  "'s stream_ops \<Rightarrow> u8 \<Rightarrow> bool \<Rightarrow> 'a::len word \<Rightarrow> 's ser_stream \<Rightarrow> (unit, 's) ser_result" where
  "write_compressable I ty sg v s =
    (case compress_value sg v of
       None \<Rightarrow> Inl PROCESS_STOPPED
     | Some [] \<Rightarrow> write_metadata I (make_empty ty) s
     | Some bs \<Rightarrow> and_then (write_metadata I ty s) (\<lambda>_ s. ser_write I bs s))"

definition read_compressable :: "'s stream_ops \<Rightarrow> u8 \<Rightarrow> bool \<Rightarrow> 's ser_stream \<Rightarrow> ('a::len word option, 's) ser_result" where
  "read_compressable I ty sg s =
    and_then (expect I False ty s) (\<lambda>r s. case r of
      None \<Rightarrow> Inr (None, s)
    | Some m \<Rightarrow>
        if is_empty_value m then Inr (Some 0, s)
        else and_then (read_and_uncompress (read_byte I) sg s) (\<lambda>v s. Inr (Some v, s)))"

datatype scalar =
    S_Bool bool | S_Char u8 | S_UChar u8 | S_Short "16 word" | S_UShort "16 word"
  | S_Int32 u32 | S_UInt32 u32 | S_Int64 u64 | S_UInt64 u64 | S_Double u64 | S_Guid u128

text \<open>\<open>field == 0\<close> on a \<open>DOUBLE\<close> holds for both zeros.\<close>

definition double_is_zero :: "u64 \<Rightarrow> bool" where
  "double_is_zero v = (v AND 0x7FFFFFFFFFFFFFFF = 0)"

fun write_scalar :: "'s stream_ops \<Rightarrow> scalar \<Rightarrow> 's ser_stream \<Rightarrow> (unit, 's) ser_result" where
  "write_scalar I (S_Bool b) s = write_bool I b s"
| "write_scalar I (S_Char v) s = write_blittable I meta_char (\<lambda>v. v = 0) v s"
| "write_scalar I (S_UChar v) s = write_blittable I meta_uchar (\<lambda>v. v = 0) v s"
| "write_scalar I (S_Short v) s = write_compressable I meta_short True v s"
| "write_scalar I (S_UShort v) s = write_compressable I meta_ushort False v s"
| "write_scalar I (S_Int32 v) s = write_compressable I meta_int32 True v s"
| "write_scalar I (S_UInt32 v) s = write_compressable I meta_uint32 False v s"
| "write_scalar I (S_Int64 v) s = write_compressable I meta_int64 True v s"
| "write_scalar I (S_UInt64 v) s = write_compressable I meta_uint64 False v s"
| "write_scalar I (S_Double v) s = write_blittable I meta_double double_is_zero v s"
| "write_scalar I (S_Guid v) s = write_blittable I meta_guid (\<lambda>v. v = 0) v s"

definition map_field :: "('a \<Rightarrow> 'b) \<Rightarrow> ('a option, 's) ser_result \<Rightarrow> ('b option, 's) ser_result" where
  "map_field f r = and_then r (\<lambda>x s. Inr (map_option f x, s))"

text \<open>The read of a field of the given type (the value in the argument is the one before the read).\<close>

fun read_scalar :: "'s stream_ops \<Rightarrow> scalar \<Rightarrow> 's ser_stream \<Rightarrow> (scalar option, 's) ser_result" where
  "read_scalar I (S_Bool _) s = map_field S_Bool (read_bool I s)"
| "read_scalar I (S_Char _) s = map_field S_Char (read_blittable I meta_char s)"
| "read_scalar I (S_UChar _) s = map_field S_UChar (read_blittable I meta_uchar s)"
| "read_scalar I (S_Short _) s = map_field S_Short (read_compressable I meta_short True s)"
| "read_scalar I (S_UShort _) s = map_field S_UShort (read_compressable I meta_ushort False s)"
| "read_scalar I (S_Int32 _) s = map_field S_Int32 (read_compressable I meta_int32 True s)"
| "read_scalar I (S_UInt32 _) s = map_field S_UInt32 (read_compressable I meta_uint32 False s)"
| "read_scalar I (S_Int64 _) s = map_field S_Int64 (read_compressable I meta_int64 True s)"
| "read_scalar I (S_UInt64 _) s = map_field S_UInt64 (read_compressable I meta_uint64 False s)"
| "read_scalar I (S_Double _) s = map_field S_Double (read_blittable I meta_double s)"
| "read_scalar I (S_Guid _) s = map_field S_Guid (read_blittable I meta_guid s)"

subsection \<open>Arrays\<close>

text \<open>
  A read of an array gets the capacity of the caller's buffer in \<open>count\<close>. \<open>Array_Ended\<close> is
  \<open>K_STATUS_SCOPE_END\<close>, \<open>Array_Too_Small\<close> is \<open>K_STATUS_BUFFER_TOO_SMALL\<close> with the needed count.
  The sizes \<open>sizeof(T) * count\<close> are \<open>size_t\<close> values, cut to \<open>ULONG\<close> where they are passed on.
\<close>

datatype 'a array_read = Array_Read 'a | Array_Ended | Array_Too_Small u32

primrec map_read :: "('a \<Rightarrow> 'b) \<Rightarrow> 'a array_read \<Rightarrow> 'b array_read" where
  "map_read f (Array_Read x) = Array_Read (f x)"
| "map_read f Array_Ended = Array_Ended"
| "map_read f (Array_Too_Small n) = Array_Too_Small n"

definition too_big :: "'s stream_ops \<Rightarrow> nat \<Rightarrow> u32 \<Rightarrow> 's ser_stream \<Rightarrow> bool" where
  "too_big I width count s =
    (let total = unat (op_size I (ser_inner s)) in 0 < total \<and> total < width * unat count)"

text \<open>
  The common part of the array reads: the checks on the count and the return of the needed count.
  \<open>body\<close> reads or skips the elements.
\<close>

definition read_array_head ::
  "'s stream_ops \<Rightarrow> u8 \<Rightarrow> nat \<Rightarrow> u32 \<Rightarrow> bool \<Rightarrow> 'a \<Rightarrow> (u32 \<Rightarrow> 's ser_stream \<Rightarrow> ('a, 's) ser_result) \<Rightarrow>
    's ser_stream \<Rightarrow> ('a array_read, 's) ser_result" where
  "read_array_head I ty width count no_read empty_array body s =
    (if too_big I width count s then Inl K_STATUS_INVALID_STREAM_FORMAT
     else and_then (expect I True ty s) (\<lambda>r s. case r of
       None \<Rightarrow> Inr (Array_Ended, s)
     | Some m \<Rightarrow>
         if is_empty_value m then Inr (Array_Read empty_array, s)
         else and_then (read_u32 I s) (\<lambda>n s.
           if count < n \<and> \<not> no_read then
             (if too_big I width n s then Inl K_STATUS_INVALID_STREAM_FORMAT
              else and_then (seek_to_last_metadata I s) (\<lambda>_ s. Inr (Array_Too_Small n, s)))
           else and_then (body n s) (\<lambda>x s. Inr (Array_Read x, s)))))"

fun words_of_bytes :: "nat \<Rightarrow> u8 list \<Rightarrow> 'a::len word list" where
  "words_of_bytes 0 bs = []"
| "words_of_bytes (Suc n) bs =
    bytes_to_word (take (type_size TYPE('a)) bs) # words_of_bytes n (drop (type_size TYPE('a)) bs)"

definition write_blittable_array :: "'s stream_ops \<Rightarrow> u8 \<Rightarrow> 'a::len word list \<Rightarrow> 's ser_stream \<Rightarrow> (unit, 's) ser_result" where
  "write_blittable_array I ty vs s =
    (if vs = [] then write_metadata I (make_empty (make_array ty)) s
     else and_then (write_metadata I (make_array ty) s) (\<lambda>_ s.
       and_then (write_u32 I (of_nat (length vs)) s) (\<lambda>_ s.
         ser_write I (take (unat (of_nat (type_size TYPE('a) * length vs) :: u32)) (concat (map word_to_bytes vs))) s)))"

definition read_blittable_array ::
  "'s stream_ops \<Rightarrow> u8 \<Rightarrow> u32 \<Rightarrow> bool \<Rightarrow> 's ser_stream \<Rightarrow> ('a::len word list array_read, 's) ser_result" where
  "read_blittable_array I ty count no_read s =
    read_array_head I ty (type_size TYPE('a)) count no_read [] (\<lambda>n s.
      if no_read
      then and_then (ser_seek I (ser_position I s + of_nat (type_size TYPE('a) * unat n)) s) (\<lambda>_ s. Inr ([], s))
      else and_then (ser_read I (of_nat (type_size TYPE('a) * unat n)) s) (\<lambda>d s. Inr (words_of_bytes (unat n) d, s))) s"

fun write_elements :: "'s stream_ops \<Rightarrow> bool \<Rightarrow> 'a::len word list \<Rightarrow> 's ser_stream \<Rightarrow> (unit, 's) ser_result" where
  "write_elements I sg [] s = Inr ((), s)"
| "write_elements I sg (v # vs) s =
    (case written_groups sg v of
       None \<Rightarrow> Inl PROCESS_STOPPED
     | Some bs \<Rightarrow> and_then (ser_write I bs s) (\<lambda>_ s. write_elements I sg vs s))"

definition write_compressable_array ::
  "'s stream_ops \<Rightarrow> u8 \<Rightarrow> bool \<Rightarrow> 'a::len word list \<Rightarrow> 's ser_stream \<Rightarrow> (unit, 's) ser_result" where
  "write_compressable_array I ty sg vs s =
    (if vs = [] then write_metadata I (make_empty (make_array ty)) s
     else and_then (write_metadata I (make_array ty) s) (\<lambda>_ s.
       and_then (write_u32 I (of_nat (length vs)) s) (\<lambda>_ s. write_elements I sg vs s)))"

fun read_elements :: "'s stream_ops \<Rightarrow> bool \<Rightarrow> nat \<Rightarrow> 's ser_stream \<Rightarrow> ('a::len word list, 's) ser_result" where
  "read_elements I sg 0 s = Inr ([], s)"
| "read_elements I sg (Suc n) s =
    and_then (read_and_uncompress (read_byte I) sg s) (\<lambda>v s.
      and_then (read_elements I sg n s) (\<lambda>vs s. Inr (v # vs, s)))"

text \<open>\<open>SkipCompressedValue\<close>.\<close>

fun skip_compressed_value :: "'s stream_ops \<Rightarrow> nat \<Rightarrow> 's ser_stream \<Rightarrow> (unit, 's) ser_result" where
  "skip_compressed_value I 0 s = Inl K_STATUS_INVALID_STREAM_FORMAT"
| "skip_compressed_value I (Suc n) s =
    and_then (read_byte I s) (\<lambda>b s. if b AND 0x80 = 0 then Inr ((), s) else skip_compressed_value I n s)"

fun skip_elements :: "'s stream_ops \<Rightarrow> nat \<Rightarrow> nat \<Rightarrow> 's ser_stream \<Rightarrow> (unit, 's) ser_result" where
  "skip_elements I width 0 s = Inr ((), s)"
| "skip_elements I width (Suc n) s =
    and_then (skip_compressed_value I width s) (\<lambda>_ s. skip_elements I width n s)"

text \<open>The size checks of a compressed array count one byte for an element.\<close>

definition read_compressable_array ::
  "'s stream_ops \<Rightarrow> u8 \<Rightarrow> bool \<Rightarrow> u32 \<Rightarrow> bool \<Rightarrow> 's ser_stream \<Rightarrow> ('a::len word list array_read, 's) ser_result" where
  "read_compressable_array I ty sg count no_read s =
    read_array_head I ty 1 count no_read [] (\<lambda>n s.
      if no_read
      then and_then (skip_elements I (max_compression_size (type_size TYPE('a))) (unat n) s) (\<lambda>_ s. Inr ([], s))
      else read_elements I sg (unat n) s) s"

datatype array =
    A_Bool "u8 list" | A_Char "u8 list" | A_UChar "u8 list" | A_Short "16 word list" | A_UShort "16 word list"
  | A_Int32 "u32 list" | A_UInt32 "u32 list" | A_Int64 "u64 list" | A_UInt64 "u64 list" | A_Double "u64 list"
  | A_Guid "u128 list" | A_String "u8 list"

fun write_array :: "'s stream_ops \<Rightarrow> array \<Rightarrow> 's ser_stream \<Rightarrow> (unit, 's) ser_result" where
  "write_array I (A_Bool vs) s = write_blittable_array I meta_bool vs s"
| "write_array I (A_Char vs) s = write_blittable_array I meta_char vs s"
| "write_array I (A_UChar vs) s = write_blittable_array I meta_uchar vs s"
| "write_array I (A_Short vs) s = write_compressable_array I meta_short True vs s"
| "write_array I (A_UShort vs) s = write_compressable_array I meta_ushort False vs s"
| "write_array I (A_Int32 vs) s = write_compressable_array I meta_int32 True vs s"
| "write_array I (A_UInt32 vs) s = write_compressable_array I meta_uint32 False vs s"
| "write_array I (A_Int64 vs) s = write_compressable_array I meta_int64 True vs s"
| "write_array I (A_UInt64 vs) s = write_compressable_array I meta_uint64 False vs s"
| "write_array I (A_Double vs) s = write_blittable_array I meta_double vs s"
| "write_array I (A_Guid vs) s = write_blittable_array I meta_guid vs s"
| "write_array I (A_String vs) s = write_blittable_array I meta_wstring vs s"

definition map_array :: "('a \<Rightarrow> 'b) \<Rightarrow> ('a array_read, 's) ser_result \<Rightarrow> ('b array_read, 's) ser_result" where
  "map_array f r = and_then r (\<lambda>x s. Inr (map_read f x, s))"

fun read_array :: "'s stream_ops \<Rightarrow> array \<Rightarrow> u32 \<Rightarrow> 's ser_stream \<Rightarrow> (array array_read, 's) ser_result" where
  "read_array I (A_Bool _) n s = map_array A_Bool (read_blittable_array I meta_bool n False s)"
| "read_array I (A_Char _) n s = map_array A_Char (read_blittable_array I meta_char n False s)"
| "read_array I (A_UChar _) n s = map_array A_UChar (read_blittable_array I meta_uchar n False s)"
| "read_array I (A_Short _) n s = map_array A_Short (read_compressable_array I meta_short True n False s)"
| "read_array I (A_UShort _) n s = map_array A_UShort (read_compressable_array I meta_ushort False n False s)"
| "read_array I (A_Int32 _) n s = map_array A_Int32 (read_compressable_array I meta_int32 True n False s)"
| "read_array I (A_UInt32 _) n s = map_array A_UInt32 (read_compressable_array I meta_uint32 False n False s)"
| "read_array I (A_Int64 _) n s = map_array A_Int64 (read_compressable_array I meta_int64 True n False s)"
| "read_array I (A_UInt64 _) n s = map_array A_UInt64 (read_compressable_array I meta_uint64 False n False s)"
| "read_array I (A_Double _) n s = map_array A_Double (read_blittable_array I meta_double n False s)"
| "read_array I (A_Guid _) n s = map_array A_Guid (read_blittable_array I meta_guid n False s)"
| "read_array I (A_String _) n s = map_array A_String (read_blittable_array I meta_wstring n False s)"

text \<open>
  \<open>FabricSerializationHelper::Read\<close> of a vector (src/Common/FabricSerializationHelper.h). A first call
  with the capacity of the vector; when the buffer is too small, a second one after a resize. A
  vector's capacity is taken to be its size; strings and byte vectors ask with the count 0 first.
\<close>

fun resize_list :: "nat \<Rightarrow> 'a::zero list \<Rightarrow> 'a list" where
  "resize_list 0 xs = []"
| "resize_list (Suc n) [] = 0 # resize_list n []"
| "resize_list (Suc n) (x # xs) = x # resize_list n xs"

fun resize_array :: "nat \<Rightarrow> array \<Rightarrow> array" where
  "resize_array n (A_Bool vs) = A_Bool (resize_list n vs)"
| "resize_array n (A_Char vs) = A_Char (resize_list n vs)"
| "resize_array n (A_UChar vs) = A_UChar (resize_list n vs)"
| "resize_array n (A_Short vs) = A_Short (resize_list n vs)"
| "resize_array n (A_UShort vs) = A_UShort (resize_list n vs)"
| "resize_array n (A_Int32 vs) = A_Int32 (resize_list n vs)"
| "resize_array n (A_UInt32 vs) = A_UInt32 (resize_list n vs)"
| "resize_array n (A_Int64 vs) = A_Int64 (resize_list n vs)"
| "resize_array n (A_UInt64 vs) = A_UInt64 (resize_list n vs)"
| "resize_array n (A_Double vs) = A_Double (resize_list n vs)"
| "resize_array n (A_Guid vs) = A_Guid (resize_list n vs)"
| "resize_array n (A_String vs) = A_String (resize_list n vs)"

fun first_count :: "array \<Rightarrow> nat" where
  "first_count (A_Bool vs) = length vs"
| "first_count (A_Char vs) = length vs"
| "first_count (A_UChar vs) = 0"
| "first_count (A_Short vs) = length vs"
| "first_count (A_UShort vs) = length vs"
| "first_count (A_Int32 vs) = length vs"
| "first_count (A_UInt32 vs) = length vs"
| "first_count (A_Int64 vs) = length vs"
| "first_count (A_UInt64 vs) = length vs"
| "first_count (A_Double vs) = length vs"
| "first_count (A_Guid vs) = length vs"
| "first_count (A_String vs) = 0"

definition read_vector :: "'s stream_ops \<Rightarrow> array \<Rightarrow> 's ser_stream \<Rightarrow> (array option, 's) ser_result" where
  "read_vector I a s =
    and_then (read_array I a (of_nat (first_count a)) s) (\<lambda>r s. case r of
      Array_Read a' \<Rightarrow> Inr (Some a', s)
    | Array_Ended \<Rightarrow> Inr (None, s)
    | Array_Too_Small n \<Rightarrow>
        and_then (read_array I a n s) (\<lambda>r s. case r of
          Array_Read a' \<Rightarrow> Inr (Some a', s)
        | _ \<Rightarrow> Inr (Some (resize_array (unat n) a), s)))"

subsection \<open>Skipping items of unknown type\<close>

definition skip_field :: "('a option, 's) ser_result \<Rightarrow> (unit, 's) ser_result" where
  "skip_field r = and_then r (\<lambda>_ s. Inr ((), s))"

definition skip_array :: "('a array_read, 's) ser_result \<Rightarrow> (unit, 's) ser_result" where
  "skip_array r = and_then r (\<lambda>_ s. Inr ((), s))"

end
