(* ===== verification/Serializable_Objects.thy ===== *)
theory Serializable_Objects
  imports Serializable_Values
begin

section \<open>The serializable stream: objects, pointers and unknown data\<close>

text \<open>
  An object is its type information, its scopes (one list of fields for each class of its hierarchy,
  the base first, as the \<open>FABRIC_FIELDS\<close> macros of src/Common/FabricSerializationHelper.h write them)
  and the unknown data that \<open>FabricSerializable\<close> keeps for it (one buffer a scope). A pointer field and
  a vector field carry the object their activator or their resize makes. A vector of pointers is its
  size and its pointers, as the helper writes it.

  While an object is read or written its unknown data lives in its context on the stack. The functions
  that descend into objects get the function for the nested objects; \<open>write_object\<close> and
  \<open>read_object\<close> tie the knot over a bound on the nesting. The loops over unknown data have a bound
  \<open>k\<close> on their rounds.
\<close>

datatype field =
    F_Scalar scalar
  | F_Array array
  | F_Object obj
  | F_Pointer obj "obj option"
  | F_Objects obj "obj list"
  | F_Pointers obj "obj option list"
  | F_No_Copy "u8 list list"
and obj = Obj (type_info: "u8 list") (scopes: "field list list") (unknown: "u8 list list")

subsection \<open>Unknown data and contexts\<close>

definition get_unknown_data :: "nat \<Rightarrow> u8 list list \<Rightarrow> u8 list option" where
  "get_unknown_data scope unk = (if scope < length unk then Some (unk ! scope) else None)"

definition set_unknown_data :: "nat \<Rightarrow> u8 list \<Rightarrow> u8 list list \<Rightarrow> u8 list list" where
  "set_unknown_data scope buffer unk = unk @ replicate (scope - length unk) [] @ [buffer]"

definition push_object :: "u8 list list \<Rightarrow> 's ser_stream \<Rightarrow> 's ser_stream" where
  "push_object unk s = s\<lparr>ser_stack := \<lparr>ctx_unknown = unk, ctx_scope = 0, ctx_flags = 0\<rparr> # ser_stack s\<rparr>"

definition pop_object :: "'s ser_stream \<Rightarrow> (object_context, 's) ser_result" where
  "pop_object s =
    (case ser_stack s of
       [] \<Rightarrow> Inl STATUS_INSUFFICIENT_RESOURCES
     | c # cs \<Rightarrow> Inr (c, s\<lparr>ser_stack := cs\<rparr>))"

definition current_context :: "'s ser_stream \<Rightarrow> (object_context, 's) ser_result" where
  "current_context s =
    (case ser_stack s of [] \<Rightarrow> Inl STATUS_INSUFFICIENT_RESOURCES | c # cs \<Rightarrow> Inr (c, s))"

definition update_context :: "(object_context \<Rightarrow> object_context) \<Rightarrow> 's ser_stream \<Rightarrow> 's ser_stream" where
  "update_context f s = (case ser_stack s of [] \<Rightarrow> s | c # cs \<Rightarrow> s\<lparr>ser_stack := f c # cs\<rparr>)"

definition next_scope :: "object_context \<Rightarrow> object_context" where
  "next_scope c = c\<lparr>ctx_scope := ctx_scope c + 1\<rparr>"

subsection \<open>Writing\<close>

definition write_start_type :: "'s stream_ops \<Rightarrow> 's ser_stream \<Rightarrow> (unit, 's) ser_result" where
  "write_start_type I s = write_metadata I meta_scope_begin s"

definition write_end_type :: "'s stream_ops \<Rightarrow> 's ser_stream \<Rightarrow> (unit, 's) ser_result" where
  "write_end_type I s =
    and_then (current_context s) (\<lambda>c s.
      let buffer = (case get_unknown_data (ctx_scope c) (ctx_unknown c) of None \<Rightarrow> [] | Some b \<Rightarrow> b)
      in and_then (if buffer \<noteq> [] then ser_write I buffer s else Inr ((), s)) (\<lambda>_ s.
           write_metadata I meta_scope_end (update_context next_scope s)))"

text \<open>\<open>WriteUnknownDataInExtraScopes\<close>, a loop of at most \<open>n\<close> rounds.\<close>

fun write_extra_scopes :: "'s stream_ops \<Rightarrow> nat \<Rightarrow> 's ser_stream \<Rightarrow> (unit, 's) ser_result" where
  "write_extra_scopes I n s =
    and_then (current_context s) (\<lambda>c s.
      case get_unknown_data (ctx_scope c) (ctx_unknown c) of
        None \<Rightarrow> Inr ((), s)
      | Some _ \<Rightarrow>
          (case n of 0 \<Rightarrow> Inl FUEL_EXHAUSTED
           | Suc m \<Rightarrow>
               and_then (write_start_type I s) (\<lambda>_ s.
                 and_then (write_end_type I s) (\<lambda>_ s. write_extra_scopes I m s))))"

declare write_extra_scopes.simps [simp del]

definition header_bytes :: "u32 \<Rightarrow> u8 \<Rightarrow> u8 list \<Rightarrow> u8 list" where
  "header_bytes n flags pad = word_to_bytes n @ [flags] @ pad"

text \<open>\<open>WriteSerializable\<close> up to the call of \<open>object->Write\<close>: the position of the header and its flags.\<close>

definition write_object_begin ::
  "'s stream_ops \<Rightarrow> u8 list \<Rightarrow> u8 list list \<Rightarrow> 's ser_stream \<Rightarrow> (u32 \<times> u8, 's) ser_result" where
  "write_object_begin I ti unk s =
    and_then (write_metadata I meta_object (push_object unk s)) (\<lambda>_ s.
      let header_position = ser_position I s
      in and_then (ser_write I (header_bytes 0 0 (ser_pad s)) s) (\<lambda>_ s.
           if ti \<noteq> [] then
             and_then (write_u32 I (of_nat (length ti)) s) (\<lambda>_ s.
               and_then (ser_write I ti s) (\<lambda>_ s. Inr ((header_position, 0 OR 0x01), s)))
           else Inr ((header_position, 0), s)))"

text \<open>Its end: the length is known, the header is written again, the object leaves the stack.\<close>

definition patch_header :: "'s stream_ops \<Rightarrow> u32 \<Rightarrow> u8 \<Rightarrow> 's ser_stream \<Rightarrow> (unit, 's) ser_result" where
  "patch_header I header_position flags s =
    (let total = ser_position I s - header_position
     in and_then (ser_seek I header_position s) (\<lambda>_ s.
          and_then (ser_write I (header_bytes total flags (ser_pad s)) s) (\<lambda>_ s.
            and_then (pop_object s) (\<lambda>_ s.
              let s = (if ser_stack s \<noteq> [] \<and> flags AND 0x02 = 0x02
                       then update_context (\<lambda>c. c\<lparr>ctx_flags := ctx_flags c OR flags\<rparr>) s else s)
              in ser_seek_to_end I s))))"

definition write_object_end :: "'s stream_ops \<Rightarrow> u32 \<Rightarrow> u8 \<Rightarrow> nat \<Rightarrow> 's ser_stream \<Rightarrow> (unit, 's) ser_result" where
  "write_object_end I header_position flags n s =
    and_then (write_extra_scopes I n s) (\<lambda>_ s.
      and_then (write_metadata I meta_object_end s) (\<lambda>_ s. patch_header I header_position flags s))"

type_synonym 's obj_writer = "obj \<Rightarrow> 's ser_stream \<Rightarrow> (unit, 's) ser_result"

fun write_objects :: "'s obj_writer \<Rightarrow> obj list \<Rightarrow> 's ser_stream \<Rightarrow> (unit, 's) ser_result" where
  "write_objects w [] s = Inr ((), s)"
| "write_objects w (ob # obs) s = and_then (w ob s) (\<lambda>_ s. write_objects w obs s)"

definition write_serializable_array ::
  "'s stream_ops \<Rightarrow> 's obj_writer \<Rightarrow> obj list \<Rightarrow> 's ser_stream \<Rightarrow> (unit, 's) ser_result" where
  "write_serializable_array I w obs s =
    (if obs = [] then write_metadata I (make_empty (make_array meta_object)) s
     else and_then (write_metadata I (make_array meta_object) s) (\<lambda>_ s.
       and_then (write_u32 I (of_nat (length obs)) s) (\<lambda>_ s. write_objects w obs s)))"

definition write_pointer :: "'s stream_ops \<Rightarrow> 's obj_writer \<Rightarrow> obj option \<Rightarrow> 's ser_stream \<Rightarrow> (unit, 's) ser_result" where
  "write_pointer I w p s =
    (case p of
       None \<Rightarrow> write_metadata I (make_empty meta_pointer) s
     | Some ob \<Rightarrow> and_then (write_metadata I meta_pointer s) (\<lambda>_ s. w ob s))"

fun write_pointers :: "'s stream_ops \<Rightarrow> 's obj_writer \<Rightarrow> obj option list \<Rightarrow> 's ser_stream \<Rightarrow> (unit, 's) ser_result" where
  "write_pointers I w [] s = Inr ((), s)"
| "write_pointers I w (p # ps) s = and_then (write_pointer I w p s) (\<lambda>_ s. write_pointers I w ps s)"

text \<open>\<open>WritePointerArray\<close>, which the helper does not use.\<close>

definition write_pointer_array ::
  "'s stream_ops \<Rightarrow> 's obj_writer \<Rightarrow> obj option list \<Rightarrow> 's ser_stream \<Rightarrow> (unit, 's) ser_result" where
  "write_pointer_array I w ps s =
    (if ps = [] then write_metadata I (make_empty (make_array meta_pointer)) s
     else and_then (write_metadata I (make_array meta_pointer) s) (\<lambda>_ s.
       and_then (write_u32 I (of_nat (length ps)) s) (\<lambda>_ s. write_pointers I w ps s)))"

fun write_no_copy_buffers :: "'s stream_ops \<Rightarrow> u8 list list \<Rightarrow> 's ser_stream \<Rightarrow> (unit, 's) ser_result" where
  "write_no_copy_buffers I [] s = Inr ((), s)"
| "write_no_copy_buffers I (b # bs) s =
    (let index = ser_no_copy_index s
     in and_then (write_u32 I index (s\<lparr>ser_no_copy_index := index + 1\<rparr>)) (\<lambda>_ s.
          let (st, t) = op_write_no_copy I b (ser_inner s)
          in and_then (settle st () t s) (\<lambda>_ s. write_no_copy_buffers I bs s)))"

definition write_byte_array_no_copy :: "'s stream_ops \<Rightarrow> u8 list list \<Rightarrow> 's ser_stream \<Rightarrow> (unit, 's) ser_result" where
  "write_byte_array_no_copy I bs s =
    and_then (current_context s) (\<lambda>_ s.
      let s = update_context (\<lambda>c. c\<lparr>ctx_flags := ctx_flags c OR 0x02\<rparr>) s
      in if bs = [] then write_metadata I (make_empty meta_no_copy) s
         else and_then (write_metadata I meta_no_copy s) (\<lambda>_ s.
           and_then (write_u32 I (of_nat (length bs)) s) (\<lambda>_ s. write_no_copy_buffers I bs s)))"

fun write_field :: "'s stream_ops \<Rightarrow> 's obj_writer \<Rightarrow> field \<Rightarrow> 's ser_stream \<Rightarrow> (unit, 's) ser_result" where
  "write_field I w (F_Scalar v) s = write_scalar I v s"
| "write_field I w (F_Array a) s = write_array I a s"
| "write_field I w (F_Object ob) s = w ob s"
| "write_field I w (F_Pointer _ p) s = write_pointer I w p s"
| "write_field I w (F_Objects _ obs) s = write_serializable_array I w obs s"
| "write_field I w (F_Pointers _ ps) s =
    and_then (write_scalar I (S_UInt32 (of_nat (length ps))) s) (\<lambda>_ s. write_pointers I w ps s)"
| "write_field I w (F_No_Copy bs) s = write_byte_array_no_copy I bs s"

fun write_fields :: "'s stream_ops \<Rightarrow> 's obj_writer \<Rightarrow> field list \<Rightarrow> 's ser_stream \<Rightarrow> (unit, 's) ser_result" where
  "write_fields I w [] s = Inr ((), s)"
| "write_fields I w (f # fs) s = and_then (write_field I w f s) (\<lambda>_ s. write_fields I w fs s)"

text \<open>\<open>Write\<close> of the field macros for each class, the base class first.\<close>

fun write_scopes :: "'s stream_ops \<Rightarrow> 's obj_writer \<Rightarrow> field list list \<Rightarrow> 's ser_stream \<Rightarrow> (unit, 's) ser_result" where
  "write_scopes I w [] s = Inr ((), s)"
| "write_scopes I w (fs # fss) s =
    and_then (write_start_type I s) (\<lambda>_ s.
      and_then (write_fields I w fs s) (\<lambda>_ s.
        and_then (write_end_type I s) (\<lambda>_ s. write_scopes I w fss s)))"

fun write_object :: "'s stream_ops \<Rightarrow> nat \<Rightarrow> obj \<Rightarrow> 's ser_stream \<Rightarrow> (unit, 's) ser_result" where
  "write_object I 0 ob s = Inl FUEL_EXHAUSTED"
| "write_object I (Suc n) ob s =
    and_then (write_object_begin I (type_info ob) (unknown ob) s) (\<lambda>(header_position, flags) s.
      and_then (write_scopes I (write_object I n) (scopes ob) s) (\<lambda>_ s.
        write_object_end I header_position flags (length (unknown ob)) s))"

subsection \<open>Reading past unknown items\<close>

definition read_header :: "'s stream_ops \<Rightarrow> 's ser_stream \<Rightarrow> (u32 \<times> u8, 's) ser_result" where
  "read_header I s = and_then (ser_read I 8 s) (\<lambda>d s. Inr ((bytes_to_word (take 4 d), d ! 4), s))"

text \<open>\<open>ReadUnknownObject\<close>.\<close>

definition skip_object :: "'s stream_ops \<Rightarrow> 's ser_stream \<Rightarrow> (unit, 's) ser_result" where
  "skip_object I s =
    and_then (read_metadata I (ser_uninit s) s) (\<lambda>m s.
      if m \<noteq> meta_object then Inl K_STATUS_UNEXPECTED_METADATA_READ
      else
        let header_position = ser_position I s
        in and_then (read_header I s) (\<lambda>(length_field, flags) s.
             if flags AND 0x02 = 0x02 then Inl K_STATUS_INVALID_UNKNOWN_EXTENSION_BUFFERS
             else ser_seek I (header_position + length_field) s))"

fun skip_objects :: "'s stream_ops \<Rightarrow> nat \<Rightarrow> 's ser_stream \<Rightarrow> (unit, 's) ser_result" where
  "skip_objects I 0 s = Inr ((), s)"
| "skip_objects I (Suc n) s = and_then (skip_object I s) (\<lambda>_ s. skip_objects I n s)"

text \<open>
  The loop of \<open>ReadPointerArrayInternal\<close> with \<open>noRead\<close>. It does not test the status of its
  \<open>ReadMetadata\<close>: after a failed read at the end of the stream it goes on with an uninitialised
  variable and fails there or, as the reads after it fail too, with the status of a read.
\<close>

fun skip_pointers :: "'s stream_ops \<Rightarrow> nat \<Rightarrow> 's ser_stream \<Rightarrow> (unit, 's) ser_result" where
  "skip_pointers I 0 s = Inr ((), s)"
| "skip_pointers I (Suc n) s =
    (case read_metadata I (ser_uninit s) s of
       Inl e \<Rightarrow> if is_of_base_type (ser_uninit s) meta_pointer then Inl e else Inl K_STATUS_UNEXPECTED_METADATA_READ
     | Inr (m, s) \<Rightarrow>
         if \<not> is_of_base_type m meta_pointer then Inl K_STATUS_UNEXPECTED_METADATA_READ
         else if is_empty_value m then skip_pointers I n s
         else and_then (skip_object I s) (\<lambda>_ s. skip_pointers I n s))"

text \<open>\<open>ReadUnknownDataSingleValue\<close>.\<close>

definition skip_single :: "'s stream_ops \<Rightarrow> u8 \<Rightarrow> 's ser_stream \<Rightarrow> (unit, 's) ser_result" where
  "skip_single I m s =
    (if m = meta_bool then skip_field (read_bool I s)
     else if m = meta_char then skip_field (read_blittable I meta_char s :: (u8 option, 's) ser_result)
     else if m = meta_uchar then skip_field (read_blittable I meta_uchar s :: (u8 option, 's) ser_result)
     else if m = meta_short then skip_field (read_compressable I meta_short True s :: (16 word option, 's) ser_result)
     else if m = meta_ushort then skip_field (read_compressable I meta_ushort False s :: (16 word option, 's) ser_result)
     else if m = meta_int32 then skip_field (read_compressable I meta_int32 True s :: (u32 option, 's) ser_result)
     else if m = meta_uint32 then skip_field (read_compressable I meta_uint32 False s :: (u32 option, 's) ser_result)
     else if m = meta_int64 then skip_field (read_compressable I meta_int64 True s :: (u64 option, 's) ser_result)
     else if m = meta_uint64 then skip_field (read_compressable I meta_uint64 False s :: (u64 option, 's) ser_result)
     else if m = meta_guid then skip_field (read_blittable I meta_guid s :: (u128 option, 's) ser_result)
     else if m = meta_double then skip_field (read_blittable I meta_double s :: (u64 option, 's) ser_result)
     else if m = meta_pointer then
       and_then (read_metadata I m s) (\<lambda>_ s. skip_object I s)
     else if m = meta_object then skip_object I s
     else Inl K_STATUS_UNEXPECTED_METADATA_READ)"

text \<open>\<open>ReadUnknownDataArray\<close>.\<close>

definition skip_unknown_array :: "'s stream_ops \<Rightarrow> u8 \<Rightarrow> 's ser_stream \<Rightarrow> (unit, 's) ser_result" where
  "skip_unknown_array I m s =
    (if is_of_base_type m meta_bool then skip_array (read_blittable_array I meta_bool 0 True s :: (u8 list array_read, 's) ser_result)
     else if is_of_base_type m meta_char then skip_array (read_blittable_array I meta_char 0 True s :: (u8 list array_read, 's) ser_result)
     else if is_of_base_type m meta_uchar then skip_array (read_blittable_array I meta_uchar 0 True s :: (u8 list array_read, 's) ser_result)
     else if is_of_base_type m meta_short then skip_array (read_compressable_array I meta_short True 0 True s :: (16 word list array_read, 's) ser_result)
     else if is_of_base_type m meta_ushort then skip_array (read_compressable_array I meta_ushort False 0 True s :: (16 word list array_read, 's) ser_result)
     else if is_of_base_type m meta_int32 then skip_array (read_compressable_array I meta_int32 True 0 True s :: (u32 list array_read, 's) ser_result)
     else if is_of_base_type m meta_uint32 then skip_array (read_compressable_array I meta_uint32 False 0 True s :: (u32 list array_read, 's) ser_result)
     else if is_of_base_type m meta_int64 then skip_array (read_compressable_array I meta_int64 True 0 True s :: (u64 list array_read, 's) ser_result)
     else if is_of_base_type m meta_uint64 then skip_array (read_compressable_array I meta_uint64 False 0 True s :: (u64 list array_read, 's) ser_result)
     else if is_of_base_type m meta_double then skip_array (read_blittable_array I meta_double 0 True s :: (u64 list array_read, 's) ser_result)
     else if is_of_base_type m meta_guid then skip_array (read_blittable_array I meta_guid 0 True s :: (u128 list array_read, 's) ser_result)
     else if is_of_base_type m meta_wstring then skip_array (read_blittable_array I meta_wstring 0 True s :: (u8 list array_read, 's) ser_result)
     else if is_of_base_type m meta_pointer then
       skip_array (read_array_head I meta_pointer 8 0 True () (\<lambda>n s. skip_pointers I (unat n) s) s)
     else if is_of_base_type m meta_object then
       skip_array (read_array_head I meta_object 5 0 True () (\<lambda>n s. skip_objects I (unat n) s) s)
     else if m = meta_no_copy then Inl K_STATUS_INVALID_UNKNOWN_EXTENSION_BUFFERS
     else Inl K_STATUS_UNEXPECTED_METADATA_READ)"

definition skip_item :: "'s stream_ops \<Rightarrow> u8 \<Rightarrow> 's ser_stream \<Rightarrow> (unit, 's) ser_result" where
  "skip_item I m s =
    (if is_empty_value m then
       (if m = make_empty meta_no_copy then Inl K_STATUS_INVALID_UNKNOWN_EXTENSION_BUFFERS else Inr ((), s))
     else and_then (seek_to_last_metadata I s) (\<lambda>_ s.
       if is_array m then skip_unknown_array I m s else skip_single I m s))"

text \<open>The loop of \<open>ReadUnknownData\<close>, of at most \<open>k\<close> rounds, entered with the metadata just read.\<close>

fun skip_to_scope_end :: "'s stream_ops \<Rightarrow> nat \<Rightarrow> u8 \<Rightarrow> 's ser_stream \<Rightarrow> (unit, 's) ser_result" where
  "skip_to_scope_end I k m s =
    (if m = meta_scope_end then Inr ((), s)
     else case k of
       0 \<Rightarrow> Inl FUEL_EXHAUSTED
     | Suc k' \<Rightarrow>
         and_then (skip_item I m s) (\<lambda>_ s.
           and_then (read_metadata I m s) (\<lambda>m s. skip_to_scope_end I k' m s)))"

declare skip_to_scope_end.simps [simp del]

definition read_unknown_data :: "'s stream_ops \<Rightarrow> nat \<Rightarrow> 's ser_stream \<Rightarrow> (unit, 's) ser_result" where
  "read_unknown_data I k s =
    (let start = ser_position I s
     in and_then (read_metadata I meta_scope_end s) (\<lambda>m s.
       and_then (skip_to_scope_end I k m s) (\<lambda>_ s.
         let n = ser_position I s - start - 1
         in and_then (ser_seek I start s) (\<lambda>_ s.
              let all_bytes = op_size I (ser_inner s)
              in if 0 < all_bytes \<and> all_bytes < n then Inl K_STATUS_INVALID_STREAM_FORMAT
                 else and_then (ser_read I n s) (\<lambda>buffer s.
                   and_then (current_context s) (\<lambda>c s.
                     if buffer = [] then Inl PROCESS_STOPPED
                     else Inr ((), update_context (\<lambda>c. c\<lparr>ctx_unknown :=
                            set_unknown_data (ctx_scope c) buffer (ctx_unknown c)\<rparr>) s)))))))"

subsection \<open>Reading\<close>

definition read_start_type :: "'s stream_ops \<Rightarrow> 's ser_stream \<Rightarrow> (unit, 's) ser_result" where
  "read_start_type I s =
    and_then (read_metadata I (ser_uninit s) s) (\<lambda>m s.
      if m \<noteq> meta_scope_begin then
        (if m = meta_object_end then seek_to_last_metadata I s else Inl K_STATUS_INVALID_STREAM_FORMAT)
      else Inr ((), s))"

definition read_end_type :: "'s stream_ops \<Rightarrow> nat \<Rightarrow> 's ser_stream \<Rightarrow> (unit, 's) ser_result" where
  "read_end_type I k s =
    and_then (read_metadata I (ser_uninit s) s) (\<lambda>m s.
      if m = meta_scope_end then and_then (current_context s) (\<lambda>_ s. Inr ((), update_context next_scope s))
      else and_then (seek_to_last_metadata I s) (\<lambda>_ s.
        if m = meta_object_end then Inr ((), s)
        else and_then (read_unknown_data I k s) (\<lambda>_ s.
          and_then (read_metadata I m s) (\<lambda>m s.
            if m \<noteq> meta_scope_end then Inl K_STATUS_INVALID_STREAM_FORMAT
            else and_then (current_context s) (\<lambda>_ s. Inr ((), update_context next_scope s))))))"

type_synonym 's obj_reader = "obj \<Rightarrow> 's ser_stream \<Rightarrow> (obj, 's) ser_result"

text \<open>
  The type information after a header: \<open>ReadSerializable\<close> passes over it; \<open>ReadSerializableAsPointer\<close>
  checks its length and reads it for the activator, which makes the same object whatever it says
  (\<open>DefaultActivator\<close>).
\<close>

definition pass_type_info :: "'s stream_ops \<Rightarrow> u8 \<Rightarrow> 's ser_stream \<Rightarrow> (unit, 's) ser_result" where
  "pass_type_info I flags s =
    (if flags AND 0x01 = 0x01 then
       and_then (read_u32 I s) (\<lambda>n s.
         if n = 0 then Inl K_STATUS_INVALID_STREAM_FORMAT
         else ser_seek I (ser_position I s + n) s)
     else Inr ((), s))"

definition type_info_max :: u32 where "type_info_max = 100 * 1024 * 1024"

definition read_type_info :: "'s stream_ops \<Rightarrow> u8 \<Rightarrow> 's ser_stream \<Rightarrow> (u8 list, 's) ser_result" where
  "read_type_info I flags s =
    (if flags AND 0x01 = 0x01 then
       and_then (read_u32 I s) (\<lambda>n s.
         if n = 0 \<or> type_info_max < n then Inl K_STATUS_INVALID_STREAM_FORMAT
         else
           let all_bytes = op_size I (ser_inner s)
           in if 0 < all_bytes \<and> all_bytes < n then Inl K_STATUS_INVALID_STREAM_FORMAT
              else ser_read I n s)
     else Inr ([], s))"

text \<open>
  The readers of objects share the body of \<open>ReadSerializableInternal\<close>, here \<open>body\<close>: it gets the
  object, the length field of the header and the position of the header.
\<close>

type_synonym 's obj_body = "obj \<Rightarrow> u32 \<Rightarrow> u32 \<Rightarrow> 's ser_stream \<Rightarrow> (obj, 's) ser_result"

definition read_serializable :: "'s stream_ops \<Rightarrow> 's obj_body \<Rightarrow> obj \<Rightarrow> 's ser_stream \<Rightarrow> (obj, 's) ser_result" where
  "read_serializable I body ob s =
    and_then (read_metadata I (ser_uninit s) s) (\<lambda>m s.
      if is_end m then and_then (seek_to_last_metadata I s) (\<lambda>_ s. Inr (ob, s))
      else if m \<noteq> meta_object then Inl K_STATUS_UNEXPECTED_METADATA_READ
      else
        let header_position = ser_position I s
        in and_then (read_header I s) (\<lambda>(length_field, flags) s.
             and_then (pass_type_info I flags s) (\<lambda>_ s. body ob length_field header_position s)))"

definition read_as_pointer :: "'s stream_ops \<Rightarrow> 's obj_body \<Rightarrow> obj \<Rightarrow> 's ser_stream \<Rightarrow> (obj option, 's) ser_result" where
  "read_as_pointer I body fresh s =
    and_then (read_metadata I (ser_uninit s) s) (\<lambda>m s.
      if is_end m then and_then (seek_to_last_metadata I s) (\<lambda>_ s. Inr (None, s))
      else if m \<noteq> meta_object then Inl K_STATUS_UNEXPECTED_METADATA_READ
      else
        let header_position = ser_position I s
        in and_then (read_header I s) (\<lambda>(length_field, flags) s.
             and_then (read_type_info I flags s) (\<lambda>_ s.
               and_then (body fresh length_field header_position s) (\<lambda>ob s. Inr (Some ob, s)))))"

text \<open>\<open>ReadPointer\<close>; \<^term>\<open>None\<close> is \<open>K_STATUS_SCOPE_END\<close>, the pointer is unchanged.\<close>

definition read_pointer ::
  "'s stream_ops \<Rightarrow> 's obj_body \<Rightarrow> obj \<Rightarrow> 's ser_stream \<Rightarrow> (obj option option, 's) ser_result" where
  "read_pointer I body fresh s =
    and_then (expect I False meta_pointer s) (\<lambda>r s. case r of
      None \<Rightarrow> Inr (None, s)
    | Some m \<Rightarrow>
        if is_empty_value m then Inr (Some None, s)
        else and_then (read_as_pointer I body fresh s) (\<lambda>p s. Inr (Some p, s)))"

fun read_pointers ::
  "'s stream_ops \<Rightarrow> 's obj_body \<Rightarrow> obj \<Rightarrow> obj option list \<Rightarrow> 's ser_stream \<Rightarrow> (obj option list, 's) ser_result" where
  "read_pointers I body fresh [] s = Inr ([], s)"
| "read_pointers I body fresh (p # ps) s =
    and_then (read_pointer I body fresh s) (\<lambda>r s.
      and_then (read_pointers I body fresh ps s) (\<lambda>qs s.
        Inr ((case r of None \<Rightarrow> p | Some q \<Rightarrow> q) # qs, s)))"

text \<open>
  \<open>ReadPointerArray\<close>, which the helper does not use, into the pointers \<open>ps\<close> of the caller. Its size
  checks count \<open>sizeof(void*)\<close> bytes for a pointer; the status of \<open>ReadMetadata\<close> is not tested (see
  \<open>skip_pointers\<close>).
\<close>

fun read_pointer_items ::
  "'s stream_ops \<Rightarrow> 's obj_body \<Rightarrow> obj \<Rightarrow> obj option list \<Rightarrow> 's ser_stream \<Rightarrow> (obj option list, 's) ser_result" where
  "read_pointer_items I body fresh [] s = Inr ([], s)"
| "read_pointer_items I body fresh (p # ps) s =
    (case read_metadata I (ser_uninit s) s of
       Inl e \<Rightarrow> if is_of_base_type (ser_uninit s) meta_pointer then Inl e else Inl K_STATUS_UNEXPECTED_METADATA_READ
     | Inr (m, s) \<Rightarrow>
         if \<not> is_of_base_type m meta_pointer then Inl K_STATUS_UNEXPECTED_METADATA_READ
         else
           and_then (if is_empty_value m then Inr (None, s)
                     else and_then (read_as_pointer I body fresh s) (\<lambda>q s. Inr (case q of None \<Rightarrow> p | Some ob \<Rightarrow> Some ob, s)))
             (\<lambda>q s. and_then (read_pointer_items I body fresh ps s) (\<lambda>qs s. Inr (q # qs, s))))"

definition read_pointer_array ::
  "'s stream_ops \<Rightarrow> 's obj_body \<Rightarrow> obj \<Rightarrow> obj option list \<Rightarrow> 's ser_stream \<Rightarrow> (obj option list array_read, 's) ser_result" where
  "read_pointer_array I body fresh ps s =
    read_array_head I meta_pointer 8 (of_nat (length ps)) False []
      (\<lambda>n s. read_pointer_items I body fresh (take (unat n) ps) s) s"

fun read_objects :: "'s obj_reader \<Rightarrow> obj list \<Rightarrow> 's ser_stream \<Rightarrow> (obj list, 's) ser_result" where
  "read_objects rd [] s = Inr ([], s)"
| "read_objects rd (ob # obs) s =
    and_then (rd ob s) (\<lambda>ob s. and_then (read_objects rd obs s) (\<lambda>obs s. Inr (ob # obs, s)))"

definition element_width :: "obj list \<Rightarrow> nat" where
  "element_width obs =
    (case obs of [] \<Rightarrow> 5
     | ob # _ \<Rightarrow> if type_info ob \<noteq> [] then 4 + length (type_info ob) else 5)"

definition resize_objects :: "nat \<Rightarrow> obj \<Rightarrow> obj list \<Rightarrow> obj list" where
  "resize_objects n fresh obs = take n obs @ replicate (n - length obs) fresh"

text \<open>\<open>ReadSerializableArray\<close> into the objects of a vector, and the vector read of the helper over it.\<close>

definition read_serializable_array ::
  "'s stream_ops \<Rightarrow> 's obj_reader \<Rightarrow> obj list \<Rightarrow> 's ser_stream \<Rightarrow> (obj list array_read, 's) ser_result" where
  "read_serializable_array I rd obs s =
    read_array_head I meta_object (element_width obs) (of_nat (length obs)) False []
      (\<lambda>n s. read_objects rd (take (unat n) obs) s) s"

definition read_object_vector ::
  "'s stream_ops \<Rightarrow> 's obj_reader \<Rightarrow> obj \<Rightarrow> obj list \<Rightarrow> 's ser_stream \<Rightarrow> (obj list option, 's) ser_result" where
  "read_object_vector I rd fresh obs s =
    and_then (read_serializable_array I rd obs s) (\<lambda>r s. case r of
      Array_Read obs' \<Rightarrow> Inr (Some obs', s)
    | Array_Ended \<Rightarrow> Inr (None, s)
    | Array_Too_Small n \<Rightarrow>
        let grown = resize_objects (unat n) fresh obs
        in and_then (read_serializable_array I rd grown s) (\<lambda>r s. case r of
             Array_Read obs' \<Rightarrow> Inr (Some obs', s)
           | _ \<Rightarrow> Inr (Some grown, s)))"

fun read_no_copy_buffers :: "'s stream_ops \<Rightarrow> nat \<Rightarrow> 's ser_stream \<Rightarrow> (u8 list list, 's) ser_result" where
  "read_no_copy_buffers I 0 s = Inr ([], s)"
| "read_no_copy_buffers I (Suc n) s =
    and_then (read_u32 I s) (\<lambda>index s.
      case op_read_no_copy I index (ser_inner s) of (st, b, t) \<Rightarrow>
        and_then (settle st (the b) t s) (\<lambda>b s.
          and_then (read_no_copy_buffers I n s) (\<lambda>bs s. Inr (b # bs, s))))"

definition read_byte_array_no_copy ::
  "'s stream_ops \<Rightarrow> u32 \<Rightarrow> 's ser_stream \<Rightarrow> (u8 list list array_read, 's) ser_result" where
  "read_byte_array_no_copy I count s =
    and_then (read_metadata I (ser_uninit s) s) (\<lambda>m s.
      if is_end m then and_then (seek_to_last_metadata I s) (\<lambda>_ s. Inr (Array_Ended, s))
      else if m = make_empty meta_no_copy then Inr (Array_Read [], s)
      else if m \<noteq> meta_no_copy then Inl K_STATUS_UNEXPECTED_METADATA_READ
      else and_then (read_u32 I s) (\<lambda>n s.
        if count < n then and_then (seek_to_last_metadata I s) (\<lambda>_ s. Inr (Array_Too_Small n, s))
        else and_then (read_no_copy_buffers I (unat n) s) (\<lambda>bs s. Inr (Array_Read bs, s))))"

text \<open>The read of one field: its value after it, the old one where the data of the scope has ended.\<close>

definition keep_old :: "'a \<Rightarrow> ('a option, 's) ser_result \<Rightarrow> ('a, 's) ser_result" where
  "keep_old x r = and_then r (\<lambda>y s. Inr (case y of None \<Rightarrow> x | Some z \<Rightarrow> z, s))"

definition read_pointer_vector ::
  "'s stream_ops \<Rightarrow> 's obj_body \<Rightarrow> obj \<Rightarrow> obj option list \<Rightarrow> 's ser_stream \<Rightarrow> (obj option list option, 's) ser_result" where
  "read_pointer_vector I body fresh ps s =
    and_then (read_compressable I meta_uint32 False s :: (u32 option, 's) ser_result) (\<lambda>r s. case r of
      None \<Rightarrow> Inr (None, s)
    | Some n \<Rightarrow>
        and_then (read_pointers I body fresh (take (unat n) ps @ replicate (unat n - length ps) None) s)
          (\<lambda>qs s. Inr (Some qs, s)))"

fun read_field :: "'s stream_ops \<Rightarrow> 's obj_body \<Rightarrow> field \<Rightarrow> 's ser_stream \<Rightarrow> (field, 's) ser_result" where
  "read_field I body (F_Scalar v) s = keep_old (F_Scalar v) (map_field F_Scalar (read_scalar I v s))"
| "read_field I body (F_Array a) s = keep_old (F_Array a) (map_field F_Array (read_vector I a s))"
| "read_field I body (F_Object ob) s = and_then (read_serializable I body ob s) (\<lambda>ob s. Inr (F_Object ob, s))"
| "read_field I body (F_Pointer fresh p) s =
    keep_old (F_Pointer fresh p) (map_field (F_Pointer fresh) (read_pointer I body fresh s))"
| "read_field I body (F_Objects fresh obs) s =
    keep_old (F_Objects fresh obs)
      (map_field (F_Objects fresh) (read_object_vector I (read_serializable I body) fresh obs s))"
| "read_field I body (F_Pointers fresh ps) s =
    keep_old (F_Pointers fresh ps) (map_field (F_Pointers fresh) (read_pointer_vector I body fresh ps s))"
| "read_field I body (F_No_Copy bs) s =
    and_then (read_byte_array_no_copy I (of_nat (length bs)) s) (\<lambda>r s. Inr (case r of
      Array_Read bs' \<Rightarrow> F_No_Copy bs' | _ \<Rightarrow> F_No_Copy bs, s))"

fun read_fields :: "'s stream_ops \<Rightarrow> 's obj_body \<Rightarrow> field list \<Rightarrow> 's ser_stream \<Rightarrow> (field list, 's) ser_result" where
  "read_fields I body [] s = Inr ([], s)"
| "read_fields I body (f # fs) s =
    and_then (read_field I body f s) (\<lambda>f s. and_then (read_fields I body fs s) (\<lambda>fs s. Inr (f # fs, s)))"

text \<open>\<open>Read\<close> of the field macros for each class, the base class first.\<close>

fun read_scopes ::
  "'s stream_ops \<Rightarrow> nat \<Rightarrow> 's obj_body \<Rightarrow> field list list \<Rightarrow> 's ser_stream \<Rightarrow> (field list list, 's) ser_result" where
  "read_scopes I k body [] s = Inr ([], s)"
| "read_scopes I k body (fs # fss) s =
    and_then (read_start_type I s) (\<lambda>_ s.
      and_then (read_fields I body fs s) (\<lambda>fs s.
        and_then (read_end_type I k s) (\<lambda>_ s.
          and_then (read_scopes I k body fss s) (\<lambda>fss s. Inr (fs # fss, s)))))"

text \<open>The scopes no class of the reader knows: the loop of \<open>ReadSerializableInternal\<close>, at most \<open>r\<close> rounds.\<close>

fun read_unknown_scopes :: "'s stream_ops \<Rightarrow> nat \<Rightarrow> nat \<Rightarrow> u8 \<Rightarrow> 's ser_stream \<Rightarrow> (unit, 's) ser_result" where
  "read_unknown_scopes I k r m s =
    (if m = meta_object_end then Inr ((), s)
     else case r of
       0 \<Rightarrow> Inl FUEL_EXHAUSTED
     | Suc r' \<Rightarrow>
         and_then (read_end_type I k s) (\<lambda>_ s.
           and_then (read_metadata I m s) (\<lambda>m s. read_unknown_scopes I k r' m s)))"

declare read_unknown_scopes.simps [simp del]

text \<open>\<open>ReadSerializableInternal\<close>.\<close>

fun read_object_body :: "'s stream_ops \<Rightarrow> nat \<Rightarrow> nat \<Rightarrow> 's obj_body" where
  "read_object_body I k 0 ob length_field header_position s = Inl FUEL_EXHAUSTED"
| "read_object_body I k (Suc n) ob length_field header_position s =
    and_then (read_scopes I k (read_object_body I k n) (scopes ob) (push_object [] s)) (\<lambda>fss s.
      and_then (read_metadata I (ser_uninit s) s) (\<lambda>m s.
        and_then (read_unknown_scopes I k k m s) (\<lambda>_ s.
          and_then (pop_object s) (\<lambda>c s.
            if length_field - (ser_position I s - header_position) \<noteq> 0 then Inl K_STATUS_INVALID_STREAM_FORMAT
            else Inr (Obj (type_info ob) fss (ctx_unknown c), s)))))"

definition read_object :: "'s stream_ops \<Rightarrow> nat \<Rightarrow> nat \<Rightarrow> obj \<Rightarrow> 's ser_stream \<Rightarrow> (obj, 's) ser_result" where
  "read_object I k n ob s = read_serializable I (read_object_body I k n) ob s"

end
