(* ===== verification/Serializable_Encoding.thy ===== *)
theory Serializable_Encoding
  imports Serializable_Objects
begin

section \<open>The bytes of values and objects\<close>

text \<open>
  The format as a function: \<open>scalar_bytes\<close>, \<open>array_bytes\<close>, \<open>field_bytes\<close> and \<open>obj_bytes\<close> give the
  bytes of an item. \<open>appends\<close> says that an operation of the writer, at the end of the stream, adds
  given bytes; the writer of each item appends the item's bytes, an object with its header patched.
\<close>

definition blittable_bytes :: "u8 \<Rightarrow> ('a::len word \<Rightarrow> bool) \<Rightarrow> 'a word \<Rightarrow> u8 list" where
  "blittable_bytes ty is_empty v = (if is_empty v then [make_empty ty] else ty # word_to_bytes v)"

definition groups :: "bool \<Rightarrow> 'a::len word \<Rightarrow> u8 list" where
  "groups sg v = (case compress_value sg v of None \<Rightarrow> [] | Some bs \<Rightarrow> bs)"

definition element_groups :: "bool \<Rightarrow> 'a::len word \<Rightarrow> u8 list" where
  "element_groups sg v = (if v = 0 then [0] else groups sg v)"

abbreviation u32_bytes :: "u32 \<Rightarrow> u8 list" where "u32_bytes v \<equiv> element_groups False v"

definition compressable_bytes :: "u8 \<Rightarrow> bool \<Rightarrow> 'a::len word \<Rightarrow> u8 list" where
  "compressable_bytes ty sg v = (if v = 0 then [make_empty ty] else ty # groups sg v)"

fun scalar_bytes :: "scalar \<Rightarrow> u8 list" where
  "scalar_bytes (S_Bool b) = [make_empty (if b then meta_bool else meta_bool_false)]"
| "scalar_bytes (S_Char v) = blittable_bytes meta_char (\<lambda>v. v = 0) v"
| "scalar_bytes (S_UChar v) = blittable_bytes meta_uchar (\<lambda>v. v = 0) v"
| "scalar_bytes (S_Short v) = compressable_bytes meta_short True v"
| "scalar_bytes (S_UShort v) = compressable_bytes meta_ushort False v"
| "scalar_bytes (S_Int32 v) = compressable_bytes meta_int32 True v"
| "scalar_bytes (S_UInt32 v) = compressable_bytes meta_uint32 False v"
| "scalar_bytes (S_Int64 v) = compressable_bytes meta_int64 True v"
| "scalar_bytes (S_UInt64 v) = compressable_bytes meta_uint64 False v"
| "scalar_bytes (S_Double v) = blittable_bytes meta_double double_is_zero v"
| "scalar_bytes (S_Guid v) = blittable_bytes meta_guid (\<lambda>v. v = 0) v"

definition sequence_bytes :: "u8 \<Rightarrow> ('a \<Rightarrow> u8 list) \<Rightarrow> 'a list \<Rightarrow> u8 list" where
  "sequence_bytes ty enc xs =
    (if xs = [] then [make_empty (make_array ty)]
     else make_array ty # u32_bytes (of_nat (length xs)) @ concat (map enc xs))"

lemma sequence_bytes_cong [fundef_cong]:
  "xs = ys \<Longrightarrow> (\<And>x. x \<in> set ys \<Longrightarrow> f x = g x) \<Longrightarrow> sequence_bytes ty f xs = sequence_bytes ty g ys"
  by (auto simp: sequence_bytes_def intro!: arg_cong [where f = concat])

fun array_bytes :: "array \<Rightarrow> u8 list" where
  "array_bytes (A_Bool vs) = sequence_bytes meta_bool word_to_bytes vs"
| "array_bytes (A_Char vs) = sequence_bytes meta_char word_to_bytes vs"
| "array_bytes (A_UChar vs) = sequence_bytes meta_uchar word_to_bytes vs"
| "array_bytes (A_Short vs) = sequence_bytes meta_short (element_groups True) vs"
| "array_bytes (A_UShort vs) = sequence_bytes meta_ushort (element_groups False) vs"
| "array_bytes (A_Int32 vs) = sequence_bytes meta_int32 (element_groups True) vs"
| "array_bytes (A_UInt32 vs) = sequence_bytes meta_uint32 (element_groups False) vs"
| "array_bytes (A_Int64 vs) = sequence_bytes meta_int64 (element_groups True) vs"
| "array_bytes (A_UInt64 vs) = sequence_bytes meta_uint64 (element_groups False) vs"
| "array_bytes (A_Double vs) = sequence_bytes meta_double word_to_bytes vs"
| "array_bytes (A_Guid vs) = sequence_bytes meta_guid word_to_bytes vs"
| "array_bytes (A_String vs) = sequence_bytes meta_wstring word_to_bytes vs"

text \<open>The scopes of an object: the bytes of its fields and its unknown data, scope by scope.\<close>

fun scopes_bytes :: "u8 list list \<Rightarrow> u8 list list \<Rightarrow> u8 list" where
  "scopes_bytes [] [] = []"
| "scopes_bytes [] (u # us) = meta_scope_begin # u @ meta_scope_end # scopes_bytes [] us"
| "scopes_bytes (d # ds) [] = meta_scope_begin # d @ meta_scope_end # scopes_bytes ds []"
| "scopes_bytes (d # ds) (u # us) = meta_scope_begin # (d @ u) @ meta_scope_end # scopes_bytes ds us"

definition type_info_bytes :: "u8 list \<Rightarrow> u8 list" where
  "type_info_bytes ti = (if ti = [] then [] else u32_bytes (of_nat (length ti)) @ ti)"

definition framed :: "u8 list \<Rightarrow> u8 list \<Rightarrow> u8 list \<Rightarrow> u8 list" where
  "framed pad ti content =
    meta_object # header_bytes (of_nat (8 + length content)) (if ti = [] then 0 else 1) pad @ content"

definition object_bytes :: "u8 list \<Rightarrow> u8 list \<Rightarrow> u8 list list \<Rightarrow> u8 list list \<Rightarrow> u8 list" where
  "object_bytes pad ti ds unk = framed pad ti (type_info_bytes ti @ scopes_bytes ds unk @ [meta_object_end])"

definition pointer_bytes :: "('a \<Rightarrow> u8 list) \<Rightarrow> 'a option \<Rightarrow> u8 list" where
  "pointer_bytes enc p = (case p of None \<Rightarrow> [make_empty meta_pointer] | Some ob \<Rightarrow> meta_pointer # enc ob)"

lemma pointer_bytes_cong [fundef_cong]:
  "p = q \<Longrightarrow> (\<And>x. q = Some x \<Longrightarrow> f x = g x) \<Longrightarrow> pointer_bytes f p = pointer_bytes g q"
  by (auto simp: pointer_bytes_def split: option.split)

fun field_bytes :: "u8 list \<Rightarrow> field \<Rightarrow> u8 list" and obj_bytes :: "u8 list \<Rightarrow> obj \<Rightarrow> u8 list" where
  "field_bytes pad (F_Scalar v) = scalar_bytes v"
| "field_bytes pad (F_Array a) = array_bytes a"
| "field_bytes pad (F_Object ob) = obj_bytes pad ob"
| "field_bytes pad (F_Pointer _ p) = pointer_bytes (obj_bytes pad) p"
| "field_bytes pad (F_Objects _ obs) = sequence_bytes meta_object (obj_bytes pad) obs"
| "field_bytes pad (F_Pointers _ ps) =
    scalar_bytes (S_UInt32 (of_nat (length ps))) @ concat (map (pointer_bytes (obj_bytes pad)) ps)"
| "field_bytes pad (F_No_Copy bs) = []"
| "obj_bytes pad (Obj ti fss unk) =
    object_bytes pad ti (map (\<lambda>fs. concat (map (field_bytes pad) fs)) fss) unk"

fun copied_field :: "field \<Rightarrow> bool" and copied_obj :: "obj \<Rightarrow> bool" where
  "copied_field (F_Scalar v) = True"
| "copied_field (F_Array a) = True"
| "copied_field (F_Object ob) = copied_obj ob"
| "copied_field (F_Pointer _ p) = (\<forall>ob \<in> set_option p. copied_obj ob)"
| "copied_field (F_Objects _ obs) = (\<forall>ob \<in> set obs. copied_obj ob)"
| "copied_field (F_Pointers _ ps) = (\<forall>p \<in> set ps. \<forall>ob \<in> set_option p. copied_obj ob)"
| "copied_field (F_No_Copy bs) = False"
| "copied_obj (Obj ti fss unk) = (\<forall>fs \<in> set fss. \<forall>f \<in> set fs. copied_field f)"

text \<open>The nesting of objects.\<close>

fun field_depth :: "field \<Rightarrow> nat" and obj_depth :: "obj \<Rightarrow> nat" where
  "field_depth (F_Scalar v) = 0"
| "field_depth (F_Array a) = 0"
| "field_depth (F_Object ob) = obj_depth ob"
| "field_depth (F_Pointer _ p) = (case p of None \<Rightarrow> 0 | Some ob \<Rightarrow> obj_depth ob)"
| "field_depth (F_Objects _ obs) = foldr max (map obj_depth obs) 0"
| "field_depth (F_Pointers _ ps) = foldr max (map (\<lambda>p. case p of None \<Rightarrow> 0 | Some ob \<Rightarrow> obj_depth ob) ps) 0"
| "field_depth (F_No_Copy bs) = 0"
| "obj_depth (Obj ti fss unk) = Suc (foldr max (map (\<lambda>fs. foldr max (map field_depth fs) 0) fss) 0)"

lemma foldr_max_less: "foldr max ns 0 < (n::nat) \<longleftrightarrow> 0 < n \<and> (\<forall>m \<in> set ns. m < n)"
  by (induction ns) auto

lemma foldr_max_le: "foldr max ns 0 \<le> (n::nat) \<longleftrightarrow> (\<forall>m \<in> set ns. m \<le> n)"
  by (induction ns) auto

fun field_objects :: "field \<Rightarrow> obj set" where
  "field_objects (F_Object ob) = {ob}"
| "field_objects (F_Pointer _ p) = set_option p"
| "field_objects (F_Objects _ obs) = set obs"
| "field_objects (F_Pointers _ ps) = \<Union> (set_option ` set ps)"
| "field_objects _ = {}"

lemma field_objects_copied: "x \<in> field_objects f \<Longrightarrow> copied_field f \<Longrightarrow> copied_obj x"
  by (cases f) auto

lemma field_objects_depth: "x \<in> field_objects f \<Longrightarrow> field_depth f \<le> n \<Longrightarrow> obj_depth x \<le> n"
  by (cases f) (auto simp: foldr_max_le)

lemma list_all2_refl_on: "(\<And>x. x \<in> set xs \<Longrightarrow> P x x) \<Longrightarrow> list_all2 P xs xs"
  by (simp add: list_all2_conv_all_nth)

lemma compress_value_bytes:
  fixes v :: "'a::len word"
  assumes "8 dvd LENGTH('a)"
  shows "compress_value sg v = Some (if v = 0 then [] else groups sg v)" "v \<noteq> 0 \<Longrightarrow> groups sg v \<noteq> []"
proof -
  have "compress_value sg v = Some (if v = 0 then [] else groups sg v) \<and> (v \<noteq> 0 \<longrightarrow> groups sg v \<noteq> [])"
  proof (cases "v = 0")
    case False
    obtain r where "compress_value sg v = Some r" "r \<noteq> []"
      using compress_value_groups [OF assms False, of sg] by blast
    then show ?thesis using False by (simp add: groups_def)
  qed (simp add: compress_value_def)
  then show "compress_value sg v = Some (if v = 0 then [] else groups sg v)" "v \<noteq> 0 \<Longrightarrow> groups sg v \<noteq> []"
    by simp_all
qed

lemma written_groups_bytes:
  fixes v :: "'a::len word"
  assumes "8 dvd LENGTH('a)"
  shows "written_groups sg v = Some (element_groups sg v)"
  using compress_value_bytes [OF assms, where sg = sg and v = v] by (simp add: written_groups_def element_groups_def)

lemma element_groups_nonempty: "8 dvd LENGTH('a) \<Longrightarrow> 0 < length (element_groups sg v)" for v :: "'a::len word"
  using compress_value_bytes(2) [of v] by (auto simp: element_groups_def)

lemma length_word_to_bytes [simp]: "length (word_to_bytes w) = type_size TYPE('a)" for w :: "'a::len word"
  by (simp add: word_to_bytes_def type_size_def)

lemma length_header_bytes: "length pad = 3 \<Longrightarrow> length (header_bytes n flags pad) = 8"
  by (simp add: header_bytes_def type_size_def)

lemma unat_u32: "n < 2 ^ 32 \<Longrightarrow> unat (of_nat n :: u32) = n"
  by (simp add: unat_of_nat take_bit_nat_eq_self)

section \<open>The writer appends\<close>

definition writing :: "('s \<Rightarrow> u8 list \<Rightarrow> nat \<Rightarrow> bool) \<Rightarrow> u8 list \<Rightarrow> object_context list \<Rightarrow> 's ser_stream \<Rightarrow> u8 list \<Rightarrow> bool" where
  "writing stands pad stk s bs \<longleftrightarrow> stands (ser_inner s) bs (length bs) \<and> ser_pad s = pad \<and> length pad = 3 \<and> ser_stack s = stk"

definition appends ::
  "('s \<Rightarrow> u8 list \<Rightarrow> nat \<Rightarrow> bool) \<Rightarrow> u8 list \<Rightarrow> object_context list \<Rightarrow> object_context list \<Rightarrow>
    ('s ser_stream \<Rightarrow> (unit, 's) ser_result) \<Rightarrow> u8 list \<Rightarrow> bool" where
  "appends stands pad stk stk' f d \<longleftrightarrow> (\<forall>s bs. writing stands pad stk s bs \<longrightarrow> length bs + length d < 2 ^ 32 \<longrightarrow>
     yields (f s) (\<lambda>_ s'. writing stands pad stk' s' (bs @ d)))"

lemma appendsI:
  "(\<And>s bs. writing stands pad stk s bs \<Longrightarrow> length bs + length d < 2 ^ 32 \<Longrightarrow>
     yields (f s) (\<lambda>_ s'. writing stands pad stk' s' (bs @ d))) \<Longrightarrow> appends stands pad stk stk' f d"
  by (simp add: appends_def)

lemma appendsD:
  "appends stands pad stk stk' f d \<Longrightarrow> writing stands pad stk s bs \<Longrightarrow> length bs + length d < 2 ^ 32 \<Longrightarrow>
     yields (f s) (\<lambda>_ s'. writing stands pad stk' s' (bs @ d))"
  by (simp add: appends_def)

lemma appends_nil: "appends stands pad stk stk (\<lambda>s. Inr ((), s)) []"
  by (simp add: appends_def)

lemma appends_seq:
  assumes "appends stands pad stk stk1 f d1" "appends stands pad stk1 stk2 g d2"
  shows "appends stands pad stk stk2 (\<lambda>s. and_then (f s) (\<lambda>_ s. g s)) (d1 @ d2)"
proof (rule appendsI)
  fix s bs assume w: "writing stands pad stk s bs" "length bs + length (d1 @ d2) < 2 ^ 32"
  show "yields (and_then (f s) (\<lambda>_ s. g s)) (\<lambda>_ s'. writing stands pad stk2 s' (bs @ d1 @ d2))"
  proof (rule yields_and_then)
    show "yields (f s) (\<lambda>_ s'. writing stands pad stk1 s' (bs @ d1))"
      using appendsD [OF assms(1) w(1)] w(2) by simp
  next
    fix s' assume "writing stands pad stk1 s' (bs @ d1)"
    then show "yields (g s') (\<lambda>_ s'. writing stands pad stk2 s' (bs @ d1 @ d2))"
      using appendsD [OF assms(2), of s' "bs @ d1"] w(2) by simp
  qed
qed

lemma appends_cons:
  "appends stands pad stk stk1 f [m] \<Longrightarrow> appends stands pad stk1 stk2 g d2 \<Longrightarrow>
    appends stands pad stk stk2 (\<lambda>s. and_then (f s) (\<lambda>_ s. g s)) (m # d2)"
  using appends_seq [of stands pad stk stk1 f "[m]" stk2 g d2] by simp

context byte_file
begin

lemma appends_write: "appends stands pad stk stk (ser_write ops d) d"
proof (rule appendsI)
  fix s bs assume w: "writing stands pad stk s bs" "length bs + length d < 2 ^ 32"
  then obtain t where "op_write ops d (ser_inner s) = (STATUS_SUCCESS, t)" "stands t (bs @ d) (length bs + length d)"
    using write_at [of "ser_inner s" bs "length bs" d] by (auto simp: writing_def)
  then show "yields (ser_write ops d s) (\<lambda>_ s'. writing stands pad stk s' (bs @ d))"
    using w(1) by (simp add: ser_write_def settle_def writing_def)
qed

lemma appends_metadata: "appends stands pad stk stk (write_metadata ops m) [m]"
  using appends_write [of pad stk "[m]"] by (simp add: appends_def write_metadata_def)

lemma appends_u32: "appends stands pad stk stk (write_u32 ops v) (u32_bytes v)"
  using appends_write [of pad stk "u32_bytes v"]
  by (simp add: appends_def write_u32_def written_groups_bytes)

lemma appends_blittable: "appends stands pad stk stk (write_blittable ops ty e v) (blittable_bytes ty e v)"
  using appends_cons [OF appends_metadata appends_write] appends_metadata
  by (auto simp: write_blittable_def [abs_def] blittable_bytes_def)

lemma appends_compressable:
  fixes v :: "'a::len word"
  assumes "8 dvd LENGTH('a)"
  shows "appends stands pad stk stk (write_compressable ops ty sg v) (compressable_bytes ty sg v)"
proof (cases "v = 0")
  case True
  then show ?thesis
    using appends_metadata compress_value_bytes(1) [OF assms, of sg v]
    by (simp add: write_compressable_def [abs_def] compressable_bytes_def)
next
  case False
  then obtain b bs where "groups sg v = b # bs" using compress_value_bytes(2) [OF assms False] by (meson neq_Nil_conv)
  then show ?thesis
    using appends_cons [OF appends_metadata appends_write] compress_value_bytes(1) [OF assms, of sg v] False
    by (simp add: write_compressable_def [abs_def] compressable_bytes_def)
qed

lemma appends_scalar: "appends stands pad stk stk (write_scalar ops v) (scalar_bytes v)"
proof (cases v)
  case (S_Bool b)
  then show ?thesis using appends_metadata by (simp add: write_scalar.simps [abs_def] write_bool_def [abs_def])
qed (auto simp: write_scalar.simps [abs_def] intro!: appends_blittable appends_compressable)

lemma appends_elements:
  fixes vs :: "'a::len word list"
  assumes "8 dvd LENGTH('a)"
  shows "appends stands pad stk stk (write_elements ops sg vs) (concat (map (element_groups sg) vs))"
proof (induction vs)
  case Nil
  then show ?case by (simp add: write_elements.simps [abs_def] appends_nil)
next
  case (Cons v vs)
  then show ?case
    using appends_seq [OF appends_write]
    by (simp add: write_elements.simps [abs_def] written_groups_bytes [OF assms])
qed

lemma appends_compressable_array:
  fixes vs :: "'a::len word list"
  assumes "8 dvd LENGTH('a)"
  shows "appends stands pad stk stk (write_compressable_array ops ty sg vs) (sequence_bytes ty (element_groups sg) vs)"
  using appends_cons [OF appends_metadata appends_seq [OF appends_u32 appends_elements [OF assms]]] appends_metadata
  by (auto simp: write_compressable_array_def [abs_def] sequence_bytes_def)

lemma appends_if_fits:
  "(length d < 2 ^ 32 \<Longrightarrow> appends stands pad stk stk' f d) \<Longrightarrow> appends stands pad stk stk' f d"
  by (simp add: appends_def)

lemma appends_blittable_array:
  "appends stands pad stk stk (write_blittable_array ops ty vs) (sequence_bytes ty word_to_bytes vs)"
  for vs :: "'a::len word list"
proof (rule appends_if_fits)
  let ?d = "concat (map word_to_bytes vs)"
  assume "length (sequence_bytes ty word_to_bytes vs) < 2 ^ 32"
  then have "vs = [] \<or> length ?d < 2 ^ 32" by (cases "vs = []") (simp_all add: sequence_bytes_def del: length_concat)
  moreover have "length ?d = type_size TYPE('a) * length vs" by (simp add: length_concat comp_def sum_list_triv)
  ultimately have "take (unat (of_nat (type_size TYPE('a) * length vs) :: u32)) ?d = ?d"
    using unat_u32 [of "type_size TYPE('a) * length vs"] by (auto simp del: of_nat_mult)
  then show "appends stands pad stk stk (write_blittable_array ops ty vs) (sequence_bytes ty word_to_bytes vs)"
    using appends_cons [OF appends_metadata appends_seq [OF appends_u32 appends_write]] appends_metadata
    by (auto simp: write_blittable_array_def [abs_def] sequence_bytes_def)
qed

lemma appends_array: "appends stands pad stk stk (write_array ops a) (array_bytes a)"
  by (cases a) (auto simp: write_array.simps [abs_def] intro!: appends_blittable_array appends_compressable_array)

end

subsection \<open>Scopes and objects\<close>

lemma and_then_assoc: "and_then (and_then r f) g = and_then r (\<lambda>x s. and_then (f x s) g)"
  by (simp add: and_then_def split: sum.split)

lemma appends_update:
  "appends stands pad (f c # stk) stk' g d \<Longrightarrow> appends stands pad (c # stk) stk' (\<lambda>s. g (update_context f s)) d"
  by (simp add: appends_def writing_def update_context_def)

lemma appends_cong:
  assumes "appends stands pad stk stk' g d" "\<And>s bs. writing stands pad stk s bs \<Longrightarrow> f s = g s"
  shows "appends stands pad stk stk' f d"
  using assms by (simp add: appends_def)

lemma patched:
  "length h = length h' \<Longrightarrow> overwrite (bs @ [m] @ h @ rest) (Suc (length bs)) h' = bs @ [m] @ h' @ rest"
  by (simp add: overwrite_def)

context byte_file
begin

lemma appends_end_type:
  assumes "ctx_unknown c = unk"
  shows "appends stands pad (c # stk) (next_scope c # stk) (write_end_type ops)
    ((if ctx_scope c < length unk then unk ! ctx_scope c else []) @ [meta_scope_end])"
proof -
  define buffer where "buffer = (if ctx_scope c < length unk then unk ! ctx_scope c else [])"
  have "appends stands pad (c # stk) (c # stk)
      (\<lambda>s. if buffer \<noteq> [] then ser_write ops buffer s else Inr ((), s)) buffer"
    using appends_write appends_nil [of stands pad "c # stk"] by (cases "buffer = []") auto
  moreover have "appends stands pad (c # stk) (next_scope c # stk)
      (\<lambda>s. write_metadata ops meta_scope_end (update_context next_scope s)) [meta_scope_end]"
    by (rule appends_update, rule appends_metadata)
  ultimately have shown: "appends stands pad (c # stk) (next_scope c # stk)
      (\<lambda>s. and_then (if buffer \<noteq> [] then ser_write ops buffer s else Inr ((), s))
        (\<lambda>_ s. write_metadata ops meta_scope_end (update_context next_scope s))) (buffer @ [meta_scope_end])"
    by (rule appends_seq)
  have "(case get_unknown_data (ctx_scope c) (ctx_unknown c) of None \<Rightarrow> [] | Some b \<Rightarrow> b) = buffer"
    using assms by (simp add: get_unknown_data_def buffer_def)
  then show ?thesis
    unfolding buffer_def [symmetric]
    by (intro appends_cong [OF shown]) (simp add: writing_def write_end_type_def current_context_def Let_def)
qed

lemma appends_extra_scopes:
  assumes "ctx_unknown c = unk" "length unk \<le> n + ctx_scope c"
  shows "\<exists>c'. appends stands pad (c # stk) (c' # stk) (write_extra_scopes ops n) (scopes_bytes [] (drop (ctx_scope c) unk))"
  using assms
proof (induction n arbitrary: c)
  case 0
  then have "appends stands pad (c # stk) (c # stk) (write_extra_scopes ops 0) []"
    by (simp add: appends_def writing_def write_extra_scopes.simps current_context_def get_unknown_data_def)
  then show ?case using 0 by auto
next
  case (Suc n)
  show ?case
  proof (cases "ctx_scope c < length unk")
    case False
    then have "appends stands pad (c # stk) (c # stk) (write_extra_scopes ops (Suc n)) []"
      using Suc.prems
      by (simp add: appends_def writing_def write_extra_scopes.simps current_context_def get_unknown_data_def)
    then show ?thesis using False by auto
  next
    case True
    let ?c = "next_scope c"
    have step: "ctx_unknown ?c = unk" "length unk \<le> n + ctx_scope ?c" "ctx_scope ?c = Suc (ctx_scope c)"
      using Suc.prems by (simp_all add: next_scope_def)
    then obtain c' where rest: "appends stands pad (?c # stk) (c' # stk) (write_extra_scopes ops n)
        (scopes_bytes [] (drop (Suc (ctx_scope c)) unk))"
      using Suc.IH [of ?c] by auto
    have "appends stands pad (c # stk) (c' # stk)
        (\<lambda>s. and_then (write_start_type ops s) (\<lambda>_ s. and_then (write_end_type ops s) (\<lambda>_ s. write_extra_scopes ops n s)))
        (meta_scope_begin # (unk ! ctx_scope c @ [meta_scope_end]) @ scopes_bytes [] (drop (Suc (ctx_scope c)) unk))"
      using appends_cons [OF appends_metadata appends_seq [OF appends_end_type [OF Suc.prems(1)] rest], where m = meta_scope_begin] True
      by (simp add: write_start_type_def [abs_def])
    then have "appends stands pad (c # stk) (c' # stk) (write_extra_scopes ops (Suc n))
        (scopes_bytes [] (drop (ctx_scope c) unk))"
      using True Suc.prems(1)
      by (simp add: appends_def writing_def write_extra_scopes.simps [of ops "Suc n"] current_context_def
          get_unknown_data_def Cons_nth_drop_Suc [symmetric])
    then show ?thesis by blast
  qed
qed

lemma appends_scopes:
  assumes "list_all2 (\<lambda>fs d. \<forall>stk. appends stands pad stk stk (write_fields ops w fs) d) fss ds"
    and "ctx_unknown c = unk" "length unk \<le> n + ctx_scope c"
  shows "\<exists>c'. appends stands pad (c # stk) (c' # stk)
    (\<lambda>s. and_then (write_scopes ops w fss s) (\<lambda>_ s. write_extra_scopes ops n s)) (scopes_bytes ds (drop (ctx_scope c) unk))"
  using assms
proof (induction fss ds arbitrary: c rule: list_all2_induct)
  case Nil
  then show ?case using appends_extra_scopes by simp
next
  case (Cons fs fss d ds)
  let ?c = "next_scope c"
  let ?u = "if ctx_scope c < length unk then unk ! ctx_scope c else []"
  have "ctx_unknown ?c = unk" "length unk \<le> n + ctx_scope ?c" "ctx_scope ?c = Suc (ctx_scope c)"
    using Cons.prems by (simp_all add: next_scope_def)
  then obtain c' where rest: "appends stands pad (?c # stk) (c' # stk)
      (\<lambda>s. and_then (write_scopes ops w fss s) (\<lambda>_ s. write_extra_scopes ops n s))
      (scopes_bytes ds (drop (Suc (ctx_scope c)) unk))"
    using Cons.IH [of ?c] by auto
  have "appends stands pad (c # stk) (c' # stk)
      (\<lambda>s. and_then (write_scopes ops w (fs # fss) s) (\<lambda>_ s. write_extra_scopes ops n s))
      (meta_scope_begin # d @ (?u @ [meta_scope_end]) @ scopes_bytes ds (drop (Suc (ctx_scope c)) unk))"
    using appends_cons [OF appends_metadata appends_seq [OF spec [OF Cons.hyps(1)]
          appends_seq [OF appends_end_type [OF Cons.prems(1)] rest]], where m = meta_scope_begin]
    by (simp add: write_start_type_def [abs_def] and_then_assoc)
  moreover have "scopes_bytes (d # ds) (drop (ctx_scope c) unk) =
      meta_scope_begin # d @ (?u @ [meta_scope_end]) @ scopes_bytes ds (drop (Suc (ctx_scope c)) unk)"
    by (cases "ctx_scope c < length unk") (simp_all add: Cons_nth_drop_Suc [symmetric])
  ultimately show ?case by metis
qed

text \<open>The operations of the inner stream through the serializable stream.\<close>

lemma ser_write_at:
  assumes "stands (ser_inner s) bs p" "p + length d < 2 ^ 32"
  obtains t where "ser_write ops d s = Inr ((), s\<lparr>ser_inner := t\<rparr>)" "stands t (overwrite bs p d) (p + length d)"
  using write_at [OF assms] by (auto simp: ser_write_def settle_def)

lemma ser_seek_at:
  assumes "stands (ser_inner s) bs p" "unat v \<le> length bs"
  obtains t where "ser_seek ops v s = Inr ((), s\<lparr>ser_inner := t\<rparr>)" "stands t bs (unat v)"
  using seek_inside [OF assms] by (auto simp: ser_seek_def settle_def)

lemma ser_seek_to_end_at:
  assumes "stands (ser_inner s) bs p"
  obtains t where "ser_seek_to_end ops s = Inr ((), s\<lparr>ser_inner := t\<rparr>)" "stands t bs (length bs)"
  using seek_to_end [OF assms] by (auto simp: ser_seek_to_end_def settle_def)

lemma ser_position_at: "stands (ser_inner s) bs p \<Longrightarrow> ser_position ops s = of_nat p"
  by (simp add: ser_position_def position)

lemma write_begin:
  assumes "writing stands pad stk s bs" "length bs + 9 + length (type_info_bytes ti) < 2 ^ 32"
  shows "yields (write_object_begin ops ti unk s) (\<lambda>(hp, flags) s'.
    hp = of_nat (Suc (length bs)) \<and> flags = (if ti = [] then 0 else 1) \<and>
    writing stands pad (\<lparr>ctx_unknown = unk, ctx_scope = 0, ctx_flags = 0\<rparr> # stk) s'
      (bs @ [meta_object] @ header_bytes 0 0 pad @ type_info_bytes ti))"
proof -
  let ?stk = "\<lparr>ctx_unknown = unk, ctx_scope = 0, ctx_flags = 0\<rparr> # stk"
  have pad: "length pad = 3" "length (header_bytes 0 0 pad) = 8"
    using assms(1) by (simp_all add: writing_def length_header_bytes)
  have 1: "yields (write_metadata ops meta_object (push_object unk s)) (\<lambda>_ s'. writing stands pad ?stk s' (bs @ [meta_object]))"
    using assms by (intro appendsD [OF appends_metadata]) (simp_all add: writing_def push_object_def)
  have 2: "yields (ser_write ops (header_bytes 0 0 (ser_pad s1)) s1)
      (\<lambda>_ s'. writing stands pad ?stk s' (bs @ [meta_object] @ header_bytes 0 0 pad))"
    if "writing stands pad ?stk s1 (bs @ [meta_object])" for s1
    using appendsD [OF appends_write that, of "header_bytes 0 0 pad"] that pad assms(2) by (simp add: writing_def)
  have 3: "yields (and_then (write_u32 ops (of_nat (length ti)) s2) (\<lambda>_ s. ser_write ops ti s))
      (\<lambda>_ s'. writing stands pad ?stk s' (bs @ [meta_object] @ header_bytes 0 0 pad @ type_info_bytes ti))"
    if "writing stands pad ?stk s2 (bs @ [meta_object] @ header_bytes 0 0 pad)" "ti \<noteq> []" for s2
    using appendsD [OF appends_seq [OF appends_u32 appends_write] that(1), of "of_nat (length ti)" ti] that(2) assms(2) pad
    by (simp add: type_info_bytes_def)
  show ?thesis
    unfolding write_object_begin_def Let_def
  proof (rule yields_and_then [OF 1], rule yields_and_then [OF 2], assumption, goal_cases)
    case (1 u s1 u' s2)
    have hp: "ser_position ops s1 = of_nat (Suc (length bs))"
      using ser_position_at [of s1 "bs @ [meta_object]" "Suc (length bs)"] 1(1) by (simp add: writing_def)
    show ?case
    proof (cases "ti = []")
      case True
      then show ?thesis using 1(2) hp by (simp add: type_info_bytes_def)
    next
      case False
      have "yields (and_then (and_then (write_u32 ops (of_nat (length ti)) s2) (\<lambda>_ s. ser_write ops ti s))
          (\<lambda>_ s. Inr ((ser_position ops s1, 0 OR 0x01), s)))
        (\<lambda>(hp, flags) s'. hp = of_nat (Suc (length bs)) \<and> flags = (if ti = [] then 0 else 1) \<and>
          writing stands pad ?stk s' (bs @ [meta_object] @ header_bytes 0 0 pad @ type_info_bytes ti))"
        using hp False by (intro yields_and_then [OF 3 [OF 1(2) False]]) simp
      then show ?thesis using False by (simp add: and_then_assoc)
    qed
  qed
qed

lemma write_end:
  assumes "writing stands pad (c # stk) s (bs @ [meta_object] @ header_bytes 0 0 pad @ content)"
    and "flags AND 0x02 \<noteq> 0x02" "length pad = 3"
  shows "yields (patch_header ops (of_nat (Suc (length bs))) flags s)
    (\<lambda>_ s'. writing stands pad stk s'
       (bs @ meta_object # header_bytes (of_nat (8 + length content)) flags pad @ content))"
proof -
  let ?all = "bs @ [meta_object] @ header_bytes 0 0 pad @ content"
  let ?h = "header_bytes (of_nat (8 + length content)) flags pad"
  have st: "stands (ser_inner s) ?all (length ?all)" "ser_pad s = pad" "ser_stack s = c # stk"
    using assms(1) by (simp_all add: writing_def)
  have lt: "length ?all < 2 ^ 32" using stands_bounds [OF st(1)] by simp
  have hl: "length (header_bytes 0 0 pad) = 8" "length ?h = 8" using assms(3) by (simp_all add: length_header_bytes)
  have total: "ser_position ops s - of_nat (Suc (length bs)) = of_nat (8 + length content)"
    using ser_position_at [OF st(1)] hl by (simp add: algebra_simps)
  have hp: "unat (of_nat (Suc (length bs)) :: u32) = Suc (length bs)"
    using lt by (intro unat_u32) simp
  obtain t1 where t1: "ser_seek ops (of_nat (Suc (length bs))) s = Inr ((), s\<lparr>ser_inner := t1\<rparr>)" "stands t1 ?all (Suc (length bs))"
    using ser_seek_at [OF st(1), of "of_nat (Suc (length bs))"] hp by auto
  obtain t2 where t2: "ser_write ops ?h (s\<lparr>ser_inner := t1\<rparr>) = Inr ((), s\<lparr>ser_inner := t2\<rparr>)"
      "stands t2 (bs @ [meta_object] @ ?h @ content) (Suc (length bs) + 8)"
    using ser_write_at [of "s\<lparr>ser_inner := t1\<rparr>" ?all "Suc (length bs)" ?h] t1(2) lt hl
      patched [of "header_bytes 0 0 pad" ?h bs meta_object content] by auto
  let ?s2 = "s\<lparr>ser_inner := t2, ser_stack := stk\<rparr>"
  have "stands (ser_inner ?s2) (bs @ [meta_object] @ ?h @ content) (Suc (length bs) + 8)" using t2(2) by simp
  then obtain t3 where t3: "ser_seek_to_end ops ?s2 = Inr ((), ?s2\<lparr>ser_inner := t3\<rparr>)"
      "stands t3 (bs @ [meta_object] @ ?h @ content) (length (bs @ [meta_object] @ ?h @ content))"
    by (rule ser_seek_to_end_at)
  show ?thesis
    unfolding patch_header_def total Let_def
    using t1(1) t2(1) t3 st assms(2,3) by (simp add: pop_object_def writing_def del: of_nat_Suc of_nat_add)
qed

lemma appends_object:
  assumes "list_all2 (\<lambda>fs d. \<forall>stk. appends stands pad stk stk (write_fields ops (write_object ops n) fs) d) (scopes ob) ds"
  shows "appends stands pad stk stk (write_object ops (Suc n) ob) (object_bytes pad (type_info ob) ds (unknown ob))"
proof (rule appendsI)
  fix s bs
  let ?c = "\<lparr>ctx_unknown = unknown ob, ctx_scope = 0, ctx_flags = 0\<rparr>"
  let ?ti = "type_info ob" and ?tib = "type_info_bytes (type_info ob)" and ?unk = "unknown ob"
  let ?inner = "scopes_bytes ds ?unk @ [meta_object_end]"
  assume w: "writing stands pad stk s bs"
    and fits: "length bs + length (object_bytes pad ?ti ds ?unk) < 2 ^ 32"
  have pad: "length pad = 3" using w by (simp add: writing_def)
  then have len: "length (object_bytes pad ?ti ds ?unk) = 9 + length ?tib + length ?inner"
    by (simp add: object_bytes_def framed_def length_header_bytes)
  obtain c' where "appends stands pad (?c # stk) (c' # stk)
      (\<lambda>s. and_then (write_scopes ops (write_object ops n) (scopes ob) s) (\<lambda>_ s. write_extra_scopes ops (length ?unk) s))
      (scopes_bytes ds ?unk)"
    using appends_scopes [OF assms, of ?c ?unk "length ?unk" stk] by auto
  from appends_seq [OF this appends_metadata]
  have inner: "appends stands pad (?c # stk) (c' # stk)
      (\<lambda>s. and_then (write_scopes ops (write_object ops n) (scopes ob) s) (\<lambda>_ s.
         and_then (write_extra_scopes ops (length ?unk) s) (\<lambda>_ s. write_metadata ops meta_object_end s))) ?inner"
    by (simp add: and_then_assoc)
  define content where "content = ?tib @ ?inner"
  define fl where "fl = (if ?ti = [] then 0 else 1 :: u8)"
  have fl: "fl AND 0x02 \<noteq> 0x02" by (simp add: fl_def)
  have all: "object_bytes pad ?ti ds ?unk = meta_object # header_bytes (of_nat (8 + length content)) fl pad @ content"
    by (simp add: object_bytes_def framed_def content_def fl_def)
  have "yields (write_object_begin ops ?ti ?unk s) (\<lambda>(hp, flags) s'.
      hp = of_nat (Suc (length bs)) \<and> flags = fl \<and>
      writing stands pad (?c # stk) s' (bs @ [meta_object] @ header_bytes 0 0 pad @ ?tib))"
    using fits len unfolding fl_def by (intro write_begin [OF w]) simp
  moreover have "yields (and_then (write_scopes ops (write_object ops n) (scopes ob) s') (\<lambda>_ s.
        write_object_end ops (of_nat (Suc (length bs))) fl (length ?unk) s))
      (\<lambda>_ s'. writing stands pad stk s' (bs @ object_bytes pad ?ti ds ?unk))"
    if "writing stands pad (?c # stk) s' (bs @ [meta_object] @ header_bytes 0 0 pad @ ?tib)" for s'
  proof -
    have "yields (and_then (write_scopes ops (write_object ops n) (scopes ob) s') (\<lambda>_ s.
         and_then (write_extra_scopes ops (length ?unk) s) (\<lambda>_ s. write_metadata ops meta_object_end s)))
        (\<lambda>_ s'. writing stands pad (c' # stk) s' (bs @ [meta_object] @ header_bytes 0 0 pad @ content))"
      using appendsD [OF inner that] fits len pad by (simp add: length_header_bytes content_def)
    then have "yields (and_then (and_then (write_scopes ops (write_object ops n) (scopes ob) s') (\<lambda>_ s.
         and_then (write_extra_scopes ops (length ?unk) s) (\<lambda>_ s. write_metadata ops meta_object_end s)))
         (\<lambda>_ s. patch_header ops (of_nat (Suc (length bs))) fl s))
        (\<lambda>_ s'. writing stands pad stk s' (bs @ object_bytes pad ?ti ds ?unk))"
      unfolding all by (rule yields_and_then) (rule write_end [OF _ fl pad])
    then show ?thesis by (simp add: and_then_assoc write_object_end_def)
  qed
  ultimately show "yields (write_object ops (Suc n) ob s) (\<lambda>_ s'. writing stands pad stk s' (bs @ object_bytes pad ?ti ds ?unk))"
    unfolding write_object.simps by (elim yields_and_then) auto
qed

text \<open>The parts of a field are written by \<open>w\<close>, which appends each nested object.\<close>

lemma appends_pointer:
  assumes "\<forall>ob \<in> set_option p. \<forall>stk. appends stands pad stk stk (w ob) (enc ob)"
  shows "appends stands pad stk stk (write_pointer ops w p) (pointer_bytes enc p)"
  using assms appends_metadata appends_cons [OF appends_metadata, of _ _ _ "w (the p)"]
  by (cases p) (auto simp: write_pointer_def [abs_def] pointer_bytes_def)

lemma appends_pointers:
  assumes "\<forall>p \<in> set ps. \<forall>ob \<in> set_option p. \<forall>stk. appends stands pad stk stk (w ob) (enc ob)"
  shows "appends stands pad stk stk (write_pointers ops w ps) (concat (map (pointer_bytes enc) ps))"
  using assms
proof (induction ps)
  case Nil
  then show ?case by (simp add: write_pointers.simps [abs_def] appends_nil)
next
  case (Cons p ps)
  then show ?case using appends_seq [OF appends_pointer] by (simp add: write_pointers.simps [abs_def])
qed

lemma appends_objects:
  assumes "\<forall>ob \<in> set obs. \<forall>stk. appends stands pad stk stk (w ob) (enc ob)"
  shows "appends stands pad stk stk (write_objects w obs) (concat (map enc obs))"
  using assms
proof (induction obs)
  case Nil
  then show ?case by (simp add: write_objects.simps [abs_def] appends_nil)
next
  case (Cons ob obs)
  then show ?case using appends_seq [of stands pad stk stk "w ob"] by (simp add: write_objects.simps [abs_def])
qed

lemma appends_serializable_array:
  assumes "\<forall>ob \<in> set obs. \<forall>stk. appends stands pad stk stk (w ob) (enc ob)"
  shows "appends stands pad stk stk (write_serializable_array ops w obs) (sequence_bytes meta_object enc obs)"
  using appends_cons [OF appends_metadata appends_seq [OF appends_u32 appends_objects [OF assms]]] appends_metadata
  by (auto simp: write_serializable_array_def [abs_def] sequence_bytes_def)

text \<open>The objects directly inside a field.\<close>

lemma appends_field:
  assumes "copied_field f" "\<forall>ob \<in> field_objects f. \<forall>stk. appends stands pad stk stk (w ob) (obj_bytes pad ob)"
  shows "appends stands pad stk stk (write_field ops w f) (field_bytes pad f)"
  using assms
  by (cases f)
    (auto simp: write_field.simps [abs_def] simp del: write_scalar.simps scalar_bytes.simps
      intro!: appends_scalar appends_array appends_pointer appends_serializable_array appends_seq appends_pointers)

lemma appends_fields:
  assumes "\<forall>f \<in> set fs. copied_field f \<and>
      (\<forall>ob \<in> field_objects f. \<forall>stk. appends stands pad stk stk (w ob) (obj_bytes pad ob))"
  shows "appends stands pad stk stk (write_fields ops w fs) (concat (map (field_bytes pad) fs))"
  using assms
proof (induction fs)
  case Nil
  then show ?case by (simp add: write_fields.simps [abs_def] appends_nil)
next
  case (Cons f fs)
  then show ?case using appends_seq [OF appends_field] by (simp add: write_fields.simps [abs_def])
qed

lemma appends_obj:
  assumes "copied_obj ob" "obj_depth ob \<le> n"
  shows "appends stands pad stk stk (write_object ops n ob) (obj_bytes pad ob)"
  using assms
proof (induction n arbitrary: ob stk)
  case 0
  then show ?case by (cases ob) simp
next
  case (Suc n)
  obtain ti fss unk where ob: "ob = Obj ti fss unk" by (cases ob)
  have inner: "copied_obj x \<and> obj_depth x \<le> n" if "fs \<in> set fss" "f \<in> set fs" "x \<in> field_objects f" for fs f x
    using that Suc.prems field_objects_copied [OF that(3)] field_objects_depth [OF that(3)]
    by (fastforce simp: ob foldr_max_le)
  have "list_all2 (\<lambda>fs d. \<forall>stk. appends stands pad stk stk (write_fields ops (write_object ops n) fs) d)
      (scopes ob) (map (\<lambda>fs. concat (map (field_bytes pad) fs)) fss)"
    unfolding ob obj.sel list_all2_map2
  proof (rule list_all2_refl_on, intro allI)
    fix fs stk assume fs: "fs \<in> set fss"
    show "appends stands pad stk stk (write_fields ops (write_object ops n) fs) (concat (map (field_bytes pad) fs))"
      using Suc.prems(1) fs inner [OF fs] by (intro appends_fields) (auto simp: ob intro!: Suc.IH)
  qed
  from appends_object [OF this] show ?case by (simp add: ob del: write_object.simps)
qed

end

end
