(* ===== verification/Serializable_Reading.thy ===== *)
theory Serializable_Reading
  imports Serializable_Encoding
begin

section \<open>Reading back what was written\<close>

text \<open>
  \<open>consumes\<close> says what a read does at a place of the stream where given bytes follow: it yields a
  given result and stops behind the bytes. Every read of a value, an array, a pointer or an object
  consumes the bytes its writer appends; at the end mark of a scope it consumes nothing. Skipping
  goes over the same bytes without knowing their class.
\<close>

subsection \<open>Words and their bytes\<close>

lemma bytes_to_word_bit:
  "bit (bytes_to_word (map f [0..<n]) :: 'a::len word) i \<longleftrightarrow>
     i < LENGTH('a) \<and> i < 8 * n \<and> bit (f (i div 8)) (i mod 8)"
  for f :: "nat \<Rightarrow> u8"
proof (induction n arbitrary: i f)
  case 0
  then show ?case by (simp add: bytes_to_word_def)
next
  case (Suc n)
  have "map f [0..<Suc n] = f 0 # map (\<lambda>i. f (Suc i)) [0..<n]"
    by (simp only: upt_conv_Cons zero_less_Suc list.map map_Suc_upt [symmetric] map_map comp_def)
  then have "bytes_to_word (map f [0..<Suc n]) = (push_bit 8 (bytes_to_word (map (\<lambda>i. f (Suc i)) [0..<n])) OR ucast (f 0) :: 'a word)"
    by (simp add: bytes_to_word_def)
  then show ?case
    using Suc.IH [of "\<lambda>i. f (Suc i)" "i - 8"]
    by (cases "i < 8") (auto simp: bit_simps le_div_geq not_less mod_if [of i] dest: bit_imp_le_length)
qed

lemma bytes_to_word_of_word [simp]:
  fixes w :: "'a::len word"
  assumes "8 dvd LENGTH('a)"
  shows "bytes_to_word (word_to_bytes w) = w"
proof (rule bit_word_eqI)
  fix i assume i: "i < LENGTH('a)"
  have "8 * (LENGTH('a) div 8) = LENGTH('a)" using assms by simp
  then show "bit (bytes_to_word (word_to_bytes w) :: 'a word) i = bit w i"
    unfolding word_to_bytes_def bytes_to_word_bit using i by (simp add: bit_simps)
qed

lemma words_of_bytes_concat:
  fixes ws :: "'a::len word list"
  assumes "8 dvd LENGTH('a)"
  shows "words_of_bytes (length ws) (concat (map word_to_bytes ws) @ r) = ws"
  using assms by (induction ws) (simp_all add: type_size_def)

lemma element_groups_marked:
  fixes v :: "'a::len word"
  assumes "8 dvd LENGTH('a)"
  shows "marked (element_groups sg v)" "length (element_groups sg v) \<le> max_compression_size (type_size TYPE('a))"
    "groups_value sg (element_groups sg v) = v"
proof -
  have "marked (element_groups sg v) \<and> length (element_groups sg v) \<le> max_compression_size (type_size TYPE('a)) \<and>
      groups_value sg (element_groups sg v) = v"
  proof (cases "v = 0")
    case True
    have "0 < max_compression_size (type_size TYPE('a))"
      using seven_times_size(2) [OF assms] by (simp add: type_size_def)
    moreover have "groups_value sg [0] = (0 :: 'a word)"
      by (rule bit_word_eqI) (auto simp: groups_value_def sign_fill_def)
    ultimately show ?thesis using True by (simp add: element_groups_def marked_def Suc_le_eq)
  next
    case False
    then show ?thesis
      using compress_value_groups [OF assms False, of sg] by (metis element_groups_def groups_def option.simps(5) type_size_def)
  qed
  then show "marked (element_groups sg v)" "length (element_groups sg v) \<le> max_compression_size (type_size TYPE('a))"
    "groups_value sg (element_groups sg v) = v" by simp_all
qed

subsection \<open>Bytes from the inner stream\<close>

lemma drop_append_length: "drop p bs = d @ r \<Longrightarrow> drop (p + length d) bs = r"
  by (metis add.commute append_eq_conv_conj drop_drop)

lemma drop_fits: "drop p bs = d @ r \<Longrightarrow> p \<le> length bs \<Longrightarrow> p + length d \<le> length bs"
  by (metis add_le_cancel_left le_add1 le_add_diff_inverse length_append length_drop)

context byte_file
begin

lemma ser_read_at:
  assumes "stands (ser_inner s) bs p" "drop p bs = d @ r" "unat n = length d" "d \<noteq> []"
  obtains t where "ser_read ops n s = Inr (d, s\<lparr>ser_inner := t\<rparr>)" "stands t bs (p + length d)"
proof -
  have "p + unat n \<le> length bs" using assms stands_bounds drop_fits by metis
  moreover have "take (unat n) (drop p bs) = d" using assms by simp
  ultimately show thesis
    using read_at [OF assms(1), of n] assms(3,4) that by (auto simp: ser_read_def settle_def)
qed

lemma read_byte_at:
  assumes "stands (ser_inner s) bs p" "drop p bs = b # r"
  obtains t where "read_byte ops s = Inr (b, s\<lparr>ser_inner := t\<rparr>)" "stands t bs (Suc p)"
proof -
  obtain t where "ser_read ops 1 s = Inr ([b], s\<lparr>ser_inner := t\<rparr>)" "stands t bs (p + length [b])"
    by (rule ser_read_at [of s bs p "[b]" r 1]) (use assms in simp_all)
  then show thesis by (intro that [of t]) (simp_all add: read_byte_def)
qed

lemma read_metadata_at:
  assumes "stands (ser_inner s) bs p" "drop p bs = m # r"
  obtains t where "read_metadata ops v s = Inr (m, s\<lparr>ser_inner := t, ser_last_meta := of_nat p\<rparr>)" "stands t bs (Suc p)"
proof -
  have "p + length [m] \<le> length bs" using assms stands_bounds drop_fits [of p bs "[m]" r] by auto
  then obtain t where "op_read ops 1 (ser_inner s) = (STATUS_SUCCESS, [m], t)" "stands t bs (Suc p)"
    using read_at [OF assms(1), of 1] assms(2) by auto
  then show thesis
    using ser_position_at [OF assms(1)] by (intro that [of t]) (simp_all add: read_metadata_def Let_def)
qed

lemma seek_back_at:
  assumes "stands (ser_inner s) bs q" "ser_last_meta s = of_nat p" "p \<le> length bs"
  obtains t where "seek_to_last_metadata ops s = Inr ((), s\<lparr>ser_inner := t\<rparr>)" "stands t bs p"
proof -
  have "p < 2 ^ 32" using assms(1,3) stands_bounds by fastforce
  then show thesis
    using ser_seek_at [OF assms(1), of "of_nat p"] assms(2,3) that by (auto simp: seek_to_last_metadata_def unat_u32)
qed

lemma feeds_at:
  assumes "stands (ser_inner s) bs p" "drop p bs = d @ r"
  shows "\<exists>t. feeds (read_byte ops) s d (s\<lparr>ser_inner := t\<rparr>) \<and> stands t bs (p + length d)"
  using assms
proof (induction d arbitrary: s p)
  case Nil
  then show ?case by (intro exI [of _ "ser_inner s"]) simp
next
  case (Cons b d)
  then obtain t where t: "read_byte ops s = Inr (b, s\<lparr>ser_inner := t\<rparr>)" "stands t bs (Suc p)"
    using read_byte_at [of s bs p b "d @ r"] by auto
  have "drop (Suc p) bs = d @ r" using Cons.prems(2) drop_append_length [of p bs "[b]" "d @ r"] by simp
  then show ?case using Cons.IH [of "s\<lparr>ser_inner := t\<rparr>" "Suc p"] t by auto
qed

lemma uncompress_at:
  fixes v :: "'a::len word"
  assumes "stands (ser_inner s) bs p" "drop p bs = element_groups sg v @ r" "8 dvd LENGTH('a)"
  obtains t where "read_and_uncompress (read_byte ops) sg s = Inr (v, s\<lparr>ser_inner := t\<rparr>)"
    "stands t bs (p + length (element_groups sg v))"
proof -
  from feeds_at [OF assms(1,2)] obtain t where t: "feeds (read_byte ops) s (element_groups sg v) (s\<lparr>ser_inner := t\<rparr>)"
      "stands t bs (p + length (element_groups sg v))" by blast
  note g = element_groups_marked [OF assms(3), of sg v]
  show thesis
    using read_groups [OF t(1) g(1), where sg = sg and 'a = 'a] g(2,3) t(2)
    by (intro that [of t]) (simp_all add: type_size_def)
qed

lemma read_u32_at:
  assumes "stands (ser_inner s) bs p" "drop p bs = u32_bytes v @ r"
  obtains t where "read_u32 ops s = Inr (v, s\<lparr>ser_inner := t\<rparr>)" "stands t bs (p + length (u32_bytes v))"
  unfolding read_u32_def by (rule uncompress_at [OF assms]) (use that in simp_all)

end

subsection \<open>Metadata\<close>

definition base_types :: "u8 set" where
  "base_types = {meta_object, meta_pointer, meta_bool, meta_char, meta_uchar, meta_short, meta_ushort, meta_int32,
     meta_uint32, meta_int64, meta_uint64, meta_double, meta_guid, meta_wstring}"

lemma base_types_simps [simp]:
  "meta_object \<in> base_types" "meta_pointer \<in> base_types" "meta_bool \<in> base_types" "meta_char \<in> base_types"
  "meta_uchar \<in> base_types" "meta_short \<in> base_types" "meta_ushort \<in> base_types" "meta_int32 \<in> base_types"
  "meta_uint32 \<in> base_types" "meta_int64 \<in> base_types" "meta_uint64 \<in> base_types" "meta_double \<in> base_types"
  "meta_guid \<in> base_types" "meta_wstring \<in> base_types"
  by (simp_all add: base_types_def)

lemmas meta_tests = is_end_def is_array_def is_empty_value_def is_of_base_type_def make_array_def make_empty_def

lemma base_type_tests [simp]:
  assumes "ty \<in> base_types"
  shows "is_of_base_type ty ty" "is_of_base_type (make_empty ty) ty" "is_of_base_type (make_array ty) ty"
    "is_of_base_type (make_empty (make_array ty)) ty"
    "\<not> is_array ty" "\<not> is_array (make_empty ty)" "is_array (make_array ty)" "is_array (make_empty (make_array ty))"
    "\<not> is_empty_value ty" "is_empty_value (make_empty ty)" "\<not> is_empty_value (make_array ty)"
    "is_empty_value (make_empty (make_array ty))"
    "\<not> is_end ty" "\<not> is_end (make_empty ty)" "\<not> is_end (make_array ty)" "\<not> is_end (make_empty (make_array ty))"
  using assms by (auto simp: base_types_def meta_tests meta_defs)

lemma bool_tests [simp]:
  "is_of_base_type (make_empty meta_bool_false) meta_bool" "\<not> is_array (make_empty meta_bool_false)"
  "is_empty_value (make_empty meta_bool_false)" "\<not> is_end (make_empty meta_bool_false)"
  "make_empty meta_bool_false \<noteq> make_empty meta_bool"
  by (simp_all add: meta_tests meta_defs)

subsection \<open>What a read consumes\<close>

definition consumes ::
  "('s \<Rightarrow> u8 list \<Rightarrow> nat \<Rightarrow> bool) \<Rightarrow> nat \<Rightarrow> object_context list \<Rightarrow> object_context list \<Rightarrow> (u8 list \<Rightarrow> bool) \<Rightarrow>
    ('s ser_stream \<Rightarrow> ('a, 's) ser_result) \<Rightarrow> u8 list \<Rightarrow> 'a \<Rightarrow> bool" where
  "consumes stands k stk stk' R f d x \<longleftrightarrow>
    (\<forall>s bs p r. stands (ser_inner s) bs p \<longrightarrow> ser_stack s = stk \<longrightarrow> length bs \<le> k \<longrightarrow> drop p bs = d @ r \<longrightarrow> R r \<longrightarrow>
      yields (f s) (\<lambda>y s'. y = x \<and> stands (ser_inner s') bs (p + length d) \<and> ser_stack s' = stk'))"

abbreviation anything :: "u8 list \<Rightarrow> bool" where "anything r \<equiv> True"

definition starts_with :: "(u8 \<Rightarrow> bool) \<Rightarrow> u8 list \<Rightarrow> bool" where
  "starts_with P r \<longleftrightarrow> r \<noteq> [] \<and> P (hd r)"

lemma starts_with_Cons [simp]: "starts_with P (m # r) \<longleftrightarrow> P m"
  by (simp add: starts_with_def)

lemma consumesI:
  "(\<And>s bs p r. stands (ser_inner s) bs p \<Longrightarrow> ser_stack s = stk \<Longrightarrow> length bs \<le> k \<Longrightarrow> drop p bs = d @ r \<Longrightarrow> R r \<Longrightarrow>
     yields (f s) (\<lambda>y s'. y = x \<and> stands (ser_inner s') bs (p + length d) \<and> ser_stack s' = stk')) \<Longrightarrow>
    consumes stands k stk stk' R f d x"
  by (simp add: consumes_def)

lemma consumesD:
  "consumes stands k stk stk' R f d x \<Longrightarrow> stands (ser_inner s) bs p \<Longrightarrow> ser_stack s = stk \<Longrightarrow> length bs \<le> k \<Longrightarrow>
    drop p bs = d @ r \<Longrightarrow> R r \<Longrightarrow>
    yields (f s) (\<lambda>y s'. y = x \<and> stands (ser_inner s') bs (p + length d) \<and> ser_stack s' = stk')"
  by (simp add: consumes_def)

lemma consumes_weaken: "consumes stands k stk stk' R f d x \<Longrightarrow> (\<And>r. R' r \<Longrightarrow> R r) \<Longrightarrow> consumes stands k stk stk' R' f d x"
  by (simp add: consumes_def)

lemma consumes_return: "consumes stands k stk stk R (\<lambda>s. Inr (x, s)) [] x"
  by (simp add: consumes_def)

lemma consumes_seq:
  assumes "consumes stands k stk stk1 R1 f d1 x1" "consumes stands k stk1 stk2 R2 (g x1) d2 x2"
    and "\<And>r. R2 r \<Longrightarrow> R1 (d2 @ r)"
  shows "consumes stands k stk stk2 R2 (\<lambda>s. and_then (f s) g) (d1 @ d2) x2"
proof (rule consumesI)
  fix s :: "'a ser_stream" and bs p r
  assume *: "stands (ser_inner s) bs p" "ser_stack s = stk" "length bs \<le> k" "drop p bs = (d1 @ d2) @ r" "R2 r"
  have "yields (f s) (\<lambda>y s'. y = x1 \<and> stands (ser_inner s') bs (p + length d1) \<and> ser_stack s' = stk1)"
    using * assms(3) by (intro consumesD [OF assms(1)]) simp_all
  then show "yields (and_then (f s) g) (\<lambda>y s'. y = x2 \<and> stands (ser_inner s') bs (p + length (d1 @ d2)) \<and> ser_stack s' = stk2)"
  proof (rule yields_and_then)
    fix y and s' :: "'a ser_stream" assume "y = x1 \<and> stands (ser_inner s') bs (p + length d1) \<and> ser_stack s' = stk1"
    then show "yields (g y s') (\<lambda>y s'. y = x2 \<and> stands (ser_inner s') bs (p + length (d1 @ d2)) \<and> ser_stack s' = stk2)"
      using consumesD [OF assms(2), of s' bs "p + length d1" r] * drop_append_length [of p bs d1 "d2 @ r"]
      by (simp add: add.assoc)
  qed
qed

lemma consumes_seq_any:
  assumes "consumes stands k stk stk1 anything f d1 x1" "consumes stands k stk1 stk2 R2 (g x1) d2 x2"
  shows "consumes stands k stk stk2 R2 (\<lambda>s. and_then (f s) g) (d1 @ d2) x2"
  by (rule consumes_seq [where g = g, OF assms]) simp

lemma consumes_peek:
  assumes "consumes stands k stk stk1 R1 f [] x1" "consumes stands k stk1 stk2 R2 (g x1) d x2"
    and "\<And>r. R2 r \<Longrightarrow> R1 (d @ r)"
  shows "consumes stands k stk stk2 R2 (\<lambda>s. and_then (f s) g) d x2"
proof -
  have "consumes stands k stk stk2 R2 (\<lambda>s. and_then (f s) g) ([] @ d) x2"
    by (rule consumes_seq [where g = g, OF assms(1,2)]) (rule assms(3))
  then show ?thesis by simp
qed

lemma consumes_then:
  assumes "consumes stands k stk stk' R f d x" "\<And>s. ser_stack s = stk' \<Longrightarrow> g x s = Inr (y, s)"
  shows "consumes stands k stk stk' R (\<lambda>s. and_then (f s) g) d y"
  using consumes_seq [OF assms(1), of stk' "\<lambda>r. R r" g "[]" y] assms(2) by (simp add: consumes_def)

lemma consumes_cong:
  assumes "consumes stands k stk stk' R g d x" "\<And>s. ser_stack s = stk \<Longrightarrow> f s = g s"
  shows "consumes stands k stk stk' R f d x"
  using assms by (simp add: consumes_def)

context byte_file
begin

text \<open>The head of a field read: the metadata is the expected one, or it is an end mark.\<close>

lemma expect_at:
  assumes "stands (ser_inner s) bs p" "drop p bs = m # r" "\<not> is_end m" "is_of_base_type m base" "is_array m = want"
  obtains t where "expect ops want base s = Inr (Some m, s\<lparr>ser_inner := t, ser_last_meta := of_nat p\<rparr>)" "stands t bs (Suc p)"
proof -
  obtain t where "read_metadata ops base s = Inr (m, s\<lparr>ser_inner := t, ser_last_meta := of_nat p\<rparr>)" "stands t bs (Suc p)"
    by (rule read_metadata_at [OF assms(1,2)])
  then show thesis using assms(3-5) by (intro that [of t]) (simp_all add: expect_def)
qed

lemma metadata_back_at:
  assumes "stands (ser_inner s) bs p" "drop p bs = m # r"
  obtains t t' where "read_metadata ops v s = Inr (m, s\<lparr>ser_inner := t, ser_last_meta := of_nat p\<rparr>)" "stands t bs (Suc p)"
    "seek_to_last_metadata ops (s\<lparr>ser_inner := t, ser_last_meta := of_nat p\<rparr>) =
       Inr ((), s\<lparr>ser_last_meta := of_nat p, ser_inner := t'\<rparr>)" "stands t' bs p"
proof -
  obtain t where t: "read_metadata ops v s = Inr (m, s\<lparr>ser_inner := t, ser_last_meta := of_nat p\<rparr>)" "stands t bs (Suc p)"
    by (rule read_metadata_at [OF assms])
  let ?s = "s\<lparr>ser_inner := t, ser_last_meta := of_nat p\<rparr>"
  have "stands (ser_inner ?s) bs (Suc p)" "ser_last_meta ?s = of_nat p" "p \<le> length bs"
    using t(2) assms(1) stands_bounds by auto
  then obtain t' where "seek_to_last_metadata ops ?s = Inr ((), ?s\<lparr>ser_inner := t'\<rparr>)" "stands t' bs p"
    by (rule seek_back_at)
  then show thesis using t by (intro that [of t t']) simp_all
qed

lemma expect_end: "consumes stands k stk stk (starts_with is_end) (expect ops want base) [] None"
proof (rule consumesI)
  fix s :: "'s ser_stream" and bs p r
  assume *: "stands (ser_inner s) bs p" "ser_stack s = stk" "drop p bs = [] @ r" "starts_with is_end r"
  obtain m r' where "r = m # r'" using *(4) by (cases r) (auto simp: starts_with_def)
  then have r: "drop p bs = m # r'" "is_end m" using *(3,4) by simp_all
  obtain t t' where "read_metadata ops base s = Inr (m, s\<lparr>ser_inner := t, ser_last_meta := of_nat p\<rparr>)"
    "seek_to_last_metadata ops (s\<lparr>ser_inner := t, ser_last_meta := of_nat p\<rparr>) =
       Inr ((), s\<lparr>ser_last_meta := of_nat p, ser_inner := t'\<rparr>)" "stands t' bs p"
    by (rule metadata_back_at [OF *(1) r(1)])
  then show "yields (expect ops want base s)
      (\<lambda>y s'. y = None \<and> stands (ser_inner s') bs (p + length []) \<and> ser_stack s' = stk)"
    using * r(2) by (simp add: expect_def)
qed

lemma expect_head:
  assumes "\<not> is_end m" "is_of_base_type m base" "is_array m = want"
  shows "consumes stands k stk stk anything (expect ops want base) [m] (Some m)"
proof (rule consumesI)
  fix s :: "'s ser_stream" and bs p r
  assume *: "stands (ser_inner s) bs p" "ser_stack s = stk" "drop p bs = [m] @ r"
  then have "drop p bs = m # r" by simp
  then obtain t where "expect ops want base s = Inr (Some m, s\<lparr>ser_inner := t, ser_last_meta := of_nat p\<rparr>)" "stands t bs (Suc p)"
    using expect_at [OF *(1) _ assms] by blast
  then show "yields (expect ops want base s) (\<lambda>y s'. y = Some m \<and> stands (ser_inner s') bs (p + length [m]) \<and> ser_stack s' = stk)"
    using *(2) by simp
qed

text \<open>A value behind its metadata.\<close>

lemma consumes_value:
  assumes "ty \<in> base_types"
    and "\<And>s. f s = and_then (expect ops False ty s) (\<lambda>r s. case r of None \<Rightarrow> Inr (None, s)
      | Some m \<Rightarrow> if is_empty_value m then Inr (Some e, s) else and_then (body s) (\<lambda>x s. Inr (Some x, s)))"
  shows "consumes stands k stk stk (starts_with is_end) f [] None"
    "consumes stands k stk stk anything f [make_empty ty] (Some e)"
    "consumes stands k stk stk R body d x \<Longrightarrow> consumes stands k stk stk R f (ty # d) (Some x)"
proof -
  show "consumes stands k stk stk (starts_with is_end) f [] None"
    unfolding assms(2) [abs_def] by (rule consumes_then [OF expect_end]) simp
  have head: "consumes stands k stk stk anything (expect ops False ty) [m] (Some m)" if "m = ty \<or> m = make_empty ty" for m
    using that assms(1) by (intro expect_head) auto
  show "consumes stands k stk stk anything f [make_empty ty] (Some e)"
    unfolding assms(2) [abs_def] by (rule consumes_then [OF head]) (simp_all add: assms(1))
  show "consumes stands k stk stk R body d x \<Longrightarrow> consumes stands k stk stk R f (ty # d) (Some x)"
  proof -
    assume b: "consumes stands k stk stk R body d x"
    have "consumes stands k stk stk R (\<lambda>s. and_then (expect ops False ty s) (\<lambda>r s. case r of None \<Rightarrow> Inr (None, s)
      | Some m \<Rightarrow> if is_empty_value m then Inr (Some e, s) else and_then (body s) (\<lambda>x s. Inr (Some x, s)))) ([ty] @ d) (Some x)"
      by (rule consumes_seq [OF head]) (simp_all add: assms(1) consumes_then [OF b])
    then show ?thesis unfolding assms(2) [abs_def] by simp
  qed
qed

end

subsection \<open>Single values\<close>

primrec scalar_type :: "scalar \<Rightarrow> u8" where
  "scalar_type (S_Bool _) = meta_bool"
| "scalar_type (S_Char _) = meta_char"
| "scalar_type (S_UChar _) = meta_uchar"
| "scalar_type (S_Short _) = meta_short"
| "scalar_type (S_UShort _) = meta_ushort"
| "scalar_type (S_Int32 _) = meta_int32"
| "scalar_type (S_UInt32 _) = meta_uint32"
| "scalar_type (S_Int64 _) = meta_int64"
| "scalar_type (S_UInt64 _) = meta_uint64"
| "scalar_type (S_Double _) = meta_double"
| "scalar_type (S_Guid _) = meta_guid"

definition same_scalar :: "scalar \<Rightarrow> scalar \<Rightarrow> bool" where
  "same_scalar t v \<longleftrightarrow> scalar_type t = scalar_type v"

text \<open>What is read back for a value: a negative zero loses its sign.\<close>

fun canonical :: "scalar \<Rightarrow> scalar" where
  "canonical (S_Double v) = S_Double (if double_is_zero v then 0 else v)"
| "canonical v = v"

context byte_file
begin

lemma consumes_if_fits:
  "(length d < 2 ^ 32 \<Longrightarrow> consumes stands k stk stk' R f d x) \<Longrightarrow> consumes stands k stk stk' R f d x"
proof (rule consumesI)
  fix s :: "'s ser_stream" and bs p r
  assume c: "length d < 2 ^ 32 \<Longrightarrow> consumes stands k stk stk' R f d x"
    and *: "stands (ser_inner s) bs p" "ser_stack s = stk" "length bs \<le> k" "drop p bs = d @ r" "R r"
  have "length d < 2 ^ 32" using drop_fits [OF *(4)] stands_bounds [OF *(1)] by linarith
  from consumesD [OF c [OF this] *]
  show "yields (f s) (\<lambda>y s'. y = x \<and> stands (ser_inner s') bs (p + length d) \<and> ser_stack s' = stk')" .
qed

lemma consumes_if_short:
  "(length d \<le> k \<Longrightarrow> consumes stands k stk stk' R f d x) \<Longrightarrow> consumes stands k stk stk' R f d x"
proof (rule consumesI)
  fix s :: "'s ser_stream" and bs p r
  assume c: "length d \<le> k \<Longrightarrow> consumes stands k stk stk' R f d x"
    and *: "stands (ser_inner s) bs p" "ser_stack s = stk" "length bs \<le> k" "drop p bs = d @ r" "R r"
  have "length d \<le> k" using drop_fits [OF *(4)] stands_bounds [OF *(1)] *(3) by linarith
  from consumesD [OF c [OF this] *]
  show "yields (f s) (\<lambda>y s'. y = x \<and> stands (ser_inner s') bs (p + length d) \<and> ser_stack s' = stk')" .
qed

lemma consumes_bytes:
  assumes "unat n = length d" "d \<noteq> []"
  shows "consumes stands k stk stk anything (ser_read ops n) d d"
proof (rule consumesI)
  fix s :: "'s ser_stream" and bs p r
  assume *: "stands (ser_inner s) bs p" "ser_stack s = stk" "drop p bs = d @ r"
  obtain t where "ser_read ops n s = Inr (d, s\<lparr>ser_inner := t\<rparr>)" "stands t bs (p + length d)"
    by (rule ser_read_at [OF *(1,3) assms])
  then show "yields (ser_read ops n s) (\<lambda>y s'. y = d \<and> stands (ser_inner s') bs (p + length d) \<and> ser_stack s' = stk)"
    using *(2) by simp
qed

lemma consumes_groups:
  fixes v :: "'a::len word"
  assumes "8 dvd LENGTH('a)"
  shows "consumes stands k stk stk anything (read_and_uncompress (read_byte ops) sg) (element_groups sg v) v"
proof (rule consumesI)
  fix s :: "'s ser_stream" and bs p r
  assume *: "stands (ser_inner s) bs p" "ser_stack s = stk" "drop p bs = element_groups sg v @ r"
  obtain t where "read_and_uncompress (read_byte ops) sg s = Inr (v, s\<lparr>ser_inner := t\<rparr>)"
      "stands t bs (p + length (element_groups sg v))"
    by (rule uncompress_at [OF *(1,3) assms])
  then show "yields (read_and_uncompress (read_byte ops) sg s)
      (\<lambda>y s'. y = v \<and> stands (ser_inner s') bs (p + length (element_groups sg v)) \<and> ser_stack s' = stk)"
    using *(2) by simp
qed

lemma consumes_u32: "consumes stands k stk stk anything (read_u32 ops) (u32_bytes v) v"
  using consumes_groups [where 'a = 32] by (simp add: read_u32_def [abs_def])

lemma consumes_blittable:
  fixes v :: "'a::len word"
  assumes "ty \<in> base_types" "8 dvd LENGTH('a)" "type_size TYPE('a) < 2 ^ 32"
  shows "consumes stands k stk stk anything (read_blittable ops ty) (blittable_bytes ty e v) (Some (if e v then 0 else v))"
    "consumes stands k stk stk (starts_with is_end) (read_blittable ops ty :: 's ser_stream \<Rightarrow> ('a word option, 's) ser_result) [] None"
proof -
  define body where "body s = and_then (ser_read ops (of_nat (type_size TYPE('a))) s) (\<lambda>d s. Inr (bytes_to_word d :: 'a word, s))"
    for s :: "'s ser_stream"
  have f: "read_blittable ops ty s = and_then (expect ops False ty s) (\<lambda>r s. case r of None \<Rightarrow> Inr (None, s)
      | Some m \<Rightarrow> if is_empty_value m then Inr (Some 0, s) else and_then (body s) (\<lambda>x s. Inr (Some x, s)))"
    for s :: "'s ser_stream"
    by (simp add: read_blittable_def body_def and_then_assoc cong: if_cong option.case_cong)
  have len: "length (word_to_bytes v) = type_size TYPE('a)" "0 < type_size TYPE('a)"
    using assms(2) dvd_imp_le [OF assms(2) len_gt_0] by (simp_all add: type_size_def)
  then have "word_to_bytes v \<noteq> []" by (metis length_greater_0_conv)
  then have "consumes stands k stk stk anything (ser_read ops (of_nat (type_size TYPE('a)))) (word_to_bytes v) (word_to_bytes v)"
    using unat_u32 [OF assms(3)] by (intro consumes_bytes) simp_all
  then have b: "consumes stands k stk stk anything body (word_to_bytes v) v"
    unfolding body_def [abs_def] by (rule consumes_then) (simp add: assms(2))
  show "consumes stands k stk stk anything (read_blittable ops ty) (blittable_bytes ty e v) (Some (if e v then 0 else v))"
    using consumes_value(2,3) [OF assms(1) f] b by (auto simp: blittable_bytes_def)
  show "consumes stands k stk stk (starts_with is_end) (read_blittable ops ty :: 's ser_stream \<Rightarrow> ('a word option, 's) ser_result) [] None"
    by (rule consumes_value(1) [OF assms(1) f])
qed

lemma consumes_compressable:
  fixes v :: "'a::len word"
  assumes "ty \<in> base_types" "8 dvd LENGTH('a)"
  shows "consumes stands k stk stk anything (read_compressable ops ty sg) (compressable_bytes ty sg v) (Some v)"
    "consumes stands k stk stk (starts_with is_end) (read_compressable ops ty sg :: 's ser_stream \<Rightarrow> ('a word option, 's) ser_result) [] None"
proof -
  have f: "read_compressable ops ty sg s = and_then (expect ops False ty s) (\<lambda>r s. case r of None \<Rightarrow> Inr (None, s)
      | Some m \<Rightarrow> if is_empty_value m then Inr (Some 0, s)
        else and_then (read_and_uncompress (read_byte ops) sg s) (\<lambda>x s. Inr (Some (x :: 'a word), s)))"
    for s :: "'s ser_stream"
    by (simp add: read_compressable_def)
  have "v \<noteq> 0 \<Longrightarrow> element_groups sg v = groups sg v" by (simp add: element_groups_def)
  then show "consumes stands k stk stk anything (read_compressable ops ty sg) (compressable_bytes ty sg v) (Some v)"
    using consumes_value(2,3) [OF assms(1) f] consumes_groups [OF assms(2), of k stk sg v]
    by (cases "v = 0") (simp_all add: compressable_bytes_def)
  show "consumes stands k stk stk (starts_with is_end) (read_compressable ops ty sg :: 's ser_stream \<Rightarrow> ('a word option, 's) ser_result) [] None"
    by (rule consumes_value(1) [OF assms(1) f])
qed

lemma consumes_bool:
  "consumes stands k stk stk anything (read_bool ops) [make_empty (if b then meta_bool else meta_bool_false)] (Some b)"
  "consumes stands k stk stk (starts_with is_end) (read_bool ops) [] None"
proof -
  have "consumes stands k stk stk anything (expect ops False meta_bool) [make_empty (if b then meta_bool else meta_bool_false)]
      (Some (make_empty (if b then meta_bool else meta_bool_false)))"
    by (rule expect_head) auto
  then show "consumes stands k stk stk anything (read_bool ops) [make_empty (if b then meta_bool else meta_bool_false)] (Some b)"
    unfolding read_bool_def [abs_def] by (rule consumes_then) auto
  show "consumes stands k stk stk (starts_with is_end) (read_bool ops) [] None"
    unfolding read_bool_def [abs_def] by (rule consumes_then [OF expect_end]) simp
qed

lemma consumes_map_field:
  "consumes stands k stk stk' R f d x \<Longrightarrow> consumes stands k stk stk' R (\<lambda>s. map_field g (f s)) d (map_option g x)"
  unfolding map_field_def by (rule consumes_then) simp_all

lemma consumes_scalar:
  assumes "same_scalar t v"
  shows "consumes stands k stk stk anything (read_scalar ops t) (scalar_bytes v) (Some (canonical v))"
  using assms
proof (cases v)
  case (S_Bool b)
  then obtain a where t: "t = S_Bool a" using assms by (cases t) (auto simp: same_scalar_def meta_defs)
  show ?thesis using consumes_map_field [OF consumes_bool(1) [of k stk b], of S_Bool]
    by (simp add: S_Bool t read_scalar.simps [abs_def])
next
  case (S_Char w)
  then obtain a where t: "t = S_Char a" using assms by (cases t) (auto simp: same_scalar_def meta_defs)
  show ?thesis using consumes_map_field [OF consumes_blittable(1) [of meta_char k stk "\<lambda>v. v = 0" w], of S_Char]
    by (simp add: S_Char t read_scalar.simps [abs_def] type_size_def cong: if_cong)
next
  case (S_UChar w)
  then obtain a where t: "t = S_UChar a" using assms by (cases t) (auto simp: same_scalar_def meta_defs)
  show ?thesis using consumes_map_field [OF consumes_blittable(1) [of meta_uchar k stk "\<lambda>v. v = 0" w], of S_UChar]
    by (simp add: S_UChar t read_scalar.simps [abs_def] type_size_def cong: if_cong)
next
  case (S_Double w)
  then obtain a where t: "t = S_Double a" using assms by (cases t) (auto simp: same_scalar_def meta_defs)
  show ?thesis using consumes_map_field [OF consumes_blittable(1) [of meta_double k stk double_is_zero w], of S_Double]
    by (simp add: S_Double t read_scalar.simps [abs_def] type_size_def)
next
  case (S_Guid w)
  then obtain a where t: "t = S_Guid a" using assms by (cases t) (auto simp: same_scalar_def meta_defs)
  show ?thesis using consumes_map_field [OF consumes_blittable(1) [of meta_guid k stk "\<lambda>v. v = 0" w], of S_Guid]
    by (simp add: S_Guid t read_scalar.simps [abs_def] type_size_def cong: if_cong)
next
  case (S_Short w)
  then obtain a where t: "t = S_Short a" using assms by (cases t) (auto simp: same_scalar_def meta_defs)
  show ?thesis using consumes_map_field [OF consumes_compressable(1) [of meta_short k stk True w], of S_Short]
    by (simp add: S_Short t read_scalar.simps [abs_def])
next
  case (S_UShort w)
  then obtain a where t: "t = S_UShort a" using assms by (cases t) (auto simp: same_scalar_def meta_defs)
  show ?thesis using consumes_map_field [OF consumes_compressable(1) [of meta_ushort k stk False w], of S_UShort]
    by (simp add: S_UShort t read_scalar.simps [abs_def])
next
  case (S_Int32 w)
  then obtain a where t: "t = S_Int32 a" using assms by (cases t) (auto simp: same_scalar_def meta_defs)
  show ?thesis using consumes_map_field [OF consumes_compressable(1) [of meta_int32 k stk True w], of S_Int32]
    by (simp add: S_Int32 t read_scalar.simps [abs_def])
next
  case (S_UInt32 w)
  then obtain a where t: "t = S_UInt32 a" using assms by (cases t) (auto simp: same_scalar_def meta_defs)
  show ?thesis using consumes_map_field [OF consumes_compressable(1) [of meta_uint32 k stk False w], of S_UInt32]
    by (simp add: S_UInt32 t read_scalar.simps [abs_def])
next
  case (S_Int64 w)
  then obtain a where t: "t = S_Int64 a" using assms by (cases t) (auto simp: same_scalar_def meta_defs)
  show ?thesis using consumes_map_field [OF consumes_compressable(1) [of meta_int64 k stk True w], of S_Int64]
    by (simp add: S_Int64 t read_scalar.simps [abs_def])
next
  case (S_UInt64 w)
  then obtain a where t: "t = S_UInt64 a" using assms by (cases t) (auto simp: same_scalar_def meta_defs)
  show ?thesis using consumes_map_field [OF consumes_compressable(1) [of meta_uint64 k stk False w], of S_UInt64]
    by (simp add: S_UInt64 t read_scalar.simps [abs_def])
qed

lemma consumes_scalar_end: "consumes stands k stk stk (starts_with is_end) (read_scalar ops t) [] None"
proof -
  note e = consumes_map_field [OF consumes_bool(2)] consumes_map_field [OF consumes_blittable(2)]
    consumes_map_field [OF consumes_compressable(2)]
  show ?thesis by (cases t) (auto simp: read_scalar.simps [abs_def] type_size_def intro: e [simplified])
qed

end

end
