(* ===== verification/Serializable_Arrays.thy ===== *)
theory Serializable_Arrays
  imports Serializable_Reading
begin

section \<open>Reading arrays, and skipping\<close>

text \<open>
  Arrays are read in two calls, as \<open>FabricSerializationHelper::Read\<close> does: the first finds the count,
  the second the elements. Items of unknown type are skipped by the same readers with \<open>noRead\<close>.
\<close>

subsection \<open>The head of an array\<close>

context byte_file
begin

lemma too_big_at:
  "stands (ser_inner s) bs p \<Longrightarrow> too_big ops width count s \<longleftrightarrow> bs \<noteq> [] \<and> length bs < width * unat count"
  using size [of "ser_inner s" bs p] stands_bounds [of "ser_inner s" bs p]
  by (simp add: too_big_def Let_def unat_u32)

lemma not_too_big_at:
  assumes "stands (ser_inner s) bs p" "drop p bs = d @ r" "width * unat count \<le> length d"
  shows "\<not> too_big ops width count s"
  using too_big_at [OF assms(1), of width count] drop_fits [OF assms(2)] stands_bounds [OF assms(1)] assms(3) by simp

text \<open>Below the checks of the count.\<close>

lemma array_from_expect:
  assumes "width * unat count \<le> length d"
    and "consumes stands k stk stk' R (\<lambda>s. and_then (expect ops True ty s) (\<lambda>r s. case r of
       None \<Rightarrow> Inr (Array_Ended, s)
     | Some m \<Rightarrow> if is_empty_value m then Inr (Array_Read e, s)
         else and_then (read_u32 ops s) (\<lambda>n s.
           if count < n \<and> \<not> no_read then
             (if too_big ops width n s then Inl K_STATUS_INVALID_STREAM_FORMAT
              else and_then (seek_to_last_metadata ops s) (\<lambda>_ s. Inr (Array_Too_Small n, s)))
           else and_then (body n s) (\<lambda>x s. Inr (Array_Read x, s))))) d x"
  shows "consumes stands k stk stk' R (read_array_head ops ty width count no_read e body) d x"
proof (rule consumesI)
  fix s :: "'s ser_stream" and bs p r
  assume *: "stands (ser_inner s) bs p" "ser_stack s = stk" "length bs \<le> k" "drop p bs = d @ r" "R r"
  show "yields (read_array_head ops ty width count no_read e body s)
      (\<lambda>y s'. y = x \<and> stands (ser_inner s') bs (p + length d) \<and> ser_stack s' = stk')"
    using consumesD [OF assms(2) *] not_too_big_at [OF *(1,4) assms(1)] by (simp add: read_array_head_def)
qed

lemma array_end:
  assumes "width * unat count = 0"
  shows "consumes stands k stk stk (starts_with is_end) (read_array_head ops ty width count no_read e body) [] Array_Ended"
  using assms by (intro array_from_expect consumes_then [OF expect_end]) simp_all

lemma array_empty:
  assumes "ty \<in> base_types" "width * unat count = 0"
  shows "consumes stands k stk stk anything (read_array_head ops ty width count no_read e body)
    [make_empty (make_array ty)] (Array_Read e)"
proof -
  have "consumes stands k stk stk anything (expect ops True ty) [make_empty (make_array ty)] (Some (make_empty (make_array ty)))"
    using assms(1) by (intro expect_head) simp_all
  then show ?thesis
    using assms by (intro array_from_expect) (auto elim!: consumes_then)
qed

lemma array_read:
  assumes "ty \<in> base_types" "n \<le> count \<or> no_read" "width * unat count \<le> length d"
    and "consumes stands k stk stk R (body n) d x"
  shows "consumes stands k stk stk R (read_array_head ops ty width count no_read e body)
    (make_array ty # u32_bytes n @ d) (Array_Read x)"
proof (rule array_from_expect, goal_cases)
  case 2
  have inner: "consumes stands k stk stk R (\<lambda>s. and_then (read_u32 ops s) (\<lambda>n s. if count < n \<and> \<not> no_read then
             (if too_big ops width n s then Inl K_STATUS_INVALID_STREAM_FORMAT
              else and_then (seek_to_last_metadata ops s) (\<lambda>_ s. Inr (Array_Too_Small n, s)))
           else and_then (body n s) (\<lambda>x s. Inr (Array_Read x, s)))) (u32_bytes n @ d) (Array_Read x)"
    using assms(2) by (intro consumes_seq [OF consumes_u32]) (auto simp: not_less [symmetric] intro!: consumes_then [OF assms(4)])
  have head: "consumes stands k stk stk anything (expect ops True ty) [make_array ty] (Some (make_array ty))"
    using assms(1) by (intro expect_head) simp_all
  have "consumes stands k stk stk R (\<lambda>s. and_then (expect ops True ty s) (\<lambda>r s. case r of
       None \<Rightarrow> Inr (Array_Ended, s)
     | Some m \<Rightarrow> if is_empty_value m then Inr (Array_Read e, s)
         else and_then (read_u32 ops s) (\<lambda>n s.
           if count < n \<and> \<not> no_read then
             (if too_big ops width n s then Inl K_STATUS_INVALID_STREAM_FORMAT
              else and_then (seek_to_last_metadata ops s) (\<lambda>_ s. Inr (Array_Too_Small n, s)))
           else and_then (body n s) (\<lambda>x s. Inr (Array_Read x, s))))) ([make_array ty] @ u32_bytes n @ d) (Array_Read x)"
    by (rule consumes_seq [OF head]) (use inner assms(1) in simp_all)
  then show ?case by simp
qed (use assms(3) in simp)

lemma array_too_small:
  assumes "ty \<in> base_types" "0 < n" "width * unat n \<le> length d"
  shows "consumes stands k stk stk (\<lambda>r. \<exists>r'. r = (make_array ty # u32_bytes n @ d) @ r')
    (read_array_head ops ty width 0 False e body) [] (Array_Too_Small n)"
proof (rule consumesI)
  fix s :: "'s ser_stream" and bs p r
  assume *: "stands (ser_inner s) bs p" "ser_stack s = stk" "drop p bs = [] @ r"
    "\<exists>r'. r = (make_array ty # u32_bytes n @ d) @ r'"
  then obtain r' where r: "drop p bs = make_array ty # u32_bytes n @ d @ r'" by auto
  obtain t where t: "expect ops True ty s = Inr (Some (make_array ty), s\<lparr>ser_inner := t, ser_last_meta := of_nat p\<rparr>)"
      "stands t bs (Suc p)"
    using assms(1) by (rule_tac expect_at [OF *(1) r, of ty True]) simp_all
  let ?s1 = "s\<lparr>ser_inner := t, ser_last_meta := of_nat p\<rparr>"
  have r1: "drop (Suc p) bs = u32_bytes n @ d @ r'" using drop_append_length [of p bs "[make_array ty]"] r by simp
  have st1: "stands (ser_inner ?s1) bs (Suc p)" using t(2) by simp
  obtain t2 where t2: "read_u32 ops ?s1 = Inr (n, ?s1\<lparr>ser_inner := t2\<rparr>)" "stands t2 bs (Suc p + length (u32_bytes n))"
    by (rule read_u32_at [OF st1 r1])
  let ?s2 = "?s1\<lparr>ser_inner := t2\<rparr>"
  have st2: "stands (ser_inner ?s2) bs (Suc p + length (u32_bytes n))" using t2(2) by simp
  have fits: "\<not> too_big ops width n ?s2"
    using drop_append_length [OF r1] assms(3) by (intro not_too_big_at [OF st2]) auto
  have "p \<le> length bs" using stands_bounds [OF *(1)] by simp
  then obtain t3 where t3: "seek_to_last_metadata ops ?s2 = Inr ((), ?s2\<lparr>ser_inner := t3\<rparr>)" "stands t3 bs p"
    using seek_back_at [OF st2, of p] by auto
  have "\<not> too_big ops width 0 s" using too_big_at [OF *(1), of width 0] by simp
  then show "yields (read_array_head ops ty width 0 False e body s)
      (\<lambda>y s'. y = Array_Too_Small n \<and> stands (ser_inner s') bs (p + length []) \<and> ser_stack s' = stk)"
    using t(1) t2(1) t3 fits assms(1,2) *(2) by (simp add: read_array_head_def word_gt_0)
qed

lemma consumes_map_array:
  "consumes stands k stk stk' R f d x \<Longrightarrow> consumes stands k stk stk' R (\<lambda>s. map_array g (f s)) d (map_read g x)"
  unfolding map_array_def by (rule consumes_then) simp_all

text \<open>The two calls of a vector read.\<close>

lemma two_calls:
  assumes "consumes stands k stk stk (starts_with is_end) (rd 0) [] Array_Ended"
    and "\<And>s. f s = and_then (rd 0 s) (\<lambda>r s. case r of
      Array_Read x \<Rightarrow> Inr (Some x, s)
    | Array_Ended \<Rightarrow> Inr (None, s)
    | Array_Too_Small n \<Rightarrow> and_then (rd n s) (\<lambda>r s. case r of Array_Read x \<Rightarrow> Inr (Some x, s) | _ \<Rightarrow> Inr (Some (other n), s)))"
  shows "consumes stands k stk stk (starts_with is_end) f [] None"
    "consumes stands k stk stk anything (rd 0) d (Array_Read x) \<Longrightarrow> consumes stands k stk stk anything f d (Some x)"
    "consumes stands k stk stk (\<lambda>r. \<exists>r'. r = d @ r') (rd 0) [] (Array_Too_Small n) \<Longrightarrow>
      consumes stands k stk stk anything (rd n) d (Array_Read x) \<Longrightarrow> consumes stands k stk stk anything f d (Some x)"
proof -
  show "consumes stands k stk stk (starts_with is_end) f [] None"
    unfolding assms(2) [abs_def] by (rule consumes_then [OF assms(1)]) simp
  show "consumes stands k stk stk anything (rd 0) d (Array_Read x) \<Longrightarrow> consumes stands k stk stk anything f d (Some x)"
    unfolding assms(2) [abs_def] by (rule consumes_then, assumption) simp
  show "consumes stands k stk stk (\<lambda>r. \<exists>r'. r = d @ r') (rd 0) [] (Array_Too_Small n) \<Longrightarrow>
      consumes stands k stk stk anything (rd n) d (Array_Read x) \<Longrightarrow> consumes stands k stk stk anything f d (Some x)"
    unfolding assms(2) [abs_def]
    by (rule consumes_peek, assumption) (auto intro: consumes_then)
qed

lemma consumes_sequence:
  assumes "ty \<in> base_types"
    and rd: "\<And>c s. rd c s = map_array g (read_array_head ops ty (width c) c False [] (body c) s)"
    and f: "\<And>s. f s = and_then (rd 0 s) (\<lambda>r s. case r of
      Array_Read x \<Rightarrow> Inr (Some x, s)
    | Array_Ended \<Rightarrow> Inr (None, s)
    | Array_Too_Small n \<Rightarrow> and_then (rd n s) (\<lambda>r s. case r of Array_Read x \<Rightarrow> Inr (Some x, s) | _ \<Rightarrow> Inr (Some (other n), s)))"
  shows "consumes stands k stk stk (starts_with is_end) f [] None"
    "(\<And>n. unat n = length xs \<Longrightarrow> xs \<noteq> [] \<Longrightarrow> consumes stands k stk stk anything (body n n) (concat (map enc xs)) ys) \<Longrightarrow>
      (xs = [] \<Longrightarrow> ys = []) \<Longrightarrow>
      (\<And>c. c = 0 \<or> unat c = length xs \<Longrightarrow> 0 < width c \<and> width c * length xs \<le> length (concat (map enc xs))) \<Longrightarrow>
      consumes stands k stk stk anything f (sequence_bytes ty enc xs) (Some (g ys))"
proof -
  have "consumes stands k stk stk (starts_with is_end) (rd 0) [] (map_read g Array_Ended)"
    unfolding rd [abs_def] by (intro consumes_map_array array_end) simp
  then have ended: "consumes stands k stk stk (starts_with is_end) (rd 0) [] Array_Ended" by simp
  note calls = two_calls [OF ended f]
  show "consumes stands k stk stk (starts_with is_end) f [] None"
    by (rule calls(1))
  assume b: "\<And>n. unat n = length xs \<Longrightarrow> xs \<noteq> [] \<Longrightarrow> consumes stands k stk stk anything (body n n) (concat (map enc xs)) ys"
    and e: "xs = [] \<Longrightarrow> ys = []"
    and w: "\<And>c. c = 0 \<or> unat c = length xs \<Longrightarrow> 0 < width c \<and> width c * length xs \<le> length (concat (map enc xs))"
  show "consumes stands k stk stk anything f (sequence_bytes ty enc xs) (Some (g ys))"
  proof (cases "xs = []")
    case True
    have "consumes stands k stk stk anything (rd 0) [make_empty (make_array ty)] (map_read g (Array_Read []))"
      unfolding rd [abs_def] using assms(1) by (intro consumes_map_array array_empty) simp_all
    then show ?thesis using calls(2) True e by (simp add: sequence_bytes_def)
  next
    case False
    let ?n = "of_nat (length xs) :: u32" and ?d = "concat (map enc xs)"
    show ?thesis
    proof (rule consumes_if_fits)
      assume "length (sequence_bytes ty enc xs) < 2 ^ 32"
      then have "length ?d < 2 ^ 32" using False by (simp add: sequence_bytes_def del: length_concat)
      moreover have "length xs \<le> width 0 * length xs" "width 0 * length xs \<le> length ?d" using w [of 0] by simp_all
      ultimately have n: "unat ?n = length xs" by (intro unat_u32) linarith
      then have pos: "0 < ?n" using False by (simp add: word_less_nat_alt)
      have "consumes stands k stk stk (\<lambda>r. \<exists>r'. r = (make_array ty # u32_bytes ?n @ ?d) @ r') (rd 0) [] (map_read g (Array_Too_Small ?n))"
        unfolding rd [abs_def] using w [of 0] n by (intro consumes_map_array array_too_small assms(1) pos) simp
      moreover have "consumes stands k stk stk anything (rd ?n) (make_array ty # u32_bytes ?n @ ?d) (map_read g (Array_Read ys))"
        unfolding rd [abs_def] using w [of ?n] n
        by (intro consumes_map_array array_read assms(1) b [OF n False]) simp_all
      ultimately show ?thesis
        using calls(3) False by (simp add: sequence_bytes_def)
    qed
  qed
qed

lemma consumes_elements:
  fixes vs :: "'a::len word list"
  assumes "8 dvd LENGTH('a)"
  shows "consumes stands k stk stk anything (read_elements ops sg (length vs)) (concat (map (element_groups sg) vs)) vs"
proof (induction vs)
  case Nil
  then show ?case by (simp add: read_elements.simps [abs_def] consumes_return)
next
  case (Cons v vs)
  have "consumes stands k stk stk anything (\<lambda>s. and_then (read_elements ops sg (length vs) s) (\<lambda>vs s. Inr (v # vs, s)))
      (concat (map (element_groups sg) vs)) (v # vs)"
    by (rule consumes_then [OF Cons.IH]) simp
  then show ?case
    using consumes_seq [OF consumes_groups [OF assms, of k stk sg v]] by (simp add: read_elements.simps [abs_def])
qed

lemma consumes_blittable_elements:
  fixes vs :: "'a::len word list"
  assumes "8 dvd LENGTH('a)" "unat n = length vs" "vs \<noteq> []"
  shows "consumes stands k stk stk anything (\<lambda>s. and_then (ser_read ops (of_nat (type_size TYPE('a) * unat n)) s)
      (\<lambda>d s. Inr (words_of_bytes (unat n) d, s))) (concat (map word_to_bytes vs)) vs"
proof (rule consumes_if_fits)
  let ?d = "concat (map word_to_bytes vs)"
  assume "length ?d < 2 ^ 32"
  moreover have len: "length ?d = type_size TYPE('a) * length vs" by (simp add: length_concat comp_def sum_list_triv)
  ultimately have n: "unat (of_nat (type_size TYPE('a) * unat n) :: u32) = length ?d"
    unfolding assms(2) by (metis unat_u32)
  have "0 < type_size TYPE('a)" using dvd_imp_le [OF assms(1) len_gt_0] by (simp add: type_size_def)
  then have "?d \<noteq> []" using len assms(3) by (metis length_0_conv length_greater_0_conv nat_0_less_mult_iff)
  then show "consumes stands k stk stk anything (\<lambda>s. and_then (ser_read ops (of_nat (type_size TYPE('a) * unat n)) s)
      (\<lambda>d s. Inr (words_of_bytes (unat n) d, s))) ?d vs"
    using words_of_bytes_concat [OF assms(1), of vs "[]"] assms(2)
    by (intro consumes_then [OF consumes_bytes [OF n]]) simp_all
qed

lemma vector_blittable:
  fixes ws :: "'a::len word list"
  assumes "\<And>s. f s = and_then (map_array g (read_blittable_array ops ty 0 False s)) (\<lambda>r s. case r of
      Array_Read x \<Rightarrow> Inr (Some x, s)
    | Array_Ended \<Rightarrow> Inr (None, s)
    | Array_Too_Small n \<Rightarrow> and_then (map_array g (read_blittable_array ops ty n False s)) (\<lambda>r s. case r of
        Array_Read x \<Rightarrow> Inr (Some x, s) | _ \<Rightarrow> Inr (Some (other n), s)))"
    and "ty \<in> base_types" "8 dvd LENGTH('a)"
  shows "consumes stands k stk stk (starts_with is_end) f [] None"
    "consumes stands k stk stk anything f (sequence_bytes ty word_to_bytes ws) (Some (g ws))"
proof -
  define body where "body (c :: u32) (n :: u32) s = and_then (ser_read ops (of_nat (type_size TYPE('a) * unat n)) s)
      (\<lambda>d s. Inr (words_of_bytes (unat n) d :: 'a word list, s))" for c n and s :: "'s ser_stream"
  have rd: "map_array g (read_blittable_array ops ty c False s) =
      map_array g (read_array_head ops ty (type_size TYPE('a)) c False [] (body c) s)" for c s
    by (simp add: read_blittable_array_def body_def [abs_def] cong: if_cong)
  note seq = consumes_sequence [where rd = "\<lambda>c s. map_array g (read_blittable_array ops ty c False s)", OF assms(2) rd assms(1)]
  show "consumes stands k stk stk (starts_with is_end) f [] None" by (rule seq(1))
  have "0 < type_size TYPE('a)" using dvd_imp_le [OF assms(3) len_gt_0] by (simp add: type_size_def)
  then show "consumes stands k stk stk anything f (sequence_bytes ty word_to_bytes ws) (Some (g ws))"
    unfolding body_def [abs_def]
    by (intro seq(2) [unfolded body_def [abs_def]] consumes_blittable_elements [OF assms(3)])
      (simp_all add: length_concat comp_def sum_list_triv)
qed

lemma groups_length:
  fixes vs :: "'a::len word list"
  assumes "8 dvd LENGTH('a)"
  shows "length vs \<le> length (concat (map (element_groups sg) vs))"
proof (induction vs)
  case (Cons v vs)
  then show ?case using element_groups_nonempty [OF assms, of sg v] by (simp del: length_concat length_greater_0_conv)
qed simp

lemma vector_compressable:
  fixes ws :: "'a::len word list"
  assumes "\<And>s. f s = and_then (map_array g (read_compressable_array ops ty sg 0 False s)) (\<lambda>r s. case r of
      Array_Read x \<Rightarrow> Inr (Some x, s)
    | Array_Ended \<Rightarrow> Inr (None, s)
    | Array_Too_Small n \<Rightarrow> and_then (map_array g (read_compressable_array ops ty sg n False s)) (\<lambda>r s. case r of
        Array_Read x \<Rightarrow> Inr (Some x, s) | _ \<Rightarrow> Inr (Some (other n), s)))"
    and "ty \<in> base_types" "8 dvd LENGTH('a)"
  shows "consumes stands k stk stk (starts_with is_end) f [] None"
    "consumes stands k stk stk anything f (sequence_bytes ty (element_groups sg) ws) (Some (g ws))"
proof -
  define body where "body (c :: u32) (n :: u32) s = (read_elements ops sg (unat n) s :: ('a word list, 's) ser_result)"
    for c n and s :: "'s ser_stream"
  have rd: "map_array g (read_compressable_array ops ty sg c False s) = map_array g (read_array_head ops ty 1 c False [] (body c) s)" for c s
    by (simp add: read_compressable_array_def body_def [abs_def] cong: if_cong)
  note seq = consumes_sequence [where rd = "\<lambda>c s. map_array g (read_compressable_array ops ty sg c False s)", OF assms(2) rd assms(1)]
  show "consumes stands k stk stk (starts_with is_end) f [] None" by (rule seq(1))
  show "consumes stands k stk stk anything f (sequence_bytes ty (element_groups sg) ws) (Some (g ws))"
    using consumes_elements [OF assms(3), of k stk sg ws] groups_length [OF assms(3), of ws sg]
    by (intro seq(2)) (simp_all add: body_def [abs_def] del: length_concat)
qed

end

subsection \<open>Arrays\<close>

primrec array_type :: "array \<Rightarrow> u8" where
  "array_type (A_Bool _) = meta_bool"
| "array_type (A_Char _) = meta_char"
| "array_type (A_UChar _) = meta_uchar"
| "array_type (A_Short _) = meta_short"
| "array_type (A_UShort _) = meta_ushort"
| "array_type (A_Int32 _) = meta_int32"
| "array_type (A_UInt32 _) = meta_uint32"
| "array_type (A_Int64 _) = meta_int64"
| "array_type (A_UInt64 _) = meta_uint64"
| "array_type (A_Double _) = meta_double"
| "array_type (A_Guid _) = meta_guid"
| "array_type (A_String _) = meta_wstring"

primrec array_length :: "array \<Rightarrow> nat" where
  "array_length (A_Bool vs) = length vs"
| "array_length (A_Char vs) = length vs"
| "array_length (A_UChar vs) = length vs"
| "array_length (A_Short vs) = length vs"
| "array_length (A_UShort vs) = length vs"
| "array_length (A_Int32 vs) = length vs"
| "array_length (A_UInt32 vs) = length vs"
| "array_length (A_Int64 vs) = length vs"
| "array_length (A_UInt64 vs) = length vs"
| "array_length (A_Double vs) = length vs"
| "array_length (A_Guid vs) = length vs"
| "array_length (A_String vs) = length vs"

lemma array_length_0: "array_length t = 0 \<Longrightarrow> first_count t = 0"
  by (cases t) simp_all

context byte_file
begin

lemma consumes_vector:
  assumes "array_type t = array_type v" "array_length t = 0"
  shows "consumes stands k stk stk anything (read_vector ops t) (array_bytes v) (Some v)"
    "consumes stands k stk stk (starts_with is_end) (read_vector ops t) [] None"
proof -
  note vectors = vector_blittable [where other = "\<lambda>n. resize_array (unat n) t"]
    vector_compressable [where other = "\<lambda>n. resize_array (unat n) t"]
  have "consumes stands k stk stk anything (read_vector ops t) (array_bytes v) (Some v) \<and>
      consumes stands k stk stk (starts_with is_end) (read_vector ops t) [] None"
  proof (cases v)
    case (A_Bool ws)
    then have t: "t = A_Bool []" using assms by (cases t) (auto simp: meta_defs)
    show ?thesis
      unfolding A_Bool array_bytes.simps
      by (intro conjI vectors(2) vectors(1)) (simp_all add: t read_vector_def cong: array_read.case_cong)+
  next
    case (A_Char ws)
    then have t: "t = A_Char []" using assms by (cases t) (auto simp: meta_defs)
    show ?thesis
      unfolding A_Char array_bytes.simps
      by (intro conjI vectors(2) vectors(1)) (simp_all add: t read_vector_def cong: array_read.case_cong)+
  next
    case (A_UChar ws)
    then have t: "t = A_UChar []" using assms by (cases t) (auto simp: meta_defs)
    show ?thesis
      unfolding A_UChar array_bytes.simps
      by (intro conjI vectors(2) vectors(1)) (simp_all add: t read_vector_def cong: array_read.case_cong)+
  next
    case (A_Short ws)
    then have t: "t = A_Short []" using assms by (cases t) (auto simp: meta_defs)
    show ?thesis
      unfolding A_Short array_bytes.simps
      by (intro conjI vectors(4) vectors(3)) (simp_all add: t read_vector_def cong: array_read.case_cong)+
  next
    case (A_UShort ws)
    then have t: "t = A_UShort []" using assms by (cases t) (auto simp: meta_defs)
    show ?thesis
      unfolding A_UShort array_bytes.simps
      by (intro conjI vectors(4) vectors(3)) (simp_all add: t read_vector_def cong: array_read.case_cong)+
  next
    case (A_Int32 ws)
    then have t: "t = A_Int32 []" using assms by (cases t) (auto simp: meta_defs)
    show ?thesis
      unfolding A_Int32 array_bytes.simps
      by (intro conjI vectors(4) vectors(3)) (simp_all add: t read_vector_def cong: array_read.case_cong)+
  next
    case (A_UInt32 ws)
    then have t: "t = A_UInt32 []" using assms by (cases t) (auto simp: meta_defs)
    show ?thesis
      unfolding A_UInt32 array_bytes.simps
      by (intro conjI vectors(4) vectors(3)) (simp_all add: t read_vector_def cong: array_read.case_cong)+
  next
    case (A_Int64 ws)
    then have t: "t = A_Int64 []" using assms by (cases t) (auto simp: meta_defs)
    show ?thesis
      unfolding A_Int64 array_bytes.simps
      by (intro conjI vectors(4) vectors(3)) (simp_all add: t read_vector_def cong: array_read.case_cong)+
  next
    case (A_UInt64 ws)
    then have t: "t = A_UInt64 []" using assms by (cases t) (auto simp: meta_defs)
    show ?thesis
      unfolding A_UInt64 array_bytes.simps
      by (intro conjI vectors(4) vectors(3)) (simp_all add: t read_vector_def cong: array_read.case_cong)+
  next
    case (A_Double ws)
    then have t: "t = A_Double []" using assms by (cases t) (auto simp: meta_defs)
    show ?thesis
      unfolding A_Double array_bytes.simps
      by (intro conjI vectors(2) vectors(1)) (simp_all add: t read_vector_def cong: array_read.case_cong)+
  next
    case (A_Guid ws)
    then have t: "t = A_Guid []" using assms by (cases t) (auto simp: meta_defs)
    show ?thesis
      unfolding A_Guid array_bytes.simps
      by (intro conjI vectors(2) vectors(1)) (simp_all add: t read_vector_def cong: array_read.case_cong)+
  next
    case (A_String ws)
    then have t: "t = A_String []" using assms by (cases t) (auto simp: meta_defs)
    show ?thesis
      unfolding A_String array_bytes.simps
      by (intro conjI vectors(2) vectors(1)) (simp_all add: t read_vector_def cong: array_read.case_cong)+
  qed
  then show "consumes stands k stk stk anything (read_vector ops t) (array_bytes v) (Some v)"
    "consumes stands k stk stk (starts_with is_end) (read_vector ops t) [] None"
    by simp_all
qed

end

end
