(* ===== verification/Serializable_Skipping.thy ===== *)
theory Serializable_Skipping
  imports Serializable_Arrays
begin

section \<open>Skipping items of unknown type\<close>

text \<open>
  What \<open>ReadUnknownData\<close> owes: it passes over exactly the bytes of each item a newer class wrote,
  knowing only its metadata.
\<close>

definition skips :: "('s \<Rightarrow> u8 list \<Rightarrow> nat \<Rightarrow> bool) \<Rightarrow> 's stream_ops \<Rightarrow> u8 list \<Rightarrow> bool" where
  "skips stands I d \<longleftrightarrow> d \<noteq> [] \<and> \<not> is_end (hd d) \<and>
    (\<forall>s bs p r. stands (ser_inner s) bs (Suc p) \<longrightarrow> ser_last_meta s = of_nat p \<longrightarrow> p \<le> length bs \<longrightarrow> drop p bs = d @ r \<longrightarrow>
      yields (skip_item I (hd d) s) (\<lambda>_ s'. stands (ser_inner s') bs (p + length d) \<and> ser_stack s' = ser_stack s))"

context byte_file
begin

lemma skips_empty:
  assumes "is_empty_value m" "m \<noteq> make_empty meta_no_copy" "\<not> is_end m"
  shows "skips stands ops [m]"
  using assms by (auto simp: skips_def skip_item_def)

text \<open>An item that is not empty is read again from its metadata.\<close>

lemma skips_from_metadata:
  assumes "\<not> is_empty_value m" "\<not> is_end m"
    and "\<And>k stk. consumes stands k stk stk anything (\<lambda>s. if is_array m then skip_unknown_array ops m s else skip_single ops m s)
      (m # d) ()"
  shows "skips stands ops (m # d)"
  unfolding skips_def
proof (intro conjI allI impI)
  fix s :: "'s ser_stream" and bs p r
  assume *: "stands (ser_inner s) bs (Suc p)" "ser_last_meta s = of_nat p" "p \<le> length bs" "drop p bs = (m # d) @ r"
  obtain t where t: "seek_to_last_metadata ops s = Inr ((), s\<lparr>ser_inner := t\<rparr>)" "stands t bs p"
    by (rule seek_back_at [OF *(1,2,3)])
  have "yields (if is_array m then skip_unknown_array ops m (s\<lparr>ser_inner := t\<rparr>) else skip_single ops m (s\<lparr>ser_inner := t\<rparr>))
      (\<lambda>y s'. y = () \<and> stands (ser_inner s') bs (p + length (m # d)) \<and> ser_stack s' = ser_stack s)"
    by (rule consumesD [OF assms(3) _ _ _ *(4), where k = "length bs"]) (simp_all add: t(2))
  then show "yields (skip_item ops (hd (m # d)) s)
      (\<lambda>_ s'. stands (ser_inner s') bs (p + length (m # d)) \<and> ser_stack s' = ser_stack s)"
    using assms(1) t(1) by (simp add: skip_item_def)
qed (use assms(2) in simp_all)

lemma consumes_skip_field: "consumes stands k stk stk R f d x \<Longrightarrow> consumes stands k stk stk R (\<lambda>s. skip_field (f s)) d ()"
  unfolding skip_field_def by (rule consumes_then) simp_all

lemma consumes_skip_array: "consumes stands k stk stk R f d x \<Longrightarrow> consumes stands k stk stk R (\<lambda>s. skip_array (f s)) d ()"
  unfolding skip_array_def by (rule consumes_then) simp_all

lemma skips_compressable:
  fixes v :: "'a::len word"
  assumes "ty \<in> base_types" "8 dvd LENGTH('a)"
    and "\<And>s. skip_single ops ty s = skip_field (read_compressable ops ty sg s :: ('a word option, 's) ser_result)"
  shows "skips stands ops (compressable_bytes ty sg v)"
proof (cases "v = 0")
  case True
  then show ?thesis
    using assms(1) by (auto simp: compressable_bytes_def base_types_def meta_tests meta_defs intro!: skips_empty)
next
  case False
  then have "compressable_bytes ty sg v = ty # groups sg v" by (simp add: compressable_bytes_def)
  then show ?thesis
    using consumes_skip_field [OF consumes_compressable(1) [OF assms(1,2), of _ _ sg v]] assms(1)
    by (auto simp: assms(3) intro!: skips_from_metadata)
qed

lemma skips_blittable:
  fixes v :: "'a::len word"
  assumes "ty \<in> base_types" "8 dvd LENGTH('a)" "type_size TYPE('a) < 2 ^ 32"
    and "\<And>s. skip_single ops ty s = skip_field (read_blittable ops ty s :: ('a word option, 's) ser_result)"
  shows "skips stands ops (blittable_bytes ty e v)"
proof (cases "e v")
  case True
  then show ?thesis
    using assms(1) by (auto simp: blittable_bytes_def base_types_def meta_tests meta_defs intro!: skips_empty)
next
  case False
  then have "blittable_bytes ty e v = ty # word_to_bytes v" by (simp add: blittable_bytes_def)
  then show ?thesis
    using consumes_skip_field [OF consumes_blittable(1) [OF assms(1,2,3), of _ _ e v]] assms(1)
    by (auto simp: assms(4) intro!: skips_from_metadata)
qed

lemma skips_scalar: "skips stands ops (scalar_bytes v)"
proof (cases v)
  case (S_Bool b)
  then show ?thesis by (auto simp: meta_tests meta_defs intro!: skips_empty)
qed (auto simp: skip_single_def type_size_def base_types_def meta_defs intro!: skips_compressable skips_blittable)

subsection \<open>Arrays\<close>

lemma consumes_seek:
  "consumes stands k stk stk anything (\<lambda>s. ser_seek ops (ser_position ops s + of_nat (length d)) s) d ()"
proof (rule consumesI)
  fix s :: "'s ser_stream" and bs p r
  assume *: "stands (ser_inner s) bs p" "ser_stack s = stk" "drop p bs = d @ r"
  have fits: "p + length d \<le> length bs" "length bs < 2 ^ 32"
    using drop_fits [OF *(3)] stands_bounds [OF *(1)] by simp_all
  then have u: "unat (of_nat p + of_nat (length d) :: u32) = p + length d"
    using unat_u32 [of "p + length d"] by simp
  obtain t where "ser_seek ops (of_nat p + of_nat (length d)) s = Inr ((), s\<lparr>ser_inner := t\<rparr>)" "stands t bs (p + length d)"
    using ser_seek_at [OF *(1), of "of_nat p + of_nat (length d)"] fits(1) unfolding u by blast
  then show "yields (ser_seek ops (ser_position ops s + of_nat (length d)) s)
      (\<lambda>y s'. y = () \<and> stands (ser_inner s') bs (p + length d) \<and> ser_stack s' = stk)"
    using *(2) ser_position_at [OF *(1)] by simp
qed

lemma consumes_skip_groups:
  assumes "bs \<noteq> []" "\<forall>b \<in> set (butlast bs). b AND 0x80 \<noteq> 0" "last bs AND 0x80 = 0" "length bs \<le> n"
  shows "consumes stands k stk stk anything (skip_compressed_value ops n) bs ()"
  using assms
proof (induction bs arbitrary: n)
  case (Cons b bs)
  then obtain m where n: "n = Suc m" "length bs \<le> m" by (cases n) auto
  have byte: "consumes stands k stk stk anything (read_byte ops) [b] b"
  proof (rule consumesI)
    fix s :: "'s ser_stream" and cs p r
    assume *: "stands (ser_inner s) cs p" "ser_stack s = stk" "drop p cs = [b] @ r"
    then obtain t where "read_byte ops s = Inr (b, s\<lparr>ser_inner := t\<rparr>)" "stands t cs (Suc p)"
      using read_byte_at [of s cs p b r] by auto
    then show "yields (read_byte ops s) (\<lambda>y s'. y = b \<and> stands (ser_inner s') cs (p + length [b]) \<and> ser_stack s' = stk)"
      using *(2) by simp
  qed
  have "consumes stands k stk stk anything
      (\<lambda>s. if b AND 0x80 = 0 then Inr ((), s) else skip_compressed_value ops m s) bs ()"
  proof (cases "bs = []")
    case True
    then show ?thesis using Cons.prems by (simp add: consumes_return del: and_one_bit)
  next
    case False
    then show ?thesis using Cons.prems n(2) Cons.IH [of m] by (simp del: and_one_bit)
  qed
  then show ?case
    using consumes_seq [OF byte] by (simp add: n(1) skip_compressed_value.simps [abs_def] del: and_one_bit)
qed simp

lemma consumes_skip_elements:
  fixes vs :: "'a::len word list"
  assumes "8 dvd LENGTH('a)"
  shows "consumes stands k stk stk anything (skip_elements ops (max_compression_size (type_size TYPE('a))) (length vs))
    (concat (map (element_groups sg) vs)) ()"
proof (induction vs)
  case Nil
  then show ?case by (simp add: skip_elements.simps [abs_def] consumes_return)
next
  case (Cons v vs)
  note m = element_groups_marked(1,2) [OF assms, of sg v]
  have "consumes stands k stk stk anything (skip_compressed_value ops (max_compression_size (type_size TYPE('a)))) (element_groups sg v) ()"
    using m by (intro consumes_skip_groups) (auto simp: marked_def simp del: and_one_bit)
  from consumes_seq [OF this Cons.IH] show ?case by (simp add: skip_elements.simps [abs_def])
qed

lemma skips_sequence:
  assumes "ty \<in> base_types"
    and "\<And>s. skip_unknown_array ops (make_array ty) s = skip_array (read_array_head ops ty width 0 True e body s)"
    and "\<And>k stk n. length xs < 2 ^ 32 \<Longrightarrow> n = of_nat (length xs) \<Longrightarrow> xs \<noteq> [] \<Longrightarrow>
      consumes stands k stk stk anything (body n) (concat (map enc xs)) y"
    and "length xs \<le> length (concat (map enc xs))"
  shows "skips stands ops (sequence_bytes ty enc xs)"
proof (cases "xs = []")
  case True
  then show ?thesis
    using assms(1) by (auto simp: sequence_bytes_def base_types_def meta_tests meta_defs intro!: skips_empty)
next
  case False
  let ?n = "of_nat (length xs) :: u32" and ?d = "concat (map enc xs)"
  have "consumes stands k stk stk anything (\<lambda>s. skip_unknown_array ops (make_array ty) s) (make_array ty # u32_bytes ?n @ ?d) ()" for k stk
  proof (rule consumes_if_fits)
    assume "length (make_array ty # u32_bytes ?n @ ?d) < 2 ^ 32"
    then have "length xs < 2 ^ 32" using assms(4) by (simp del: length_concat)
    then have "consumes stands k stk stk anything (read_array_head ops ty width 0 True e body)
        (make_array ty # u32_bytes ?n @ ?d) (Array_Read y)"
      using assms(1) False by (intro array_read assms(3)) simp_all
    from consumes_skip_array [OF this] show "consumes stands k stk stk anything (\<lambda>s. skip_unknown_array ops (make_array ty) s)
        (make_array ty # u32_bytes ?n @ ?d) ()" by (simp add: assms(2))
  qed
  then show ?thesis
    using assms(1) False by (auto simp: sequence_bytes_def intro!: skips_from_metadata)
qed

lemma skips_blittable_array:
  fixes vs :: "'a::len word list"
  assumes "ty \<in> base_types" "8 dvd LENGTH('a)"
    and "\<And>s. skip_unknown_array ops (make_array ty) s =
      skip_array (read_blittable_array ops ty 0 True s :: ('a word list array_read, 's) ser_result)"
  shows "skips stands ops (sequence_bytes ty word_to_bytes vs)"
proof (rule skips_sequence [OF assms(1) assms(3) [unfolded read_blittable_array_def if_True]])
  have len: "length (concat (map word_to_bytes vs)) = type_size TYPE('a) * length vs"
    by (simp add: length_concat comp_def sum_list_triv)
  have "0 < type_size TYPE('a)" using dvd_imp_le [OF assms(2) len_gt_0] by (simp add: type_size_def)
  then show "length vs \<le> length (concat (map word_to_bytes vs))" by (simp add: len)
  fix k stk n assume n: "length vs < 2 ^ 32" "n = (of_nat (length vs) :: u32)"
  have "consumes stands k stk stk anything
      (\<lambda>s. ser_seek ops (ser_position ops s + of_nat (type_size TYPE('a) * unat n)) s) (concat (map word_to_bytes vs)) ()"
    using consumes_seek [of k stk "concat (map word_to_bytes vs)"] unfolding len n(2) unat_u32 [OF n(1)] by blast
  from consumes_then [OF this, of "\<lambda>_ s. Inr ([], s)" "[]"]
  show "consumes stands k stk stk anything (\<lambda>s. and_then
      (ser_seek ops (ser_position ops s + of_nat (type_size TYPE('a) * unat n)) s) (\<lambda>_ s. Inr ([], s)))
      (concat (map word_to_bytes vs)) []" by simp
qed

lemma skips_compressable_array:
  fixes vs :: "'a::len word list"
  assumes "ty \<in> base_types" "8 dvd LENGTH('a)"
    and "\<And>s. skip_unknown_array ops (make_array ty) s =
      skip_array (read_compressable_array ops ty sg 0 True s :: ('a word list array_read, 's) ser_result)"
  shows "skips stands ops (sequence_bytes ty (element_groups sg) vs)"
proof (rule skips_sequence [OF assms(1) assms(3) [unfolded read_compressable_array_def if_True]])
  show "length vs \<le> length (concat (map (element_groups sg) vs))" by (rule groups_length [OF assms(2)])
  fix k stk n assume n: "length vs < 2 ^ 32" "n = (of_nat (length vs) :: u32)"
  show "consumes stands k stk stk anything (\<lambda>s. and_then
      (skip_elements ops (max_compression_size (type_size TYPE('a))) (unat n) s) (\<lambda>_ s. Inr ([], s)))
      (concat (map (element_groups sg) vs)) []"
    using consumes_then [OF consumes_skip_elements [OF assms(2), of k stk vs sg], of "\<lambda>_ s. Inr ([], s)" "[]"]
    unfolding n(2) unat_u32 [OF n(1)] by simp
qed

lemma skips_array: "skips stands ops (array_bytes v)"
  by (cases v) (auto simp: skip_unknown_array_def base_types_def meta_tests meta_defs intro!: skips_blittable_array skips_compressable_array)

end

subsection \<open>Objects and pointers\<close>

lemma header_parts:
  assumes "length pad = 3"
  shows "bytes_to_word (take 4 (header_bytes n flags pad)) = n" "header_bytes n flags pad ! 4 = flags"
proof -
  have "length (word_to_bytes n) = 4" by (simp add: type_size_def)
  then show "bytes_to_word (take 4 (header_bytes n flags pad)) = n" "header_bytes n flags pad ! 4 = flags"
    by (simp_all add: header_bytes_def nth_append)
qed

text \<open>The items of a field: a vector of pointers is its count and its pointers.\<close>

fun field_items :: "u8 list \<Rightarrow> field \<Rightarrow> u8 list list" where
  "field_items pad (F_Pointers _ ps) = scalar_bytes (S_UInt32 (of_nat (length ps))) # map (pointer_bytes (obj_bytes pad)) ps"
| "field_items pad f = [field_bytes pad f]"

lemma concat_field_items: "concat (field_items pad f) = field_bytes pad f"
  by (cases f) simp_all

lemma obj_bytes_framed: "\<exists>ti content. obj_bytes pad ob = framed pad ti content"
  by (cases ob) (auto simp: object_bytes_def)

lemma length_framed: "length pad = 3 \<Longrightarrow> length (framed pad ti content) = 9 + length content"
  by (simp add: framed_def length_header_bytes)

lemma length_obj_bytes: "length pad = 3 \<Longrightarrow> 0 < length (obj_bytes pad ob)"
proof -
  assume "length pad = 3"
  moreover obtain ti content where "obj_bytes pad ob = framed pad ti content" using obj_bytes_framed by blast
  ultimately show ?thesis by (simp only: length_framed)
qed

lemma length_concat_map: "(\<And>x. x \<in> set xs \<Longrightarrow> 0 < length (f x)) \<Longrightarrow> length xs \<le> length (concat (map f xs))"
proof (induction xs)
  case (Cons x xs)
  then have "0 < length (f x)" "length xs \<le> length (concat (map f xs))" by simp_all
  then show ?case by (simp del: length_concat length_greater_0_conv)
qed simp

definition remember :: "u8 list \<Rightarrow> object_context \<Rightarrow> object_context" where
  "remember u c = (if u = [] then c else c\<lparr>ctx_unknown := set_unknown_data (ctx_scope c) u (ctx_unknown c)\<rparr>)"

context byte_file
begin

lemma consumes_metadata: "consumes stands k stk stk anything (read_metadata ops v) [m] m"
proof (rule consumesI)
  fix s :: "'s ser_stream" and bs p r
  assume *: "stands (ser_inner s) bs p" "ser_stack s = stk" "drop p bs = [m] @ r"
  have "drop p bs = m # r" using *(3) by simp
  then obtain t where "read_metadata ops v s = Inr (m, s\<lparr>ser_inner := t, ser_last_meta := of_nat p\<rparr>)" "stands t bs (Suc p)"
    by (rule read_metadata_at [OF *(1)])
  then show "yields (read_metadata ops v s) (\<lambda>y s'. y = m \<and> stands (ser_inner s') bs (p + length [m]) \<and> ser_stack s' = stk)"
    using *(2) by simp
qed

lemma consumes_header:
  assumes "length pad = 3"
  shows "consumes stands k stk stk anything (read_header ops) (header_bytes n flags pad) (n, flags)"
proof -
  have "header_bytes n flags pad \<noteq> []" by (simp add: header_bytes_def)
  then have "consumes stands k stk stk anything (ser_read ops 8) (header_bytes n flags pad) (header_bytes n flags pad)"
    using length_header_bytes [OF assms] by (intro consumes_bytes) simp_all
  then show ?thesis
    unfolding read_header_def [abs_def] by (rule consumes_then) (simp add: header_parts [OF assms])
qed

lemma object_header_at:
  assumes "stands (ser_inner s) bs p" "drop p bs = framed pad ti content @ r" "length pad = 3"
  obtains s1 s2 where "read_metadata ops v s = Inr (meta_object, s1)" "ser_position ops s1 = of_nat (Suc p)"
    "read_header ops s1 = Inr ((of_nat (8 + length content), if ti = [] then 0 else 1), s2)"
    "stands (ser_inner s2) bs (p + 9)" "ser_stack s2 = ser_stack s" "drop (p + 9) bs = content @ r"
    "p + 9 + length content \<le> length bs" "length bs < 2 ^ 32"
proof -
  let ?h = "header_bytes (of_nat (8 + length content)) (if ti = [] then 0 else 1) pad"
  have d: "drop p bs = [meta_object] @ ?h @ content @ r" using assms(2) by (simp add: framed_def)
  have hl: "length ?h = 8" by (rule length_header_bytes [OF assms(3)])
  obtain s1 where s1: "read_metadata ops v s = Inr (meta_object, s1)" "stands (ser_inner s1) bs (Suc p)" "ser_stack s1 = ser_stack s"
    using consumesD [OF consumes_metadata assms(1) refl le_refl d] by (auto elim: yieldsE)
  have d1: "drop (Suc p) bs = ?h @ content @ r" using drop_append_length [OF d] by simp
  obtain s2 where s2: "read_header ops s1 = Inr ((of_nat (8 + length content), if ti = [] then 0 else 1), s2)"
      "stands (ser_inner s2) bs (p + 9)" "ser_stack s2 = ser_stack s1"
    using consumesD [OF consumes_header [OF assms(3)] s1(2) refl le_refl d1 TrueI] hl
    by (elim yieldsE) (auto simp: add.commute)
  have d2: "drop (p + 9) bs = content @ r" using drop_append_length [OF d1] hl by (simp add: add.commute)
  have "p + 9 + length content \<le> length bs" "length bs < 2 ^ 32"
    using drop_fits [OF d2] stands_bounds [OF s2(2)] by simp_all
  then show thesis
    using that s1 s2 d2 ser_position_at [OF s1(2)] by metis
qed

lemma consumes_skip_object:
  assumes "length pad = 3"
  shows "consumes stands k stk stk anything (skip_object ops) (framed pad ti content) ()"
proof (rule consumesI)
  fix s :: "'s ser_stream" and bs p r
  assume *: "stands (ser_inner s) bs p" "ser_stack s = stk" "drop p bs = framed pad ti content @ r"
  obtain s1 s2 where s: "read_metadata ops (ser_uninit s) s = Inr (meta_object, s1)" "ser_position ops s1 = of_nat (Suc p)"
    "read_header ops s1 = Inr ((of_nat (8 + length content), if ti = [] then 0 else 1), s2)"
    "stands (ser_inner s2) bs (p + 9)" "ser_stack s2 = ser_stack s"
    "p + 9 + length content \<le> length bs" "length bs < 2 ^ 32"
    by (rule object_header_at [OF *(1,3) assms, of "ser_uninit s"])
  have u: "unat (of_nat (Suc p) + of_nat (8 + length content) :: u32) = p + 9 + length content"
    using s(6,7) unat_u32 [of "p + 9 + length content"] by (simp add: add.commute add.left_commute)
  obtain t where t: "ser_seek ops (of_nat (Suc p) + of_nat (8 + length content)) s2 = Inr ((), s2\<lparr>ser_inner := t\<rparr>)"
      "stands t bs (p + 9 + length content)"
    using ser_seek_at [OF s(4), of "of_nat (Suc p) + of_nat (8 + length content)"] s(6) unfolding u by blast
  show "yields (skip_object ops s) (\<lambda>y s'. y = () \<and> stands (ser_inner s') bs (p + length (framed pad ti content)) \<and> ser_stack s' = stk)"
    using s(1,2,3,5) t *(2) by (simp add: skip_object_def Let_def length_framed [OF assms] add.assoc del: of_nat_Suc of_nat_add)
qed

lemma consumes_skip_obj: "length pad = 3 \<Longrightarrow> consumes stands k stk stk anything (skip_object ops) (obj_bytes pad ob) ()"
  using consumes_skip_object obj_bytes_framed by metis

lemma consumes_skip_objects:
  "length pad = 3 \<Longrightarrow> consumes stands k stk stk anything (skip_objects ops (length obs)) (concat (map (obj_bytes pad) obs)) ()"
proof (induction obs)
  case Nil
  then show ?case by (simp add: skip_objects.simps [abs_def] consumes_return)
next
  case (Cons ob obs)
  then show ?case
    using consumes_seq [OF consumes_skip_obj [OF Cons.prems, of k stk ob]] by (simp add: skip_objects.simps [abs_def])
qed

lemma skips_obj: "length pad = 3 \<Longrightarrow> skips stands ops (obj_bytes pad ob)"
proof -
  assume pad: "length pad = 3"
  obtain d where d: "obj_bytes pad ob = meta_object # d"
    using obj_bytes_framed [of pad ob] by (auto simp: framed_def)
  have "skip_single ops meta_object s = skip_object ops s" for s
    by (simp add: skip_single_def meta_defs)
  then show ?thesis
    using consumes_skip_obj [OF pad, of _ _ ob] unfolding d by (intro skips_from_metadata) simp_all
qed

lemma skips_pointer: "length pad = 3 \<Longrightarrow> skips stands ops (pointer_bytes (obj_bytes pad) p)"
proof (cases p)
  case None
  then show ?thesis by (auto simp: pointer_bytes_def meta_tests meta_defs intro!: skips_empty)
next
  case (Some ob)
  assume pad: "length pad = 3"
  have eq: "skip_single ops meta_pointer = (\<lambda>s. and_then (read_metadata ops meta_pointer s) (\<lambda>_ s. skip_object ops s))"
    by (rule ext) (simp add: skip_single_def meta_defs)
  have "consumes stands k stk stk anything (skip_single ops meta_pointer) ([meta_pointer] @ obj_bytes pad ob) ()" for k stk
    unfolding eq by (rule consumes_seq [OF consumes_metadata consumes_skip_obj [OF pad]]) simp
  then have "consumes stands k stk stk anything (skip_single ops meta_pointer) (meta_pointer # obj_bytes pad ob) ()" for k stk
    by simp
  then show ?thesis
    unfolding Some pointer_bytes_def option.case by (intro skips_from_metadata) simp_all
qed

lemma skips_objects: "length pad = 3 \<Longrightarrow> skips stands ops (sequence_bytes meta_object (obj_bytes pad) obs)"
proof (rule skips_sequence)
  show "skip_unknown_array ops (make_array meta_object) s =
      skip_array (read_array_head ops meta_object 5 0 True () (\<lambda>n s. skip_objects ops (unat n) s) s)" for s
    by (simp add: skip_unknown_array_def meta_tests meta_defs)
  assume pad: "length pad = 3"
  show "length obs \<le> length (concat (map (obj_bytes pad) obs))"
    by (rule length_concat_map) (rule length_obj_bytes [OF pad])
  fix k stk n assume "length obs < 2 ^ 32" "n = (of_nat (length obs) :: u32)"
  then show "consumes stands k stk stk anything (skip_objects ops (unat n)) (concat (map (obj_bytes pad) obs)) ()"
    using consumes_skip_objects [OF pad] by (simp add: unat_u32)
qed simp

lemma skips_items:
  assumes "copied_field f" "length pad = 3"
  shows "\<forall>d \<in> set (field_items pad f). skips stands ops d"
  using assms by (cases f) (auto simp del: scalar_bytes.simps intro: skips_scalar skips_array skips_obj skips_pointer skips_objects)

subsection \<open>Unknown data\<close>

lemma skip_items_at:
  assumes "\<forall>d \<in> set ds. skips stands ops d" "length ds \<le> k" "stands (ser_inner s) bs (Suc p)" "ser_last_meta s = of_nat p"
    and "drop p bs = m # r'" "m # r' = concat ds @ meta_scope_end # r"
  shows "yields (skip_to_scope_end ops k m s) (\<lambda>_ s'. stands (ser_inner s') bs (p + length (concat ds) + 1) \<and> ser_stack s' = ser_stack s)"
  using assms
proof (induction ds arbitrary: k s p m r')
  case Nil
  then show ?case by (simp add: skip_to_scope_end.simps)
next
  case (Cons d ds)
  then obtain k' where k: "k = Suc k'" "length ds \<le> k'" by (cases k) auto
  have d: "skips stands ops d" using Cons.prems(1) by simp
  then obtain e where e: "d = m # e" using Cons.prems(6) by (cases d) (auto simp: skips_def)
  have m: "m \<noteq> meta_scope_end" using d by (simp add: skips_def e is_end_def)
  have p: "p \<le> length bs" using stands_bounds [OF Cons.prems(3)] by simp
  have split: "drop p bs = d @ concat ds @ meta_scope_end # r" using Cons.prems(5,6) by simp
  have "yields (skip_item ops (hd d) s) (\<lambda>_ s'. stands (ser_inner s') bs (p + length d) \<and> ser_stack s' = ser_stack s)"
    using d Cons.prems(3,4) p split unfolding skips_def by blast
  then have 1: "yields (skip_item ops m s) (\<lambda>_ s'. stands (ser_inner s') bs (p + length d) \<and> ser_stack s' = ser_stack s)"
    by (simp add: e)
  show ?case
    unfolding k(1) skip_to_scope_end.simps [of ops "Suc k'" m s] nat.case if_not_P [OF m]
  proof (rule yields_and_then [OF 1])
    fix s' :: "'s ser_stream" assume s': "stands (ser_inner s') bs (p + length d) \<and> ser_stack s' = ser_stack s"
    have rest: "drop (p + length d) bs = concat ds @ meta_scope_end # r" by (rule drop_append_length [OF split])
    then obtain m' r'' where r'': "concat ds @ meta_scope_end # r = m' # r''" by (cases "concat ds @ meta_scope_end # r") auto
    obtain t where t: "read_metadata ops m s' = Inr (m', s'\<lparr>ser_inner := t, ser_last_meta := of_nat (p + length d)\<rparr>)"
        "stands t bs (Suc (p + length d))"
      by (rule read_metadata_at [of s' bs "p + length d" m' r'' m]) (use s' rest r'' in simp_all)
    let ?s = "s'\<lparr>ser_inner := t, ser_last_meta := of_nat (p + length d)\<rparr>"
    have "yields (skip_to_scope_end ops k' m' ?s)
        (\<lambda>_ s''. stands (ser_inner s'') bs (p + length d + length (concat ds) + 1) \<and> ser_stack s'' = ser_stack ?s)"
    proof (rule Cons.IH)
      show "\<forall>d \<in> set ds. skips stands ops d" "length ds \<le> k'" "stands (ser_inner ?s) bs (Suc (p + length d))"
        "ser_last_meta ?s = of_nat (p + length d)"
        using Cons.prems(1) k(2) t(2) by simp_all
      show "drop (p + length d) bs = m' # r''" unfolding rest r'' ..
      show "m' # r'' = concat ds @ meta_scope_end # r" by (rule r'' [symmetric])
    qed
    then show "yields (and_then (read_metadata ops m s') (\<lambda>m s. skip_to_scope_end ops k' m s))
        (\<lambda>_ s'. stands (ser_inner s') bs (p + length (concat (d # ds)) + 1) \<and> ser_stack s' = ser_stack s)"
      using t(1) s' by (simp add: add.assoc)
  qed
qed

lemma consumes_unknown_data:
  assumes "\<forall>d \<in> set ds. skips stands ops d" "ds \<noteq> []"
  shows "consumes stands k (c # stk) (remember (concat ds) c # stk) (starts_with ((=) meta_scope_end)) (read_unknown_data ops k) (concat ds) ()"
proof (rule consumesI)
  fix s :: "'s ser_stream" and bs p r
  assume *: "stands (ser_inner s) bs p" "ser_stack s = c # stk" "length bs \<le> k" "drop p bs = concat ds @ r"
    "starts_with ((=) meta_scope_end) r"
  let ?u = "concat ds"
  obtain r2 where r: "r = meta_scope_end # r2" using *(5) by (cases r) (auto simp: starts_with_def)
  have nonempty: "\<forall>d \<in> set ds. d \<noteq> []" using assms(1) by (auto simp: skips_def)
  then have u: "?u \<noteq> []" using assms(2) by (cases ds) auto
  have fits: "p + length ?u < length bs" "length bs < 2 ^ 32"
    using drop_fits [of p bs "?u @ [meta_scope_end]" r2] *(4) r stands_bounds [OF *(1)] by simp_all
  have "length ds \<le> length ?u" using length_concat_map [of ds "\<lambda>d. d"] nonempty by simp
  then have k: "length ds \<le> k" using fits(1) *(3) by linarith
  obtain m r' where m: "?u @ meta_scope_end # r2 = m # r'" by (cases "?u @ meta_scope_end # r2") auto
  have d: "drop p bs = m # r'" using *(4) r m by simp
  obtain t where t: "read_metadata ops meta_scope_end s = Inr (m, s\<lparr>ser_inner := t, ser_last_meta := of_nat p\<rparr>)" "stands t bs (Suc p)"
    by (rule read_metadata_at [OF *(1) d])
  let ?s1 = "s\<lparr>ser_inner := t, ser_last_meta := of_nat p\<rparr>"
  have "yields (skip_to_scope_end ops k m ?s1) (\<lambda>_ s'. stands (ser_inner s') bs (p + length ?u + 1) \<and> ser_stack s' = ser_stack ?s1)"
    using t(2) d m by (intro skip_items_at [OF assms(1) k, where r = r2 and r' = r']) simp_all
  then obtain s2 where s2: "skip_to_scope_end ops k m ?s1 = Inr ((), s2)" "stands (ser_inner s2) bs (p + length ?u + 1)"
      "ser_stack s2 = c # stk"
    using *(2) by (auto elim!: yieldsE)
  have n: "ser_position ops s2 - ser_position ops s - 1 = of_nat (length ?u)"
    using ser_position_at [OF s2(2)] ser_position_at [OF *(1)] by (simp del: length_concat)
  have lu: "unat (of_nat (length ?u) :: u32) = length ?u" "unat (of_nat p :: u32) = p"
    using fits by (simp_all add: unat_u32 del: length_concat)
  obtain t3 where t3: "ser_seek ops (ser_position ops s) s2 = Inr ((), s2\<lparr>ser_inner := t3\<rparr>)" "stands t3 bs p"
    using ser_seek_at [OF s2(2), of "of_nat p"] fits(1) lu(2) ser_position_at [OF *(1)] by auto
  have big: "\<not> (0 < op_size ops t3 \<and> op_size ops t3 < of_nat (length ?u))"
    using size [OF t3(2)] fits lu(1) by (simp add: word_less_nat_alt unat_u32 del: length_concat)
  have st3: "stands (ser_inner (s2\<lparr>ser_inner := t3\<rparr>)) bs p" using t3(2) by simp
  obtain t4 where t4: "ser_read ops (of_nat (length ?u)) (s2\<lparr>ser_inner := t3\<rparr>) = Inr (?u, s2\<lparr>ser_inner := t4\<rparr>)"
      "stands t4 bs (p + length ?u)"
    using ser_read_at [OF st3 *(4) lu(1) u] by auto
  show "yields (read_unknown_data ops k s)
      (\<lambda>y s'. y = () \<and> stands (ser_inner s') bs (p + length ?u) \<and> ser_stack s' = remember ?u c # stk)"
    using t(1) s2(1,3) n t3(1) big t4 u
    by (auto simp add: read_unknown_data_def Let_def current_context_def update_context_def remember_def del: length_concat concat_eq_Nil_conv)
qed

end

end
