(* ===== verification/Serializable_Versions.thy ===== *)
theory Serializable_Versions
  imports Serializable_Skipping
begin

section \<open>Reading an object of another version of its class\<close>

text \<open>
  Classes evolve by adding fields at the end of a scope and scopes at the end of the hierarchy. A
  class reads the data of another version into an object with its own fields: \<open>adopt\<close> says which
  object it gets. Fields the data lacks keep their values; data the class does not know is kept as
  unknown data, scope by scope, without the empty buffers at the end.
\<close>

subsection \<open>The object that is read\<close>

fun prolong :: "('a \<Rightarrow> 'b \<Rightarrow> 'a) \<Rightarrow> 'a list \<Rightarrow> 'b list \<Rightarrow> 'a list" where
  "prolong f [] vs = []"
| "prolong f (t # ts) [] = t # ts"
| "prolong f (t # ts) (v # vs) = f t v # prolong f ts vs"

lemma prolong_cong [fundef_cong]:
  "ts = ts' \<Longrightarrow> vs = vs' \<Longrightarrow> (\<And>t v. t \<in> set ts' \<Longrightarrow> v \<in> set vs' \<Longrightarrow> f t v = g t v) \<Longrightarrow> prolong f ts vs = prolong g ts' vs'"
  by (induction f ts vs arbitrary: ts' vs' rule: prolong.induct) auto

fun agree :: "('a \<Rightarrow> 'b \<Rightarrow> bool) \<Rightarrow> 'a list \<Rightarrow> 'b list \<Rightarrow> bool" where
  "agree P (t # ts) (v # vs) \<longleftrightarrow> P t v \<and> agree P ts vs"
| "agree P ts vs \<longleftrightarrow> True"

lemma agree_cong [fundef_cong]:
  "ts = ts' \<Longrightarrow> vs = vs' \<Longrightarrow> (\<And>t v. t \<in> set ts' \<Longrightarrow> v \<in> set vs' \<Longrightarrow> P t v = Q t v) \<Longrightarrow> agree P ts vs = agree Q ts' vs'"
  by (induction P ts vs arbitrary: ts' vs' rule: agree.induct) auto

text \<open>What a class with the scopes \<open>fss\<close> leaves unread in the scopes \<open>vss\<close>.\<close>

fun rest_scopes :: "'a list list \<Rightarrow> 'b list list \<Rightarrow> 'b list list" where
  "rest_scopes fss [] = []"
| "rest_scopes [] (vs # vss) = vs # vss"
| "rest_scopes (fs # fss) (vs # vss) = drop (length fs) vs # rest_scopes fss vss"

definition strip_empty :: "'a list list \<Rightarrow> 'a list list" where
  "strip_empty us = rev (dropWhile (\<lambda>u. u = []) (rev us))"

fun adopt_field :: "u8 list \<Rightarrow> field \<Rightarrow> field \<Rightarrow> field" and adopt :: "u8 list \<Rightarrow> obj \<Rightarrow> obj \<Rightarrow> obj" where
  "adopt_field pad (F_Scalar t) f = (case f of F_Scalar v \<Rightarrow> F_Scalar (canonical v) | _ \<Rightarrow> F_Scalar t)"
| "adopt_field pad (F_Array t) f = (case f of F_Array v \<Rightarrow> F_Array v | _ \<Rightarrow> F_Array t)"
| "adopt_field pad (F_Object t) f = (case f of F_Object v \<Rightarrow> F_Object (adopt pad t v) | _ \<Rightarrow> F_Object t)"
| "adopt_field pad (F_Pointer fresh q) f =
    (case f of F_Pointer _ p \<Rightarrow> F_Pointer fresh (map_option (adopt pad fresh) p) | _ \<Rightarrow> F_Pointer fresh q)"
| "adopt_field pad (F_Objects fresh obs) f =
    (case f of F_Objects _ vs \<Rightarrow> F_Objects fresh (map (adopt pad fresh) vs) | _ \<Rightarrow> F_Objects fresh obs)"
| "adopt_field pad (F_Pointers fresh qs) f =
    (case f of F_Pointers _ ps \<Rightarrow> F_Pointers fresh (map (map_option (adopt pad fresh)) ps) | _ \<Rightarrow> F_Pointers fresh qs)"
| "adopt_field pad (F_No_Copy bs) f = F_No_Copy bs"
| "adopt pad (Obj ti fss unk) (Obj ti' vss unk') =
    Obj ti (prolong (prolong (adopt_field pad)) fss vss)
      (strip_empty (map (\<lambda>vs. concat (map (field_bytes pad) vs)) (rest_scopes fss vss)))"

subsection \<open>When a class can read the data\<close>

text \<open>
  The fields and scopes both versions have are of the same types; the arrays and vectors of the
  object that is read into are empty; nothing in the data is in a buffer of its own (no-copy), and
  the written object has no unknown data itself.
\<close>

fun fresh_field :: "field \<Rightarrow> bool" where
  "fresh_field (F_Array t) = (array_length t = 0)"
| "fresh_field (F_Objects _ obs) = (obs = [])"
| "fresh_field _ = True"

fun fits_field :: "field \<Rightarrow> field \<Rightarrow> bool" and fits :: "obj \<Rightarrow> obj \<Rightarrow> bool" where
  "fits_field (F_Scalar t) f = (case f of F_Scalar v \<Rightarrow> same_scalar t v | _ \<Rightarrow> False)"
| "fits_field (F_Array t) f = (case f of F_Array v \<Rightarrow> array_type t = array_type v | _ \<Rightarrow> False)"
| "fits_field (F_Object t) f = (case f of F_Object v \<Rightarrow> fits t v | _ \<Rightarrow> False)"
| "fits_field (F_Pointer fresh _) f = (case f of F_Pointer _ p \<Rightarrow> (\<forall>v \<in> set_option p. fits fresh v) | _ \<Rightarrow> False)"
| "fits_field (F_Objects fresh _) f = (case f of F_Objects _ vs \<Rightarrow> (\<forall>v \<in> set vs. fits fresh v) | _ \<Rightarrow> False)"
| "fits_field (F_Pointers fresh _) f =
    (case f of F_Pointers _ ps \<Rightarrow> (\<forall>p \<in> set ps. \<forall>v \<in> set_option p. fits fresh v) | _ \<Rightarrow> False)"
| "fits_field (F_No_Copy bs) f = False"
| "fits (Obj ti fss unk) (Obj ti' vss unk') \<longleftrightarrow>
    ti = ti' \<and> length ti \<le> unat type_info_max \<and> (\<forall>fs \<in> set fss. \<forall>t \<in> set fs. fresh_field t) \<and>
    agree (agree fits_field) fss vss"

fun plain_field :: "field \<Rightarrow> bool" and plain_obj :: "obj \<Rightarrow> bool" where
  "plain_field (F_Scalar v) = True"
| "plain_field (F_Array a) = True"
| "plain_field (F_Object ob) = plain_obj ob"
| "plain_field (F_Pointer _ p) = (\<forall>ob \<in> set_option p. plain_obj ob)"
| "plain_field (F_Objects _ obs) = (\<forall>ob \<in> set obs. plain_obj ob)"
| "plain_field (F_Pointers _ ps) = (\<forall>p \<in> set ps. \<forall>ob \<in> set_option p. plain_obj ob)"
| "plain_field (F_No_Copy bs) = False"
| "plain_obj (Obj ti fss unk) \<longleftrightarrow> unk = [] \<and> (\<forall>fs \<in> set fss. \<forall>f \<in> set fs. plain_field f)"

lemma plain_copied: "plain_field f \<Longrightarrow> copied_field f" "plain_obj ob \<Longrightarrow> copied_obj ob"
  by (induction f and ob rule: plain_field_plain_obj.induct) auto

lemma field_objects_plain: "x \<in> field_objects f \<Longrightarrow> plain_field f \<Longrightarrow> plain_obj x"
  by (cases f) auto

subsection \<open>Unknown data of a whole object\<close>

fun pass_scopes :: "object_context \<Rightarrow> u8 list list \<Rightarrow> object_context" where
  "pass_scopes c [] = c"
| "pass_scopes c (u # us) = pass_scopes (next_scope (remember u c)) us"

lemma pass_scopes_append: "pass_scopes c (us @ us') = pass_scopes (pass_scopes c us) us'"
  by (induction us arbitrary: c) simp_all

lemma strip_empty_snoc: "strip_empty (us @ [u]) = (if u = [] then strip_empty us else us @ [u])"
  by (simp add: strip_empty_def)

lemma strip_empty_padded: "strip_empty us @ replicate (length us - length (strip_empty us)) [] = us"
  "length (strip_empty us) \<le> length us"
proof (induction us rule: rev_induct)
  case (snoc u us)
  { case 1
    show ?case
      using snoc by (simp add: strip_empty_snoc Suc_diff_le replicate_append_same [symmetric] flip: append_assoc)
  next
    case 2
    show ?case using snoc by (simp add: strip_empty_snoc)
  }
qed (simp_all add: strip_empty_def)

lemma unknown_after_scopes:
  "pass_scopes \<lparr>ctx_unknown = [], ctx_scope = 0, ctx_flags = fl\<rparr> us =
    \<lparr>ctx_unknown = strip_empty us, ctx_scope = length us, ctx_flags = fl\<rparr>"
proof (induction us rule: rev_induct)
  case Nil
  then show ?case by (simp add: strip_empty_def)
next
  case (snoc u us)
  then show ?case
    using strip_empty_padded [of us]
    by (simp add: pass_scopes_append next_scope_def remember_def strip_empty_snoc set_unknown_data_def flip: append_assoc)
qed

subsection \<open>Reading nested objects\<close>

text \<open>What the body of an object read owes, behind the header and the type information.\<close>

definition body_ok ::
  "('s \<Rightarrow> u8 list \<Rightarrow> nat \<Rightarrow> bool) \<Rightarrow> u8 list \<Rightarrow> nat \<Rightarrow> 's obj_body \<Rightarrow> obj \<Rightarrow> obj \<Rightarrow> bool" where
  "body_ok stands pad k b t v \<longleftrightarrow> (\<forall>s bs p r.
    stands (ser_inner s) bs (p + 9 + length (type_info_bytes (type_info v))) \<longrightarrow> length bs \<le> k \<longrightarrow>
    drop p bs = obj_bytes pad v @ r \<longrightarrow>
    yields (b t (of_nat (length (obj_bytes pad v) - 1)) (of_nat (Suc p)) s)
      (\<lambda>y s'. y = adopt pad t v \<and> stands (ser_inner s') bs (p + length (obj_bytes pad v)) \<and> ser_stack s' = ser_stack s))"

lemma body_okD:
  "body_ok stands pad k b t v \<Longrightarrow> stands (ser_inner s) bs (p + 9 + length (type_info_bytes (type_info v))) \<Longrightarrow>
    length bs \<le> k \<Longrightarrow> drop p bs = obj_bytes pad v @ r \<Longrightarrow>
    yields (b t (of_nat (length (obj_bytes pad v) - 1)) (of_nat (Suc p)) s)
      (\<lambda>y s'. y = adopt pad t v \<and> stands (ser_inner s') bs (p + length (obj_bytes pad v)) \<and> ser_stack s' = ser_stack s)"
  unfolding body_ok_def by blast

lemma obj_bytes_eq:
  "obj_bytes pad v = framed pad (type_info v) (type_info_bytes (type_info v) @
     scopes_bytes (map (\<lambda>fs. concat (map (field_bytes pad) fs)) (scopes v)) (unknown v) @ [meta_object_end])"
  by (cases v) (simp add: object_bytes_def)

lemma type_info_small: "length ti \<le> unat type_info_max \<Longrightarrow> unat (of_nat (length ti) :: u32) = length ti"
  by (intro unat_u32) (simp add: type_info_max_def)

lemma resize_fresh [simp]: "resize_objects n fresh [] = replicate n fresh"
  by (simp add: resize_objects_def)

lemma map_array_id: "map_array (\<lambda>x. x) r = r"
proof -
  have "map_read (\<lambda>x. x) y = y" for y :: "'x array_read" by (cases y) simp_all
  then show ?thesis by (cases r) (auto simp: map_array_def and_then_def)
qed

context byte_file
begin

lemma consumes_pass_type_info:
  assumes "length ti \<le> unat type_info_max"
  shows "consumes stands k stk stk anything (pass_type_info ops (if ti = [] then 0 else 1)) (type_info_bytes ti) ()"
proof (cases "ti = []")
  case True
  then show ?thesis by (simp add: pass_type_info_def [abs_def] type_info_bytes_def consumes_return)
next
  case False
  have "(of_nat (length ti) :: u32) \<noteq> 0"
    using type_info_small [OF assms] False by (metis length_0_conv unat_0)
  then have behind: "consumes stands k stk stk anything (\<lambda>s. if of_nat (length ti) = (0 :: u32) then Inl K_STATUS_INVALID_STREAM_FORMAT
      else ser_seek ops (ser_position ops s + of_nat (length ti)) s) ti ()"
    using consumes_seek [of k stk ti] by simp
  have "consumes stands k stk stk anything (\<lambda>s. and_then (read_u32 ops s) (\<lambda>n s.
      if n = 0 then Inl K_STATUS_INVALID_STREAM_FORMAT else ser_seek ops (ser_position ops s + n) s))
      (u32_bytes (of_nat (length ti)) @ ti) ()"
    by (rule consumes_seq_any [OF consumes_u32], rule behind)
  then show ?thesis
    using False by (simp add: pass_type_info_def [abs_def] type_info_bytes_def)
qed

lemma consumes_read_type_info:
  assumes "length ti \<le> unat type_info_max"
  shows "consumes stands k stk stk anything (read_type_info ops (if ti = [] then 0 else 1)) (type_info_bytes ti) ti"
proof (cases "ti = []")
  case True
  then show ?thesis by (simp add: read_type_info_def [abs_def] type_info_bytes_def consumes_return)
next
  case False
  let ?n = "of_nat (length ti) :: u32"
  have n: "unat ?n = length ti" by (rule type_info_small [OF assms])
  then have ok: "?n \<noteq> 0" "\<not> type_info_max < ?n"
    using assms False by (auto simp: word_less_nat_alt)
  have behind: "consumes stands k stk stk anything (\<lambda>s. if ?n = 0 \<or> type_info_max < ?n then Inl K_STATUS_INVALID_STREAM_FORMAT
      else let all_bytes = op_size ops (ser_inner s)
        in if 0 < all_bytes \<and> all_bytes < ?n then Inl K_STATUS_INVALID_STREAM_FORMAT else ser_read ops ?n s) ti ti"
  proof (rule consumesI)
    fix s :: "'s ser_stream" and bs p r
    assume *: "stands (ser_inner s) bs p" "ser_stack s = stk" "length bs \<le> k" "drop p bs = ti @ r"
    have "\<not> op_size ops (ser_inner s) < ?n"
      using size [OF *(1)] drop_fits [OF *(4)] stands_bounds [OF *(1)] n
      by (simp add: word_less_nat_alt unat_u32)
    then show "yields (if ?n = 0 \<or> type_info_max < ?n then Inl K_STATUS_INVALID_STREAM_FORMAT
      else let all_bytes = op_size ops (ser_inner s)
        in if 0 < all_bytes \<and> all_bytes < ?n then Inl K_STATUS_INVALID_STREAM_FORMAT else ser_read ops ?n s)
      (\<lambda>y s'. y = ti \<and> stands (ser_inner s') bs (p + length ti) \<and> ser_stack s' = stk)"
      using consumesD [OF consumes_bytes [OF n False] *(1,2,3,4)] ok by (simp add: Let_def)
  qed
  have "consumes stands k stk stk anything (\<lambda>s. and_then (read_u32 ops s) (\<lambda>n s.
      if n = 0 \<or> type_info_max < n then Inl K_STATUS_INVALID_STREAM_FORMAT
      else let all_bytes = op_size ops (ser_inner s)
        in if 0 < all_bytes \<and> all_bytes < n then Inl K_STATUS_INVALID_STREAM_FORMAT else ser_read ops n s))
      (u32_bytes ?n @ ti) ti"
    by (rule consumes_seq_any [OF consumes_u32], rule behind)
  then show ?thesis
    using False by (simp add: read_type_info_def [abs_def] type_info_bytes_def)
qed

text \<open>The two reads of an object: behind the header they pass over, or read, the type information.\<close>

lemma object_at:
  assumes "body_ok stands pad k b t v" "length (type_info v) \<le> unat type_info_max" "length pad = 3"
    and "stands (ser_inner s) bs p" "length bs \<le> k" "drop p bs = obj_bytes pad v @ r"
    and ti: "consumes stands k (ser_stack s) (ser_stack s) anything (f (if type_info v = [] then 0 else 1))
      (type_info_bytes (type_info v)) x"
  obtains s1 s2 flags where "read_metadata ops w s = Inr (meta_object, s1)" "ser_position ops s1 = of_nat (Suc p)"
    "read_header ops s1 = Inr ((of_nat (length (obj_bytes pad v) - 1), flags), s2)"
    "yields (and_then (f flags s2) (\<lambda>_ s. b t (of_nat (length (obj_bytes pad v) - 1)) (of_nat (Suc p)) s))
      (\<lambda>y s'. y = adopt pad t v \<and> stands (ser_inner s') bs (p + length (obj_bytes pad v)) \<and> ser_stack s' = ser_stack s)"
proof -
  obtain ti content where eq: "obj_bytes pad v = framed pad (type_info v) (type_info_bytes (type_info v) @ content)"
    using obj_bytes_eq by blast
  let ?c = "type_info_bytes (type_info v) @ content"
  have d: "drop p bs = framed pad (type_info v) ?c @ r" using assms(6) eq by simp
  obtain s1 s2 where s: "read_metadata ops w s = Inr (meta_object, s1)" "ser_position ops s1 = of_nat (Suc p)"
    "read_header ops s1 = Inr ((of_nat (8 + length ?c), if type_info v = [] then 0 else 1), s2)"
    "stands (ser_inner s2) bs (p + 9)" "ser_stack s2 = ser_stack s" "drop (p + 9) bs = ?c @ r"
    by (rule object_header_at [OF assms(4) d assms(3), of w])
  have len: "8 + length ?c = length (obj_bytes pad v) - 1" by (simp add: eq length_framed [OF assms(3)])
  have dt: "drop (p + 9) bs = type_info_bytes (type_info v) @ content @ r" using s(6) by simp
  have "yields (f (if type_info v = [] then 0 else 1) s2)
      (\<lambda>y s'. y = x \<and> stands (ser_inner s') bs (p + 9 + length (type_info_bytes (type_info v))) \<and> ser_stack s' = ser_stack s)"
    by (rule consumesD [OF ti s(4,5) assms(5) dt TrueI])
  then have "yields (and_then (f (if type_info v = [] then 0 else 1) s2)
       (\<lambda>_ s. b t (of_nat (length (obj_bytes pad v) - 1)) (of_nat (Suc p)) s))
      (\<lambda>y s'. y = adopt pad t v \<and> stands (ser_inner s') bs (p + length (obj_bytes pad v)) \<and> ser_stack s' = ser_stack s)"
  proof (rule yields_and_then)
    fix y and s' :: "'s ser_stream"
    assume "y = x \<and> stands (ser_inner s') bs (p + 9 + length (type_info_bytes (type_info v))) \<and> ser_stack s' = ser_stack s"
    then show "yields (b t (of_nat (length (obj_bytes pad v) - 1)) (of_nat (Suc p)) s')
      (\<lambda>y s'. y = adopt pad t v \<and> stands (ser_inner s') bs (p + length (obj_bytes pad v)) \<and> ser_stack s' = ser_stack s)"
      using body_okD [OF assms(1) _ assms(5,6), of s'] by simp
  qed
  then show thesis using that s(1,2,3) unfolding len by blast
qed

lemma consumes_read_serializable:
  assumes "body_ok stands pad k b t v" "length (type_info v) \<le> unat type_info_max" "length pad = 3"
  shows "consumes stands k stk stk anything (read_serializable ops b t) (obj_bytes pad v) (adopt pad t v)"
proof (rule consumesI)
  fix s :: "'s ser_stream" and bs p r
  assume *: "stands (ser_inner s) bs p" "ser_stack s = stk" "length bs \<le> k" "drop p bs = obj_bytes pad v @ r"
  show "yields (read_serializable ops b t s)
      (\<lambda>y s'. y = adopt pad t v \<and> stands (ser_inner s') bs (p + length (obj_bytes pad v)) \<and> ser_stack s' = stk)"
  proof (rule object_at [where f = "pass_type_info ops", OF assms *(1,3,4) consumes_pass_type_info [OF assms(2)], of "ser_uninit s"])
    fix s1 s2 flags
    assume "read_metadata ops (ser_uninit s) s = Inr (meta_object, s1)" "ser_position ops s1 = of_nat (Suc p)"
      "read_header ops s1 = Inr ((of_nat (length (obj_bytes pad v) - 1), flags), s2)"
      "yields (and_then (pass_type_info ops flags s2) (\<lambda>_ s. b t (of_nat (length (obj_bytes pad v) - 1)) (of_nat (Suc p)) s))
        (\<lambda>y s'. y = adopt pad t v \<and> stands (ser_inner s') bs (p + length (obj_bytes pad v)) \<and> ser_stack s' = ser_stack s)"
    then show ?thesis using *(2) by (simp add: read_serializable_def Let_def)
  qed
qed

lemma consumes_read_as_pointer:
  assumes "body_ok stands pad k b t v" "length (type_info v) \<le> unat type_info_max" "length pad = 3"
  shows "consumes stands k stk stk anything (read_as_pointer ops b t) (obj_bytes pad v) (Some (adopt pad t v))"
proof (rule consumesI)
  fix s :: "'s ser_stream" and bs p r
  assume *: "stands (ser_inner s) bs p" "ser_stack s = stk" "length bs \<le> k" "drop p bs = obj_bytes pad v @ r"
  show "yields (read_as_pointer ops b t s)
      (\<lambda>y s'. y = Some (adopt pad t v) \<and> stands (ser_inner s') bs (p + length (obj_bytes pad v)) \<and> ser_stack s' = stk)"
  proof (rule object_at [where f = "read_type_info ops", OF assms *(1,3,4) consumes_read_type_info [OF assms(2)], of "ser_uninit s"])
    fix s1 s2 flags
    assume **: "read_metadata ops (ser_uninit s) s = Inr (meta_object, s1)" "ser_position ops s1 = of_nat (Suc p)"
      "read_header ops s1 = Inr ((of_nat (length (obj_bytes pad v) - 1), flags), s2)"
      "yields (and_then (read_type_info ops flags s2) (\<lambda>_ s. b t (of_nat (length (obj_bytes pad v) - 1)) (of_nat (Suc p)) s))
        (\<lambda>y s'. y = adopt pad t v \<and> stands (ser_inner s') bs (p + length (obj_bytes pad v)) \<and> ser_stack s' = ser_stack s)"
    have "yields (and_then (and_then (read_type_info ops flags s2) (\<lambda>_ s. b t (of_nat (length (obj_bytes pad v) - 1)) (of_nat (Suc p)) s))
        (\<lambda>ob s. Inr (Some ob, s)))
        (\<lambda>y s'. y = Some (adopt pad t v) \<and> stands (ser_inner s') bs (p + length (obj_bytes pad v)) \<and> ser_stack s' = stk)"
      by (rule yields_and_then [OF **(4)]) (simp add: *(2))
    then show ?thesis using **(1,2,3) by (simp add: read_as_pointer_def Let_def and_then_assoc)
  qed
qed

lemma consumes_object_end: "consumes stands k stk stk (starts_with is_end) (read_serializable ops b t) [] t"
proof (rule consumesI)
  fix s :: "'s ser_stream" and bs p r
  assume *: "stands (ser_inner s) bs p" "ser_stack s = stk" "drop p bs = [] @ r" "starts_with is_end r"
  then obtain m r' where r: "drop p bs = m # r'" "is_end m" by (cases r) (auto simp: starts_with_def)
  obtain t1 t2 where t12: "read_metadata ops (ser_uninit s) s = Inr (m, s\<lparr>ser_inner := t1, ser_last_meta := of_nat p\<rparr>)"
    "seek_to_last_metadata ops (s\<lparr>ser_inner := t1, ser_last_meta := of_nat p\<rparr>) =
       Inr ((), s\<lparr>ser_last_meta := of_nat p, ser_inner := t2\<rparr>)" "stands t2 bs p"
    by (rule metadata_back_at [OF *(1) r(1), where v = "ser_uninit s"])
  show "yields (read_serializable ops b t s) (\<lambda>y s'. y = t \<and> stands (ser_inner s') bs (p + length []) \<and> ser_stack s' = stk)"
    using *(2) r(2) t12 by (simp add: read_serializable_def)
qed

subsection \<open>Pointers and vectors of objects\<close>

lemma consumes_pointer:
  assumes "\<forall>v \<in> set_option p. body_ok stands pad k b fresh v \<and> length (type_info v) \<le> unat type_info_max" "length pad = 3"
  shows "consumes stands k stk stk anything (read_pointer ops b fresh) (pointer_bytes (obj_bytes pad) p) (Some (map_option (adopt pad fresh) p))"
    "consumes stands k stk stk (starts_with is_end) (read_pointer ops b fresh) [] None"
proof -
  have f: "read_pointer ops b fresh s = and_then (expect ops False meta_pointer s) (\<lambda>r s. case r of None \<Rightarrow> Inr (None, s)
      | Some m \<Rightarrow> if is_empty_value m then Inr (Some None, s) else and_then (read_as_pointer ops b fresh s) (\<lambda>x s. Inr (Some x, s)))" for s
    by (simp add: read_pointer_def)
  note val = consumes_value [OF _ f, simplified]
  show "consumes stands k stk stk anything (read_pointer ops b fresh) (pointer_bytes (obj_bytes pad) p) (Some (map_option (adopt pad fresh) p))"
    using assms val(2) val(3) [OF consumes_read_as_pointer] by (cases p) (simp_all add: pointer_bytes_def)
  show "consumes stands k stk stk (starts_with is_end) (read_pointer ops b fresh) [] None"
    by (rule val(1))
qed

lemma consumes_pointers:
  assumes "\<forall>p \<in> set ps. \<forall>v \<in> set_option p. body_ok stands pad k b fresh v \<and> length (type_info v) \<le> unat type_info_max"
    "length pad = 3" "length qs = length ps"
  shows "consumes stands k stk stk anything (read_pointers ops b fresh qs) (concat (map (pointer_bytes (obj_bytes pad)) ps))
    (map (map_option (adopt pad fresh)) ps)"
  using assms
proof (induction ps arbitrary: qs)
  case Nil
  then show ?case by (simp add: read_pointers.simps [abs_def] consumes_return)
next
  case (Cons p ps)
  then obtain q qs' where qs: "qs = q # qs'" by (cases qs) auto
  have "consumes stands k stk stk anything (read_pointers ops b fresh qs') (concat (map (pointer_bytes (obj_bytes pad)) ps))
      (map (map_option (adopt pad fresh)) ps)"
    using Cons.prems qs by (intro Cons.IH) auto
  then have later: "consumes stands k stk stk anything (\<lambda>s. and_then (read_pointers ops b fresh qs' s) (\<lambda>qs s.
      Inr ((case Some (map_option (adopt pad fresh) p) of None \<Rightarrow> q | Some q \<Rightarrow> q) # qs, s)))
      (concat (map (pointer_bytes (obj_bytes pad)) ps)) (map (map_option (adopt pad fresh)) (p # ps))"
    by (rule consumes_then) simp
  have head: "consumes stands k stk stk anything (read_pointer ops b fresh) (pointer_bytes (obj_bytes pad) p) (Some (map_option (adopt pad fresh) p))"
    using Cons.prems by (intro consumes_pointer(1)) auto
  have "consumes stands k stk stk anything (read_pointers ops b fresh (q # qs'))
      (pointer_bytes (obj_bytes pad) p @ concat (map (pointer_bytes (obj_bytes pad)) ps)) (map (map_option (adopt pad fresh)) (p # ps))"
    unfolding read_pointers.simps [abs_def] by (rule consumes_seq_any, rule head, rule later)
  then show ?case by (simp add: qs del: read_pointers.simps)
qed

lemma consumes_read_objects:
  assumes "\<forall>v \<in> set vs. body_ok stands pad k b fresh v \<and> length (type_info v) \<le> unat type_info_max" "length pad = 3"
  shows "consumes stands k stk stk anything (read_objects (read_serializable ops b) (replicate (length vs) fresh))
    (concat (map (obj_bytes pad) vs)) (map (adopt pad fresh) vs)"
  using assms
proof (induction vs)
  case Nil
  then show ?case by (simp add: read_objects.simps [abs_def] consumes_return)
next
  case (Cons v vs)
  then have later: "consumes stands k stk stk anything (\<lambda>s. and_then (read_objects (read_serializable ops b) (replicate (length vs) fresh) s)
      (\<lambda>obs s. Inr (adopt pad fresh v # obs, s))) (concat (map (obj_bytes pad) vs)) (map (adopt pad fresh) (v # vs))"
    by (intro consumes_then) auto
  have head: "consumes stands k stk stk anything (read_serializable ops b fresh) (obj_bytes pad v) (adopt pad fresh v)"
    using Cons.prems by (intro consumes_read_serializable) auto
  have "consumes stands k stk stk anything (read_objects (read_serializable ops b) (fresh # replicate (length vs) fresh))
      (obj_bytes pad v @ concat (map (obj_bytes pad) vs)) (map (adopt pad fresh) (v # vs))"
    unfolding read_objects.simps [abs_def] by (rule consumes_seq_any, rule head, rule later)
  then show ?case by (simp del: read_objects.simps)
qed

lemma consumes_object_vector:
  assumes "\<forall>v \<in> set vs. body_ok stands pad k b fresh v \<and> length (type_info v) \<le> unat type_info_max \<and> type_info v = type_info fresh"
    "length pad = 3"
  shows "consumes stands k stk stk anything (read_object_vector ops (read_serializable ops b) fresh [])
      (sequence_bytes meta_object (obj_bytes pad) vs) (Some (map (adopt pad fresh) vs))"
    "consumes stands k stk stk (starts_with is_end) (read_object_vector ops (read_serializable ops b) fresh []) [] None"
proof -
  let ?rdr = "read_serializable ops b"
  define rd where "rd c = read_serializable_array ops ?rdr (resize_objects (unat c) fresh [])" for c :: u32
  define width where "width c = element_width (replicate (unat c) fresh)" for c :: u32
  define body where "body c n s = read_objects ?rdr (take (unat n) (replicate (unat c) fresh)) s" for c n :: u32 and s :: "'s ser_stream"
  have rd: "rd c s = map_array (\<lambda>x. x) (read_array_head ops meta_object (width c) c False [] (body c) s)" for c s
    by (simp add: rd_def read_serializable_array_def map_array_id width_def body_def [abs_def])
  have f: "read_object_vector ops ?rdr fresh [] s = and_then (rd 0 s) (\<lambda>r s. case r of
      Array_Read x \<Rightarrow> Inr (Some x, s)
    | Array_Ended \<Rightarrow> Inr (None, s)
    | Array_Too_Small n \<Rightarrow> and_then (rd n s) (\<lambda>r s. case r of
        Array_Read x \<Rightarrow> Inr (Some x, s) | _ \<Rightarrow> Inr (Some (resize_objects (unat n) fresh []), s)))" for s
    by (simp add: read_object_vector_def rd_def Let_def cong: array_read.case_cong)
  note seq = consumes_sequence [OF base_types_simps(1) rd f]
  show "consumes stands k stk stk (starts_with is_end) (read_object_vector ops ?rdr fresh []) [] None" by (rule seq(1))
  have len: "9 + length (type_info v) \<le> length (obj_bytes pad v)" if "v \<in> set vs" for v
    using length_framed [OF assms(2)]
    by (subst obj_bytes_eq) (simp add: type_info_bytes_def)
  show "consumes stands k stk stk anything (read_object_vector ops ?rdr fresh [])
      (sequence_bytes meta_object (obj_bytes pad) vs) (Some (map (adopt pad fresh) vs))"
  proof (rule seq(2))
    fix n :: u32 assume n: "unat n = length vs"
    have "consumes stands k stk stk anything (read_objects ?rdr (replicate (length vs) fresh))
        (concat (map (obj_bytes pad) vs)) (map (adopt pad fresh) vs)"
      using assms by (intro consumes_read_objects) auto
    then show "consumes stands k stk stk anything (body n n) (concat (map (obj_bytes pad) vs)) (map (adopt pad fresh) vs)"
      by (simp add: body_def [abs_def] n)
  next
    fix c :: u32 assume c: "c = 0 \<or> unat c = length vs"
    have "width c \<le> 9 + length (type_info v)" if "v \<in> set vs" for v
      using assms(1) that by (cases "unat c") (auto simp: width_def element_width_def)
    then have w: "width c \<le> length (obj_bytes pad v)" if "v \<in> set vs" for v using len that order_trans by blast
    have "width c * length vs \<le> length (concat (map (obj_bytes pad) vs))"
      using w by (induction vs) (auto simp: algebra_simps intro: add_mono simp del: length_concat)
    moreover have "0 < width c" by (simp add: width_def element_width_def split: list.split)
    ultimately show "0 < width c \<and> width c * length vs \<le> length (concat (map (obj_bytes pad) vs))" by simp
  qed simp
qed

lemma consumes_pointer_vector:
  assumes "\<forall>p \<in> set ps. \<forall>v \<in> set_option p. body_ok stands pad k b fresh v \<and> length (type_info v) \<le> unat type_info_max"
    "length pad = 3"
  shows "consumes stands k stk stk anything (read_pointer_vector ops b fresh qs)
      (scalar_bytes (S_UInt32 (of_nat (length ps))) @ concat (map (pointer_bytes (obj_bytes pad)) ps))
      (Some (map (map_option (adopt pad fresh)) ps))"
    "consumes stands k stk stk (starts_with is_end) (read_pointer_vector ops b fresh qs) [] None"
proof -
  let ?d = "concat (map (pointer_bytes (obj_bytes pad)) ps)"
  show "consumes stands k stk stk (starts_with is_end) (read_pointer_vector ops b fresh qs) [] None"
    unfolding read_pointer_vector_def [abs_def] by (rule consumes_then [OF consumes_compressable(2)]) simp_all
  show "consumes stands k stk stk anything (read_pointer_vector ops b fresh qs)
      (scalar_bytes (S_UInt32 (of_nat (length ps))) @ ?d) (Some (map (map_option (adopt pad fresh)) ps))"
  proof (rule consumes_if_fits)
    let ?n = "of_nat (length ps) :: u32"
    assume "length (scalar_bytes (S_UInt32 ?n) @ ?d) < 2 ^ 32"
    moreover have "length ps \<le> length ?d"
      by (rule length_concat_map) (simp add: pointer_bytes_def split: option.split)
    ultimately have n: "unat ?n = length ps" by (intro unat_u32) (simp del: length_concat)
    have "consumes stands k stk stk anything (read_pointers ops b fresh (take (unat ?n) qs @ replicate (unat ?n - length qs) None))
        ?d (map (map_option (adopt pad fresh)) ps)"
      using assms by (intro consumes_pointers) (auto simp: n)
    then have later: "consumes stands k stk stk anything (\<lambda>s. and_then
        (read_pointers ops b fresh (take (unat ?n) qs @ replicate (unat ?n - length qs) None) s) (\<lambda>qs s. Inr (Some qs, s)))
        ?d (Some (map (map_option (adopt pad fresh)) ps))"
      by (rule consumes_then) simp
    have head: "consumes stands k stk stk anything (read_compressable ops meta_uint32 False) (scalar_bytes (S_UInt32 ?n)) (Some ?n)"
      using consumes_compressable(1) [of meta_uint32 k stk False ?n] by simp
    show "consumes stands k stk stk anything (read_pointer_vector ops b fresh qs)
        (scalar_bytes (S_UInt32 ?n) @ ?d) (Some (map (map_option (adopt pad fresh)) ps))"
      unfolding read_pointer_vector_def [abs_def]
      by (rule consumes_seq_any, rule head) (use later in simp)
  qed
qed

end

end
