(* ===== verification/Serializable_Rounds.thy ===== *)
theory Serializable_Rounds
  imports Serializable_Versions
begin

section \<open>Fields, scopes and whole objects\<close>

text \<open>
  The read of the fields of a class and of its scopes over the data of another version, and the
  theorem for a whole object: reading its bytes gives what \<open>adopt\<close> says.
\<close>

lemma fitsD:
  assumes "fits t v"
  shows "type_info v = type_info t" "length (type_info v) \<le> unat type_info_max"
  using assms by (cases t; cases v; simp)+

context byte_file
begin

lemma consumes_keep:
  "consumes stands k stk stk' R f d (Some x) \<Longrightarrow> consumes stands k stk stk' R (\<lambda>s. keep_old y (f s)) d x"
  "consumes stands k stk stk' R f d None \<Longrightarrow> consumes stands k stk stk' R (\<lambda>s. keep_old y (f s)) d y"
  unfolding keep_old_def by (rule consumes_then, assumption, simp)+

lemma consumes_kept_map:
  "consumes stands k stk stk' R f d (Some x) \<Longrightarrow> consumes stands k stk stk' R (\<lambda>s. keep_old y (map_field g (f s))) d (g x)"
  "consumes stands k stk stk' R f d None \<Longrightarrow> consumes stands k stk stk' R (\<lambda>s. keep_old y (map_field g (f s))) d y"
proof -
  show "consumes stands k stk stk' R f d (Some x) \<Longrightarrow> consumes stands k stk stk' R (\<lambda>s. keep_old y (map_field g (f s))) d (g x)"
    using consumes_map_field [of k stk stk' R f d "Some x" g] by (intro consumes_keep(1)) simp
  show "consumes stands k stk stk' R f d None \<Longrightarrow> consumes stands k stk stk' R (\<lambda>s. keep_old y (map_field g (f s))) d y"
    using consumes_map_field [of k stk stk' R f d None g] by (intro consumes_keep(2)) simp
qed

lemma no_copy_end: "consumes stands k stk stk (starts_with is_end) (read_byte_array_no_copy ops n) [] Array_Ended"
proof (rule consumesI)
  fix s :: "'s ser_stream" and bs p r
  assume *: "stands (ser_inner s) bs p" "ser_stack s = stk" "drop p bs = [] @ r" "starts_with is_end r"
  then obtain m r' where r: "drop p bs = m # r'" "is_end m" by (cases r) (auto simp: starts_with_def)
  obtain t1 t2 where t12: "read_metadata ops (ser_uninit s) s = Inr (m, s\<lparr>ser_inner := t1, ser_last_meta := of_nat p\<rparr>)"
    "seek_to_last_metadata ops (s\<lparr>ser_inner := t1, ser_last_meta := of_nat p\<rparr>) =
       Inr ((), s\<lparr>ser_last_meta := of_nat p, ser_inner := t2\<rparr>)" "stands t2 bs p"
    by (rule metadata_back_at [OF *(1) r(1), where v = "ser_uninit s"])
  show "yields (read_byte_array_no_copy ops n s)
      (\<lambda>y s'. y = Array_Ended \<and> stands (ser_inner s') bs (p + length []) \<and> ser_stack s' = stk)"
    using *(2) r(2) t12 by (simp add: read_byte_array_no_copy_def)
qed

text \<open>Where the data of the scope has ended, every field keeps its value.\<close>

lemma consumes_field_end:
  assumes "fresh_field t" "length (pad :: u8 list) = 3"
  shows "consumes stands k stk stk (starts_with is_end) (read_field ops b t) [] t"
proof (cases t)
  case (F_Array a)
  then show ?thesis
    using assms consumes_kept_map(2) [OF consumes_vector(2) [OF refl]] by (simp add: read_field.simps [abs_def])
next
  case (F_Object ob)
  show ?thesis
    unfolding F_Object read_field.simps [abs_def] by (rule consumes_then [OF consumes_object_end]) simp
next
  case (F_Pointer fresh p)
  then show ?thesis
    using consumes_kept_map(2) [OF consumes_pointer(2) [of None pad k b fresh stk]] assms(2)
    by (simp add: read_field.simps [abs_def])
next
  case (F_Objects fresh obs)
  then show ?thesis
    using consumes_kept_map(2) [OF consumes_object_vector(2) [of "[]" pad k b fresh stk]] assms
    by (simp add: read_field.simps [abs_def])
next
  case (F_Pointers fresh ps)
  then show ?thesis
    using consumes_kept_map(2) [OF consumes_pointer_vector(2) [of "[]" pad k b fresh stk]] assms(2)
    by (simp add: read_field.simps [abs_def])
next
  case (F_No_Copy bs)
  show ?thesis
    unfolding F_No_Copy read_field.simps [abs_def] by (rule consumes_then [OF no_copy_end]) simp
qed (simp add: read_field.simps [abs_def] consumes_kept_map(2) consumes_scalar_end)

lemma consumes_field:
  assumes "fits_field t v" "fresh_field t" "length pad = 3"
    and b: "\<And>x t. x \<in> field_objects v \<Longrightarrow> fits t x \<Longrightarrow> body_ok stands pad k b t x"
  shows "consumes stands k stk stk anything (read_field ops b t) (field_bytes pad v) (adopt_field pad t v)"
proof (cases t)
  case (F_Scalar ts)
  then obtain vs where v: "v = F_Scalar vs" "same_scalar ts vs" using assms(1) by (cases v) auto
  then show ?thesis
    using consumes_kept_map(1) [OF consumes_scalar] by (simp add: F_Scalar read_field.simps [abs_def] del: scalar_bytes.simps)
next
  case (F_Array a)
  then obtain w where v: "v = F_Array w" "array_type a = array_type w" using assms(1) by (cases v) auto
  then show ?thesis
    using consumes_kept_map(1) [OF consumes_vector(1)] assms(2)
    by (simp add: F_Array read_field.simps [abs_def] del: array_bytes.simps)
next
  case (F_Object ob)
  then obtain w where v: "v = F_Object w" "fits ob w" using assms(1) by (cases v) auto
  then have "consumes stands k stk stk anything (read_serializable ops b ob) (obj_bytes pad w) (adopt pad ob w)"
    using b fitsD [OF v(2)] by (intro consumes_read_serializable assms(3)) simp_all
  then show ?thesis
    unfolding F_Object v read_field.simps [abs_def] field_bytes.simps adopt_field.simps field.case by (rule consumes_then) simp
next
  case (F_Pointer fresh q)
  then obtain f p where v: "v = F_Pointer f p" "\<forall>x \<in> set_option p. fits fresh x" using assms(1) by (cases v) auto
  then have "consumes stands k stk stk anything (read_pointer ops b fresh) (pointer_bytes (obj_bytes pad) p)
      (Some (map_option (adopt pad fresh) p))"
    using b fitsD by (intro consumes_pointer(1) assms(3)) auto
  then show ?thesis
    using consumes_kept_map(1) v by (simp add: F_Pointer read_field.simps [abs_def])
next
  case (F_Objects fresh obs)
  then obtain f ws where v: "v = F_Objects f ws" "\<forall>x \<in> set ws. fits fresh x" using assms(1) by (cases v) auto
  then have "consumes stands k stk stk anything (read_object_vector ops (read_serializable ops b) fresh [])
      (sequence_bytes meta_object (obj_bytes pad) ws) (Some (map (adopt pad fresh) ws))"
    using b fitsD by (intro consumes_object_vector(1) assms(3)) auto
  then show ?thesis
    using consumes_kept_map(1) v assms(2) by (simp add: F_Objects read_field.simps [abs_def])
next
  case (F_Pointers fresh qs)
  then obtain f ps where v: "v = F_Pointers f ps" "\<forall>p \<in> set ps. \<forall>x \<in> set_option p. fits fresh x" using assms(1) by (cases v) auto
  then have "consumes stands k stk stk anything (read_pointer_vector ops b fresh qs)
      (scalar_bytes (S_UInt32 (of_nat (length ps))) @ concat (map (pointer_bytes (obj_bytes pad)) ps))
      (Some (map (map_option (adopt pad fresh)) ps))"
    using b fitsD by (intro consumes_pointer_vector(1) assms(3)) fastforce+
  then show ?thesis
    using consumes_kept_map(1) v by (simp add: F_Pointers read_field.simps [abs_def] del: scalar_bytes.simps)
qed (use assms(1) in simp)

lemma consumes_fields:
  assumes "agree fits_field ts vs" "\<forall>t \<in> set ts. fresh_field t" "length pad = 3"
    and "\<And>v x t. v \<in> set vs \<Longrightarrow> x \<in> field_objects v \<Longrightarrow> fits t x \<Longrightarrow> body_ok stands pad k b t x"
  shows "consumes stands k stk stk (\<lambda>r. length vs < length ts \<longrightarrow> starts_with is_end r) (read_fields ops b ts)
    (concat (map (field_bytes pad) (take (length ts) vs))) (prolong (adopt_field pad) ts vs)"
  using assms
proof (induction "adopt_field pad" ts vs rule: prolong.induct)
  case (1 vs)
  then show ?case by (simp add: read_fields.simps [abs_def] consumes_return)
next
  case (2 t ts)
  have "consumes stands k stk stk (starts_with is_end) (read_fields ops b ts) [] ts"
    if "\<forall>t \<in> set ts. fresh_field t" for ts
    using that
  proof (induction ts)
    case Nil
    then show ?case by (simp add: read_fields.simps [abs_def] consumes_return)
  next
    case (Cons t ts)
    then have later: "consumes stands k stk stk (starts_with is_end) (\<lambda>s. and_then (read_fields ops b ts s) (\<lambda>fs s. Inr (t # fs, s))) [] (t # ts)"
      by (intro consumes_then [where x = ts]) simp_all
    have "consumes stands k stk stk (starts_with is_end) (read_field ops b t) [] t"
      using Cons.prems assms(3) by (intro consumes_field_end) simp_all
    then show ?case
      unfolding read_fields.simps [abs_def] by (rule consumes_peek) (use later in simp_all)
  qed
  from this [of "t # ts"] 2(2) show ?case by (simp del: read_fields.simps)
next
  case (3 t ts v vs)
  have head: "consumes stands k stk stk anything (read_field ops b t) (field_bytes pad v) (adopt_field pad t v)"
    using 3 by (intro consumes_field) auto
  have "consumes stands k stk stk (\<lambda>r. length vs < length ts \<longrightarrow> starts_with is_end r) (read_fields ops b ts)
      (concat (map (field_bytes pad) (take (length ts) vs))) (prolong (adopt_field pad) ts vs)"
    using 3 by (intro 3(1)) auto
  then have later: "consumes stands k stk stk (\<lambda>r. length vs < length ts \<longrightarrow> starts_with is_end r)
      (\<lambda>s. and_then (read_fields ops b ts s) (\<lambda>fs s. Inr (adopt_field pad t v # fs, s)))
      (concat (map (field_bytes pad) (take (length ts) vs))) (prolong (adopt_field pad) (t # ts) (v # vs))"
    by (rule consumes_then) simp
  have "consumes stands k stk stk (\<lambda>r. length vs < length ts \<longrightarrow> starts_with is_end r) (read_fields ops b (t # ts))
      (field_bytes pad v @ concat (map (field_bytes pad) (take (length ts) vs))) (prolong (adopt_field pad) (t # ts) (v # vs))"
    unfolding read_fields.simps [abs_def] by (rule consumes_seq_any, rule head, rule later)
  then show ?case by (simp del: read_fields.simps)
qed

end

subsection \<open>Scopes\<close>

definition scope_frame :: "u8 list \<Rightarrow> u8 list" where
  "scope_frame d = meta_scope_begin # d @ [meta_scope_end]"

lemma scopes_bytes_plain: "scopes_bytes ds [] = concat (map scope_frame ds)"
  by (induction ds) (simp_all add: scope_frame_def)

lemma fields_are_items:
  "concat (map (field_bytes pad) vs) = concat (concat (map (field_items pad) vs))"
  by (induction vs) (simp_all add: concat_field_items)

context byte_file
begin

lemma fields_skip:
  assumes "\<forall>v \<in> set vs. copied_field v" "length pad = 3"
  shows "\<exists>ds. concat (map (field_bytes pad) vs) = concat ds \<and> (\<forall>d \<in> set ds. skips stands ops d)"
  using assms skips_items by (intro exI [of _ "concat (map (field_items pad) vs)"]) (auto simp: fields_are_items)

lemma read_mark_at:
  assumes "stands (ser_inner s) bs p" "drop p bs = m # r"
  obtains s1 s2 where "read_metadata ops v s = Inr (m, s1)" "stands (ser_inner s1) bs (Suc p)" "ser_stack s1 = ser_stack s"
    "seek_to_last_metadata ops s1 = Inr ((), s2)" "stands (ser_inner s2) bs p" "ser_stack s2 = ser_stack s"
proof (rule metadata_back_at [OF assms, where v = v])
  fix t t'
  assume "read_metadata ops v s = Inr (m, s\<lparr>ser_inner := t, ser_last_meta := of_nat p\<rparr>)" "stands t bs (Suc p)"
    "seek_to_last_metadata ops (s\<lparr>ser_inner := t, ser_last_meta := of_nat p\<rparr>) =
       Inr ((), s\<lparr>ser_last_meta := of_nat p, ser_inner := t'\<rparr>)" "stands t' bs p"
  then show thesis
    by (intro that [of "s\<lparr>ser_inner := t, ser_last_meta := of_nat p\<rparr>" "s\<lparr>ser_last_meta := of_nat p, ser_inner := t'\<rparr>"]) simp_all
qed

lemma end_tests [simp]: "meta_scope_begin \<noteq> meta_object_end" "meta_object_end \<noteq> meta_scope_begin"
  "meta_scope_end \<noteq> meta_object_end" "meta_object_end \<noteq> meta_scope_end"
  by (simp_all add: meta_defs)

lemma consumes_start_type:
  "consumes stands k stk stk anything (read_start_type ops) [meta_scope_begin] ()"
  "consumes stands k stk stk (starts_with ((=) meta_object_end)) (read_start_type ops) [] ()"
proof -
  show "consumes stands k stk stk anything (read_start_type ops) [meta_scope_begin] ()"
  proof (rule consumesI)
    fix s :: "'s ser_stream" and bs p r
    assume *: "stands (ser_inner s) bs p" "ser_stack s = stk" "drop p bs = [meta_scope_begin] @ r"
    have d: "drop p bs = meta_scope_begin # r" using *(3) by simp
    show "yields (read_start_type ops s)
        (\<lambda>y s'. y = () \<and> stands (ser_inner s') bs (p + length [meta_scope_begin]) \<and> ser_stack s' = stk)"
      by (rule read_mark_at [OF *(1) d, where v = "ser_uninit s"]) (use *(2) in \<open>simp add: read_start_type_def\<close>)
  qed
  show "consumes stands k stk stk (starts_with ((=) meta_object_end)) (read_start_type ops) [] ()"
  proof (rule consumesI)
    fix s :: "'s ser_stream" and bs p r
    assume *: "stands (ser_inner s) bs p" "ser_stack s = stk" "drop p bs = [] @ r" "starts_with ((=) meta_object_end) r"
    then obtain r' where d: "drop p bs = meta_object_end # r'" by (cases r) (auto simp: starts_with_def)
    show "yields (read_start_type ops s) (\<lambda>y s'. y = () \<and> stands (ser_inner s') bs (p + length []) \<and> ser_stack s' = stk)"
      by (rule read_mark_at [OF *(1) d, where v = "ser_uninit s"]) (use *(2) in \<open>simp add: read_start_type_def\<close>)
  qed
qed

lemma consumes_end_type:
  assumes "\<forall>d \<in> set ds. skips stands ops d"
  shows "consumes stands k (c # stk) (next_scope (remember (concat ds) c) # stk) anything (read_end_type ops k)
    (concat ds @ [meta_scope_end]) ()"
    "consumes stands k stk' stk' (starts_with ((=) meta_object_end)) (read_end_type ops k) [] ()"
proof -
  show "consumes stands k stk' stk' (starts_with ((=) meta_object_end)) (read_end_type ops k) [] ()"
  proof (rule consumesI)
    fix s :: "'s ser_stream" and bs p r
    assume *: "stands (ser_inner s) bs p" "ser_stack s = stk'" "drop p bs = [] @ r" "starts_with ((=) meta_object_end) r"
    then obtain r' where d: "drop p bs = meta_object_end # r'" by (cases r) (auto simp: starts_with_def)
    show "yields (read_end_type ops k s) (\<lambda>y s'. y = () \<and> stands (ser_inner s') bs (p + length []) \<and> ser_stack s' = stk')"
      by (rule read_mark_at [OF *(1) d, where v = "ser_uninit s"]) (use *(2) in \<open>simp add: read_end_type_def\<close>)
  qed
  show "consumes stands k (c # stk) (next_scope (remember (concat ds) c) # stk) anything (read_end_type ops k)
    (concat ds @ [meta_scope_end]) ()"
  proof (rule consumesI)
    fix s :: "'s ser_stream" and bs p r
    assume *: "stands (ser_inner s) bs p" "ser_stack s = c # stk" "length bs \<le> k" "drop p bs = (concat ds @ [meta_scope_end]) @ r"
    show "yields (read_end_type ops k s) (\<lambda>y s'. y = () \<and> stands (ser_inner s') bs (p + length (concat ds @ [meta_scope_end])) \<and>
        ser_stack s' = next_scope (remember (concat ds) c) # stk)"
    proof (cases "ds = []")
      case True
      then have d: "drop p bs = meta_scope_end # r" using *(4) by simp
      show ?thesis
        by (rule read_mark_at [OF *(1) d, where v = "ser_uninit s"])
          (use *(2) True in \<open>simp add: read_end_type_def current_context_def update_context_def remember_def\<close>)
    next
      case False
      then obtain e es where ds: "ds = e # es" by (cases ds) auto
      then have "e \<noteq> []" "\<not> is_end (hd e)" using assms by (auto simp: skips_def)
      then obtain m d' where m: "e = m # d'" "\<not> is_end m" by (cases e) auto
      have d: "drop p bs = m # d' @ concat es @ meta_scope_end # r" using *(4) ds m by simp
      have d2: "drop p bs = concat ds @ meta_scope_end # r" using *(4) by simp
      obtain s1 s2 where s: "read_metadata ops (ser_uninit s) s = Inr (m, s1)"
          "seek_to_last_metadata ops s1 = Inr ((), s2)" "stands (ser_inner s2) bs p" "ser_stack s2 = ser_stack s"
        by (rule read_mark_at [OF *(1) d, where v = "ser_uninit s"])
      have "yields (read_unknown_data ops k s2) (\<lambda>y s'. y = () \<and> stands (ser_inner s') bs (p + length (concat ds)) \<and>
          ser_stack s' = remember (concat ds) c # stk)"
        using s(4) *(2) by (intro consumesD [OF consumes_unknown_data [OF assms False] s(3) _ *(3) d2]) simp_all
      then have "yields (and_then (read_unknown_data ops k s2) (\<lambda>_ s. and_then (read_metadata ops m s) (\<lambda>m s.
            if m \<noteq> meta_scope_end then Inl K_STATUS_INVALID_STREAM_FORMAT
            else and_then (current_context s) (\<lambda>_ s. Inr ((), update_context next_scope s)))))
          (\<lambda>y s'. y = () \<and> stands (ser_inner s') bs (p + length (concat ds @ [meta_scope_end])) \<and>
            ser_stack s' = next_scope (remember (concat ds) c) # stk)"
      proof (rule yields_and_then)
        fix y and s' :: "'s ser_stream"
        assume s': "y = () \<and> stands (ser_inner s') bs (p + length (concat ds)) \<and> ser_stack s' = remember (concat ds) c # stk"
        then have s'': "stands (ser_inner s') bs (p + length (concat ds))" by simp
        have d3: "drop (p + length (concat ds)) bs = meta_scope_end # r" by (rule drop_append_length [OF d2])
        show "yields (and_then (read_metadata ops m s') (\<lambda>m s.
            if m \<noteq> meta_scope_end then Inl K_STATUS_INVALID_STREAM_FORMAT
            else and_then (current_context s) (\<lambda>_ s. Inr ((), update_context next_scope s))))
          (\<lambda>y s'. y = () \<and> stands (ser_inner s') bs (p + length (concat ds @ [meta_scope_end])) \<and>
            ser_stack s' = next_scope (remember (concat ds) c) # stk)"
          by (rule read_mark_at [OF s'' d3, where v = m])
            (use s' in \<open>simp add: current_context_def update_context_def del: length_concat\<close>)
      qed
      then show ?thesis using s(1,2) m(2) by (simp add: read_end_type_def is_end_def del: length_concat)
    qed
  qed
qed

text \<open>The scopes beyond those of the class: the marks in front of them are read by the caller.\<close>

lemma consumes_unknown_scopes:
  assumes "\<forall>u \<in> set us. \<exists>ds. u = concat ds \<and> (\<forall>d \<in> set ds. skips stands ops d)" "length us \<le> n"
  shows "consumes stands k (c # stk) (pass_scopes c us # stk) anything
    (\<lambda>s. and_then (read_metadata ops (w s) s) (\<lambda>m s. read_unknown_scopes ops k n m s))
    (concat (map scope_frame us) @ [meta_object_end]) ()"
  using assms
proof (induction us arbitrary: n c w)
  case Nil
  show ?case
  proof (rule consumesI)
    fix s :: "'s ser_stream" and bs p r
    assume *: "stands (ser_inner s) bs p" "ser_stack s = c # stk" "drop p bs = (concat (map scope_frame []) @ [meta_object_end]) @ r"
    have d: "drop p bs = meta_object_end # r" using *(3) by simp
    show "yields (and_then (read_metadata ops (w s) s) (\<lambda>m s. read_unknown_scopes ops k n m s))
        (\<lambda>y s'. y = () \<and> stands (ser_inner s') bs (p + length (concat (map scope_frame []) @ [meta_object_end])) \<and>
          ser_stack s' = pass_scopes c [] # stk)"
      by (rule read_mark_at [OF *(1) d, where v = "w s"]) (use *(2) in \<open>simp add: read_unknown_scopes.simps\<close>)
  qed
next
  case (Cons u us)
  then obtain n' where n: "n = Suc n'" "length us \<le> n'" by (cases n) auto
  obtain ds where ds: "u = concat ds" "\<forall>d \<in> set ds. skips stands ops d" using Cons.prems(1) by auto
  let ?c = "next_scope (remember u c)"
  have later: "consumes stands k (?c # stk) (pass_scopes ?c us # stk) anything
      (\<lambda>s. and_then (read_metadata ops meta_scope_begin s) (\<lambda>m s. read_unknown_scopes ops k n' m s))
      (concat (map scope_frame us) @ [meta_object_end]) ()"
    using Cons.prems(1) n(2) by (intro Cons.IH) simp_all
  have "consumes stands k (c # stk) (?c # stk) anything (read_end_type ops k) (u @ [meta_scope_end]) ()"
    using consumes_end_type(1) [OF ds(2)] by (simp add: ds(1))
  then have "consumes stands k (c # stk) (pass_scopes ?c us # stk) anything
      (\<lambda>s. and_then (read_end_type ops k s) (\<lambda>_ s.
        and_then (read_metadata ops meta_scope_begin s) (\<lambda>m s. read_unknown_scopes ops k n' m s)))
      ((u @ [meta_scope_end]) @ concat (map scope_frame us) @ [meta_object_end]) ()"
    by (rule consumes_seq_any) (rule later)
  then have behind: "consumes stands k (c # stk) (pass_scopes ?c us # stk) anything (read_unknown_scopes ops k n meta_scope_begin)
      ((u @ [meta_scope_end]) @ concat (map scope_frame us) @ [meta_object_end]) ()"
    by (simp add: n(1) read_unknown_scopes.simps [of _ _ "Suc n'", abs_def])
  show ?case
  proof (rule consumesI)
    fix s :: "'s ser_stream" and bs p r
    assume *: "stands (ser_inner s) bs p" "ser_stack s = c # stk" "length bs \<le> k"
      "drop p bs = (concat (map scope_frame (u # us)) @ [meta_object_end]) @ r"
    let ?d = "(u @ [meta_scope_end]) @ concat (map scope_frame us) @ [meta_object_end]"
    have d: "drop p bs = meta_scope_begin # ?d @ r" using *(4) by (simp add: scope_frame_def)
    have len: "length (concat (map scope_frame (u # us)) @ [meta_object_end]) = Suc (length ?d)" by (simp add: scope_frame_def)
    have d1: "drop (Suc p) bs = ?d @ r" using drop_append_length [of p bs "[meta_scope_begin]"] d by simp
    obtain s1 where s1: "read_metadata ops (w s) s = Inr (meta_scope_begin, s1)" "stands (ser_inner s1) bs (Suc p)" "ser_stack s1 = c # stk"
      using read_mark_at [OF *(1) d, where v = "w s"] *(2) by metis
    show "yields (and_then (read_metadata ops (w s) s) (\<lambda>m s. read_unknown_scopes ops k n m s))
        (\<lambda>y s'. y = () \<and> stands (ser_inner s') bs (p + length (concat (map scope_frame (u # us)) @ [meta_object_end])) \<and>
          ser_stack s' = pass_scopes c (u # us) # stk)"
      using consumesD [OF behind s1(2,3) *(3) d1 TrueI] s1(1) unfolding len by (simp del: length_append)
  qed
qed

end

text \<open>What the known scopes of a class leave: a buffer for each scope of the data the class has.\<close>

abbreviation scope_data :: "u8 list \<Rightarrow> field list \<Rightarrow> u8 list" where
  "scope_data pad vs \<equiv> concat (map (field_bytes pad) vs)"

lemma rest_scopes_split:
  "take (length fss) (rest_scopes fss vss) @ drop (length fss) vss = rest_scopes fss vss"
  by (induction fss vss rule: rest_scopes.induct) simp_all

context byte_file
begin

lemma consumes_scopes:
  assumes "agree (agree fits_field) fss vss" "\<forall>fs \<in> set fss. \<forall>t \<in> set fs. fresh_field t"
    and "\<forall>vs \<in> set vss. \<forall>v \<in> set vs. copied_field v" "length pad = 3"
    and "\<And>vs v x t. vs \<in> set vss \<Longrightarrow> v \<in> set vs \<Longrightarrow> x \<in> field_objects v \<Longrightarrow> fits t x \<Longrightarrow> body_ok stands pad k b t x"
  shows "consumes stands k (c # stk) (pass_scopes c (map (scope_data pad) (take (length fss) (rest_scopes fss vss))) # stk)
    (\<lambda>r. length vss < length fss \<longrightarrow> starts_with ((=) meta_object_end) r) (read_scopes ops k b fss)
    (concat (map scope_frame (map (scope_data pad) (take (length fss) vss)))) (prolong (prolong (adopt_field pad)) fss vss)"
  using assms
proof (induction "prolong (adopt_field pad)" fss vss arbitrary: c rule: prolong.induct)
  case (1 vss)
  then show ?case by (simp add: read_scopes.simps [abs_def] consumes_return)
next
  case (2 fs fss)
  have "consumes stands k stk stk (starts_with ((=) meta_object_end)) (read_scopes ops k b fss) [] fss"
    if "\<forall>fs \<in> set fss. \<forall>t \<in> set fs. fresh_field t" for fss stk
    using that
  proof (induction fss)
    case Nil
    then show ?case by (simp add: read_scopes.simps [abs_def] consumes_return)
  next
    case (Cons fs fss)
    have objend: "starts_with ((=) meta_object_end) r \<Longrightarrow> starts_with is_end r" for r
      by (auto simp: starts_with_def is_end_def)
    have l1: "consumes stands k stk stk (starts_with ((=) meta_object_end))
        (\<lambda>s. and_then (read_scopes ops k b fss s) (\<lambda>fss s. Inr (fs # fss, s))) [] (fs # fss)"
      using Cons by (intro consumes_then [where x = fss]) simp_all
    have l2: "consumes stands k stk stk (starts_with ((=) meta_object_end))
        (\<lambda>s. and_then (read_end_type ops k s) (\<lambda>_ s. and_then (read_scopes ops k b fss s) (\<lambda>fss s. Inr (fs # fss, s)))) [] (fs # fss)"
      by (rule consumes_peek, rule consumes_end_type(2) [of "[]"], simp, rule l1, simp)
    have f: "consumes stands k stk stk (\<lambda>r. length [] < length fs \<longrightarrow> starts_with is_end r) (read_fields ops b fs) [] fs"
      using consumes_fields [of fs "[]" pad k b stk] Cons.prems assms(4) by (cases fs) (simp_all del: read_fields.simps)
    have l3: "consumes stands k stk stk (starts_with ((=) meta_object_end)) (\<lambda>s. and_then (read_fields ops b fs s) (\<lambda>fs s.
        and_then (read_end_type ops k s) (\<lambda>_ s. and_then (read_scopes ops k b fss s) (\<lambda>fss s. Inr (fs # fss, s))))) [] (fs # fss)"
      by (rule consumes_peek, rule f, rule l2) (use objend in simp)
    show ?case
      unfolding read_scopes.simps [abs_def] by (rule consumes_peek, rule consumes_start_type(2), rule l3) simp
  qed
  from this [of "fs # fss"] 2(2) show ?case by (simp del: read_scopes.simps)
next
  case (3 fs fss vs vss)
  let ?u = "scope_data pad (drop (length fs) vs)"
  let ?c = "next_scope (remember ?u c)"
  let ?us = "map (scope_data pad) (take (length fss) (rest_scopes fss vss))"
  let ?R = "\<lambda>r. length vss < length fss \<longrightarrow> starts_with ((=) meta_object_end) r"
  let ?rest = "concat (map scope_frame (map (scope_data pad) (take (length fss) vss)))"
  let ?x = "prolong (prolong (adopt_field pad)) fss vss" and ?y = "prolong (adopt_field pad) fs vs"
  have "consumes stands k (?c # stk) (pass_scopes ?c ?us # stk) ?R (read_scopes ops k b fss) ?rest ?x"
    using 3(2-6) by (intro 3(1)) auto
  then have l1: "consumes stands k (?c # stk) (pass_scopes ?c ?us # stk) ?R
      (\<lambda>s. and_then (read_scopes ops k b fss s) (\<lambda>fss s. Inr (?y # fss, s))) ?rest (?y # ?x)"
    by (rule consumes_then) simp
  have "\<forall>v \<in> set (drop (length fs) vs). copied_field v" using 3(4) by (auto dest: in_set_dropD)
  then obtain ds where ds: "?u = concat ds" "\<forall>d \<in> set ds. skips stands ops d" using fields_skip 3(5) by blast
  have "consumes stands k (c # stk) (?c # stk) anything (read_end_type ops k) (?u @ [meta_scope_end]) ()"
    using consumes_end_type(1) [OF ds(2)] unfolding ds(1) .
  then have l2: "consumes stands k (c # stk) (pass_scopes ?c ?us # stk) ?R (\<lambda>s. and_then (read_end_type ops k s) (\<lambda>_ s.
      and_then (read_scopes ops k b fss s) (\<lambda>fss s. Inr (?y # fss, s)))) ((?u @ [meta_scope_end]) @ ?rest) (?y # ?x)"
    by (rule consumes_seq_any) (rule l1)
  have f: "consumes stands k (c # stk) (c # stk) (\<lambda>r. length vs < length fs \<longrightarrow> starts_with is_end r) (read_fields ops b fs)
      (scope_data pad (take (length fs) vs)) ?y"
    using 3(2-6) by (intro consumes_fields) auto
  have l3: "consumes stands k (c # stk) (pass_scopes ?c ?us # stk) ?R (\<lambda>s. and_then (read_fields ops b fs s) (\<lambda>fs s.
      and_then (read_end_type ops k s) (\<lambda>_ s. and_then (read_scopes ops k b fss s) (\<lambda>fss s. Inr (fs # fss, s)))))
      (scope_data pad (take (length fs) vs) @ (?u @ [meta_scope_end]) @ ?rest) (?y # ?x)"
    by (rule consumes_seq, rule f, rule l2) (simp add: is_end_def)
  have "consumes stands k (c # stk) (pass_scopes ?c ?us # stk) ?R (read_scopes ops k b (fs # fss))
      ([meta_scope_begin] @ scope_data pad (take (length fs) vs) @ (?u @ [meta_scope_end]) @ ?rest) (?y # ?x)"
    unfolding read_scopes.simps [abs_def] by (rule consumes_seq_any, rule consumes_start_type(1), rule l3)
  moreover have "scope_data pad (take (length fs) vs) @ ?u = scope_data pad vs"
    by (simp flip: concat_append map_append)
  ultimately show ?case
    by (simp add: scope_frame_def del: read_scopes.simps) (metis append_assoc)
qed

text \<open>The body of the read of an object.\<close>

lemma body_reads:
  assumes "fits t v" "plain_obj v" "length pad = 3"
    and b: "\<And>vs f x t. vs \<in> set (scopes v) \<Longrightarrow> f \<in> set vs \<Longrightarrow> x \<in> field_objects f \<Longrightarrow> fits t x \<Longrightarrow>
      body_ok stands pad k (read_object_body ops k n) t x"
  shows "body_ok stands pad k (read_object_body ops k (Suc n)) t v"
  unfolding body_ok_def
proof (intro allI impI)
  fix s :: "'s ser_stream" and bs p r
  assume *: "stands (ser_inner s) bs (p + 9 + length (type_info_bytes (type_info v)))" "length bs \<le> k" "drop p bs = obj_bytes pad v @ r"
  obtain ti fss unk where t: "t = Obj ti fss unk" by (cases t)
  obtain vss where v: "v = Obj ti vss []" using assms(1,2) t by (cases v) auto
  let ?rd = "rest_scopes fss vss" and ?len = "of_nat (length (obj_bytes pad v) - 1) :: u32"
  let ?c = "\<lparr>ctx_unknown = [], ctx_scope = 0, ctx_flags = 0\<rparr>"
  define us1 where "us1 = map (scope_data pad) (take (length fss) ?rd)"
  define us2 where "us2 = map (scope_data pad) (drop (length fss) vss)"
  define d1 where "d1 = concat (map scope_frame (map (scope_data pad) (take (length fss) vss)))"
  define d2 where "d2 = concat (map scope_frame us2) @ [meta_object_end]"
  let ?pre = "framed pad ti (type_info_bytes ti @ d1 @ d2)"
  have bytes: "obj_bytes pad v = ?pre"
  proof -
    have "scopes_bytes (map (scope_data pad) vss) [] @ [meta_object_end] = d1 @ d2"
      by (simp add: scopes_bytes_plain d1_def d2_def us2_def flip: concat_append map_append)
    then show ?thesis by (simp add: v object_bytes_def)
  qed
  have len: "length (obj_bytes pad v) = 9 + length (type_info_bytes ti) + length d1 + length d2"
    by (simp add: bytes length_framed [OF assms(3)])
  have dd: "drop (p + 9 + length (type_info_bytes ti)) bs = d1 @ d2 @ r"
  proof -
    obtain h where h: "?pre = h @ type_info_bytes ti @ d1 @ d2" "length h = 9"
    proof (rule that [of "meta_object # header_bytes (of_nat (8 + length (type_info_bytes ti @ d1 @ d2))) (if ti = [] then 0 else 1) pad"])
    qed (simp_all add: framed_def length_header_bytes [OF assms(3)])
    have "drop p bs = (h @ type_info_bytes ti) @ d1 @ d2 @ r" using *(3) bytes h(1) by simp
    from drop_append_length [OF this] show ?thesis using h(2) by (simp add: add.assoc)
  qed
  have cond: "agree (agree fits_field) fss vss" "\<forall>fs \<in> set fss. \<forall>t \<in> set fs. fresh_field t"
    using assms(1) t v by simp_all
  have cp: "\<forall>vs \<in> set vss. \<forall>w \<in> set vs. copied_field w" using assms(2) v plain_copied by auto
  have scopes: "consumes stands k (?c # stk) (pass_scopes ?c us1 # stk) (\<lambda>r. length vss < length fss \<longrightarrow> starts_with ((=) meta_object_end) r)
      (read_scopes ops k (read_object_body ops k n) fss) d1 (prolong (prolong (adopt_field pad)) fss vss)" for stk
    unfolding us1_def d1_def using b v by (intro consumes_scopes cond cp assms(3)) auto
  have "length us2 \<le> length (concat (map scope_frame us2))"
    by (rule length_concat_map) (simp add: scope_frame_def)
  moreover have "length d2 \<le> length bs"
    using arg_cong [OF drop_append_length [OF dd], of length] by simp
  ultimately have k: "length us2 \<le> k" using *(2) by (simp add: d2_def)
  have "\<forall>u \<in> set us2. \<exists>ds. u = concat ds \<and> (\<forall>d \<in> set ds. skips stands ops d)"
  proof
    fix u assume "u \<in> set us2"
    then obtain vs where "u = scope_data pad vs" "vs \<in> set vss" unfolding us2_def by (auto dest: in_set_dropD)
    then show "\<exists>ds. u = concat ds \<and> (\<forall>d \<in> set ds. skips stands ops d)" using fields_skip [of vs pad] cp assms(3) by auto
  qed
  note unknown = consumes_unknown_scopes [OF this k, where w = ser_uninit]
  have d2: "d2 @ r = meta_object_end # r" if "length vss < length fss"
    using that by (simp add: d2_def us2_def)
  let ?s = "push_object [] s"
  let ?p = "p + 9 + length (type_info_bytes ti)"
  have st: "stands (ser_inner ?s) bs ?p" "ser_stack ?s = ?c # ser_stack s" using *(1) by (simp_all add: push_object_def v)
  obtain s1 where s1: "read_scopes ops k (read_object_body ops k n) fss ?s = Inr (prolong (prolong (adopt_field pad)) fss vss, s1)"
      "stands (ser_inner s1) bs (?p + length d1)" "ser_stack s1 = pass_scopes ?c us1 # ser_stack s"
  proof -
    have R: "length vss < length fss \<longrightarrow> starts_with ((=) meta_object_end) (d2 @ r)" using d2 by auto
    show thesis using consumesD [OF scopes st *(2) dd R] that by (auto elim!: yieldsE)
  qed
  have dd2: "drop (?p + length d1) bs = (concat (map scope_frame us2) @ [meta_object_end]) @ r"
    using drop_append_length [OF dd] by (simp add: d2_def)
  obtain s2 where s2: "and_then (read_metadata ops (ser_uninit s1) s1) (\<lambda>m s. read_unknown_scopes ops k k m s) = Inr ((), s2)"
      "stands (ser_inner s2) bs (?p + length d1 + length d2)" "ser_stack s2 = pass_scopes (pass_scopes ?c us1) us2 # ser_stack s"
    using consumesD [OF unknown s1(2,3) *(2) dd2 TrueI] by (auto simp: d2_def elim!: yieldsE)
  have unk: "ctx_unknown (pass_scopes (pass_scopes ?c us1) us2) = strip_empty (map (scope_data pad) ?rd)"
  proof -
    have "us1 @ us2 = map (scope_data pad) ?rd"
      unfolding us1_def us2_def map_append [symmetric] rest_scopes_split ..
    then show ?thesis
      unfolding pass_scopes_append [symmetric] unfolding unknown_after_scopes by simp
  qed
  have pos: "ser_position ops (s2\<lparr>ser_stack := ser_stack s\<rparr>) = of_nat (?p + length d1 + length d2)"
    using s2(2) by (intro ser_position_at) simp
  have "?len - (of_nat (?p + length d1 + length d2) - of_nat (Suc p)) = 0"
    unfolding len by simp
  moreover have "stands (ser_inner s2) bs (p + length (obj_bytes pad v))"
    using s2(2) by (simp add: len add.assoc)
  moreover have "adopt pad (Obj ti fss unk) v =
      Obj ti (prolong (prolong (adopt_field pad)) fss vss) (strip_empty (map (scope_data pad) ?rd))"
    by (simp add: v)
  ultimately show "yields (read_object_body ops k (Suc n) t ?len (of_nat (Suc p)) s)
      (\<lambda>y s'. y = adopt pad t v \<and> stands (ser_inner s') bs (p + length (obj_bytes pad v)) \<and> ser_stack s' = ser_stack s)"
    using s1(1) s2(1,3) unk pos
    by (simp add: t pop_object_def and_then_assoc [symmetric])
qed

theorem object_reads:
  assumes "fits t v" "plain_obj v" "obj_depth v \<le> n" "length pad = 3"
  shows "body_ok stands pad k (read_object_body ops k n) t v"
  using assms(1-3)
proof (induction n arbitrary: t v)
  case 0
  then show ?case by (cases v) simp
next
  case (Suc n)
  obtain ti vss unk where v: "v = Obj ti vss unk" by (cases v)
  show ?case
  proof (rule body_reads [OF Suc.prems(1,2) assms(4)])
    fix vs f x t assume a: "vs \<in> set (scopes v)" "f \<in> set vs" "x \<in> field_objects f" "fits t x"
    have "plain_obj x" using a Suc.prems(2) field_objects_plain by (auto simp: v)
    moreover have "obj_depth x \<le> n"
      using a Suc.prems(3) by (intro field_objects_depth [OF a(3)]) (fastforce simp: v foldr_max_le)
    ultimately show "body_ok stands pad k (read_object_body ops k n) t x" using Suc.IH a(4) by blast
  qed
qed

end

end
