(* ===== verification/Fabric_Serializer.thy ===== *)
theory Fabric_Serializer
  imports Serializable_Rounds
begin

section \<open>FabricSerializer\<close>

text \<open>
  src/Common/FabricSerializer.cpp: an object to bytes and back. Memory is always there, and
  \<open>TestAssert\<close> is a trace. \<open>grow\<close> is the default growth of a channel, \<open>garbage\<close>, \<open>uninit\<close> and
  \<open>pad\<close> what uninitialised memory holds, \<open>n\<close> the bound on the nesting of objects, \<open>k\<close> the one on
  the loops over unknown data.
\<close>

record memory =
  mem_grow :: nat
  mem_garbage :: nat
  mem_uninit :: u8
  mem_pad :: "u8 list"

text \<open>The loops over \<open>GetNextBuffer\<close>: the buffers until there are no more. An extension buffer is an error.\<close>

fun next_buffers :: "nat \<Rightarrow> fabric_stream \<Rightarrow> (u8 list list, fabric_stream) outcome" where
  "next_buffers 0 s = Inl FUEL_EXHAUSTED"
| "next_buffers (Suc n) s =
    (let (st, b, s') = fs_get_next_buffer s
     in if nt_success st then
          (case b of
             None \<Rightarrow> Inl PROCESS_STOPPED
           | Some (d, is_extension) \<Rightarrow>
               if is_extension then Inl K_STATUS_OTHER_SERIALIZATION_ERRORS
               else and_then (next_buffers n s') (\<lambda>ds s. Inr (d # ds, s)))
        else if st \<noteq> K_STATUS_NO_MORE_EXTENSION_BUFFERS then Inl st
        else Inr ([], s'))"

definition stream_buffers :: "fabric_stream \<Rightarrow> (u8 list list, fabric_stream) outcome" where
  "stream_buffers s = next_buffers (length (ch_buffers (fs_channel s)) + length (fs_extension s) + 1) s"

text \<open>\<open>InnerSerialize\<close> into a stream.\<close>

definition serialize_to_stream :: "memory \<Rightarrow> nat \<Rightarrow> nat \<Rightarrow> obj \<Rightarrow> ntstatus + fabric_stream ser_stream" where
  "serialize_to_stream mem n max_grow_by ob =
    map_sum id snd (write_object fabric_ops n ob
      (ser_over (fs_create (mem_grow mem) max_grow_by (mem_garbage mem)) (mem_uninit mem) (mem_pad mem)))"

text \<open>\<open>InnerSerialize\<close> into a vector of bytes: the buffers are copied into \<open>Size()\<close> bytes.\<close>

definition copied_buffers :: "fabric_stream \<Rightarrow> ntstatus + u8 list" where
  "copied_buffers s =
    (case stream_buffers s of
       Inl e \<Rightarrow> Inl e
     | Inr (ds, _) \<Rightarrow>
         let bytes = concat ds; n = unat (op_size fabric_ops s)
         in if n < length bytes \<or> n = 0 then Inl PROCESS_STOPPED
            else let bytes = bytes @ replicate (n - length bytes) 0
                 in if hd bytes \<noteq> meta_object then Inl K_STATUS_OTHER_SERIALIZATION_ERRORS else Inr bytes)"

definition inner_serialize :: "memory \<Rightarrow> nat \<Rightarrow> obj \<Rightarrow> ntstatus + u8 list" where
  "inner_serialize mem n ob =
    (case serialize_to_stream mem n 0 ob of Inl e \<Rightarrow> Inl e | Inr s \<Rightarrow> copied_buffers (ser_inner s))"

text \<open>\<open>Serialize\<close> into a \<open>KBuffer\<close>, whose memory is not initialised.\<close>

definition serialize_to_kbuffer :: "memory \<Rightarrow> nat \<Rightarrow> obj \<Rightarrow> ntstatus + u8 list" where
  "serialize_to_kbuffer mem n ob =
    (case serialize_to_stream mem n 0 ob of
       Inl e \<Rightarrow> Inl e
     | Inr s \<Rightarrow>
         (case stream_buffers (ser_inner s) of
            Inl e \<Rightarrow> Inl e
          | Inr (ds, _) \<Rightarrow>
              let bytes = concat ds; n = unat (op_size fabric_ops (ser_inner s))
              in if n < length bytes \<or> n = 0 then Inl PROCESS_STOPPED
                 else let bytes = bytes @ replicate (n - length bytes) (mem_uninit mem)
                      in if hd bytes \<noteq> meta_object then Inl K_STATUS_OTHER_SERIALIZATION_ERRORS else Inr bytes))"

text \<open>
  \<open>CreateKBufferFromStream\<close>: the list of buffers is an array of 16 on the stack. The branch for more
  buffers is taken when the status is not a success; in it the list is freed before it is used.
  \<open>list_item\<close> is a read of the array on the stack; one outside it is \<^term>\<open>None\<close>.
\<close>

definition list_item :: "u8 list list \<Rightarrow> nat \<Rightarrow> u8 list option" where
  "list_item ds i = (if i < length ds then Some (ds ! i) else if i < 16 then Some [] else None)"

fun copy_items :: "u8 list list \<Rightarrow> nat list \<Rightarrow> u8 list option" where
  "copy_items ds [] = Some []"
| "copy_items ds (i # is) =
    (case list_item ds i of
       None \<Rightarrow> None
     | Some d \<Rightarrow> map_option (\<lambda>bs. d @ bs) (copy_items ds is))"

definition kbuffer_from_stream :: "memory \<Rightarrow> fabric_stream \<Rightarrow> ntstatus + u8 list" where
  "kbuffer_from_stream mem s =
    (let (st, count, ds) = fs_get_all_buffers 16 s; n = unat (op_size fabric_ops s)
     in if \<not> nt_success st then Inl PROCESS_STOPPED
        else case copy_items ds [0..<count] of
               None \<Rightarrow> Inl PROCESS_STOPPED
             | Some bytes \<Rightarrow>
                 if n < length bytes then Inl PROCESS_STOPPED
                 else Inr (bytes @ replicate (n - length bytes) (mem_uninit mem)))"

text \<open>\<open>InnerGetOperationBuffersFromSerializableStream\<close>, added to the buffers and the size the caller has.\<close>

definition operation_buffers ::
  "u8 list list \<Rightarrow> u32 \<Rightarrow> fabric_stream \<Rightarrow> ntstatus + u8 list list \<times> u32" where
  "operation_buffers before old_total s =
    (case stream_buffers s of
       Inl e \<Rightarrow> Inl e
     | Inr (ds, _) \<Rightarrow>
         let all = before @ ds
         in if all = [] \<or> hd all = [] then Inl PROCESS_STOPPED
            else if hd (hd all) \<noteq> meta_object then Inl K_STATUS_OTHER_SERIALIZATION_ERRORS
            else Inr (all, old_total + of_nat (length (concat ds))))"

text \<open>\<open>EstimateSize\<close>.\<close>

definition estimate_size :: "memory \<Rightarrow> nat \<Rightarrow> obj \<Rightarrow> ntstatus + nat" where
  "estimate_size mem n ob =
    (case serialize_to_stream mem n 0 ob of
       Inl e \<Rightarrow> Inl e
     | Inr s \<Rightarrow> (case stream_buffers (ser_inner s) of Inl e \<Rightarrow> Inl e | Inr (ds, _) \<Rightarrow> Inr (length (concat ds))))"

text \<open>\<open>InnerDeserialize\<close>: the buffers are captured in a channel, every byte of them in use.\<close>

fun capture_all :: "u8 list list \<Rightarrow> kmem_channel \<Rightarrow> ntstatus \<times> kmem_channel" where
  "capture_all [] c = (STATUS_SUCCESS, c)"
| "capture_all (b # bs) c =
    (let (st, c') = mc_capture \<lparr>ref_bytes = b, ref_param = of_nat (length b)\<rparr> c
     in if nt_error st then (st, c') else capture_all bs c')"

definition receive_stream :: "memory \<Rightarrow> u32 \<Rightarrow> u8 list list \<Rightarrow> ntstatus + fabric_stream" where
  "receive_stream mem n buffers =
    (let (st, c) = mc_start_capture (mc_new (unat n) (mem_grow mem) (mem_grow mem))
     in if nt_error st then Inl st
        else let (st, c) = capture_all buffers c
             in if nt_error st then Inl st
                else let (st, c) = mc_end_capture c
                     in if nt_error st then Inl st else Inr (fs_over c [] (mem_garbage mem)))"

definition inner_deserialize ::
  "memory \<Rightarrow> nat \<Rightarrow> nat \<Rightarrow> obj \<Rightarrow> u32 \<Rightarrow> u8 list list \<Rightarrow> ntstatus + obj" where
  "inner_deserialize mem k n ob all_bytes buffers =
    (case receive_stream mem all_bytes buffers of
       Inl e \<Rightarrow> Inl e
     | Inr s \<Rightarrow> map_sum id fst (read_object fabric_ops k n ob (ser_over s (mem_uninit mem) (mem_pad mem))))"

definition deserialize_bytes :: "memory \<Rightarrow> nat \<Rightarrow> nat \<Rightarrow> obj \<Rightarrow> u8 list \<Rightarrow> ntstatus + obj" where
  "deserialize_bytes mem k n ob bytes = inner_deserialize mem k n ob (of_nat (length bytes)) [bytes]"

subsection \<open>The buffers of a stream\<close>

lemma set_params_twice [simp]: "set_params t (set_params t rs) = set_params t rs"
proof (induction t rs rule: set_params.induct)
  case (3 t r r' rs)
  obtain x xs where "set_params (t - of_nat (length (ref_bytes r))) (r' # rs) = x # xs"
    by (cases rs) auto
  then show ?case using 3 by simp
qed simp_all

lemma length_set_params [simp]: "length (set_params t rs) = length rs"
  using length_map [of ref_bytes "set_params t rs"] by simp

lemma next_block_at:
  assumes "ch_status (fs_channel s) = STATUS_SUCCESS" "\<not> fs_on_extension s"
    and "set_params (ch_total (fs_channel s)) (ch_buffers (fs_channel s)) = ch_buffers (fs_channel s)"
  shows "fs_get_next_buffer s =
    (if fs_regular_cursor s < length (ch_buffers (fs_channel s))
     then (STATUS_SUCCESS, Some (bytes_in_use (ch_buffers (fs_channel s) ! fs_regular_cursor s), False),
       s\<lparr>fs_regular_cursor := fs_regular_cursor s + 1\<rparr>)
     else if fs_extension_cursor s < length (fs_extension s)
     then (STATUS_SUCCESS, Some (fs_extension s ! fs_extension_cursor s, True),
       s\<lparr>fs_on_extension := True, fs_extension_cursor := fs_extension_cursor s + 1\<rparr>)
     else (K_STATUS_NO_MORE_EXTENSION_BUFFERS, None, s\<lparr>fs_on_extension := True\<rparr>))"
  using assms by (simp add: fs_get_next_buffer_def mc_get_block_count_def mc_get_block_def Let_def)

lemma buffers_from:
  assumes "ch_status (fs_channel s) = STATUS_SUCCESS" "\<not> fs_on_extension s" "fs_extension s = []"
    and "set_params (ch_total (fs_channel s)) (ch_buffers (fs_channel s)) = ch_buffers (fs_channel s)"
    and "length (ch_buffers (fs_channel s)) < fs_regular_cursor s + n" "fs_regular_cursor s \<le> length (ch_buffers (fs_channel s))"
  shows "\<exists>s'. next_buffers n s = Inr (map bytes_in_use (drop (fs_regular_cursor s) (ch_buffers (fs_channel s))), s')"
  using assms
proof (induction n arbitrary: s)
  case 0
  then show ?case by simp
next
  case (Suc n)
  let ?bs = "ch_buffers (fs_channel s)"
  show ?case
  proof (cases "fs_regular_cursor s < length ?bs")
    case True
    let ?s = "s\<lparr>fs_regular_cursor := fs_regular_cursor s + 1\<rparr>"
    obtain s' where "next_buffers n ?s = Inr (map bytes_in_use (drop (fs_regular_cursor s + 1) ?bs), s')"
      using Suc.IH [of ?s] Suc.prems True by auto
    then show ?thesis
      using True next_block_at [OF Suc.prems(1,2,4)] by (simp add: Cons_nth_drop_Suc [symmetric])
  next
    case False
    then show ?thesis using next_block_at [OF Suc.prems(1,2,4)] Suc.prems by simp
  qed
qed

definition blocks_used :: "fabric_stream \<Rightarrow> u8 list list" where
  "blocks_used s = map bytes_in_use (ch_buffers (snd (mc_get_block_count (fs_channel s))))"

lemma blocks_used_concat: "fs_holds s bs p \<Longrightarrow> concat (blocks_used s) = bs"
  unfolding blocks_used_def fs_holds_def by (rule blocks_in_use(2) [OF _ prod.collapse [symmetric]])

lemma stream_buffers_blocks:
  assumes "fs_holds s bs p" "fs_regular_cursor s = 0" "\<not> fs_on_extension s" "fs_extension s = []"
  shows "\<exists>s'. stream_buffers s = Inr (blocks_used s, s')"
proof -
  define c where "c = snd (mc_get_block_count (fs_channel s))"
  note use = blocks_in_use [OF assms(1) [unfolded fs_holds_def] prod.collapse [symmetric], folded c_def]
  have ch: "c = fs_channel s\<lparr>ch_buffers := ch_buffers c\<rparr>" "length (ch_buffers c) = length (ch_buffers (fs_channel s))"
    using use(4) length_map [of ref_bytes "set_params (ch_total (fs_channel s)) (ch_buffers (fs_channel s))"]
    by (simp_all add: c_def mc_get_block_count_def)
  define t where "t = s\<lparr>fs_channel := c\<rparr>"
  have ok: "ch_status c = STATUS_SUCCESS" "set_params (ch_total c) (ch_buffers c) = ch_buffers c"
    using use(3,4) ch(1) by (simp_all add: holds_def c_def mc_get_block_count_def)
  have same: "fs_get_next_buffer s = fs_get_next_buffer t"
    using use(4) ok(2)
    by (simp add: fs_get_next_buffer_def t_def c_def mc_get_block_count_def Let_def assms(3))
  have eq: "next_buffers (Suc n) s = next_buffers (Suc n) t" for n using same by simp
  obtain s' where b: "next_buffers (length (ch_buffers c) + 1) t = Inr (map bytes_in_use (ch_buffers c), s')"
    using buffers_from [of t "length (ch_buffers c) + 1"] ok assms(2,3,4) by (auto simp: t_def)
  have "stream_buffers s = next_buffers (Suc (length (ch_buffers c))) s"
    using ch(2) assms(4) by (simp add: stream_buffers_def del: next_buffers.simps)
  then show ?thesis
    using b eq [of "length (ch_buffers c)"] by (simp add: blocks_used_def c_def [symmetric] del: next_buffers.simps)
qed

lemma stream_buffers_concat:
  assumes "fs_holds s bs p" "fs_regular_cursor s = 0" "\<not> fs_on_extension s" "fs_extension s = []"
  shows "\<exists>ds s'. stream_buffers s = Inr (ds, s') \<and> concat ds = bs"
  using stream_buffers_blocks [OF assms] blocks_used_concat [OF assms(1)] by blast

subsection \<open>An object to bytes and back\<close>

definition memory_ok :: "memory \<Rightarrow> bool" where
  "memory_ok mem \<longleftrightarrow> 0 < mem_grow mem \<and> 2 * mem_grow mem \<le> 2 ^ 32 \<and> length (mem_pad mem) = 3"

text \<open>A stream whose buffers have not been asked for yet, without extension buffers.\<close>

definition untouched :: "fabric_stream \<Rightarrow> u8 list \<Rightarrow> nat \<Rightarrow> bool" where
  "untouched s bs p \<longleftrightarrow> fs_holds s bs p \<and> fs_regular_cursor s = 0 \<and> \<not> fs_on_extension s \<and> fs_extension s = [] \<and>
    no_empty_block (fs_channel s)"

lemma ops_keep_cursors:
  "op_write fabric_ops d s = (st, s') \<Longrightarrow> fs_holds s' bs p \<Longrightarrow> untouched s bs' p' \<Longrightarrow> untouched s' bs p"
  "op_seek fabric_ops v s = (st, s') \<Longrightarrow> fs_holds s' bs p \<Longrightarrow> untouched s bs' p' \<Longrightarrow> untouched s' bs p"
  "op_seek_to_end fabric_ops s = (st, s') \<Longrightarrow> fs_holds s' bs p \<Longrightarrow> untouched s bs' p' \<Longrightarrow> untouched s' bs p"
  "op_read fabric_ops n s = (st, e, s') \<Longrightarrow> fs_holds s' bs p \<Longrightarrow> untouched s bs' p' \<Longrightarrow> untouched s' bs p"
  by (auto simp: untouched_def fabric_ops_def fs_write_bytes_def fs_seek_def fs_seek_to_end_def fs_read_bytes_def Let_def
      split: prod.splits if_splits intro: no_empty_block_write no_empty_block_seek no_empty_block_read)

lemma untouched_holds: "untouched s bs p \<Longrightarrow> fs_holds s bs p"
  by (simp add: untouched_def)

interpretation fresh_fs: byte_file fabric_ops untouched
proof (unfold_locales, goal_cases)
  case (1 s bs p)
  then show ?case by (rule fs.stands_bounds [OF untouched_holds])
next
  case (2 s bs p)
  then show ?case by (rule fs.position [OF untouched_holds])
next
  case (3 s bs p)
  then show ?case by (rule fs.size [OF untouched_holds])
next
  case (4 s bs p d)
  then show ?case using fs.write_at [OF untouched_holds [OF 4(1)] 4(2)] ops_keep_cursors(1) by blast
next
  case (5 s bs p n)
  then show ?case using fs.read_at [OF untouched_holds [OF 5(1)] 5(2,3)] ops_keep_cursors(4) by blast
next
  case (6 s bs p n)
  then show ?case by (rule fs.read_past_end [OF untouched_holds])
next
  case (7 s bs p v)
  then show ?case using fs.seek_inside [OF untouched_holds [OF 7(1)] 7(2)] ops_keep_cursors(2) by blast
next
  case (8 s bs p v)
  then show ?case by (rule fs.seek_outside [OF untouched_holds])
next
  case (9 s bs p)
  then show ?case using fs.seek_to_end [OF untouched_holds [OF 9]] ops_keep_cursors(3) by blast
qed

lemma fs_create_untouched:
  assumes "memory_ok mem"
  shows "untouched (fs_create (mem_grow mem) 0 g) [] 0"
  using assms mc_new_holds [of 128 "mem_grow mem" "mem_grow mem"]
  by (simp add: untouched_def fs_holds_def fs_create_def fs_over_def memory_ok_def no_empty_block_def mc_new_def
      mc_initialize_def)

lemma serialize_to_stream_appends:
  assumes "memory_ok mem" "copied_obj ob" "obj_depth ob \<le> n" "length (obj_bytes (mem_pad mem) ob) < 2 ^ 32"
  obtains s where "serialize_to_stream mem n 0 ob = Inr s"
    "untouched (ser_inner s) (obj_bytes (mem_pad mem) ob) (length (obj_bytes (mem_pad mem) ob))"
proof -
  let ?s = "ser_over (fs_create (mem_grow mem) 0 (mem_garbage mem)) (mem_uninit mem) (mem_pad mem)"
  have "writing untouched (mem_pad mem) [] ?s []"
    using fs_create_untouched [OF assms(1)] assms(1) by (simp add: writing_def ser_over_def memory_ok_def)
  from appendsD [OF fresh_fs.appends_obj [OF assms(2,3)] this] assms(4)
  obtain s where "write_object fabric_ops n ob ?s = Inr ((), s)"
      "writing untouched (mem_pad mem) [] s (obj_bytes (mem_pad mem) ob)"
    by (auto elim!: yieldsE)
  then show thesis using that by (simp add: serialize_to_stream_def writing_def)
qed

lemma obj_bytes_starts: "\<exists>d. obj_bytes pad ob = meta_object # d"
  using obj_bytes_framed [of pad ob] by (auto simp: framed_def)

lemma serialized_bytes:
  assumes "memory_ok mem" "copied_obj ob" "obj_depth ob \<le> n" "length (obj_bytes (mem_pad mem) ob) < 2 ^ 32"
  shows "inner_serialize mem n ob = Inr (obj_bytes (mem_pad mem) ob)"
proof -
  let ?d = "obj_bytes (mem_pad mem) ob"
  obtain s where s: "serialize_to_stream mem n 0 ob = Inr s" "untouched (ser_inner s) ?d (length ?d)"
    by (rule serialize_to_stream_appends [OF assms])
  have "\<exists>ds s'. stream_buffers (ser_inner s) = Inr (ds, s') \<and> concat ds = ?d"
    by (rule stream_buffers_concat [where p = "length ?d"]) (use s(2) in \<open>simp_all add: untouched_def\<close>)
  then obtain ds s' where ds: "stream_buffers (ser_inner s) = Inr (ds, s')" "concat ds = ?d"
    by (elim exE conjE)
  have "unat (op_size fabric_ops (ser_inner s)) = length ?d"
    using fresh_fs.size [OF s(2)] assms(4) by (simp add: unat_u32)
  moreover obtain d where "?d = meta_object # d" using obj_bytes_starts by blast
  ultimately show ?thesis
    using s(1) ds by (simp add: inner_serialize_def copied_buffers_def Let_def)
qed

text \<open>The other ways to the bytes: a \<open>KBuffer\<close>, operation buffers, the size alone.\<close>

lemma serialized_kbuffer:
  assumes "memory_ok mem" "copied_obj ob" "obj_depth ob \<le> n" "length (obj_bytes (mem_pad mem) ob) < 2 ^ 32"
  shows "serialize_to_kbuffer mem n ob = Inr (obj_bytes (mem_pad mem) ob)"
    "estimate_size mem n ob = Inr (length (obj_bytes (mem_pad mem) ob))"
proof -
  let ?d = "obj_bytes (mem_pad mem) ob"
  obtain s where s: "serialize_to_stream mem n 0 ob = Inr s" "untouched (ser_inner s) ?d (length ?d)"
    by (rule serialize_to_stream_appends [OF assms])
  have "\<exists>ds s'. stream_buffers (ser_inner s) = Inr (ds, s') \<and> concat ds = ?d"
    by (rule stream_buffers_concat [where p = "length ?d"]) (use s(2) in \<open>simp_all add: untouched_def\<close>)
  then obtain ds s' where ds: "stream_buffers (ser_inner s) = Inr (ds, s')" "concat ds = ?d"
    by (elim exE conjE)
  have "unat (op_size fabric_ops (ser_inner s)) = length ?d"
    using fresh_fs.size [OF s(2)] assms(4) by (simp add: unat_u32)
  moreover obtain d where "?d = meta_object # d" using obj_bytes_starts by blast
  ultimately show "serialize_to_kbuffer mem n ob = Inr ?d" "estimate_size mem n ob = Inr (length ?d)"
    using s(1) ds by (simp_all add: serialize_to_kbuffer_def estimate_size_def Let_def del: length_concat)
qed

lemma first_block_in_use:
  assumes "holds c bs p" "no_empty_block c" "bs \<noteq> []" "mc_get_block_count c = (n, c')"
  shows "bytes_in_use (hd (ch_buffers c')) \<noteq> []"
proof -
  note use = blocks_in_use [OF assms(1,4)]
  obtain r rs where c: "ch_buffers c = r # rs"
    using use(2,4) assms(3) by (cases "ch_buffers c") auto
  show ?thesis
  proof (cases rs)
    case Nil
    then show ?thesis using use(2,4) c assms(3) by simp
  next
    case (Cons r' rs')
    have "length (ref_bytes r) \<le> block_start (length (ch_buffers c) - 1) c"
      by (simp add: block_start_def c Cons)
    also have "\<dots> < 2 ^ 32"
      using assms(1) unsigned_less [of "ch_total c", where 'a = nat] unsigned_less [of "ch_cursor c", where 'a = nat]
      by (simp add: holds_def tight_def max_def split: if_splits)
    finally show ?thesis
      using use(4) c Cons assms(2) by (simp add: bytes_in_use_def no_empty_block_def unat_u32)
  qed
qed

lemma operation_buffers_outcome:
  assumes "untouched s (meta_object # d) p" "[] \<notin> set before" "before \<noteq> [] \<longrightarrow> hd (hd before) = meta_object"
  shows "operation_buffers before t s = Inr (before @ blocks_used s, t + of_nat (Suc (length d)))"
proof -
  have s: "fs_holds s (meta_object # d) p" "holds (fs_channel s) (meta_object # d) p" "no_empty_block (fs_channel s)"
    using assms(1) by (simp_all add: untouched_def fs_holds_def)
  obtain s' where b: "stream_buffers s = Inr (blocks_used s, s')"
    using stream_buffers_blocks [of s] assms(1) by (auto simp: untouched_def)
  have c: "concat (blocks_used s) = meta_object # d" by (rule blocks_used_concat [OF s(1)])
  then have n: "blocks_used s \<noteq> []" by auto
  have "hd (blocks_used s) \<noteq> []"
    using first_block_in_use [OF s(2,3) _ prod.collapse [symmetric]] n by (auto simp: blocks_used_def hd_map)
  then obtain x xs where x: "blocks_used s = (meta_object # x) # xs"
    using c n by (cases "blocks_used s") (auto simp: append_eq_Cons_conv)
  have "hd (before @ blocks_used s) \<noteq> [] \<and> hd (hd (before @ blocks_used s)) = meta_object"
    using assms(2,3) by (cases before) (auto simp: x)
  moreover have "before @ blocks_used s \<noteq> []" "length (concat (blocks_used s)) = Suc (length d)"
    by (simp_all add: n c del: length_concat)
  ultimately show ?thesis
    unfolding operation_buffers_def b sum.case prod.case Let_def by (simp del: length_concat)
qed

text \<open>\<open>CreateKBufferFromStream\<close> on a stream of more than 16 blocks reads outside the array.\<close>

lemma copy_items_list:
  "copy_items ds is = (if \<forall>i \<in> set is. i < max 16 (length ds) then Some (concat (map (\<lambda>i. if i < length ds then ds ! i else []) is)) else None)"
  by (induction ds "is" rule: copy_items.induct) (auto simp: list_item_def)

lemma kbuffer_outcome:
  assumes "fs_holds s bs p" "fs_extension s = []"
  shows "kbuffer_from_stream mem s = (if length (ch_buffers (fs_channel s)) \<le> 16 then Inr bs else Inl PROCESS_STOPPED)"
proof -
  define c where "c = snd (mc_get_block_count (fs_channel s))"
  have use: "concat (map bytes_in_use (ch_buffers c)) = bs" "holds c bs p"
    unfolding c_def by (rule blocks_in_use [OF assms(1) [unfolded fs_holds_def] prod.collapse [symmetric]])+
  have g: "mc_get_block_count (fs_channel s) = (length (ch_buffers (fs_channel s)), c)"
    by (simp add: c_def mc_get_block_count_def)
  have len: "length (ch_buffers c) = length (ch_buffers (fs_channel s))" by (simp add: c_def mc_get_block_count_def)
  have n: "unat (op_size fabric_ops s) = length bs"
    using fs.size [OF assms(1)] fs.stands_bounds [OF assms(1)] by (simp add: unat_u32)
  have all: "map (\<lambda>i. if i < length ds then ds ! i else []) [0..<length ds] = ds" for ds :: "u8 list list"
    by (rule nth_equalityI) simp_all
  show ?thesis
  proof (cases "length (ch_buffers (fs_channel s)) \<le> 16")
    case True
    then show ?thesis
      using g len n use assms(2) all [of "map bytes_in_use (ch_buffers c)"]
      by (simp add: kbuffer_from_stream_def fs_get_all_buffers_def copy_items_list holds_def del: length_concat)
  next
    case False
    then have "\<not> (\<forall>i \<in> {0..<length (ch_buffers (fs_channel s))}. i < 16)" by (auto simp: not_le)
    then show ?thesis
      using False g assms(2) by (auto simp: kbuffer_from_stream_def fs_get_all_buffers_def copy_items_list)
  qed
qed

lemma capture_all_ok:
  assumes "[] \<notin> set bs" "ch_status c = STATUS_SUCCESS"
  shows "capture_all bs c = (STATUS_SUCCESS,
    c\<lparr>ch_buffers := ch_buffers c @ map (\<lambda>b. \<lparr>ref_bytes = b, ref_param = of_nat (length b)\<rparr>) bs\<rparr>)"
  using assms by (induction bs arbitrary: c) (auto simp: mc_capture_def)

lemma receive_buffers:
  assumes "memory_ok mem" "bs \<noteq> []" "[] \<notin> set bs" "length (concat bs) < 2 ^ 32" "0 < n"
  obtains s where "receive_stream mem n bs = Inr s" "fs_holds s (concat bs) 0"
proof -
  let ?rs = "map (\<lambda>b. \<lparr>ref_bytes = b, ref_param = of_nat (length b)\<rparr>) bs"
  let ?c = "mc_cleanup (mc_new (unat n) (mem_grow mem) (mem_grow mem))"
  define c where "c = ?c\<lparr>ch_buffers := ?rs\<rparr>"
  have c: "capture_all bs ?c = (STATUS_SUCCESS, c)"
    using capture_all_ok [OF assms(3), of ?c] by (simp add: c_def mc_cleanup_def mc_initialize_def)
  have ok: "growable c" "ch_status c = STATUS_SUCCESS" "ch_buffers c = ?rs" "?rs \<noteq> []"
    using assms(1,2,5) by (simp_all add: c_def growable_def mc_cleanup_def mc_initialize_def mc_new_def memory_ok_def
        unat_gt_0 word_neq_0_conv)
  have bytes: "block_bytes ?rs = concat bs" by (simp add: block_bytes_def comp_def)
  have t: "unat (captured_total ?rs) = length (concat bs)"
    using captured_total_full [of ?rs] bytes assms(4) by (simp add: unat_u32 del: length_concat)
  have "length (block_bytes (butlast ?rs)) \<le> length (block_bytes ?rs)"
    using ok(4) by (cases ?rs rule: rev_cases) (simp_all add: block_bytes_def)
  with end_capture_holds [OF ok] t bytes
  obtain c' where "mc_end_capture c = (STATUS_SUCCESS, c')" "holds c' (concat bs) 0"
    by (auto simp del: length_concat)
  then show thesis
    using that c by (simp add: receive_stream_def mc_start_capture_def fs_holds_def fs_over_def)
qed

lemma deserialized_object:
  assumes "memory_ok mem" "fits t ob" "plain_obj ob" "obj_depth ob \<le> n" "length pad = 3"
    and "length (obj_bytes pad ob) < 2 ^ 32" "length (obj_bytes pad ob) \<le> k"
    and "concat buffers = obj_bytes pad ob" "[] \<notin> set buffers" "0 < m"
  shows "inner_deserialize mem k n t m buffers = Inr (adopt pad t ob)"
proof -
  let ?d = "obj_bytes pad ob"
  have "buffers \<noteq> []" using obj_bytes_starts [of pad ob] assms(8) by auto
  then obtain s where s: "receive_stream mem m buffers = Inr s" "fs_holds s ?d 0"
    using receive_buffers [OF assms(1) _ assms(9) _ assms(10)] assms(6,8) by metis
  let ?s = "ser_over s (mem_uninit mem) (mem_pad mem)"
  have "consumes fs_holds k [] [] anything (read_object fabric_ops k n t) ?d (adopt pad t ob)"
    unfolding read_object_def [abs_def] using assms(2-5) fitsD [OF assms(2)]
    by (intro fs.consumes_read_serializable fs.object_reads) simp_all
  from consumesD [OF this, of ?s ?d 0 "[]"] assms(7) s(2)
  show ?thesis
    using s(1) by (auto simp: inner_deserialize_def ser_over_def elim!: yieldsE)
qed

lemma deserialized_bytes:
  assumes "memory_ok mem" "fits t ob" "plain_obj ob" "obj_depth ob \<le> n" "length pad = 3"
    and "length (obj_bytes pad ob) < 2 ^ 32" "length (obj_bytes pad ob) \<le> k"
  shows "deserialize_bytes mem k n t (obj_bytes pad ob) = Inr (adopt pad t ob)"
proof -
  have "obj_bytes pad ob \<noteq> []" using obj_bytes_starts [of pad ob] by auto
  then show ?thesis
    unfolding deserialize_bytes_def using assms(6)
    by (intro deserialized_object assms) (auto simp: word_less_nat_alt unat_u32)
qed

end
