(* ===== verification/Serialization_Properties.thy ===== *)
theory Serialization_Properties
  imports Fabric_Serializer
begin

section \<open>What serialization preserves\<close>

text \<open>
  The properties of the serialization stack as a whole, from an object to bytes and back over
  \<open>FabricSerializer\<close>, for classes of the same and of different versions.
\<close>

subsection \<open>Readers of an older version\<close>

text \<open>
  \<open>older t v\<close>: the class of \<open>t\<close> has no field or scope the written object \<open>v\<close> lacks, here and in the
  nested objects, and the last of the scopes it does not know is not empty.
\<close>

fun covers :: "('a \<Rightarrow> 'b \<Rightarrow> bool) \<Rightarrow> 'a list \<Rightarrow> 'b list \<Rightarrow> bool" where
  "covers P [] vs \<longleftrightarrow> True"
| "covers P (t # ts) [] \<longleftrightarrow> False"
| "covers P (t # ts) (v # vs) \<longleftrightarrow> P t v \<and> covers P ts vs"

lemma covers_cong [fundef_cong]:
  "ts = ts' \<Longrightarrow> vs = vs' \<Longrightarrow> (\<And>t v. t \<in> set ts' \<Longrightarrow> v \<in> set vs' \<Longrightarrow> P t v = Q t v) \<Longrightarrow> covers P ts vs = covers Q ts' vs'"
  by (induction P ts vs arbitrary: ts' vs' rule: covers.induct) auto

fun older_field :: "field \<Rightarrow> field \<Rightarrow> bool" and older :: "obj \<Rightarrow> obj \<Rightarrow> bool" where
  "older_field (F_Scalar t) f \<longleftrightarrow> True"
| "older_field (F_Array t) f \<longleftrightarrow> True"
| "older_field (F_Object t) f = (case f of F_Object v \<Rightarrow> older t v | _ \<Rightarrow> False)"
| "older_field (F_Pointer fresh _) f = (case f of F_Pointer _ p \<Rightarrow> (\<forall>v \<in> set_option p. older fresh v) | _ \<Rightarrow> False)"
| "older_field (F_Objects fresh _) f = (case f of F_Objects _ vs \<Rightarrow> (\<forall>v \<in> set vs. older fresh v) | _ \<Rightarrow> False)"
| "older_field (F_Pointers fresh _) f =
    (case f of F_Pointers _ ps \<Rightarrow> (\<forall>p \<in> set ps. \<forall>v \<in> set_option p. older fresh v) | _ \<Rightarrow> False)"
| "older_field (F_No_Copy bs) f \<longleftrightarrow> False"
| "older (Obj ti fss unk) (Obj ti' vss unk') \<longleftrightarrow>
    covers (covers older_field) fss vss \<and> (length fss < length vss \<longrightarrow> last vss \<noteq> [])"

lemma scalar_bytes_canonical: "scalar_bytes (canonical v) = scalar_bytes v"
  by (cases v) (simp_all add: blittable_bytes_def double_is_zero_def)

lemma scopes_bytes_empty: "m \<le> length ds \<Longrightarrow> scopes_bytes ds (replicate m []) = scopes_bytes ds []"
proof (induction ds arbitrary: m)
  case (Cons d ds)
  then show ?case by (cases m) simp_all
qed simp

lemma scopes_bytes_padded:
  "length us + m \<le> length ds \<Longrightarrow> scopes_bytes ds (us @ replicate m []) = scopes_bytes ds us"
proof (induction ds us rule: scopes_bytes.induct)
  case (3 d ds)
  then show ?case using scopes_bytes_empty [of m "d # ds"] by simp
qed auto

lemma strip_empty_last: "last us \<noteq> [] \<Longrightarrow> strip_empty us = us"
  by (cases us rule: rev_cases) (simp_all add: strip_empty_def)

lemma length_rest_scopes [simp]: "length (rest_scopes fss vss) = length vss"
  by (induction fss vss rule: rest_scopes.induct) simp_all

lemma last_rest_scopes: "length fss < length vss \<Longrightarrow> last (rest_scopes fss vss) = last vss"
proof (induction fss vss rule: rest_scopes.induct)
  case (3 fs fss vs vss)
  then have "vss \<noteq> []" by auto
  then have "rest_scopes fss vss \<noteq> []" by (metis length_0_conv length_rest_scopes)
  then show ?case using 3 \<open>vss \<noteq> []\<close> by simp
qed simp_all

lemma covers_Nil [simp]: "covers P ts [] \<longleftrightarrow> ts = []"
  by (cases ts) simp_all

lemma field_bytes_nonempty:
  assumes "copied_field f" "length pad = 3"
  shows "field_bytes pad f \<noteq> []"
proof -
  have "scalar_bytes v \<noteq> []" for v by (cases v) (simp_all add: blittable_bytes_def compressable_bytes_def)
  moreover have "array_bytes a \<noteq> []" for a by (cases a) (simp_all add: sequence_bytes_def)
  moreover have "obj_bytes pad ob \<noteq> []" for ob using obj_bytes_starts [of pad ob] by auto
  ultimately show ?thesis
    using assms(1)
    by (cases f) (auto simp: pointer_bytes_def sequence_bytes_def simp del: scalar_bytes.simps split: option.split)
qed

text \<open>What an older class has read, field by field.\<close>

definition rewritten :: "u8 list \<Rightarrow> nat \<Rightarrow> obj \<Rightarrow> obj \<Rightarrow> bool" where
  "rewritten pad n v w \<longleftrightarrow> obj_bytes pad w = obj_bytes pad v \<and> copied_obj w \<and> obj_depth w \<le> n"

lemma rewritten_field:
  assumes "fits_field t v" "older_field t v" "\<And>x t. x \<in> field_objects v \<Longrightarrow> fits t x \<Longrightarrow> older t x \<Longrightarrow> rewritten pad n x (adopt pad t x)"
  shows "field_bytes pad (adopt_field pad t v) = field_bytes pad v \<and> copied_field (adopt_field pad t v) \<and>
    field_depth (adopt_field pad t v) \<le> n"
proof (cases t)
  case (F_Scalar a)
  then obtain w where "v = F_Scalar w" using assms(1) by (cases v) auto
  then show ?thesis by (simp add: F_Scalar scalar_bytes_canonical del: scalar_bytes.simps)
next
  case (F_Array a)
  then obtain w where "v = F_Array w" using assms(1) by (cases v) auto
  then show ?thesis by (simp add: F_Array)
next
  case (F_Object a)
  then obtain w where "v = F_Object w" "fits a w" "older a w" using assms(1,2) by (cases v) auto
  then show ?thesis using assms(3) by (simp add: F_Object rewritten_def)
next
  case (F_Pointer fresh q)
  then obtain f p where v: "v = F_Pointer f p" "\<forall>x \<in> set_option p. fits fresh x \<and> older fresh x"
    using assms(1,2) by (cases v) auto
  then show ?thesis
    using assms(3) by (cases p) (auto simp: F_Pointer rewritten_def pointer_bytes_def)
next
  case (F_Objects fresh obs)
  then obtain f ws where v: "v = F_Objects f ws" "\<forall>x \<in> set ws. fits fresh x \<and> older fresh x"
    using assms(1,2) by (cases v) auto
  then have "\<forall>x \<in> set ws. rewritten pad n x (adopt pad fresh x)" using assms(3) by simp
  then show ?thesis
    by (auto simp: F_Objects v(1) rewritten_def sequence_bytes_def foldr_max_le intro!: arg_cong [where f = concat])
next
  case (F_Pointers fresh qs)
  then obtain f ps where v: "v = F_Pointers f ps" "\<forall>p \<in> set ps. \<forall>x \<in> set_option p. fits fresh x \<and> older fresh x"
    using assms(1,2) by (cases v) auto
  then have "\<forall>p \<in> set ps. \<forall>x \<in> set_option p. rewritten pad n x (adopt pad fresh x)" using assms(3) by auto
  then have "\<forall>p \<in> set ps. pointer_bytes (obj_bytes pad) (map_option (adopt pad fresh) p) = pointer_bytes (obj_bytes pad) p \<and>
      (\<forall>y \<in> set_option (map_option (adopt pad fresh) p). copied_obj y \<and> obj_depth y \<le> n)"
    by (auto simp: rewritten_def pointer_bytes_def split: option.split)
  then show ?thesis
    by (auto simp: F_Pointers v(1) foldr_max_le option.set_map simp del: scalar_bytes.simps
        intro!: arg_cong [where f = concat] split: option.split)
qed (use assms(1) in simp)

lemma rewritten_fields:
  assumes "agree fits_field ts vs" "covers older_field ts vs"
    "\<And>v x t. v \<in> set vs \<Longrightarrow> x \<in> field_objects v \<Longrightarrow> fits t x \<Longrightarrow> older t x \<Longrightarrow> rewritten pad n x (adopt pad t x)"
  shows "scope_data pad (prolong (adopt_field pad) ts vs) @ scope_data pad (drop (length ts) vs) = scope_data pad vs \<and>
    (\<forall>f \<in> set (prolong (adopt_field pad) ts vs). copied_field f \<and> field_depth f \<le> n)"
  using assms
proof (induction "adopt_field pad" ts vs rule: prolong.induct)
  case (3 t ts v vs)
  have "field_bytes pad (adopt_field pad t v) = field_bytes pad v \<and> copied_field (adopt_field pad t v) \<and>
      field_depth (adopt_field pad t v) \<le> n"
    using 3(2,3,4) by (intro rewritten_field) auto
  moreover have "scope_data pad (prolong (adopt_field pad) ts vs) @ scope_data pad (drop (length ts) vs) = scope_data pad vs \<and>
      (\<forall>f \<in> set (prolong (adopt_field pad) ts vs). copied_field f \<and> field_depth f \<le> n)"
    using 3(2,3,4) by (intro 3(1)) auto
  ultimately show ?case by simp
qed simp_all

text \<open>Unknown data and known fields together are the scopes that were written.\<close>

lemma covered_rewrite:
  assumes "covers (covers older_field) fss vss" "agree (agree fits_field) fss vss"
    "\<And>vs v x t. vs \<in> set vss \<Longrightarrow> v \<in> set vs \<Longrightarrow> x \<in> field_objects v \<Longrightarrow> fits t x \<Longrightarrow> older t x \<Longrightarrow> rewritten pad n x (adopt pad t x)"
  shows "scopes_bytes (map (scope_data pad) (prolong (prolong (adopt_field pad)) fss vss)) (map (scope_data pad) (rest_scopes fss vss)) =
      scopes_bytes (map (scope_data pad) vss) [] \<and>
    (\<forall>fs \<in> set (prolong (prolong (adopt_field pad)) fss vss). \<forall>f \<in> set fs. copied_field f \<and> field_depth f \<le> n) \<and>
    length (prolong (prolong (adopt_field pad)) fss vss) = length fss"
  using assms
proof (induction fss vss rule: rest_scopes.induct)
  case (2 vs vss)
  have "scopes_bytes [] us = scopes_bytes us []" for us by (induction us) simp_all
  from this [of "map (scope_data pad) (vs # vss)"] show ?case by simp
next
  case (3 fs fss vs vss)
  have "scope_data pad (prolong (adopt_field pad) fs vs) @ scope_data pad (drop (length fs) vs) = scope_data pad vs \<and>
      (\<forall>f \<in> set (prolong (adopt_field pad) fs vs). copied_field f \<and> field_depth f \<le> n)"
    using 3(2,3,4) by (intro rewritten_fields) auto
  moreover have "scopes_bytes (map (scope_data pad) (prolong (prolong (adopt_field pad)) fss vss)) (map (scope_data pad) (rest_scopes fss vss)) =
      scopes_bytes (map (scope_data pad) vss) [] \<and>
    (\<forall>fs \<in> set (prolong (prolong (adopt_field pad)) fss vss). \<forall>f \<in> set fs. copied_field f \<and> field_depth f \<le> n) \<and>
    length (prolong (prolong (adopt_field pad)) fss vss) = length fss"
    using 3(2,3,4) by (intro 3(1)) auto
  ultimately show ?case by auto
qed simp

theorem older_rewrites:
  assumes "fits t v" "older t v" "plain_obj v" "obj_depth v \<le> n" "length pad = 3"
  shows "rewritten pad n v (adopt pad t v)"
  using assms(1-4)
proof (induction n arbitrary: t v)
  case 0
  then show ?case by (cases v) simp
next
  case (Suc n)
  obtain ti fss unk where t: "t = Obj ti fss unk" by (cases t)
  obtain vss where v: "v = Obj ti vss []" using Suc.prems(1,3) t by (cases v) auto
  let ?us = "map (scope_data pad) (rest_scopes fss vss)"
  let ?fss = "prolong (prolong (adopt_field pad)) fss vss"
  have inner: "rewritten pad n x (adopt pad u x)"
    if "vs \<in> set vss" "f \<in> set vs" "x \<in> field_objects f" "fits u x" "older u x" for vs f x u
  proof -
    have "plain_obj x" using that Suc.prems(3) field_objects_plain by (auto simp: v)
    moreover have "obj_depth x \<le> n"
      using that Suc.prems(4) by (intro field_objects_depth [OF that(3)]) (fastforce simp: v foldr_max_le)
    ultimately show ?thesis using Suc.IH that(4,5) by blast
  qed
  have cov: "covers (covers older_field) fss vss" "length fss < length vss \<longrightarrow> last vss \<noteq> []" "agree (agree fits_field) fss vss"
    using Suc.prems(1,2) by (simp_all add: t v)
  have rw: "scopes_bytes (map (scope_data pad) ?fss) ?us = scopes_bytes (map (scope_data pad) vss) [] \<and>
      (\<forall>fs \<in> set ?fss. \<forall>f \<in> set fs. copied_field f \<and> field_depth f \<le> n) \<and> length ?fss = length fss"
    by (rule covered_rewrite [OF cov(1,3)]) (rule inner)
  have "scopes_bytes (map (scope_data pad) ?fss) (strip_empty ?us) = scopes_bytes (map (scope_data pad) ?fss) ?us"
  proof (cases "length fss < length vss")
    case True
    then have vss: "vss \<noteq> []" "last vss \<noteq> []" using cov(2) by auto
    then obtain f fs where f: "last vss = f # fs" "f # fs \<in> set vss" by (metis last_in_set neq_Nil_conv)
    have "field_bytes pad f \<noteq> []"
      using Suc.prems(3) v f(2) by (intro field_bytes_nonempty [OF plain_copied(1) assms(5)]) auto
    moreover have "rest_scopes fss vss \<noteq> []" using vss(1) by (metis length_0_conv length_rest_scopes)
    ultimately have "last ?us \<noteq> []" using last_rest_scopes [OF True] f(1) by (simp add: last_map)
    then show ?thesis by (simp add: strip_empty_last)
  next
    case False
    then have "length ?us \<le> length (map (scope_data pad) ?fss)" using rw by simp
    then show ?thesis
      using scopes_bytes_padded [of "strip_empty ?us" "length ?us - length (strip_empty ?us)" "map (scope_data pad) ?fss"]
        strip_empty_padded [of ?us] by simp
  qed
  then have "obj_bytes pad (adopt pad t v) = obj_bytes pad v"
    using rw by (simp add: t v object_bytes_def)
  moreover have "copied_obj (adopt pad t v)" "obj_depth (adopt pad t v) \<le> Suc n"
    using rw by (auto simp: t v foldr_max_le)
  ultimately show ?case by (simp add: rewritten_def)
qed

subsection \<open>Readers of the same version\<close>

text \<open>
  \<open>same_class t v\<close>: both have the same scopes and fields, and no \<open>DOUBLE\<close> of \<open>v\<close> is a negative zero.
\<close>

fun same_field :: "field \<Rightarrow> field \<Rightarrow> bool" and same_class :: "obj \<Rightarrow> obj \<Rightarrow> bool" where
  "same_field (F_Scalar t) f = (case f of F_Scalar v \<Rightarrow> same_scalar t v \<and> canonical v = v | _ \<Rightarrow> False)"
| "same_field (F_Array t) f = (case f of F_Array v \<Rightarrow> array_type t = array_type v | _ \<Rightarrow> False)"
| "same_field (F_Object t) f = (case f of F_Object v \<Rightarrow> same_class t v | _ \<Rightarrow> False)"
| "same_field (F_Pointer fresh _) f =
    (case f of F_Pointer fresh' p \<Rightarrow> fresh' = fresh \<and> (\<forall>v \<in> set_option p. same_class fresh v) | _ \<Rightarrow> False)"
| "same_field (F_Objects fresh _) f =
    (case f of F_Objects fresh' vs \<Rightarrow> fresh' = fresh \<and> (\<forall>v \<in> set vs. same_class fresh v) | _ \<Rightarrow> False)"
| "same_field (F_Pointers fresh _) f =
    (case f of F_Pointers fresh' ps \<Rightarrow> fresh' = fresh \<and> (\<forall>p \<in> set ps. \<forall>v \<in> set_option p. same_class fresh v) | _ \<Rightarrow> False)"
| "same_field (F_No_Copy bs) f = False"
| "same_class (Obj ti fss unk) (Obj ti' vss unk') \<longleftrightarrow>
    ti = ti' \<and> length ti \<le> unat type_info_max \<and> (\<forall>fs \<in> set fss. \<forall>t \<in> set fs. fresh_field t) \<and> unk' = [] \<and>
    list_all2 (list_all2 same_field) fss vss"

definition read_back :: "u8 list \<Rightarrow> obj \<Rightarrow> obj \<Rightarrow> bool" where
  "read_back pad t v \<longleftrightarrow> fits t v \<and> plain_obj v \<and> adopt pad t v = v"

lemma read_back_field:
  assumes "same_field t v" "\<And>x t. x \<in> field_objects v \<Longrightarrow> same_class t x \<Longrightarrow> read_back pad t x"
  shows "fits_field t v \<and> plain_field v \<and> adopt_field pad t v = v"
  using assms
  by (cases t; cases v)
    (auto simp: read_back_def map_idI option.map_ident_strong intro!: map_idI option.map_ident_strong)

lemma agree_all2: "list_all2 P ts vs \<Longrightarrow> (\<And>t v. v \<in> set vs \<Longrightarrow> P t v \<Longrightarrow> Q t v \<and> R v \<and> f t v = v) \<Longrightarrow>
    agree Q ts vs \<and> (\<forall>v \<in> set vs. R v) \<and> prolong f ts vs = vs \<and> drop (length ts) vs = []"
proof (induction rule: list_all2_induct)
  case (Cons t ts v vs)
  then show ?case by auto
qed simp

lemma rest_scopes_same:
  "list_all2 (list_all2 P) fss vss \<Longrightarrow> rest_scopes fss vss = map (\<lambda>_. []) vss"
  by (induction rule: list_all2_induct) (auto dest: list_all2_lengthD)

theorem same_class_reads:
  assumes "same_class t v" "obj_depth v \<le> n"
  shows "read_back pad t v"
  using assms
proof (induction n arbitrary: t v)
  case 0
  then show ?case by (cases v) simp
next
  case (Suc n)
  obtain ti fss unk where t: "t = Obj ti fss unk" by (cases t)
  obtain vss where v: "v = Obj ti vss []" "list_all2 (list_all2 same_field) fss vss"
    using Suc.prems(1) t by (cases v) auto
  have f: "fits_field u f \<and> plain_field f \<and> adopt_field pad u f = f"
    if "same_field u f" "vs \<in> set vss" "f \<in> set vs" for u f vs
  proof (rule read_back_field [OF that(1)])
    fix x u assume x: "x \<in> field_objects f" "same_class u x"
    have "obj_depth x \<le> n"
      using that Suc.prems(2) by (intro field_objects_depth [OF x(1)]) (fastforce simp: v foldr_max_le)
    then show "read_back pad u x" using Suc.IH x(2) by blast
  qed
  have s: "agree fits_field fs vs \<and> (\<forall>f \<in> set vs. plain_field f) \<and> prolong (adopt_field pad) fs vs = vs"
    if "list_all2 same_field fs vs" "vs \<in> set vss" for fs vs
    using agree_all2 [OF that(1), of fits_field plain_field "adopt_field pad"] f that(2) by blast
  have "agree (agree fits_field) fss vss \<and> (\<forall>vs \<in> set vss. \<forall>f \<in> set vs. plain_field f) \<and>
      prolong (prolong (adopt_field pad)) fss vss = vss"
    using agree_all2 [OF v(2), of "agree fits_field" "\<lambda>vs. \<forall>f \<in> set vs. plain_field f" "prolong (adopt_field pad)"] s by blast
  moreover have "strip_empty (map (scope_data pad) (rest_scopes fss vss)) = []"
    unfolding rest_scopes_same [OF v(2)] by (simp add: strip_empty_def comp_def)
  ultimately show ?case using Suc.prems(1) by (simp add: read_back_def t v)
qed

subsection \<open>The properties\<close>

text \<open>A memory and objects of two versions of a class for the examples.\<close>

definition example_memory :: memory where
  "example_memory = \<lparr>mem_grow = 4000, mem_garbage = 0, mem_uninit = 0x2F, mem_pad = [1, 2, 3]\<rparr>"

definition example_part :: "u32 \<Rightarrow> obj" where
  "example_part v = Obj [] [[F_Scalar (S_Int32 v)]] []"

definition example_new :: obj where
  "example_new = Obj [7] [[F_Scalar (S_Bool True), F_Array (A_String [1, 2])],
     [F_Object (example_part 5), F_Pointer (example_part 0) (Some (example_part 6))]] []"

definition example_new_default :: obj where
  "example_new_default = Obj [7] [[F_Scalar (S_Bool False), F_Array (A_String [])],
     [F_Object (example_part 0), F_Pointer (example_part 0) None]] []"

definition example_old_default :: obj where
  "example_old_default = Obj [7] [[F_Scalar (S_Bool False)]] []"

definition example_unknown :: obj where
  "example_unknown = Obj [] [[F_Scalar (S_Bool True)]] [[], [0x42]]"

lemmas example_defs = example_memory_def example_part_def example_new_def example_new_default_def example_old_default_def example_unknown_def

lemma example_length:
  "length (obj_bytes (mem_pad example_memory) example_new) = 50"
  "length (obj_bytes (mem_pad example_memory) example_unknown) = 16"
  "length (obj_bytes [0, 0, 0] example_old_default) = 15"
  by code_simp+

text \<open>C3: An object that is serialized is deserialized as it was, into any object of its class whose
  arrays are empty, whatever uninitialised memory holds on either side; as many rounds as there are
  bytes suffice for the loops of the reader.\<close>

theorem same_class_round_trip:
  assumes "memory_ok mem" "memory_ok mem'" "same_class t ob" "obj_depth ob \<le> n"
    and "length (obj_bytes (mem_pad mem) ob) < 2 ^ 32"
  shows "\<exists>bytes. inner_serialize mem n ob = Inr bytes \<and> deserialize_bytes mem' (length bytes) n t bytes = Inr ob"
proof -
  let ?pad = "mem_pad mem"
  have pad: "length ?pad = 3" using assms(1) by (simp add: memory_ok_def)
  have rb: "fits t ob" "plain_obj ob" "adopt ?pad t ob = ob"
    using same_class_reads [OF assms(3,4), of ?pad] by (simp_all add: read_back_def)
  have "inner_serialize mem n ob = Inr (obj_bytes ?pad ob)"
    using rb(2) by (intro serialized_bytes assms plain_copied)
  moreover have "deserialize_bytes mem' (length (obj_bytes ?pad ob)) n t (obj_bytes ?pad ob) = Inr (adopt ?pad t ob)"
    by (intro deserialized_bytes assms rb pad order_refl)
  ultimately show ?thesis unfolding rb(3) by blast
qed

theorem same_class_round_trip_witness:
  "\<exists>bytes. inner_serialize example_memory 2 example_new = Inr bytes \<and>
     deserialize_bytes example_memory (length bytes) 2 example_new_default bytes = Inr example_new"
  by (rule same_class_round_trip)
    (simp add: example_defs memory_ok_def, simp add: example_defs memory_ok_def,
      simp add: example_defs same_scalar_def type_info_max_def, simp add: example_defs, simp add: example_length)

text \<open>C4: A reader of an older version of the class keeps what it does not know: the object it has
  read, serialized again, gives the same bytes. Nothing a newer version wrote is lost on the way through
  an older one, in nested objects either.\<close>

theorem older_class_keeps_data:
  assumes "memory_ok mem" "memory_ok mem'" "fits t ob" "older t ob" "plain_obj ob" "obj_depth ob \<le> n"
    and "length (obj_bytes (mem_pad mem) ob) < 2 ^ 32"
  shows "\<exists>bytes w. inner_serialize mem n ob = Inr bytes \<and> deserialize_bytes mem' (length bytes) n t bytes = Inr w \<and>
    inner_serialize mem n w = Inr bytes"
proof -
  let ?pad = "mem_pad mem" and ?w = "adopt (mem_pad mem) t ob"
  have pad: "length ?pad = 3" using assms(1) by (simp add: memory_ok_def)
  have rw: "obj_bytes ?pad ?w = obj_bytes ?pad ob" "copied_obj ?w" "obj_depth ?w \<le> n"
    using older_rewrites [OF assms(3-6) pad] by (simp_all add: rewritten_def)
  have "inner_serialize mem n ob = Inr (obj_bytes ?pad ob)"
    using assms(5) by (intro serialized_bytes assms plain_copied)
  moreover have "deserialize_bytes mem' (length (obj_bytes ?pad ob)) n t (obj_bytes ?pad ob) = Inr ?w"
    by (intro deserialized_bytes assms pad order_refl)
  moreover have "inner_serialize mem n ?w = Inr (obj_bytes ?pad ob)"
    using serialized_bytes [OF assms(1) rw(2,3)] assms(7) rw(1) by simp
  ultimately show ?thesis by blast
qed

theorem older_class_keeps_data_witness:
  "\<exists>bytes w. inner_serialize example_memory 2 example_new = Inr bytes \<and>
     deserialize_bytes example_memory (length bytes) 2 example_old_default bytes = Inr w \<and>
     inner_serialize example_memory 2 w = Inr bytes"
  by (rule older_class_keeps_data)
    (simp add: example_defs memory_ok_def, simp add: example_defs memory_ok_def,
      simp add: example_defs same_scalar_def type_info_max_def, simp add: example_defs, simp add: example_defs,
      simp add: example_defs, simp add: example_length)

text \<open>C19: A reader of any version gets, from the bytes cut into any buffers, the object that \<open>adopt\<close>
  describes: its fields with the values written, those the data lacks as they were, and the rest as
  unknown data.\<close>

theorem any_version_reads:
  assumes "memory_ok mem" "fits t ob" "plain_obj ob" "obj_depth ob \<le> n" "length pad = 3"
    and "length (obj_bytes pad ob) < 2 ^ 32" "length (obj_bytes pad ob) \<le> k"
    and "concat buffers = obj_bytes pad ob" "[] \<notin> set buffers" "0 < m"
  shows "inner_deserialize mem k n t m buffers = Inr (adopt pad t ob)"
  using assms by (rule deserialized_object)

theorem any_version_reads_witness:
  "inner_deserialize example_memory 100 2 example_new_default 9
      [take 5 (obj_bytes [0, 0, 0] example_old_default), drop 5 (obj_bytes [0, 0, 0] example_old_default)] =
    Inr (adopt [0, 0, 0] example_new_default example_old_default)"
proof (rule any_version_reads)
  show "memory_ok example_memory" by (simp add: example_defs memory_ok_def)
  show "fits example_new_default example_old_default" by (simp add: example_defs same_scalar_def type_info_max_def)
  show "plain_obj example_old_default" "obj_depth example_old_default \<le> 2" by (simp_all add: example_defs)
  show "length (obj_bytes [0, 0, 0] example_old_default) < 2 ^ 32" "length (obj_bytes [0, 0, 0] example_old_default) \<le> 100"
    by (simp_all add: example_length)
  show "[] \<notin> set [take 5 (obj_bytes [0, 0, 0] example_old_default), drop 5 (obj_bytes [0, 0, 0] example_old_default)]"
    using example_length(3) by auto
qed simp_all

text \<open>C20: What is serialized is the format: the header with the length, the type information, and the
  scopes with the bytes of the fields followed by the unknown data of the scope.\<close>

theorem serialized_form:
  assumes "memory_ok mem" "copied_obj ob" "obj_depth ob \<le> n" "length (obj_bytes (mem_pad mem) ob) < 2 ^ 32"
  shows "inner_serialize mem n ob = Inr (obj_bytes (mem_pad mem) ob)"
  using assms by (rule serialized_bytes)

theorem serialized_form_witness:
  "inner_serialize example_memory 1 example_unknown =
    Inr (obj_bytes (mem_pad example_memory) example_unknown)"
  by (rule serialized_form)
    (simp add: example_defs memory_ok_def, simp add: example_defs, simp add: example_defs, simp add: example_length)

text \<open>C13: All the ways to serialize an object give the same bytes: into a vector, into a \<open>KBuffer\<close>, as
  operation buffers behind those of the caller; and the estimated size is their number.\<close>

theorem serializers_agree:
  assumes "memory_ok mem" "copied_obj ob" "obj_depth ob \<le> n" "length (obj_bytes (mem_pad mem) ob) < 2 ^ 32"
  shows "\<exists>bytes s buffers. inner_serialize mem n ob = Inr bytes \<and> serialize_to_kbuffer mem n ob = Inr bytes \<and>
    estimate_size mem n ob = Inr (length bytes) \<and> serialize_to_stream mem n 0 ob = Inr s \<and>
    operation_buffers [] known (ser_inner s) = Inr (buffers, known + of_nat (length bytes)) \<and> concat buffers = bytes"
proof -
  let ?d = "obj_bytes (mem_pad mem) ob"
  obtain s where s: "serialize_to_stream mem n 0 ob = Inr s" "untouched (ser_inner s) ?d (length ?d)"
    by (rule serialize_to_stream_appends [OF assms])
  obtain d where d: "?d = meta_object # d" using obj_bytes_starts by blast
  have "operation_buffers [] known (ser_inner s) = Inr ([] @ blocks_used (ser_inner s), known + of_nat (Suc (length d)))"
    using s(2) unfolding d by (intro operation_buffers_outcome) simp_all
  moreover have "concat (blocks_used (ser_inner s)) = ?d"
    using s(2) by (intro blocks_used_concat [where p = "length ?d"]) (simp add: untouched_def)
  ultimately have o: "operation_buffers [] known (ser_inner s) = Inr (blocks_used (ser_inner s), known + of_nat (length ?d))"
      "concat (blocks_used (ser_inner s)) = ?d"
    by (simp_all add: d)
  show ?thesis
    by (intro exI conjI, rule serialized_bytes [OF assms], rule serialized_kbuffer(1) [OF assms],
        rule serialized_kbuffer(2) [OF assms], rule s(1), rule o(1), rule o(2))
qed

theorem serializers_agree_witness:
  "\<exists>bytes s buffers. inner_serialize example_memory 2 example_new = Inr bytes \<and>
    serialize_to_kbuffer example_memory 2 example_new = Inr bytes \<and>
    estimate_size example_memory 2 example_new = Inr (length bytes) \<and>
    serialize_to_stream example_memory 2 0 example_new = Inr s \<and>
    operation_buffers [] 7 (ser_inner s) = Inr (buffers, 7 + of_nat (length bytes)) \<and> concat buffers = bytes"
  by (rule serializers_agree)
    (simp add: example_defs memory_ok_def, simp add: example_defs, simp add: example_defs, simp add: example_length)

end
