(* ===== verification/Serialization_Failures.thy ===== *)
theory Serialization_Failures
  imports Serialization_Properties
begin

section \<open>Where serialization fails\<close>

text \<open>
  Outcomes of the serialization stack on data and objects that its formats allow: an object a reader
  never gets past, an array of pointers that cannot be read back, a stream too long for the copy into a
  \<open>KBuffer\<close>.
\<close>

subsection \<open>A length that leads back\<close>

text \<open>
  \<open>ReadUnknownObject\<close> adds the length in the header to the position of the header, in 32 bits. The
  length \<open>0xFFFFFFFF\<close> leads to the byte before the header, the metadata of the object itself.
\<close>

definition looping_object :: "u8 \<Rightarrow> u8 list \<Rightarrow> u8 list" where
  "looping_object flags pad = meta_object # header_bytes 0xFFFFFFFF flags pad"

lemma skip_single_object: "skip_single I meta_object s = skip_object I s"
  by (simp add: skip_single_def meta_defs)

context byte_file
begin

lemma skip_object_stuck:
  assumes "stands (ser_inner s) bs p" "drop p bs = looping_object flags pad @ r" "length pad = 3" "flags AND 2 \<noteq> 2"
  obtains s' where "skip_object ops s = Inr ((), s')" "stands (ser_inner s') bs p"
proof -
  let ?h = "header_bytes 0xFFFFFFFF flags pad"
  have d: "drop p bs = [meta_object] @ ?h @ r" using assms(2) by (simp add: looping_object_def)
  obtain s1 where s1: "read_metadata ops (ser_uninit s) s = Inr (meta_object, s1)" "stands (ser_inner s1) bs (Suc p)"
    using consumesD [OF consumes_metadata assms(1) refl le_refl d] by (auto elim: yieldsE)
  have d1: "drop (Suc p) bs = ?h @ r" using drop_append_length [OF d] by simp
  obtain s2 where s2: "read_header ops s1 = Inr ((0xFFFFFFFF, flags), s2)" "stands (ser_inner s2) bs (Suc p + length ?h)"
    using consumesD [OF consumes_header [OF assms(3)] s1(2) refl le_refl d1 TrueI] by (elim yieldsE) auto
  have p: "p \<le> length bs" "p < 2 ^ 32" using stands_bounds [OF assms(1)] by simp_all
  have around: "(1 + 0xFFFFFFFF :: u32) = 0" by code_simp
  have "(of_nat (Suc p) + 0xFFFFFFFF :: u32) = of_nat p + (1 + 0xFFFFFFFF)" by (simp only: of_nat_Suc ac_simps)
  then have e: "(of_nat (Suc p) + 0xFFFFFFFF :: u32) = of_nat p" unfolding around add_0_right .
  have u: "unat (of_nat (Suc p) + 0xFFFFFFFF :: u32) = p" unfolding e by (rule unat_u32 [OF p(2)])
  obtain t where "ser_seek ops (of_nat (Suc p) + 0xFFFFFFFF) s2 = Inr ((), s2\<lparr>ser_inner := t\<rparr>)" "stands t bs p"
    using ser_seek_at [OF s2(2), of "of_nat (Suc p) + 0xFFFFFFFF"] p(1) unfolding u by blast
  then show thesis
    using s1(1) s2(1) ser_position_at [OF s1(2)] assms(4) by (intro that [of "s2\<lparr>ser_inner := t\<rparr>"]) (simp_all add: skip_object_def del: of_nat_Suc)
qed

lemma skip_loop_stuck:
  assumes "stands (ser_inner s) bs (Suc p)" "ser_last_meta s = of_nat p" "p \<le> length bs"
    and "drop p bs = looping_object flags pad @ r" "length pad = 3" "flags AND 2 \<noteq> 2"
  shows "skip_to_scope_end ops k meta_object s = Inl FUEL_EXHAUSTED"
  using assms(1,2)
proof (induction k arbitrary: s)
  case 0
  then show ?case by (simp add: skip_to_scope_end.simps meta_defs)
next
  case (Suc k)
  obtain t where t: "seek_to_last_metadata ops s = Inr ((), s\<lparr>ser_inner := t\<rparr>)" "stands t bs p"
    by (rule seek_back_at [OF Suc.prems assms(3)])
  have st: "stands (ser_inner (s\<lparr>ser_inner := t\<rparr>)) bs p" using t(2) by simp
  obtain s2 where s2: "skip_object ops (s\<lparr>ser_inner := t\<rparr>) = Inr ((), s2)" "stands (ser_inner s2) bs p"
    by (rule skip_object_stuck [OF st assms(4,5,6)])
  have "drop p bs = meta_object # header_bytes 0xFFFFFFFF flags pad @ r" using assms(4) by (simp add: looping_object_def)
  then obtain t2 where m: "read_metadata ops meta_object s2 =
      Inr (meta_object, s2\<lparr>ser_inner := t2, ser_last_meta := of_nat p\<rparr>)" "stands t2 bs (Suc p)"
    by (rule read_metadata_at [OF s2(2)])
  have "skip_to_scope_end ops k meta_object (s2\<lparr>ser_inner := t2, ser_last_meta := of_nat p\<rparr>) = Inl FUEL_EXHAUSTED"
    using m(2) by (intro Suc.IH) simp_all
  moreover have "skip_item ops meta_object s = Inr ((), s2)"
    using t(1) s2(1) by (simp add: skip_item_def skip_single_object)
  moreover have "meta_object \<noteq> meta_scope_end" by (simp add: meta_defs)
  ultimately show ?case
    using m(1) by (simp add: skip_to_scope_end.simps [of ops "Suc k"])
qed

lemma read_end_type_stuck:
  assumes "stands (ser_inner s) bs p" "drop p bs = looping_object flags pad @ r" "length pad = 3" "flags AND 2 \<noteq> 2"
  shows "read_end_type ops k s = Inl FUEL_EXHAUSTED"
proof -
  have d: "drop p bs = meta_object # header_bytes 0xFFFFFFFF flags pad @ r" using assms(2) by (simp add: looping_object_def)
  obtain s1 s2 where s: "read_metadata ops (ser_uninit s) s = Inr (meta_object, s1)"
      "seek_to_last_metadata ops s1 = Inr ((), s2)" "stands (ser_inner s2) bs p"
    by (rule read_mark_at [OF assms(1) d, where v = "ser_uninit s"]) (rule that)
  obtain t where t: "read_metadata ops meta_scope_end s2 = Inr (meta_object, s2\<lparr>ser_inner := t, ser_last_meta := of_nat p\<rparr>)"
      "stands t bs (Suc p)"
    by (rule read_metadata_at [OF s(3) d])
  have "skip_to_scope_end ops k meta_object (s2\<lparr>ser_inner := t, ser_last_meta := of_nat p\<rparr>) = Inl FUEL_EXHAUSTED"
    using t(2) stands_bounds [OF assms(1)] by (intro skip_loop_stuck [OF _ _ _ assms(2,3,4)]) simp_all
  then show ?thesis
    using s t(1) by (simp add: read_end_type_def read_unknown_data_def meta_defs)
qed

lemma object_stuck:
  assumes "stands (ser_inner s) (framed pad0 [] (meta_scope_begin # looping_object flags pad @ r)) 0"
    and "length pad0 = 3" "length pad = 3" "flags AND 2 \<noteq> 2"
  shows "read_object ops k (Suc n) (Obj ti ([] # fss) unk) s = Inl FUEL_EXHAUSTED"
proof -
  let ?bs = "framed pad0 [] (meta_scope_begin # looping_object flags pad @ r)"
  obtain s1 s2 where s: "read_metadata ops (ser_uninit s) s = Inr (meta_object, s1)"
    "ser_position ops s1 = of_nat (Suc 0)"
    "read_header ops s1 = Inr ((of_nat (8 + length (meta_scope_begin # looping_object flags pad @ r)), 0), s2)"
    "stands (ser_inner s2) ?bs (0 + 9)" "drop (0 + 9) ?bs = (meta_scope_begin # looping_object flags pad @ r) @ []"
    by (rule object_header_at [OF assms(1) _ assms(2), where r = "[]" and v = "ser_uninit s"]) (auto intro: that)
  have d: "drop 9 ?bs = [meta_scope_begin] @ looping_object flags pad @ r" using s(5) by simp
  have st: "stands (ser_inner (push_object [] s2)) ?bs 9" using s(4) by (simp add: push_object_def)
  obtain s3 where s3: "read_start_type ops (push_object [] s2) = Inr ((), s3)" "stands (ser_inner s3) ?bs 10"
    using consumesD [OF consumes_start_type(1) st refl le_refl d] by (auto elim: yieldsE)
  have "drop 10 ?bs = looping_object flags pad @ r" using drop_append_length [OF d] by simp
  then have "read_end_type ops k s3 = Inl FUEL_EXHAUSTED"
    using s3(2) assms(3,4) read_end_type_stuck by blast
  moreover have "meta_object \<noteq> meta_scope_end" "\<not> is_end meta_object" by (simp_all add: meta_defs is_end_def)
  ultimately show ?thesis
    using s(1,2,3) s3(1) by (simp add: read_object_def read_serializable_def pass_type_info_def)
qed

end

subsection \<open>Arrays of null pointers\<close>

definition null_pointers :: "nat \<Rightarrow> u8 list" where
  "null_pointers n = make_array meta_pointer # u32_bytes (of_nat n) @ replicate n (make_empty meta_pointer)"

lemma length_null_pointers: "length (null_pointers n) \<le> n + 6"
proof -
  have "length (u32_bytes (of_nat n)) \<le> max_compression_size (type_size TYPE(32))"
    by (rule element_groups_marked) simp
  also have "\<dots> = 5" by (simp add: max_compression_size_def type_size_def)
  finally show ?thesis by (simp add: null_pointers_def)
qed

context byte_file
begin

lemma appends_null_pointers:
  assumes "0 < n"
  shows "appends stands pad stk stk (write_pointer_array ops w (replicate n None)) (null_pointers n)"
proof -
  have "appends stands pad stk stk (write_pointers ops w (replicate m None)) (replicate m (make_empty meta_pointer))" for m
  proof (induction m)
    case 0
    then show ?case by (simp add: write_pointers.simps [abs_def] appends_nil)
  next
    case (Suc m)
    then show ?case
      unfolding replicate_Suc write_pointers.simps [abs_def]
      by (intro appends_cons) (simp_all add: write_pointer_def [abs_def] appends_metadata)
  qed
  then show ?thesis
    unfolding null_pointers_def write_pointer_array_def [abs_def]
    using appends_cons [OF appends_metadata appends_seq [OF appends_u32]] assms by simp
qed

lemma null_pointers_too_many:
  assumes "stands (ser_inner s) (null_pointers n) p" "0 < n" "n < 2 ^ 31"
  shows "read_pointer_array ops body fresh (replicate n None) s = Inl K_STATUS_INVALID_STREAM_FORMAT"
proof -
  have l: "length (null_pointers n) < 2 ^ 32" "0 < length (null_pointers n)"
    using length_null_pointers [of n] assms(3) by (simp_all add: null_pointers_def)
  have "unat (op_size ops (ser_inner s)) = length (null_pointers n)"
    using size [OF assms(1)] l(1) by (simp add: unat_u32)
  moreover have "length (null_pointers n) < 8 * n"
    using length_null_pointers [of n] assms(2) by simp
  moreover have "unat (of_nat n :: u32) = n" using assms(3) by (simp add: unat_u32)
  ultimately show ?thesis
    using l(2) by (simp add: read_pointer_array_def read_array_head_def too_big_def)
qed

end

subsection \<open>The properties\<close>

text \<open>C12: A reader given an object whose unknown data holds an object with the length \<open>0xFFFFFFFF\<close> in its
  header never returns: whatever the bound on the rounds of the loop over unknown data, it is reached.\<close>

theorem unknown_object_hangs:
  assumes "memory_ok mem" "length pad = 3" "length pad' = 3" "flags AND 2 \<noteq> 2"
    and "length (framed pad [] (meta_scope_begin # looping_object flags pad' @ r)) < 2 ^ 32"
  shows "deserialize_bytes mem k (Suc n) (Obj ti ([] # fss) unk)
      (framed pad [] (meta_scope_begin # looping_object flags pad' @ r)) = Inl FUEL_EXHAUSTED"
proof -
  let ?d = "framed pad [] (meta_scope_begin # looping_object flags pad' @ r)"
  have d: "?d \<noteq> []" by (simp add: framed_def)
  obtain s where s: "receive_stream mem (of_nat (length ?d)) [?d] = Inr s" "fs_holds s (concat [?d]) 0"
    by (rule receive_buffers [OF assms(1), of "[?d]" "of_nat (length ?d)"])
      (use d assms(5) in \<open>simp_all add: word_less_nat_alt unat_u32\<close>)
  have "read_object fabric_ops k (Suc n) (Obj ti ([] # fss) unk) (ser_over s (mem_uninit mem) (mem_pad mem)) = Inl FUEL_EXHAUSTED"
    by (rule fs.object_stuck [OF _ assms(2,3,4)]) (use s(2) in \<open>simp add: ser_over_def\<close>)
  then show ?thesis
    using s(1) by (simp add: deserialize_bytes_def inner_deserialize_def)
qed

theorem unknown_object_hangs_witness:
  "deserialize_bytes example_memory 1000000 7 (Obj [] [[]] [])
     (framed [0, 0, 0] [] (meta_scope_begin # looping_object 0 [0, 0, 0] @ [])) = Inl FUEL_EXHAUSTED"
proof -
  have l: "length (framed [0, 0, 0] [] (meta_scope_begin # looping_object 0 [0, 0, 0] @ [])) = 19"
    by (simp add: length_framed looping_object_def length_header_bytes)
  show ?thesis
    using unknown_object_hangs [of example_memory "[0, 0, 0]" "[0, 0, 0]" 0 "[]" 1000000 6 "[]" "[]" "[]"]
    unfolding l by (simp add: example_memory_def memory_ok_def)
qed

text \<open>C15: An array of null pointers that was written to a stream of its own is not read back: the check
  against the size of the stream counts eight bytes for a pointer that takes one.\<close>

theorem null_pointers_rejected:
  assumes "memory_ok mem" "0 < n" "n < 2 ^ 31"
  shows "\<exists>s s'. write_pointer_array fabric_ops w (replicate n None)
        (ser_over (fs_create (mem_grow mem) 0 (mem_garbage mem)) (mem_uninit mem) (mem_pad mem)) = Inr ((), s) \<and>
      ser_seek fabric_ops 0 s = Inr ((), s') \<and>
      read_pointer_array fabric_ops body fresh (replicate n None) s' = Inl K_STATUS_INVALID_STREAM_FORMAT"
proof -
  let ?s = "ser_over (fs_create (mem_grow mem) 0 (mem_garbage mem)) (mem_uninit mem) (mem_pad mem)"
  have "fs_holds (fs_create (mem_grow mem) 0 (mem_garbage mem)) [] 0"
    using fs_create_untouched [OF assms(1)] by (rule untouched_holds)
  then have "writing fs_holds (mem_pad mem) [] ?s []"
    using assms(1) by (simp add: writing_def ser_over_def memory_ok_def)
  moreover have "length (null_pointers n) < 2 ^ 32" using length_null_pointers [of n] assms(3) by simp
  ultimately obtain s where s: "write_pointer_array fabric_ops w (replicate n None) ?s = Inr ((), s)"
      "writing fs_holds (mem_pad mem) [] s (null_pointers n)"
    using appendsD [OF fs.appends_null_pointers [OF assms(2)]] by (fastforce elim!: yieldsE)
  obtain t where t: "ser_seek fabric_ops 0 s = Inr ((), s\<lparr>ser_inner := t\<rparr>)" "fs_holds t (null_pointers n) 0"
    using fs.ser_seek_at [of s "null_pointers n" "length (null_pointers n)" 0] s(2) by (auto simp: writing_def)
  have "read_pointer_array fabric_ops body fresh (replicate n None) (s\<lparr>ser_inner := t\<rparr>) = Inl K_STATUS_INVALID_STREAM_FORMAT"
    by (rule fs.null_pointers_too_many [OF _ assms(2,3)]) (use t(2) in simp)
  then show ?thesis using s(1) t(1) by blast
qed

theorem null_pointers_rejected_witness:
  "\<exists>s s'. write_pointer_array fabric_ops (\<lambda>ob s. Inr ((), s)) (replicate 2 None)
        (ser_over (fs_create (mem_grow example_memory) 0 (mem_garbage example_memory)) (mem_uninit example_memory)
          (mem_pad example_memory)) = Inr ((), s) \<and>
      ser_seek fabric_ops 0 s = Inr ((), s') \<and>
      read_pointer_array fabric_ops (\<lambda>ob n p s. Inr (ob, s)) (Obj [] [] []) (replicate 2 None) s' =
        Inl K_STATUS_INVALID_STREAM_FORMAT"
  by (rule null_pointers_rejected) (simp_all add: example_memory_def memory_ok_def)

text \<open>C14: The copy of a serialized object into a \<open>KBuffer\<close> over the list of its buffers is exact while the
  stream has at most 16 blocks; with more it reads outside the array of 16 buffers, since
  \<open>K_STATUS_BUFFER_TOO_SMALL\<close> counts as a success.\<close>

theorem kbuffer_needs_few_blocks:
  assumes "memory_ok mem" "copied_obj ob" "obj_depth ob \<le> n" "length (obj_bytes (mem_pad mem) ob) < 2 ^ 32"
    and "serialize_to_stream mem n 0 ob = Inr s"
  shows "kbuffer_from_stream mem (ser_inner s) =
    (if length (ch_buffers (fs_channel (ser_inner s))) \<le> 16 then inner_serialize mem n ob else Inl PROCESS_STOPPED)"
proof -
  let ?d = "obj_bytes (mem_pad mem) ob"
  obtain s' where "serialize_to_stream mem n 0 ob = Inr s'" "untouched (ser_inner s') ?d (length ?d)"
    by (rule serialize_to_stream_appends [OF assms(1-4)])
  then have "fs_holds (ser_inner s) ?d (length ?d)" "fs_extension (ser_inner s) = []"
    using assms(5) by (simp_all add: untouched_def)
  from kbuffer_outcome [OF this] show ?thesis
    using serialized_bytes [OF assms(1-4)] by simp
qed

definition small_blocks :: memory where
  "small_blocks = \<lparr>mem_grow = 1, mem_garbage = 0, mem_uninit = 0x2F, mem_pad = [1, 2, 3]\<rparr>"

definition large_object :: obj where
  "large_object = Obj [] [[F_Array (A_UChar (replicate 140 1))]] []"

lemma large_object_blocks:
  "map_sum id (\<lambda>s. length (ch_buffers (fs_channel (ser_inner s)))) (serialize_to_stream small_blocks 1 0 large_object) = Inr 28"
  "length (obj_bytes (mem_pad small_blocks) large_object) = 155"
  by code_simp+

theorem kbuffer_needs_few_blocks_witness:
  "map_sum id (\<lambda>s. kbuffer_from_stream small_blocks (ser_inner s)) (serialize_to_stream small_blocks 1 0 large_object) =
    Inr (Inl PROCESS_STOPPED)"
proof -
  obtain s where s: "serialize_to_stream small_blocks 1 0 large_object = Inr s"
      "length (ch_buffers (fs_channel (ser_inner s))) = 28"
    using large_object_blocks(1) by (cases "serialize_to_stream small_blocks 1 0 large_object") auto
  have "kbuffer_from_stream small_blocks (ser_inner s) =
    (if length (ch_buffers (fs_channel (ser_inner s))) \<le> 16 then inner_serialize small_blocks 1 large_object else Inl PROCESS_STOPPED)"
    by (rule kbuffer_needs_few_blocks [OF _ _ _ _ s(1)])
      (simp add: small_blocks_def memory_ok_def, simp add: large_object_def, simp add: large_object_def,
        simp add: large_object_blocks(2))
  then show ?thesis using s by simp
qed

end
