(* ===== verification/Object_Classes.thy ===== *)
theory Object_Classes
  imports Serialization_Properties
begin

section \<open>Reading keeps classes\<close>

text \<open>
  An object is of the class of another when it has the same type information, the same scopes and fields
  of the same types. A reader fills an object of a class, with the objects its pointers and vectors hold,
  from bytes anyone may have sent; whatever they are, what it returns is of the class and holds only
  objects of the declared classes. No law of the inner stream is needed for it.
\<close>

fun of_field :: "field \<Rightarrow> field \<Rightarrow> bool" and of_class :: "obj \<Rightarrow> obj \<Rightarrow> bool" where
  "of_field (F_Scalar a) f = (case f of F_Scalar b \<Rightarrow> scalar_type a = scalar_type b | _ \<Rightarrow> False)"
| "of_field (F_Array a) f = (case f of F_Array b \<Rightarrow> array_type a = array_type b | _ \<Rightarrow> False)"
| "of_field (F_Object a) f = (case f of F_Object b \<Rightarrow> of_class a b | _ \<Rightarrow> False)"
| "of_field (F_Pointer fresh _) f = (case f of F_Pointer fresh' _ \<Rightarrow> fresh' = fresh | _ \<Rightarrow> False)"
| "of_field (F_Objects fresh _) f = (case f of F_Objects fresh' _ \<Rightarrow> fresh' = fresh | _ \<Rightarrow> False)"
| "of_field (F_Pointers fresh _) f = (case f of F_Pointers fresh' _ \<Rightarrow> fresh' = fresh | _ \<Rightarrow> False)"
| "of_field (F_No_Copy _) f = (case f of F_No_Copy _ \<Rightarrow> True | _ \<Rightarrow> False)"
| "of_class (Obj ti fss _) (Obj ti' vss _) \<longleftrightarrow> ti = ti' \<and> list_all2 (list_all2 of_field) fss vss"


lemma of_class_refl [simp]: "of_field f f" "of_class ob ob"
proof -
  have "of_field f f" and "of_class ob ob" for f ob
    by (induction f and ob rule: field.induct obj.induct) (auto intro!: list.rel_refl_strong)
  then show "of_field f f" "of_class ob ob" by blast+
qed



subsection \<open>What a call gives when it succeeds\<close>

definition gives :: "('a, 's) outcome \<Rightarrow> ('a \<Rightarrow> bool) \<Rightarrow> bool" where
  "gives r Q = (case r of Inl e \<Rightarrow> True | Inr (x, s) \<Rightarrow> Q x)"

lemma gives_simps [simp]: "gives (Inl e) Q" "gives (Inr (x, s)) Q = Q x"
  by (simp_all add: gives_def)



lemma gives_if [simp]: "gives (if b then r else r') Q \<longleftrightarrow> (b \<longrightarrow> gives r Q) \<and> (\<not> b \<longrightarrow> gives r' Q)"
  by simp





lemma resize_array_type [simp]: "array_type (resize_array n a) = array_type a"
  by (cases a) simp_all




















end
