(* ===== verification/Stream_Refinement.thy ===== *)
theory Stream_Refinement
  imports Fabric_Serializer
begin

section \<open>A fabric stream is a file\<close>

text \<open>
  The specification of \<open>IFabricStream\<close> as a client sees it: a list of bytes with a position, and what each
  action answers. A client stops at the first refusal. The simulation is proved once for every
  implementation of \<open>byte_file\<close> and applied to \<open>FabricStream\<close> over its channel of blocks.
\<close>

datatype file_action = Act_Write "u8 list" | Act_Read u32 | Act_Seek u32 | Act_Seek_End | Act_Position | Act_Size

datatype file_answer = Done | Bytes "u8 list" | Number u32 | Refused ntstatus

type_synonym byte_list_file = "u8 list \<times> nat"

fun file_act :: "file_action \<Rightarrow> byte_list_file \<Rightarrow> file_answer \<times> byte_list_file option" where
  "file_act (Act_Write d) (bs, p) = (Done, Some (overwrite bs p d, p + length d))"
| "file_act (Act_Read n) (bs, p) =
    (if length bs < p + unat n then (Refused K_STATUS_COULD_NOT_READ_STREAM, None)
     else (Bytes (take (unat n) (drop p bs)), Some (bs, p + unat n)))"
| "file_act (Act_Seek v) (bs, p) =
    (if length bs < unat v then (Refused STATUS_INVALID_PARAMETER, None) else (Done, Some (bs, unat v)))"
| "file_act Act_Seek_End (bs, p) = (Done, Some (bs, length bs))"
| "file_act Act_Position (bs, p) = (Number (of_nat p), Some (bs, p))"
| "file_act Act_Size (bs, p) = (Number (of_nat (length bs)), Some (bs, p))"

fun answer :: "('a \<Rightarrow> file_answer) \<Rightarrow> ntstatus \<Rightarrow> 'a \<Rightarrow> 's \<Rightarrow> file_answer \<times> 's option" where
  "answer f st x s = (if nt_error st then (Refused st, None) else (f x, Some s))"

fun stream_act :: "'s stream_ops \<Rightarrow> file_action \<Rightarrow> 's \<Rightarrow> file_answer \<times> 's option" where
  "stream_act I (Act_Write d) s = (let (st, t) = op_write I d s in answer (\<lambda>_. Done) st () t)"
| "stream_act I (Act_Read n) s = (let (st, d, t) = op_read I n s in answer Bytes st d t)"
| "stream_act I (Act_Seek v) s = (let (st, t) = op_seek I v s in answer (\<lambda>_. Done) st () t)"
| "stream_act I Act_Seek_End s = (let (st, t) = op_seek_to_end I s in answer (\<lambda>_. Done) st () t)"
| "stream_act I Act_Position s = (Number (op_position I s), Some s)"
| "stream_act I Act_Size s = (Number (op_size I s), Some s)"

primrec run :: "('a \<Rightarrow> 's \<Rightarrow> 'b \<times> 's option) \<Rightarrow> 'a list \<Rightarrow> 's \<Rightarrow> 'b list \<times> 's option" where
  "run act [] s = ([], Some s)"
| "run act (a # rest) s =
    (case act a s of
       (x, None) \<Rightarrow> ([x], None)
     | (x, Some t) \<Rightarrow> (let (xs, u) = run act rest t in (x # xs, u)))"

text \<open>The actions of a client: no read of no bytes, and no more bytes written than a stream can hold.\<close>

fun written :: "file_action \<Rightarrow> nat" where
  "written (Act_Write d) = length d"
| "written a = 0"

definition allowed :: "file_action list \<Rightarrow> bool" where
  "allowed acts \<longleftrightarrow> Act_Read 0 \<notin> set acts \<and> sum_list (map written acts) < 2 ^ 32"

text \<open>The simulation.\<close>

definition simulates ::
  "('s \<Rightarrow> u8 list \<Rightarrow> nat \<Rightarrow> bool) \<Rightarrow> file_answer \<times> 's option \<Rightarrow> file_answer \<times> byte_list_file option \<Rightarrow> bool" where
  "simulates stands r r' \<longleftrightarrow> fst r = fst r' \<and> rel_option (\<lambda>s (bs, p). stands s bs p) (snd r) (snd r')"

context byte_file
begin

lemma act_simulates:
  assumes "stands s bs p" "a \<noteq> Act_Read 0" "length bs + written a < 2 ^ 32"
  shows "simulates stands (stream_act ops a s) (file_act a (bs, p))"
proof (cases a)
  case (Act_Write d)
  have "p + length d < 2 ^ 32" using assms(1,3) stands_bounds Act_Write by fastforce
  then obtain t where "op_write ops d s = (STATUS_SUCCESS, t)" "stands t (overwrite bs p d) (p + length d)"
    using write_at [OF assms(1)] by blast
  then show ?thesis by (simp add: Act_Write simulates_def)
next
  case (Act_Read n)
  have "0 < unat n" using assms(2) by (auto simp: Act_Read unat_gt_0 word_neq_0_conv)
  then show ?thesis
    using read_at [OF assms(1), of n] read_past_end [OF assms(1), of n]
    by (auto simp: Act_Read simulates_def not_less)
next
  case (Act_Seek v)
  then show ?thesis
    using seek_inside [OF assms(1), of v] seek_outside [OF assms(1), of v] by (auto simp: simulates_def not_less)
next
  case Act_Seek_End
  then show ?thesis using seek_to_end [OF assms(1)] by (auto simp: simulates_def)
qed (use assms(1) position size in \<open>simp_all add: simulates_def\<close>)

lemma file_grows:
  "file_act a (bs, p) = (x, Some (bs', p')) \<Longrightarrow> p \<le> length bs \<Longrightarrow> length bs' \<le> length bs + written a"
  by (cases a) (auto simp: length_overwrite split: if_splits)

lemma run_simulates:
  assumes "stands s bs p" "Act_Read 0 \<notin> set acts" "length bs + sum_list (map written acts) < 2 ^ 32"
  shows "fst (run (stream_act ops) acts s) = fst (run file_act acts (bs, p))"
    "rel_option (\<lambda>s (bs, p). stands s bs p) (snd (run (stream_act ops) acts s)) (snd (run file_act acts (bs, p)))"
proof -
  have "fst (run (stream_act ops) acts s) = fst (run file_act acts (bs, p)) \<and>
    rel_option (\<lambda>s (bs, p). stands s bs p) (snd (run (stream_act ops) acts s)) (snd (run file_act acts (bs, p)))"
    using assms
  proof (induction acts arbitrary: s bs p)
    case (Cons a acts)
    have sim: "simulates stands (stream_act ops a s) (file_act a (bs, p))"
      using Cons.prems by (intro act_simulates) auto
    obtain x r where r: "stream_act ops a s = (x, r)" by fastforce
    obtain r' where r': "file_act a (bs, p) = (x, r')" "rel_option (\<lambda>s (bs, p). stands s bs p) r r'"
      using sim r by (cases "file_act a (bs, p)") (auto simp: simulates_def)
    show ?case
    proof (cases r')
      case None
      then show ?thesis using r r' by simp
    next
      case (Some f)
      obtain bs' p' where f: "f = (bs', p')" by fastforce
      then obtain t where t: "r = Some t" "stands t bs' p'" using r'(2) Some by (cases r) auto
      have "length bs' \<le> length bs + written a"
        using file_grows r'(1) Some f stands_bounds [OF Cons.prems(1)] by blast
      then have "fst (run (stream_act ops) acts t) = fst (run file_act acts (bs', p')) \<and>
          rel_option (\<lambda>s (bs, p). stands s bs p) (snd (run (stream_act ops) acts t)) (snd (run file_act acts (bs', p')))"
        using Cons.prems t(2) by (intro Cons.IH) auto
      then show ?thesis using r r' t(1) Some f by (simp add: case_prod_unfold Let_def)
    qed
  qed simp
  then show "fst (run (stream_act ops) acts s) = fst (run file_act acts (bs, p))"
    "rel_option (\<lambda>s (bs, p). stands s bs p) (snd (run (stream_act ops) acts s)) (snd (run file_act acts (bs, p)))"
    by simp_all
qed

end

text \<open>C6: A new stream behaves as an empty file: whatever a client writes, reads and seeks, over however many
  blocks, it gets the answers of the file, and the buffers of the stream it ends with hold the bytes of the
  file it ends with.\<close>

theorem stream_refines_file:
  assumes "memory_ok mem" "allowed acts"
  shows "\<exists>answers r. run (stream_act fabric_ops) acts (fs_create (mem_grow mem) 0 (mem_garbage mem)) = (answers, r) \<and>
    (case run file_act acts ([], 0) of
       (answers', None) \<Rightarrow> answers = answers' \<and> r = None
     | (answers', Some (bs, p)) \<Rightarrow> answers = answers' \<and> (\<exists>s ds t. r = Some s \<and> stream_buffers s = Inr (ds, t) \<and> concat ds = bs))"
proof -
  let ?s = "fs_create (mem_grow mem) 0 (mem_garbage mem)"
  have acts: "Act_Read 0 \<notin> set acts" "length ([] :: u8 list) + sum_list (map written acts) < 2 ^ 32"
    using assms(2) by (simp_all add: allowed_def)
  note sim = fresh_fs.run_simulates [OF fs_create_untouched [OF assms(1), of "mem_garbage mem"] acts]
  obtain answers r where r: "run (stream_act fabric_ops) acts ?s = (answers, r)" by fastforce
  obtain f where f: "run file_act acts ([], 0) = (answers, f)"
      "rel_option (\<lambda>s (bs, p). untouched s bs p) r f"
    using sim r by (cases "run file_act acts ([], 0)") auto
  have "\<exists>s ds t. r = Some s \<and> stream_buffers s = Inr (ds, t) \<and> concat ds = bs" if "f = Some (bs, p)" for bs p
  proof -
    obtain s where s: "r = Some s" "untouched s bs p" using f(2) \<open>f = Some (bs, p)\<close> by (cases r) auto
    have "\<exists>ds t. stream_buffers s = Inr (ds, t) \<and> concat ds = bs"
      by (rule stream_buffers_concat [where p = p]) (use s(2) in \<open>simp_all add: untouched_def\<close>)
    then show ?thesis using s(1) by blast
  qed
  moreover have "f = None \<Longrightarrow> r = None" using f(2) by (cases r) auto
  ultimately show ?thesis
    using r f(1) by (cases f) auto
qed

definition tiny_blocks :: memory where
  "tiny_blocks = \<lparr>mem_grow = 2, mem_garbage = 7, mem_uninit = 0, mem_pad = [0, 0, 0]\<rparr>"

theorem stream_refines_file_witness:
  "\<exists>answers r. run (stream_act fabric_ops) [Act_Write [1, 2, 3], Act_Seek 1, Act_Write [9], Act_Read 1, Act_Seek_End, Act_Size]
      (fs_create (mem_grow tiny_blocks) 0 (mem_garbage tiny_blocks)) = (answers, r) \<and>
    answers = [Done, Done, Done, Bytes [3], Done, Number 3] \<and>
    (\<exists>s ds t. r = Some s \<and> stream_buffers s = Inr (ds, t) \<and> concat ds = [1, 9, 3])"
proof -
  let ?acts = "[Act_Write [1, 2, 3], Act_Seek 1, Act_Write [9], Act_Read 1, Act_Seek_End, Act_Size]"
  have e: "run file_act ?acts ([], 0) = ([Done, Done, Done, Bytes [3], Done, Number 3], Some ([1, 9, 3], 3))"
    by code_simp
  have "memory_ok tiny_blocks" "allowed ?acts" by (simp_all add: tiny_blocks_def memory_ok_def allowed_def)
  from stream_refines_file [OF this] show ?thesis
    unfolding e prod.case option.case .
qed

end
