(* ===== verification/Partner_Node.thy ===== *)
theory Partner_Node
  imports Node_Instance Fabric_Time Routing_Token
begin

section \<open>PartnerNode: what a node knows of another node\<close>

text \<open>
  src/prod/src/Federation/NodePhase.h, PartnerNode.h, PartnerNode.cpp and
  FederationPartnerNodeHeader.h. The nodes are shared objects: the tables hold references, the
  objects stand in a heap (\<open>node_heap\<close>), and the members that the source declares \<open>mutable\<close> are
  updated there. \<open>Stopwatch::Now()\<close> is the argument \<open>now\<close>; the target to which a node's messages are
  sent belongs to the transport, and is a number that \<open>ResolveTarget\<close>, an argument, gives. What an
  operation tells the transport and the lease agent is returned as a list of events. The printed
  form of the id (\<open>idString_\<close>) is not kept.
\<close>

datatype node_phase = Booting | Joining | Inserting | Routing | Shutdown

definition phase_code :: "node_phase \<Rightarrow> nat" where
  "phase_code p = (case p of Booting \<Rightarrow> 0 | Joining \<Rightarrow> 1 | Inserting \<Rightarrow> 2 | Routing \<Rightarrow> 3 | Shutdown \<Rightarrow> 4)"

lemma phase_code_eq: "phase_code p = phase_code q \<longleftrightarrow> p = q"
  by (cases p; cases q) (simp_all add: phase_code_def)

instantiation node_phase :: linorder
begin

definition less_eq_node_phase :: "node_phase \<Rightarrow> node_phase \<Rightarrow> bool" where
  "less_eq_node_phase p q \<longleftrightarrow> phase_code p \<le> phase_code q"

definition less_node_phase :: "node_phase \<Rightarrow> node_phase \<Rightarrow> bool" where
  "less_node_phase p q \<longleftrightarrow> phase_code p < phase_code q"

instance
  by standard (auto simp: less_eq_node_phase_def less_node_phase_def phase_code_eq)

end

definition phase_available :: "node_phase \<Rightarrow> bool" where
  "phase_available p \<longleftrightarrow> p = Inserting \<or> p = Routing"

record partner_node =
  pn_site_id :: node_id
  pn_instance :: node_instance
  pn_phase :: node_phase
  pn_token :: routing_token
  pn_address :: string
  pn_lease_address :: string
  pn_lease_instance :: int
  pn_fault_domain :: string
  pn_last_updated :: stopwatch_time
  pn_last_accessed :: stopwatch_time
  pn_last_consider :: stopwatch_time
  pn_unknown_start :: stopwatch_time
  pn_is_unknown :: bool
  pn_next_liveness_update :: stopwatch_time
  pn_target :: "nat option"
  pn_upper_limit :: time_span
  pn_last_refresh :: stopwatch_time
  pn_ring_name :: string
  pn_flags :: int

abbreviation pn_id :: "partner_node \<Rightarrow> node_id" where
  "pn_id n \<equiv> ni_id (pn_instance n)"

definition pn_available :: "partner_node \<Rightarrow> bool" where
  "pn_available n \<longleftrightarrow> phase_available (pn_phase n)"

definition pn_routing :: "partner_node \<Rightarrow> bool" where
  "pn_routing n \<longleftrightarrow> pn_phase n = Routing"

definition pn_shutdown :: "partner_node \<Rightarrow> bool" where
  "pn_shutdown n \<longleftrightarrow> pn_phase n = Shutdown"

record node_header =
  nh_instance :: node_instance
  nh_phase :: node_phase
  nh_address :: string
  nh_lease_address :: string
  nh_lease_instance :: int
  nh_token :: routing_token
  nh_fault_domain :: string
  nh_end_to_end :: bool
  nh_ring_name :: string
  nh_flags :: int

definition header_of_node :: "bool \<Rightarrow> partner_node \<Rightarrow> node_header" where
  "header_of_node endToEnd n =
     \<lparr>nh_instance = pn_instance n, nh_phase = pn_phase n, nh_address = pn_address n,
      nh_lease_address = pn_lease_address n, nh_lease_instance = pn_lease_instance n,
      nh_token = pn_token n, nh_fault_domain = pn_fault_domain n, nh_end_to_end = endToEnd,
      nh_ring_name = pn_ring_name n, nh_flags = pn_flags n\<rparr>"

definition nh_available :: "node_header \<Rightarrow> bool" where
  "nh_available nh \<longleftrightarrow> phase_available (nh_phase nh)"

subsection \<open>What the environment is told\<close>

datatype table_event =
    EstablishLease node_instance
  | TerminateLease node_instance
  | TargetDown nat u64
  | ResetTarget nat

type_synonym resolve_target = "string \<Rightarrow> node_instance \<Rightarrow> nat option"

subsection \<open>Constructors\<close>

definition node_of_header :: "resolve_target \<Rightarrow> stopwatch_time \<Rightarrow> node_id \<Rightarrow> node_header \<Rightarrow> partner_node" where
  "node_of_header resolve now site nh =
     \<lparr>pn_site_id = site, pn_instance = nh_instance nh, pn_phase = nh_phase nh, pn_token = nh_token nh,
      pn_address = nh_address nh, pn_lease_address = nh_lease_address nh,
      pn_lease_instance = nh_lease_instance nh, pn_fault_domain = nh_fault_domain nh,
      pn_last_updated = now, pn_last_accessed = now, pn_last_consider = now,
      pn_unknown_start = time_max, pn_is_unknown = False, pn_next_liveness_update = time_max,
      pn_target = (if nh_phase nh = Shutdown then None else resolve (nh_address nh) (nh_instance nh)),
      pn_upper_limit = span_max, pn_last_refresh = 0,
      pn_ring_name = nh_ring_name nh, pn_flags = nh_flags nh\<rparr>"

text \<open>The copy with another phase and token; the copy that shuts down takes the target down.\<close>

definition node_changed :: "stopwatch_time \<Rightarrow> partner_node \<Rightarrow> node_phase \<Rightarrow> routing_token \<Rightarrow> partner_node" where
  "node_changed now old phase token = old
     \<lparr>pn_phase := phase, pn_token := token,
      pn_last_updated := now, pn_last_accessed := now, pn_last_consider := now,
      pn_is_unknown := False, pn_unknown_start := time_max, pn_next_liveness_update := time_max,
      pn_target := (if phase = Shutdown then None else pn_target old)\<rparr>"

definition node_changed_events :: "partner_node \<Rightarrow> node_phase \<Rightarrow> table_event list" where
  "node_changed_events old phase =
     (if phase = Shutdown
      then (case pn_target old of Some t \<Rightarrow> [TargetDown t (ni_instance (pn_instance old))] | None \<Rightarrow> [])
      else [])"

text \<open>
  The copy constructor copies neither \<open>nodeFaultDomainId_\<close>, which becomes the empty \<open>Uri\<close>, nor
  \<open>flags_\<close>, which is left to what the memory held (\<open>junk\<close>).
\<close>

definition node_copy :: "int \<Rightarrow> partner_node \<Rightarrow> partner_node" where
  "node_copy junk other = other\<lparr>pn_fault_domain := [], pn_flags := junk\<rparr>"

definition node_of_config ::
  "resolve_target \<Rightarrow> stopwatch_time \<Rightarrow> node_id \<Rightarrow> node_id \<Rightarrow> string \<Rightarrow> string \<Rightarrow> string \<Rightarrow> partner_node" where
  "node_of_config resolve now site i address lease ring =
     \<lparr>pn_site_id = site, pn_instance = NodeInstance i 0, pn_phase = Booting, pn_token = empty_token,
      pn_address = address, pn_lease_address = lease,
      pn_lease_instance = 0, pn_fault_domain = [],
      pn_last_updated = now, pn_last_accessed = now, pn_last_consider = now,
      pn_unknown_start = time_max, pn_is_unknown = False, pn_next_liveness_update = time_max,
      pn_target = resolve address (NodeInstance i 0),
      pn_upper_limit = span_max, pn_last_refresh = 0, pn_ring_name = ring, pn_flags = 1\<rparr>"

definition node_of_site ::
  "stopwatch_time \<Rightarrow> node_id \<Rightarrow> u64 \<Rightarrow> string \<Rightarrow> string \<Rightarrow> string \<Rightarrow> string \<Rightarrow> partner_node" where
  "node_of_site now i inst address lease domain ring =
     \<lparr>pn_site_id = i, pn_instance = NodeInstance i inst, pn_phase = Booting,
      pn_token = \<lparr>rt_range = empty_range, rt_version = 0\<rparr>,
      pn_address = address, pn_lease_address = lease,
      pn_lease_instance = 0, pn_fault_domain = domain,
      pn_last_updated = now, pn_last_accessed = now, pn_last_consider = now,
      pn_unknown_start = time_max, pn_is_unknown = False, pn_next_liveness_update = time_max,
      pn_target = None,
      pn_upper_limit = span_max, pn_last_refresh = 0, pn_ring_name = ring, pn_flags = 1\<rparr>"

definition node_increment_instance :: "partner_node \<Rightarrow> partner_node" where
  "node_increment_instance n = n\<lparr>pn_instance := increment_instance_id (pn_instance n)\<rparr>"

subsection \<open>Whether a node answers\<close>

definition set_as_unknown :: "stopwatch_time \<Rightarrow> partner_node \<Rightarrow> partner_node" where
  "set_as_unknown now n = n\<lparr>pn_unknown_start := now, pn_is_unknown := True\<rparr>"

text \<open>\<open>getIsUnknown\<close> notes in \<open>isUnknown_\<close>, which only tracing reads, that it has reported the node.\<close>

definition get_is_unknown :: "stopwatch_time \<Rightarrow> partner_node \<Rightarrow> bool \<times> partner_node" where
  "get_is_unknown now n =
     (if pn_unknown_start n = time_max then (False, n)
      else if pn_unknown_start n > now then (False, n)
      else (True, n\<lparr>pn_is_unknown := True\<rparr>))"

abbreviation pn_unknown :: "stopwatch_time \<Rightarrow> partner_node \<Rightarrow> bool" where
  "pn_unknown now n \<equiv> fst (get_is_unknown now n)"

definition on_send :: "time_span \<Rightarrow> stopwatch_time \<Rightarrow> bool \<Rightarrow> partner_node \<Rightarrow> partner_node" where
  "on_send retryTimeout now expectsReply n =
     (let n = n\<lparr>pn_next_liveness_update := time_max\<rparr>
      in if expectsReply \<and> pn_unknown_start n = time_max
         then n\<lparr>pn_unknown_start := time_add now (span_sub retryTimeout timer_margin)\<rparr> else n)"

definition on_receive :: "time_span \<Rightarrow> stopwatch_time \<Rightarrow> bool \<Rightarrow> partner_node \<Rightarrow> partner_node" where
  "on_receive livenessInterval now expectsReply n =
     (let n = n\<lparr>pn_is_unknown := False, pn_unknown_start := time_max\<rparr>
      in if expectsReply \<and> pn_next_liveness_update n = time_max
         then n\<lparr>pn_next_liveness_update := time_add now livenessInterval\<rparr> else n)"

subsection \<open>The upper limit of the node's clock offset\<close>

definition get_upper_limit :: "int \<Rightarrow> stopwatch_time \<Rightarrow> partner_node \<Rightarrow> time_span \<times> partner_node" where
  "get_upper_limit driftRatio now n =
     (let n = (if pn_upper_limit n \<noteq> span_max then
                 (let delta = time_diff now (pn_last_refresh n) sdiv driftRatio
                  in if delta > 0
                     then n\<lparr>pn_upper_limit := span_add (pn_upper_limit n) delta,
                            pn_last_refresh := time_add (pn_last_refresh n) (wrap64 (delta * driftRatio))\<rparr>
                     else n)
               else n)
      in (pn_upper_limit n, n))"

definition set_upper_limit :: "int \<Rightarrow> stopwatch_time \<Rightarrow> time_span \<Rightarrow> partner_node \<Rightarrow> partner_node" where
  "set_upper_limit driftRatio now v n =
     (case get_upper_limit driftRatio now n of
        (limit, n) \<Rightarrow> if v < limit then n\<lparr>pn_upper_limit := v, pn_last_refresh := now\<rparr> else n)"

definition increase_upper_limit :: "time_span \<Rightarrow> partner_node \<Rightarrow> partner_node" where
  "increase_upper_limit v n = n\<lparr>pn_upper_limit := span_add_checked (pn_upper_limit n) v\<rparr>"

subsection \<open>The heap of nodes\<close>

type_synonym node_ref = nat
type_synonym node_heap = "node_ref \<Rightarrow> partner_node"

abbreviation ref_id :: "node_heap \<Rightarrow> node_ref \<Rightarrow> node_id" where
  "ref_id h p \<equiv> pn_id (h p)"

abbreviation ref_avail :: "node_heap \<Rightarrow> node_ref \<Rightarrow> bool" where
  "ref_avail h p \<equiv> pn_available (h p)"

text \<open>What an update of a mutable member leaves alone.\<close>

definition same_identity :: "node_heap \<Rightarrow> node_heap \<Rightarrow> bool" where
  "same_identity h h' \<longleftrightarrow> (\<forall>p. pn_instance (h' p) = pn_instance (h p) \<and> pn_phase (h' p) = pn_phase (h p)
     \<and> pn_address (h' p) = pn_address (h p))"

lemma same_identityD:
  assumes "same_identity h h'"
  shows "pn_instance (h' p) = pn_instance (h p)" "pn_phase (h' p) = pn_phase (h p)"
    "pn_address (h' p) = pn_address (h p)" "pn_available (h' p) = pn_available (h p)"
    "pn_routing (h' p) = pn_routing (h p)"
  using assms by (simp_all add: same_identity_def pn_available_def pn_routing_def)

lemma same_identity_refl [simp]: "same_identity h h"
  by (simp add: same_identity_def)

lemma same_identity_trans: "same_identity h h' \<Longrightarrow> same_identity h' h'' \<Longrightarrow> same_identity h h''"
  by (simp add: same_identity_def)

lemma node_changed_simps [simp]:
  "pn_instance (node_changed now old phase token) = pn_instance old"
  "pn_phase (node_changed now old phase token) = phase"
  "pn_address (node_changed now old phase token) = pn_address old"
  "pn_token (node_changed now old phase token) = token"
  by (simp_all add: node_changed_def)

lemma node_of_header_simps [simp]:
  "pn_instance (node_of_header resolve now site nh) = nh_instance nh"
  "pn_phase (node_of_header resolve now site nh) = nh_phase nh"
  "pn_address (node_of_header resolve now site nh) = nh_address nh"
  "pn_token (node_of_header resolve now site nh) = nh_token nh"
  by (simp_all add: node_of_header_def)

lemma pn_unknown_iff: "pn_unknown now n \<longleftrightarrow> pn_unknown_start n \<noteq> time_max \<and> pn_unknown_start n \<le> now"
  by (simp add: get_is_unknown_def)

end
