(* ===== verification/Node_Ring.thy ===== *)
theory Node_Ring
  imports Partner_Node
begin

section \<open>NodeRing: the vector of nodes that forms a ring\<close>

text \<open>
  src/prod/src/Federation/NodeRing.h and NodeRing.cpp, the classes \<open>NodeRingBase\<close> and \<open>NodeRing\<close>: a
  vector of references to nodes that is sorted by node id, whose end is connected to its start, and
  the position of this node in it. A vector access out of bounds and a failed assertion are
  \<^term>\<open>None\<close>. The record of the base class is extended by the derived classes as in the source.
\<close>

record node_ring_base =
  ring_nodes :: "node_ref list"

record node_ring = node_ring_base +
  ring_this :: nat

abbreviation ring_size :: "'a node_ring_base_scheme \<Rightarrow> nat" where
  "ring_size r \<equiv> length (ring_nodes r)"

subsection \<open>Positions\<close>

definition get_node :: "'a node_ring_base_scheme \<Rightarrow> nat \<Rightarrow> node_ref option" where
  "get_node r position = (if position < ring_size r then Some (ring_nodes r ! position) else None)"

definition get_pred :: "'a node_ring_base_scheme \<Rightarrow> nat \<Rightarrow> nat option" where
  "get_pred r position = do {
     assert_if (position \<ge> ring_size r);
     Some (if position = 0 then ring_size r - 1 else position - 1)
   }"

definition get_succ :: "'a node_ring_base_scheme \<Rightarrow> nat \<Rightarrow> nat option" where
  "get_succ r position = do {
     assert_if (position \<ge> ring_size r);
     Some (if position = ring_size r - 1 then 0 else position + 1)
   }"

text \<open>\<open>std::lower_bound\<close>: the binary search of the standard library over \<open>[first, first + len)\<close>.\<close>

function lower_bound_from :: "(nat \<Rightarrow> bool) \<Rightarrow> nat \<Rightarrow> nat \<Rightarrow> nat" where
  "lower_bound_from before first len =
     (if len = 0 then first
      else
        (let half = len div 2; middle = first + half
         in if before middle then lower_bound_from before (middle + 1) (len - half - 1)
            else lower_bound_from before first half))"
  by pat_completeness auto
termination by (relation "measure (\<lambda>(_, _, len). len)") auto

declare lower_bound_from.simps [simp del]

definition lower_bound :: "node_heap \<Rightarrow> node_id \<Rightarrow> 'a node_ring_base_scheme \<Rightarrow> nat" where
  "lower_bound h v r = lower_bound_from (\<lambda>i. ref_id h (ring_nodes r ! i) < v) 0 (ring_size r)"

definition find_succ_or_same :: "node_heap \<Rightarrow> node_id \<Rightarrow> 'a node_ring_base_scheme \<Rightarrow> nat" where
  "find_succ_or_same h v r = (let position = lower_bound h v r in if position = ring_size r then 0 else position)"

subsection \<open>Nodes of a range\<close>

text \<open>
  The loop of the first \<open>GetNodesInRange\<close> ends after \<open>Size + 1\<close> rounds at the latest, counting what
  the vector held before. The second returns the count and sets \<open>start\<close> and \<open>end\<close>; when nothing is
  found \<open>end\<close> stays as it was.
\<close>

function range_loop ::
  "node_heap \<Rightarrow> node_id_range \<Rightarrow> 'a node_ring_base_scheme \<Rightarrow> nat \<Rightarrow> node_instance list \<Rightarrow> node_instance list option" where
  "range_loop h rg r index nodes = do {
     p \<leftarrow> get_node r index;
     if contains_id rg (ref_id h p) \<and> length nodes \<le> ring_size r then do {
       index' \<leftarrow> get_succ r index;
       range_loop h rg r index' (nodes @ [pn_instance (h p)])
     } else Some nodes
   }"
  by pat_completeness auto
termination
  by (relation "measure (\<lambda>(_, _, r, _, nodes). ring_size r + 1 - length nodes)") auto

declare range_loop.simps [simp del]

definition get_nodes_in_range ::
  "node_heap \<Rightarrow> node_id_range \<Rightarrow> node_instance list \<Rightarrow> 'a node_ring_base_scheme \<Rightarrow> node_instance list option" where
  "get_nodes_in_range h rg nodes r =
     range_loop h rg r (find_succ_or_same h (range_begin rg) r) nodes"

definition count_nodes_in_range ::
  "node_heap \<Rightarrow> node_id_range \<Rightarrow> nat \<Rightarrow> 'a node_ring_base_scheme \<Rightarrow> (nat \<times> nat \<times> nat) option" where
  "count_nodes_in_range h rg end0 r = do {
     let start = find_succ_or_same h (range_begin rg) r;
     p \<leftarrow> get_node r start;
     if \<not> contains_id rg (ref_id h p) then Some (0, start, end0)
     else do {
       let end' = find_succ_or_same h (range_end rg) r;
       q \<leftarrow> get_node r end';
       end'' \<leftarrow> (if \<not> contains_id rg (ref_id h q) then get_pred r end' else Some end');
       Some (if end'' \<ge> start then end'' - start + 1 else end'' + ring_size r - start + 1, start, end'')
     }
   }"

definition routing_node_count :: "node_heap \<Rightarrow> 'a node_ring_base_scheme \<Rightarrow> nat" where
  "routing_node_count h r = length (filter (\<lambda>p. pn_routing (h p)) (ring_nodes r))"

subsection \<open>Changing the vector\<close>

definition base_insert ::
  "node_heap \<Rightarrow> node_ref \<Rightarrow> nat \<Rightarrow> 'a node_ring_base_scheme \<Rightarrow> (nat \<times> 'a node_ring_base_scheme) option" where
  "base_insert h node position r = do {
     assert_if (position < ring_size r \<and> ref_id h (ring_nodes r ! position) = ref_id h node);
     let position = (if ring_size r > 0 \<and> position = 0 \<and> ref_id h node > ref_id h (ring_nodes r ! 0)
                     then ring_size r else position);
     if position \<le> ring_size r
     then Some (position, r\<lparr>ring_nodes := take position (ring_nodes r) @ [node] @ drop position (ring_nodes r)\<rparr>)
     else None
   }"

definition base_erase :: "nat \<Rightarrow> 'a node_ring_base_scheme \<Rightarrow> (node_ref \<times> 'a node_ring_base_scheme) option" where
  "base_erase position r = do {
     node \<leftarrow> get_node r position;
     Some (node, r\<lparr>ring_nodes := take position (ring_nodes r) @ drop (position + 1) (ring_nodes r)\<rparr>)
   }"

definition base_replace ::
  "nat \<Rightarrow> node_ref \<Rightarrow> 'a node_ring_base_scheme \<Rightarrow> (node_ref \<times> 'a node_ring_base_scheme) option" where
  "base_replace position node r = do {
     old \<leftarrow> get_node r position;
     Some (old, r\<lparr>ring_nodes := (ring_nodes r)[position := node]\<rparr>)
   }"

subsection \<open>NodeRing\<close>

definition new_node_ring :: "node_ref \<Rightarrow> node_ring" where
  "new_node_ring node = \<lparr>ring_nodes = [node], ring_this = 0\<rparr>"

definition this_node_ptr :: "'a node_ring_scheme \<Rightarrow> node_ref option" where
  "this_node_ptr r = get_node r (ring_this r)"

definition ring_prev :: "'a node_ring_scheme \<Rightarrow> node_ref option" where
  "ring_prev r = do { position \<leftarrow> get_pred r (ring_this r); get_node r position }"

definition ring_next :: "'a node_ring_scheme \<Rightarrow> node_ref option" where
  "ring_next r = do { position \<leftarrow> get_succ r (ring_this r); get_node r position }"

definition this_on_added :: "nat \<Rightarrow> 'a node_ring_scheme \<Rightarrow> 'a node_ring_scheme" where
  "this_on_added position r =
     (if position \<le> ring_this r then r\<lparr>ring_this := ring_this r + 1\<rparr> else r)"

definition this_on_removed :: "nat \<Rightarrow> 'a node_ring_scheme \<Rightarrow> 'a node_ring_scheme option" where
  "this_on_removed position r = do {
     assert_if (position = ring_this r);
     Some (if position < ring_this r then r\<lparr>ring_this := ring_this r - 1\<rparr> else r)
   }"

definition ring_add_at :: "node_heap \<Rightarrow> node_ref \<Rightarrow> nat \<Rightarrow> node_ring \<Rightarrow> (nat \<times> node_ring) option" where
  "ring_add_at h node position r = do {
     (position, r) \<leftarrow> base_insert h node position r;
     Some (position, this_on_added position r)
   }"

definition ring_add :: "node_heap \<Rightarrow> node_ref \<Rightarrow> node_ring \<Rightarrow> (nat \<times> node_ring) option" where
  "ring_add h node r = ring_add_at h node (lower_bound h (ref_id h node) r) r"

definition ring_remove :: "nat \<Rightarrow> node_ring \<Rightarrow> node_ring option" where
  "ring_remove position r = do {
     (node, r) \<leftarrow> base_erase position r;
     this_on_removed position r
   }"

definition ring_replace :: "nat \<Rightarrow> node_ref \<Rightarrow> node_ring \<Rightarrow> node_ring option" where
  "ring_replace position node r = do {
     (old, r) \<leftarrow> base_replace position node r;
     Some r
   }"

definition ring_clear :: "node_ring \<Rightarrow> node_ring option" where
  "ring_clear r = do {
     this \<leftarrow> this_node_ptr r;
     Some (r\<lparr>ring_nodes := [this], ring_this := 0\<rparr>)
   }"

definition basic_verify :: "node_heap \<Rightarrow> node_id \<Rightarrow> 'a node_ring_scheme \<Rightarrow> unit option" where
  "basic_verify h i r = do {
     this \<leftarrow> this_node_ptr r;
     assert_if (i \<noteq> ref_id h this);
     assert_if (\<exists>k < ring_size r - 1. ref_id h (ring_nodes r ! k) \<ge> ref_id h (ring_nodes r ! (k + 1)))
   }"

definition ring_verify :: "node_heap \<Rightarrow> node_id \<Rightarrow> node_ring \<Rightarrow> unit option" where
  "ring_verify h i r = do {
     basic_verify h i r;
     assert_if (\<exists>k < ring_size r. k \<noteq> ring_this r \<and> \<not> ref_avail h (ring_nodes r ! k))
   }"

section \<open>The sorted ring\<close>

named_theorems ring_ops \<open>the vector after an operation on it\<close>

definition sorted_ring :: "node_heap \<Rightarrow> node_ref list \<Rightarrow> bool" where
  "sorted_ring h ps \<longleftrightarrow> sorted_wrt (<) (map (ref_id h) ps)"

lemma sorted_ring_nth: "sorted_ring h ps \<longleftrightarrow> (\<forall>i j. i < j \<longrightarrow> j < length ps \<longrightarrow> ref_id h (ps ! i) < ref_id h (ps ! j))"
  by (auto simp: sorted_ring_def sorted_wrt_iff_nth_less)

lemma sorted_ring_simps [simp]:
  "sorted_ring h []" "sorted_ring h [p]"
  "sorted_ring h (p # ps) \<longleftrightarrow> (\<forall>q\<in>set ps. ref_id h p < ref_id h q) \<and> sorted_ring h ps"
  "sorted_ring h (ps @ qs) \<longleftrightarrow> sorted_ring h ps \<and> sorted_ring h qs \<and>
     (\<forall>p\<in>set ps. \<forall>q\<in>set qs. ref_id h p < ref_id h q)"
  by (auto simp: sorted_ring_def sorted_wrt_append)

lemma sorted_ring_cong: "(\<And>p. p \<in> set ps \<Longrightarrow> ref_id h' p = ref_id h p) \<Longrightarrow> sorted_ring h' ps = sorted_ring h ps"
  by (auto simp: sorted_ring_nth dest!: nth_mem)

lemma sorted_ring_distinct: "sorted_ring h ps \<Longrightarrow> distinct (map (ref_id h) ps)"
  by (simp add: sorted_ring_def strict_sorted_iff)

lemma sorted_ring_inj: "sorted_ring h ps \<Longrightarrow> p \<in> set ps \<Longrightarrow> q \<in> set ps \<Longrightarrow> ref_id h p = ref_id h q \<Longrightarrow> p = q"
  by (auto dest: sorted_ring_distinct simp: distinct_map inj_on_def)

lemma sorted_ring_take_drop:
  assumes "sorted_ring h ps"
  shows "sorted_ring h (take k ps)" "sorted_ring h (drop k ps)"
    "p \<in> set (take k ps) \<Longrightarrow> q \<in> set (drop k ps) \<Longrightarrow> ref_id h p < ref_id h q"
proof -
  have "sorted_ring h (take k ps @ drop k ps)" using assms by simp
  then show "sorted_ring h (take k ps)" "sorted_ring h (drop k ps)"
    "p \<in> set (take k ps) \<Longrightarrow> q \<in> set (drop k ps) \<Longrightarrow> ref_id h p < ref_id h q"
    unfolding sorted_ring_simps by blast+
qed

text \<open>The binary search finds the border of any set of positions that is closed downwards.\<close>

lemma lower_bound_from_border:
  assumes "first \<le> k" "k \<le> first + len" "\<And>i. first \<le> i \<Longrightarrow> i < first + len \<Longrightarrow> before i \<longleftrightarrow> i < k"
  shows "lower_bound_from before first len = k"
  using assms
proof (induction before first len rule: lower_bound_from.induct)
  case (1 before first len)
  show ?case
  proof (cases "len = 0")
    case True
    then show ?thesis using 1 by (simp add: lower_bound_from.simps)
  next
    case False
    let ?half = "len div 2"
    have half: "?half < len" using False by simp
    have mid: "before (first + ?half) \<longleftrightarrow> first + ?half < k" using 1(5) half by simp
    show ?thesis
    proof (cases "before (first + ?half)")
      case True
      then show ?thesis
        using 1(1) [OF False refl refl True] 1(3,4,5) half mid
        by (subst lower_bound_from.simps) (simp add: False)
    next
      case b: False
      then show ?thesis
        using 1(2) [OF False refl refl b] 1(3,4,5) half mid
        by (subst lower_bound_from.simps) (simp add: False)
    qed
  qed
qed

definition rank_of :: "node_heap \<Rightarrow> node_id \<Rightarrow> node_ref list \<Rightarrow> nat" where
  "rank_of h v ps = length (takeWhile (\<lambda>p. ref_id h p < v) ps)"

lemma rank_of_le [simp]: "rank_of h v ps \<le> length ps"
  by (simp add: rank_of_def length_takeWhile_le)

lemma rank_of_less: "sorted_ring h ps \<Longrightarrow> i < length ps \<Longrightarrow> ref_id h (ps ! i) < v \<longleftrightarrow> i < rank_of h v ps"
proof (induction ps arbitrary: i)
  case (Cons p ps)
  show ?case
  proof (cases i)
    case 0
    then show ?thesis by (simp add: rank_of_def)
  next
    case (Suc j)
    have "ref_id h p < ref_id h (ps ! j)" using Cons.prems Suc by simp
    then show ?thesis
      using Cons.IH [of j] Cons.prems Suc by (auto simp: rank_of_def dest: order.strict_trans)
  qed
qed simp

lemma lower_bound_rank: "sorted_ring h (ring_nodes r) \<Longrightarrow> lower_bound h v r = rank_of h v (ring_nodes r)"
  unfolding lower_bound_def by (rule lower_bound_from_border) (simp_all add: rank_of_less)

lemma rank_of_split:
  assumes "sorted_ring h ps"
  shows "p \<in> set (take (rank_of h v ps) ps) \<longleftrightarrow> p \<in> set ps \<and> ref_id h p < v"
    "p \<in> set (drop (rank_of h v ps) ps) \<longleftrightarrow> p \<in> set ps \<and> \<not> ref_id h p < v"
proof -
  let ?k = "rank_of h v ps"
  have "take ?k ps = filter (\<lambda>p. ref_id h p < v) ps \<and> drop ?k ps = filter (\<lambda>p. \<not> ref_id h p < v) ps"
    using assms
  proof (induction ps)
    case (Cons a ps)
    have "filter (\<lambda>p. ref_id h p < v) ps = []" "filter (\<lambda>p. \<not> ref_id h p < v) ps = ps" if "\<not> ref_id h a < v"
      using that Cons.prems by (auto simp: filter_empty_conv filter_id_conv dest: order.strict_trans)
    then show ?case using Cons.IH Cons.prems by (auto simp: rank_of_def)
  qed (simp add: rank_of_def)
  then have take: "take ?k ps = filter (\<lambda>p. ref_id h p < v) ps"
    and drop: "drop ?k ps = filter (\<lambda>p. \<not> ref_id h p < v) ps" by blast+
  show "p \<in> set (take ?k ps) \<longleftrightarrow> p \<in> set ps \<and> ref_id h p < v" by (auto simp: take)
  show "p \<in> set (drop ?k ps) \<longleftrightarrow> p \<in> set ps \<and> \<not> ref_id h p < v" by (auto simp: drop)
qed

lemma insert_rank_sorted:
  assumes "sorted_ring h ps" "\<And>p. p \<in> set ps \<Longrightarrow> ref_id h p \<noteq> ref_id h node"
  shows "sorted_ring h (take (rank_of h (ref_id h node) ps) ps @ [node] @ drop (rank_of h (ref_id h node) ps) ps)"
proof -
  have "ref_id h node < ref_id h q" if "q \<in> set ps" "\<not> ref_id h q < ref_id h node" for q
    using that assms(2) by (metis linorder_neqE)
  then show ?thesis
    using sorted_ring_take_drop [OF assms(1)] by (auto simp: rank_of_split [OF assms(1)])
qed

lemma base_insert_rank:
  assumes sorted: "sorted_ring h (ring_nodes r)"
    and new: "\<And>p. p \<in> set (ring_nodes r) \<Longrightarrow> ref_id h p \<noteq> ref_id h node"
    and position: "position = lower_bound h (ref_id h node) r \<or> position = find_succ_or_same h (ref_id h node) r"
  defines "k \<equiv> rank_of h (ref_id h node) (ring_nodes r)"
  shows "base_insert h node position r =
    Some (k, r\<lparr>ring_nodes := take k (ring_nodes r) @ [node] @ drop k (ring_nodes r)\<rparr>)"
proof -
  have lb: "lower_bound h (ref_id h node) r = k" by (simp add: k_def lower_bound_rank [OF sorted])
  have first: "ref_id h (ring_nodes r ! 0) < ref_id h node \<longleftrightarrow> 0 < k" if "0 < ring_size r"
    using rank_of_less [OF sorted that] by (simp add: k_def)
  have le: "k \<le> ring_size r" by (simp add: k_def)
  have other: "i < ring_size r \<Longrightarrow> ref_id h (ring_nodes r ! i) \<noteq> ref_id h node" for i
    using new by simp
  show ?thesis
  proof (cases "k < ring_size r")
    case True
    then have "position = k" using position by (simp add: lb find_succ_or_same_def)
    then show ?thesis using True first other by (auto simp: base_insert_def Let_def)
  next
    case False
    then have k: "k = ring_size r" using le by simp
    then have "position = k \<or> position = 0" using position by (simp add: lb find_succ_or_same_def)
    then show ?thesis
      using k first other by (cases "ring_size r = 0") (auto simp: base_insert_def Let_def)
  qed
qed

lemma find_rank:
  assumes "sorted_ring h (ring_nodes r)" "p \<in> set (ring_nodes r)" "ref_id h p = v"
  shows "find_succ_or_same h v r < ring_size r" "ring_nodes r ! find_succ_or_same h v r = p"
proof -
  from assms(2) obtain i where i: "i < ring_size r" "ring_nodes r ! i = p" by (auto simp: in_set_conv_nth)
  have "rank_of h v (ring_nodes r) = i"
  proof (rule antisym)
    show "rank_of h v (ring_nodes r) \<le> i"
      using rank_of_less [OF assms(1) i(1), of v] i assms(3) by (simp add: not_less)
    show "i \<le> rank_of h v (ring_nodes r)"
    proof (rule ccontr)
      assume "\<not> i \<le> rank_of h v (ring_nodes r)"
      then have less: "rank_of h v (ring_nodes r) < i" by simp
      then have "ref_id h (ring_nodes r ! rank_of h v (ring_nodes r)) < ref_id h (ring_nodes r ! i)"
        using assms(1) i(1) by (simp add: sorted_ring_nth)
      then show False
        using rank_of_less [OF assms(1), of "rank_of h v (ring_nodes r)" v] less i assms(3) by simp
    qed
  qed
  then show "find_succ_or_same h v r < ring_size r" "ring_nodes r ! find_succ_or_same h v r = p"
    using i by (simp_all add: find_succ_or_same_def lower_bound_rank [OF assms(1)])
qed

lemma find_bound: "sorted_ring h (ring_nodes r) \<Longrightarrow> 0 < ring_size r \<Longrightarrow> find_succ_or_same h v r < ring_size r"
  by (simp add: find_succ_or_same_def lower_bound_rank Let_def nat_less_le)

end
