(* ===== verification/Node_Ring_Hood.thy ===== *)
theory Node_Ring_Hood
  imports Node_Ring
begin

section \<open>NodeRingWithHood: the ring and the neighbourhood of this node\<close>

text \<open>
  src/prod/src/Federation/NodeRing.h and NodeRing.cpp, the class \<open>NodeRingWithHood\<close>: positions of the
  two edges of the range of which everything is known, counts of the available nodes in it, and a
  multimap from addresses to nodes, here a list in the order of insertion (only the order among equal
  addresses shows, which is that order). The counts are \<open>int\<close>s that never exceed the size of the
  vector. A loop that walks the ring is given the size of the ring as fuel, \<^term>\<open>None\<close> when it does not
  end in one round; the invariant shows that it always does.
\<close>

record hood_ring = node_ring +
  hood_size :: int
  pred_edge :: nat
  succ_edge :: nat
  pred_count :: int
  succ_count :: int
  avail_count :: int
  complete_range :: bool
  last_header_count :: int
  address_map :: "(string \<times> node_ref) list"
  exchange_interval :: time_span

definition new_hood_ring :: "node_heap \<Rightarrow> time_span \<Rightarrow> int \<Rightarrow> stopwatch_time \<Rightarrow> node_ref \<Rightarrow> hood_ring option" where
  "new_hood_ring h exchangeTimeout hoodSize now node = do {
     assert_if (pn_unknown now (h node));
     Some \<lparr>ring_nodes = [node], ring_this = 0, hood_size = hoodSize, pred_edge = 0, succ_edge = 0,
       pred_count = 0, succ_count = 0, avail_count = 0, complete_range = False, last_header_count = 0,
       address_map = [(pn_address (h node), node)], exchange_interval = exchangeTimeout\<rparr>
   }"

definition hood_clear :: "node_heap \<Rightarrow> hood_ring \<Rightarrow> hood_ring option" where
  "hood_clear h r = do {
     this \<leftarrow> this_node_ptr r;
     Some (r\<lparr>ring_nodes := [this], ring_this := 0, pred_edge := 0, succ_edge := 0,
       pred_count := 0, succ_count := 0, avail_count := 0, complete_range := False,
       address_map := [(pn_address (h this), this)]\<rparr>)
   }"

subsection \<open>The range\<close>

definition pred_edge_id :: "node_heap \<Rightarrow> hood_ring \<Rightarrow> node_id option" where
  "pred_edge_id h r = do { p \<leftarrow> get_node r (pred_edge r); Some (ref_id h p) }"

definition succ_edge_id :: "node_heap \<Rightarrow> hood_ring \<Rightarrow> node_id option" where
  "succ_edge_id h r = do { p \<leftarrow> get_node r (succ_edge r); Some (ref_id h p) }"

definition get_range :: "node_heap \<Rightarrow> hood_ring \<Rightarrow> node_id_range option" where
  "get_range h r =
     (if complete_range r then Some full_range
      else do { b \<leftarrow> pred_edge_id h r; e \<leftarrow> succ_edge_id h r; Some (make_range b e) })"

definition within_hood_range :: "node_heap \<Rightarrow> node_id \<Rightarrow> hood_ring \<Rightarrow> bool option" where
  "within_hood_range h i r = do { rg \<leftarrow> get_range h r; Some (contains_id rg i) }"

definition within_pred_hood :: "nat \<Rightarrow> hood_ring \<Rightarrow> bool" where
  "within_pred_hood position r =
     (if position = ring_this r then False
      else if pred_edge r < ring_this r then pred_edge r \<le> position \<and> position < ring_this r
      else if pred_edge r > ring_this r then pred_edge r \<le> position \<or> position < ring_this r
      else complete_range r)"

definition within_succ_hood :: "nat \<Rightarrow> hood_ring \<Rightarrow> bool" where
  "within_succ_hood position r =
     (if position = ring_this r then False
      else if ring_this r < succ_edge r then ring_this r < position \<and> position \<le> succ_edge r
      else if ring_this r > succ_edge r then ring_this r < position \<or> position \<le> succ_edge r
      else complete_range r)"

definition pred_hood_complete :: "hood_ring \<Rightarrow> bool" where
  "pred_hood_complete r \<longleftrightarrow> pred_count r \<ge> hood_size r \<or> complete_range r"

definition succ_hood_complete :: "hood_ring \<Rightarrow> bool" where
  "succ_hood_complete r \<longleftrightarrow> succ_count r \<ge> hood_size r \<or> complete_range r"

definition get_hood_count :: "hood_ring \<Rightarrow> int" where
  "get_hood_count r =
     (if complete_range r then int (ring_size r) - 1
      else if pred_edge r \<le> succ_edge r then int (succ_edge r - pred_edge r)
      else int (succ_edge r + ring_size r - pred_edge r))"

definition set_complete_knowledge :: "hood_ring \<Rightarrow> hood_ring" where
  "set_complete_knowledge r =
     (if \<not> complete_range r
      then r\<lparr>complete_range := True, pred_edge := ring_this r, succ_edge := ring_this r,
             pred_count := avail_count r, succ_count := avail_count r\<rparr>
      else r)"

subsection \<open>A node is added, replaced or removed\<close>

definition hood_on_added :: "node_heap \<Rightarrow> node_ref \<Rightarrow> nat \<Rightarrow> hood_ring \<Rightarrow> hood_ring option" where
  "hood_on_added h node position r0 = do {
     let r = this_on_added position r0;
     let r = r\<lparr>address_map := address_map r @ [(pn_address (h node), node)]\<rparr>;
     assert_if (length (address_map r) \<noteq> ring_size r);
     if \<not> complete_range r then do {
       let r = (if position \<le> pred_edge r then r\<lparr>pred_edge := pred_edge r + 1\<rparr> else r);
       let r = (if position \<le> succ_edge r then r\<lparr>succ_edge := succ_edge r + 1\<rparr> else r);
       Some (if ref_avail h node
             then (let r = r\<lparr>avail_count := avail_count r + 1\<rparr>
                   in if within_pred_hood position r then r\<lparr>pred_count := pred_count r + 1\<rparr>
                      else if within_succ_hood position r then r\<lparr>succ_count := succ_count r + 1\<rparr>
                      else r)
             else r)
     } else do {
       let r = r\<lparr>pred_edge := ring_this r, succ_edge := ring_this r\<rparr>;
       Some (if ref_avail h node
             then (let r = r\<lparr>avail_count := avail_count r + 1\<rparr>
                   in r\<lparr>pred_count := avail_count r, succ_count := avail_count r\<rparr>)
             else r)
     }
   }"

text \<open>The loop over the entries of an address erases the first one that points to the node.\<close>

fun erase_address :: "string \<Rightarrow> node_ref \<Rightarrow> (string \<times> node_ref) list \<Rightarrow> (string \<times> node_ref) list" where
  "erase_address a node [] = []"
| "erase_address a node (e # es) = (if e = (a, node) then es else e # erase_address a node es)"

definition count_on_lost :: "nat \<Rightarrow> hood_ring \<Rightarrow> hood_ring option" where
  "count_on_lost position r0 = do {
     let r = r0\<lparr>avail_count := avail_count r0 - 1\<rparr>;
     r \<leftarrow> (if within_pred_hood position r then do {
              assert_if (pred_count r = 0);
              Some (r\<lparr>pred_count := pred_count r - 1\<rparr>) }
            else Some r);
     (if within_succ_hood position r then do {
        assert_if (succ_count r = 0);
        Some (r\<lparr>succ_count := succ_count r - 1\<rparr>) }
      else Some r)
   }"

definition count_on_gained :: "nat \<Rightarrow> hood_ring \<Rightarrow> hood_ring" where
  "count_on_gained position r0 =
     (let r = r0\<lparr>avail_count := avail_count r0 + 1\<rparr>;
          r = (if within_pred_hood position r then r\<lparr>pred_count := pred_count r + 1\<rparr> else r)
      in if within_succ_hood position r then r\<lparr>succ_count := succ_count r + 1\<rparr> else r)"

definition hood_on_replaced :: "node_heap \<Rightarrow> node_ref \<Rightarrow> node_ref \<Rightarrow> nat \<Rightarrow> hood_ring \<Rightarrow> hood_ring option" where
  "hood_on_replaced h old new position r0 = do {
     r \<leftarrow> (if ref_avail h old \<and> \<not> ref_avail h new then count_on_lost position r0
           else if \<not> ref_avail h old \<and> ref_avail h new then Some (count_on_gained position r0)
           else Some r0);
     Some (r\<lparr>address_map :=
       erase_address (pn_address (h old)) old (address_map r) @ [(pn_address (h new), new)]\<rparr>)
   }"

definition hood_on_removed :: "node_heap \<Rightarrow> node_ref \<Rightarrow> nat \<Rightarrow> hood_ring \<Rightarrow> hood_ring option" where
  "hood_on_removed h node position r0 = do {
     assert_if (position = pred_edge r0 \<or> position = succ_edge r0);
     r \<leftarrow> this_on_removed position r0;
     let r = (if position < pred_edge r then r\<lparr>pred_edge := pred_edge r - 1\<rparr> else r);
     let r = (if position < succ_edge r then r\<lparr>succ_edge := succ_edge r - 1\<rparr> else r);
     let r = (if ref_avail h node then r\<lparr>avail_count := avail_count r - 1\<rparr> else r);
     let r = r\<lparr>address_map := erase_address (pn_address (h node)) node (address_map r)\<rparr>;
     assert_if (length (address_map r) \<noteq> ring_size r);
     Some r
   }"

definition hood_add_at :: "node_heap \<Rightarrow> node_ref \<Rightarrow> nat \<Rightarrow> hood_ring \<Rightarrow> (nat \<times> hood_ring) option" where
  "hood_add_at h node position r = do {
     (position, r) \<leftarrow> base_insert h node position r;
     r \<leftarrow> hood_on_added h node position r;
     Some (position, r)
   }"

definition hood_add :: "node_heap \<Rightarrow> node_ref \<Rightarrow> hood_ring \<Rightarrow> (nat \<times> hood_ring) option" where
  "hood_add h node r = hood_add_at h node (lower_bound h (ref_id h node) r) r"

definition hood_remove :: "node_heap \<Rightarrow> nat \<Rightarrow> hood_ring \<Rightarrow> hood_ring option" where
  "hood_remove h position r = do {
     (node, r) \<leftarrow> base_erase position r;
     hood_on_removed h node position r
   }"

definition hood_replace :: "node_heap \<Rightarrow> nat \<Rightarrow> node_ref \<Rightarrow> hood_ring \<Rightarrow> hood_ring option" where
  "hood_replace h position node r = do {
     (old, r) \<leftarrow> base_replace position node r;
     hood_on_replaced h old node position r
   }"

subsection \<open>The edges move\<close>

definition extend_pred_edge :: "node_heap \<Rightarrow> hood_ring \<Rightarrow> (bool \<times> hood_ring) option" where
  "extend_pred_edge h r0 =
     (if complete_range r0 then Some (False, r0)
      else do {
        e \<leftarrow> get_pred r0 (pred_edge r0);
        let r = r0\<lparr>pred_edge := e\<rparr>;
        if pred_edge r = succ_edge r then Some (True, set_complete_knowledge r)
        else do {
          p \<leftarrow> get_node r e;
          Some (True, if ref_avail h p then r\<lparr>pred_count := pred_count r + 1\<rparr> else r)
        }
      })"

definition extend_succ_edge :: "node_heap \<Rightarrow> hood_ring \<Rightarrow> (bool \<times> hood_ring) option" where
  "extend_succ_edge h r0 =
     (if complete_range r0 then Some (False, r0)
      else do {
        e \<leftarrow> get_succ r0 (succ_edge r0);
        let r = r0\<lparr>succ_edge := e\<rparr>;
        if pred_edge r = succ_edge r then Some (True, set_complete_knowledge r)
        else do {
          p \<leftarrow> get_node r e;
          Some (True, if ref_avail h p then r\<lparr>succ_count := succ_count r + 1\<rparr> else r)
        }
      })"

definition can_shrink_pred :: "node_heap \<Rightarrow> hood_ring \<Rightarrow> bool option" where
  "can_shrink_pred h r =
     (if pred_count r > hood_size r then Some True
      else if pred_count r = hood_size r then do { p \<leftarrow> get_node r (pred_edge r); Some (\<not> ref_avail h p) }
      else Some False)"

definition can_shrink_succ :: "node_heap \<Rightarrow> hood_ring \<Rightarrow> bool option" where
  "can_shrink_succ h r =
     (if succ_count r > hood_size r then Some True
      else if succ_count r = hood_size r then do { p \<leftarrow> get_node r (succ_edge r); Some (\<not> ref_avail h p) }
      else Some False)"

definition shrink_pred :: "node_heap \<Rightarrow> hood_ring \<Rightarrow> hood_ring option" where
  "shrink_pred h r0 = do {
     p \<leftarrow> get_node r0 (pred_edge r0);
     let r = (if ref_avail h p then r0\<lparr>pred_count := pred_count r0 - 1\<rparr> else r0);
     e \<leftarrow> get_succ r (pred_edge r);
     Some (r\<lparr>pred_edge := e\<rparr>)
   }"

definition shrink_succ :: "node_heap \<Rightarrow> hood_ring \<Rightarrow> hood_ring option" where
  "shrink_succ h r0 = do {
     p \<leftarrow> get_node r0 (succ_edge r0);
     let r = (if ref_avail h p then r0\<lparr>succ_count := succ_count r0 - 1\<rparr> else r0);
     e \<leftarrow> get_pred r (succ_edge r);
     Some (r\<lparr>succ_edge := e\<rparr>)
   }"

text \<open>The two loops of \<open>BreakCompleteRing\<close> walk away from this node until they have counted enough.\<close>

fun walk_count ::
  "(nat \<Rightarrow> nat option) \<Rightarrow> (nat \<Rightarrow> bool option) \<Rightarrow> int \<Rightarrow> nat \<Rightarrow> nat \<Rightarrow> int \<Rightarrow> (nat \<times> int) option" where
  "walk_count next avail limit 0 edge count = (if count < limit then None else Some (edge, count))"
| "walk_count next avail limit (Suc fuel) edge count =
     (if count < limit then do {
        edge \<leftarrow> next edge;
        a \<leftarrow> avail edge;
        walk_count next avail limit fuel edge (if a then count + 1 else count)
      } else Some (edge, count))"

definition avail_at :: "node_heap \<Rightarrow> hood_ring \<Rightarrow> nat \<Rightarrow> bool option" where
  "avail_at h r i = do { p \<leftarrow> get_node r i; Some (ref_avail h p) }"

definition break_complete_ring :: "node_heap \<Rightarrow> int \<Rightarrow> hood_ring \<Rightarrow> hood_ring option" where
  "break_complete_ring h perSide r = do {
     assert_if (\<not> complete_range r);
     if avail_count r \<ge> 2 * perSide then do {
       (pe, pc) \<leftarrow> walk_count (get_pred r) (avail_at h r) perSide (ring_size r) (ring_this r) 0;
       (se, sc) \<leftarrow> walk_count (get_succ r) (avail_at h r) perSide (ring_size r) (ring_this r) 0;
       Some (r\<lparr>pred_edge := pe, pred_count := pc, succ_edge := se, succ_count := sc,
               complete_range := False\<rparr>)
     } else Some r
   }"

subsection \<open>The nodes of the neighbourhood\<close>

fun walk_to :: "(nat \<Rightarrow> nat option) \<Rightarrow> (nat \<Rightarrow> node_ref option) \<Rightarrow> nat \<Rightarrow> nat \<Rightarrow> nat \<Rightarrow> node_ref list option" where
  "walk_to next node target 0 edge = (if edge = target then Some [] else None)"
| "walk_to next node target (Suc fuel) edge =
     (if edge = target then Some []
      else do {
        p \<leftarrow> node edge;
        edge' \<leftarrow> next edge;
        ps \<leftarrow> walk_to next node target fuel edge';
        Some (p # ps)
      })"

definition get_pred_hood :: "hood_ring \<Rightarrow> node_ref list option" where
  "get_pred_hood r = do {
     edge \<leftarrow> (if complete_range r then get_succ r (pred_edge r) else Some (pred_edge r));
     walk_to (get_succ r) (get_node r) (ring_this r) (ring_size r) edge
   }"

definition get_succ_hood :: "hood_ring \<Rightarrow> node_ref list option" where
  "get_succ_hood r = do {
     edge \<leftarrow> (if complete_range r then get_pred r (succ_edge r) else Some (succ_edge r));
     walk_to (get_pred r) (get_node r) (ring_this r) (ring_size r) edge
   }"

definition get_hood :: "node_heap \<Rightarrow> hood_ring \<Rightarrow> (node_ref list \<times> node_id_range) option" where
  "get_hood h r = do {
     ps \<leftarrow> get_pred_hood r;
     qs \<leftarrow> (if \<not> complete_range r then get_succ_hood r else Some []);
     rg \<leftarrow> get_range h r;
     Some (ps @ qs, rg)
   }"

text \<open>
  \<open>GetPingTargets\<close>: of each side the available node farthest from and the one nearest to this node.
  The loop's two positions are the first and the last available node on the way.
\<close>

definition side_targets :: "node_heap \<Rightarrow> node_ref list \<Rightarrow> node_ref list" where
  "side_targets h ps =
     (case filter (ref_avail h) ps of
        [] \<Rightarrow> []
      | p # qs \<Rightarrow> if qs = [] then [p] else [p, last qs])"

definition get_ping_targets :: "node_heap \<Rightarrow> hood_ring \<Rightarrow> node_ref list option" where
  "get_ping_targets h r = do {
     edge \<leftarrow> (if complete_range r then get_succ r (pred_edge r) else Some (pred_edge r));
     ps \<leftarrow> walk_to (get_succ r) (get_node r) (ring_this r) (ring_size r) edge;
     if complete_range r then Some (side_targets h ps)
     else do {
       qs \<leftarrow> walk_to (get_pred r) (get_node r) (ring_this r) (ring_size r) (succ_edge r);
       Some (side_targets h ps @ side_targets h qs)
     }
   }"

text \<open>\<open>SetUnknown(address)\<close> marks every node of the map with that address.\<close>

definition set_unknown_address :: "stopwatch_time \<Rightarrow> string \<Rightarrow> hood_ring \<Rightarrow> node_heap \<Rightarrow> node_heap" where
  "set_unknown_address now address r h =
     (\<lambda>p. if (address, p) \<in> set (address_map r) then set_as_unknown now (h p) else h p)"

subsection \<open>The consistency the class verifies\<close>

definition ring_count :: "nat \<Rightarrow> nat \<Rightarrow> nat \<Rightarrow> nat" where
  "ring_count n start e = (if e \<ge> start then e - start else e + n - start)"

definition hood_verify :: "node_heap \<Rightarrow> node_id \<Rightarrow> hood_ring \<Rightarrow> unit option" where
  "hood_verify h i r = do {
     basic_verify h i r;
     let availableCount = length (filter (\<lambda>p. ref_avail h p \<and> ref_id h p \<noteq> i) (ring_nodes r));
     assert_if (int availableCount \<noteq> avail_count r);
     if complete_range r then do {
       assert_if (pred_edge r \<noteq> ring_this r \<or> succ_edge r \<noteq> ring_this r);
       assert_if (pred_count r \<noteq> avail_count r \<or> succ_count r \<noteq> avail_count r
                  \<or> avail_count r \<ge> hood_size r * 2)
     } else do {
       walk_to (get_succ r) (get_node r) (ring_this r) (ring_size r) (pred_edge r);
       walk_to (get_pred r) (get_node r) (ring_this r) (ring_size r) (succ_edge r);
       assert_if (ring_count (ring_size r) (pred_edge r) (ring_this r) +
                  ring_count (ring_size r) (ring_this r) (succ_edge r) + 1 > ring_size r);
       assert_if (pred_count r > hood_size r \<or> succ_count r > hood_size r)
     }
   }"

end
