(* ===== verification/Hood_Invariant.thy ===== *)
theory Hood_Invariant
  imports Node_Ring_Hood "HOL-Library.Multiset"
begin

section \<open>The ring seen from this node\<close>

text \<open>
  Seen from this node the vector is a line: the other nodes in the order in which one meets them when
  walking clockwise (\<open>around\<close>). The successor neighbourhood is a prefix of the line, the predecessor
  neighbourhood a suffix, and the two do not overlap. Adding, removing and replacing at a position of
  the vector is adding, removing and replacing at an index of the line; the theory computes the index,
  so that everything about wrapping positions is done once, here.
\<close>

definition around_of :: "nat \<Rightarrow> 'a list \<Rightarrow> 'a list" where
  "around_of t ps = drop (Suc t) ps @ take t ps"

definition line_index :: "nat \<Rightarrow> nat \<Rightarrow> nat \<Rightarrow> nat" where
  "line_index n t p = (if p > t then p - t - 1 else n - t - 1 + p)"

lemma length_around: "t < length ps \<Longrightarrow> length (around_of t ps) = length ps - 1"
  by (simp add: around_of_def)

lemma around_nth:
  assumes "t < length ps" "p < length ps" "p \<noteq> t"
  shows "around_of t ps ! line_index (length ps) t p = ps ! p"
    "line_index (length ps) t p < length ps - 1"
  using assms by (auto simp: around_of_def line_index_def nth_append)

lemma set_around: "t < length ps \<Longrightarrow> set ps = insert (ps ! t) (set (around_of t ps))"
  by (subst id_take_nth_drop [of t ps]) (auto simp: around_of_def)

lemma mset_around: "t < length ps \<Longrightarrow> mset ps = add_mset (ps ! t) (mset (around_of t ps))"
  by (subst id_take_nth_drop [of t ps]) (auto simp: around_of_def)

lemma around_insert:
  assumes "t < length ps" "p \<le> length ps"
  shows "around_of (if p \<le> t then t + 1 else t) (take p ps @ [x] @ drop p ps) =
    take (line_index (length ps) t p) (around_of t ps) @ [x] @ drop (line_index (length ps) t p) (around_of t ps)"
    (is "?L = ?R")
    and "line_index (length ps) t p \<le> length ps - 1"
proof -
  show "line_index (length ps) t p \<le> length ps - 1" using assms by (auto simp: line_index_def)
  show "?L = ?R"
  proof (cases "p \<le> t")
    case True
    then have "take (t - p) (drop p ps) = drop p (take t ps)" by (simp add: drop_take)
    moreover have "t - p + p = t" using True by simp
    ultimately show ?thesis
      using True assms by (simp add: around_of_def line_index_def Suc_diff_le drop_take)
  next
    case False
    then obtain d where d: "p = Suc (t + d)" by (metis less_iff_Suc_add not_less)
    have "drop (Suc t) (take p ps) = take d (drop (Suc t) ps)" by (simp add: d drop_take)
    moreover have "take t (take p ps) = take t ps" by (simp add: d min_def)
    moreover have "drop p ps = drop d (drop (Suc t) ps)" by (simp add: d add.commute)
    ultimately show ?thesis
      using False assms by (simp add: around_of_def line_index_def d)
  qed
qed

lemma around_remove:
  assumes "t < length ps" "p < length ps" "p \<noteq> t"
  shows "around_of (if p < t then t - 1 else t) (take p ps @ drop (p + 1) ps) =
    take (line_index (length ps) t p) (around_of t ps) @ drop (line_index (length ps) t p + 1) (around_of t ps)"
proof (cases "p < t")
  case True
  then obtain u where u: "t = Suc u" "p \<le> u" by (cases t) auto
  let ?A = "drop (Suc t) ps" and ?B = "take t ps"
  have index: "line_index (length ps) t p = length ?A + p" using True by (simp add: line_index_def)
  have "drop (Suc u) (take p ps @ drop (p + 1) ps) = ?A"
    using u assms by simp
  moreover have "take u (take p ps @ drop (p + 1) ps) = take p ?B @ drop (p + 1) ?B"
    using u assms by (simp add: drop_take)
  ultimately show ?thesis
    using True u unfolding index by (simp add: around_of_def)
next
  case False
  then obtain d where d: "p = Suc (t + d)" using assms by (metis less_iff_Suc_add linorder_neqE_nat)
  have "drop (Suc t) (take p ps) = take d (drop (Suc t) ps)" by (simp add: d drop_take)
  moreover have "take t (take p ps) = take t ps" by (simp add: d min_def)
  moreover have "drop (p + 1) ps = drop (d + 1) (drop (Suc t) ps)" by (simp add: d add.commute)
  ultimately show ?thesis
    using False assms by (simp add: around_of_def line_index_def d)
qed

lemma around_update:
  assumes "t < length ps" "p < length ps" "p \<noteq> t"
  shows "around_of t (ps[p := x]) = (around_of t ps)[line_index (length ps) t p := x]"
  using assms by (auto simp: around_of_def line_index_def list_update_append drop_update_swap take_update_swap
      intro!: nth_equalityI)

lemma around_update_this: "t < length ps \<Longrightarrow> around_of t (ps[t := x]) = around_of t ps"
  by (simp add: around_of_def)

subsection \<open>Counting on the line\<close>

definition count_avail :: "node_heap \<Rightarrow> node_ref list \<Rightarrow> int" where
  "count_avail h ps = int (length (filter (ref_avail h) ps))"

lemma count_avail_simps [simp]:
  "count_avail h [] = 0"
  "count_avail h (p # ps) = (if ref_avail h p then 1 else 0) + count_avail h ps"
  "count_avail h (ps @ qs) = count_avail h ps + count_avail h qs"
  by (simp_all add: count_avail_def)

lemma count_avail_bounds: "0 \<le> count_avail h ps" "count_avail h ps \<le> int (length ps)"
  by (simp_all add: count_avail_def)

lemma count_avail_cong: "(\<And>p. p \<in> set ps \<Longrightarrow> ref_avail h' p = ref_avail h p) \<Longrightarrow> count_avail h' ps = count_avail h ps"
  by (simp add: count_avail_def cong: filter_cong)

lemma count_avail_split: "count_avail h ps = count_avail h (take k ps) + count_avail h (drop k ps)"
  using count_avail_simps(3) [of h "take k ps" "drop k ps"] by simp

lemma count_avail_update:
  "k < length ps \<Longrightarrow> count_avail h (ps[k := x]) =
     count_avail h ps - (if ref_avail h (ps ! k) then 1 else 0) + (if ref_avail h x then 1 else 0)"
  using count_avail_split [of h ps k] by (simp add: upd_conv_take_nth_drop flip: Cons_nth_drop_Suc)

section \<open>The invariant of the ring with its neighbourhood\<close>

definition around :: "'a node_ring_scheme \<Rightarrow> node_ref list" where
  "around r = around_of (ring_this r) (ring_nodes r)"

definition pred_len :: "hood_ring \<Rightarrow> nat" where
  "pred_len r = ring_count (ring_size r) (pred_edge r) (ring_this r)"

definition succ_len :: "hood_ring \<Rightarrow> nat" where
  "succ_len r = ring_count (ring_size r) (ring_this r) (succ_edge r)"

definition pred_part :: "hood_ring \<Rightarrow> node_ref list" where
  "pred_part r = drop (ring_size r - 1 - pred_len r) (around r)"

definition succ_part :: "hood_ring \<Rightarrow> node_ref list" where
  "succ_part r = take (succ_len r) (around r)"

definition hood_counts :: "node_heap \<Rightarrow> hood_ring \<Rightarrow> bool" where
  "hood_counts h r \<longleftrightarrow>
     avail_count r = count_avail h (around r) \<and>
     (if complete_range r
      then pred_edge r = ring_this r \<and> succ_edge r = ring_this r \<and>
           pred_count r = avail_count r \<and> succ_count r = avail_count r
      else pred_edge r < ring_size r \<and> succ_edge r < ring_size r \<and>
           pred_len r + succ_len r < ring_size r \<and>
           pred_count r = count_avail h (pred_part r) \<and> succ_count r = count_avail h (succ_part r))"

definition address_entries :: "node_heap \<Rightarrow> node_ref list \<Rightarrow> (string \<times> node_ref) multiset" where
  "address_entries h ps = mset (map (\<lambda>p. (pn_address (h p), p)) ps)"

definition hood_inv :: "node_heap \<Rightarrow> hood_ring \<Rightarrow> bool" where
  "hood_inv h r \<longleftrightarrow>
     ring_this r < ring_size r \<and> sorted_ring h (ring_nodes r) \<and> hood_counts h r \<and>
     mset (address_map r) = address_entries h (ring_nodes r)"

lemma view_simps [simp]:
  "around (r\<lparr>avail_count := a\<rparr>) = around r" "around (r\<lparr>pred_count := a\<rparr>) = around r"
  "around (r\<lparr>succ_count := a\<rparr>) = around r" "around (r\<lparr>address_map := es\<rparr>) = around r"
  "around (r\<lparr>pred_edge := e\<rparr>) = around r" "around (r\<lparr>succ_edge := e\<rparr>) = around r"
  "around (r\<lparr>complete_range := b\<rparr>) = around r"
  "pred_len (r\<lparr>avail_count := a\<rparr>) = pred_len r" "pred_len (r\<lparr>pred_count := a\<rparr>) = pred_len r"
  "pred_len (r\<lparr>succ_count := a\<rparr>) = pred_len r" "pred_len (r\<lparr>address_map := es\<rparr>) = pred_len r"
  "pred_len (r\<lparr>succ_edge := e\<rparr>) = pred_len r" "pred_len (r\<lparr>complete_range := b\<rparr>) = pred_len r"
  "succ_len (r\<lparr>avail_count := a\<rparr>) = succ_len r" "succ_len (r\<lparr>pred_count := a\<rparr>) = succ_len r"
  "succ_len (r\<lparr>succ_count := a\<rparr>) = succ_len r" "succ_len (r\<lparr>address_map := es\<rparr>) = succ_len r"
  "succ_len (r\<lparr>pred_edge := e\<rparr>) = succ_len r" "succ_len (r\<lparr>complete_range := b\<rparr>) = succ_len r"
  by (simp_all add: around_def pred_len_def succ_len_def)

lemma position_simps [simp]:
  "get_pred (r\<lparr>pred_count := a\<rparr>) = get_pred r" "get_succ (r\<lparr>pred_count := a\<rparr>) = get_succ r"
  "get_pred (r\<lparr>succ_count := a\<rparr>) = get_pred r" "get_succ (r\<lparr>succ_count := a\<rparr>) = get_succ r"
  "get_node (r\<lparr>pred_count := a\<rparr>) = get_node r" "get_node (r\<lparr>succ_count := a\<rparr>) = get_node r"
  "get_node (r\<lparr>pred_edge := e\<rparr>) = get_node r" "get_node (r\<lparr>succ_edge := e\<rparr>) = get_node r"
  by (simp_all add: get_pred_def get_succ_def get_node_def fun_eq_iff)

lemma part_simps [simp]:
  "pred_part (r\<lparr>avail_count := a\<rparr>) = pred_part r" "pred_part (r\<lparr>pred_count := a\<rparr>) = pred_part r"
  "pred_part (r\<lparr>succ_count := a\<rparr>) = pred_part r" "pred_part (r\<lparr>address_map := es\<rparr>) = pred_part r"
  "pred_part (r\<lparr>succ_edge := e\<rparr>) = pred_part r" "pred_part (r\<lparr>complete_range := b\<rparr>) = pred_part r"
  "succ_part (r\<lparr>avail_count := a\<rparr>) = succ_part r" "succ_part (r\<lparr>pred_count := a\<rparr>) = succ_part r"
  "succ_part (r\<lparr>succ_count := a\<rparr>) = succ_part r" "succ_part (r\<lparr>address_map := es\<rparr>) = succ_part r"
  "succ_part (r\<lparr>pred_edge := e\<rparr>) = succ_part r" "succ_part (r\<lparr>complete_range := b\<rparr>) = succ_part r"
  by (simp_all add: pred_part_def succ_part_def)

lemma hood_invD:
  assumes "hood_inv h r"
  shows "ring_this r < ring_size r" "sorted_ring h (ring_nodes r)" "hood_counts h r"
    "mset (address_map r) = address_entries h (ring_nodes r)"
    "pred_edge r < ring_size r" "succ_edge r < ring_size r"
    "length (around r) = ring_size r - 1" "length (address_map r) = ring_size r"
proof -
  note inv = assms [unfolded hood_inv_def]
  show here: "ring_this r < ring_size r" using inv by blast
  show "sorted_ring h (ring_nodes r)" "hood_counts h r"
    "mset (address_map r) = address_entries h (ring_nodes r)" using inv by blast+
  show "pred_edge r < ring_size r" "succ_edge r < ring_size r"
    using inv by (auto simp: hood_counts_def split: if_splits)
  show "length (around r) = ring_size r - 1" using here by (simp add: around_def length_around)
  have "size (mset (address_map r)) = size (address_entries h (ring_nodes r))" using inv by simp
  then show "length (address_map r) = ring_size r" by (simp add: address_entries_def)
qed

text \<open>The tests on positions are tests on indices of the line.\<close>

lemma within_pred_index:
  assumes "ring_this r < ring_size r" "pred_edge r < ring_size r" "position < ring_size r"
    "position \<noteq> ring_this r" "\<not> complete_range r"
  shows "within_pred_hood position r \<longleftrightarrow>
    line_index (ring_size r) (ring_this r) position \<ge> ring_size r - 1 - pred_len r"
  using assms by (auto simp: within_pred_hood_def line_index_def pred_len_def ring_count_def)

lemma within_succ_index:
  assumes "ring_this r < ring_size r" "succ_edge r < ring_size r" "position < ring_size r"
    "position \<noteq> ring_this r" "\<not> complete_range r"
  shows "within_succ_hood position r \<longleftrightarrow>
    line_index (ring_size r) (ring_this r) position < succ_len r"
  using assms by (auto simp: within_succ_hood_def line_index_def succ_len_def ring_count_def)

section \<open>Adding, replacing and removing keep the invariant\<close>

lemma insert_lengths:
  assumes "t < n" "k \<le> n"
  shows "e < n \<Longrightarrow> ring_count (n + 1) (if k \<le> e then e + 1 else e) (if k \<le> t then t + 1 else t) =
      ring_count n e t + (if n - 1 - ring_count n e t < line_index n t k then 1 else 0)"
    "e < n \<Longrightarrow> ring_count (n + 1) (if k \<le> t then t + 1 else t) (if k \<le> e then e + 1 else e) =
      ring_count n t e + (if line_index n t k < ring_count n t e then 1 else 0)"
  using assms
  by (cases "e \<le> t"; cases "k \<le> t"; cases "k \<le> e"; simp add: ring_count_def line_index_def; linarith)+

text \<open>What the operations keep besides the invariant.\<close>

definition same_node :: "hood_ring \<Rightarrow> hood_ring \<Rightarrow> bool" where
  "same_node r r' \<longleftrightarrow> ring_nodes r' ! ring_this r' = ring_nodes r ! ring_this r \<and> hood_size r' = hood_size r \<and>
     exchange_interval r' = exchange_interval r"

lemma insert_nth_this:
  assumes "t < length ps" "k \<le> length ps"
  shows "(take k ps @ [x] @ drop k ps) ! (if k \<le> t then t + 1 else t) = ps ! t"
  using assms by (auto simp: nth_append min_def)

lemma count_drop_insert:
  assumes "k \<le> length ps" "d \<le> length ps"
  shows "count_avail h (drop (length ps + 1 - (d + (if length ps - d < k then 1 else 0))) (take k ps @ [x] @ drop k ps)) =
      count_avail h (drop (length ps - d) ps) + (if length ps - d < k \<and> ref_avail h x then 1 else 0)"
    "count_avail h (take (d + (if k < d then 1 else 0)) (take k ps @ [x] @ drop k ps)) =
      count_avail h (take d ps) + (if k < d \<and> ref_avail h x then 1 else 0)"
proof -
  show "count_avail h (drop (length ps + 1 - (d + (if length ps - d < k then 1 else 0))) (take k ps @ [x] @ drop k ps)) =
      count_avail h (drop (length ps - d) ps) + (if length ps - d < k \<and> ref_avail h x then 1 else 0)"
  proof (cases "length ps - d < k")
    case True
    then have "drop (length ps - d) ps = drop (length ps - d) (take k ps) @ drop k ps"
      using assms by (metis append_take_drop_id drop_append diff_is_0_eq drop_0 length_take less_imp_le_nat min.absorb2)
    then show ?thesis using True assms by (simp add: min_def)
  next
    case False
    then have "Suc (length ps) - d - k = Suc (length ps - d - k)" using assms by simp
    then show ?thesis using False assms by (simp add: min_def)
  qed
  show "count_avail h (take (d + (if k < d then 1 else 0)) (take k ps @ [x] @ drop k ps)) =
      count_avail h (take d ps) + (if k < d \<and> ref_avail h x then 1 else 0)"
  proof (cases "k < d")
    case True
    then have "take d ps = take k ps @ take (d - k) (drop k ps)"
      by (metis le_add_diff_inverse less_imp_le_nat take_add)
    moreover have "d + 1 - k = Suc (d - k)" using True by simp
    ultimately show ?thesis using True assms by (simp add: min_def)
  qed (use assms in \<open>simp add: min_def\<close>)
qed


lemma hood_on_added_inv:
  assumes inv: "hood_inv h r0" and k: "k \<le> ring_size r0"
    and sorted: "sorted_ring h (take k (ring_nodes r0) @ [x] @ drop k (ring_nodes r0))"
  defines "ps' \<equiv> take k (ring_nodes r0) @ [x] @ drop k (ring_nodes r0)"
  shows "\<exists>r'. hood_on_added h x k (r0\<lparr>ring_nodes := ps'\<rparr>) = Some r' \<and> hood_inv h r' \<and> same_node r0 r' \<and>
     ring_nodes r' = ps' \<and> complete_range r' = complete_range r0"
proof -
  note D = hood_invD [OF inv]
  let ?n = "ring_size r0" and ?t = "ring_this r0"
  let ?t' = "if k \<le> ?t then ?t + 1 else ?t"
  let ?i = "line_index ?n ?t k"
  have sorted': "sorted_ring h ps'" using sorted by (simp only: ps'_def)
  have size: "length ps' = ?n + 1" using k by (simp add: ps'_def)
  have this_less: "?t' < ?n + 1" using D(1) by simp
  have k_this: "k \<noteq> ?t'" by simp
  have this_node: "ps' ! ?t' = ring_nodes r0 ! ?t"
    unfolding ps'_def by (rule insert_nth_this [OF D(1) k])
  have line: "around_of ?t' ps' = take ?i (around r0) @ [x] @ drop ?i (around r0)" and i: "?i \<le> ?n - 1"
    using around_insert(1) [OF D(1) k, of x] around_insert(2) [OF D(1) k] by (simp_all add: ps'_def around_def)
  have amap: "mset (address_map r0 @ [(pn_address (h x), x)]) = address_entries h ps'"
  proof -
    have "mset (ring_nodes r0) = mset (take k (ring_nodes r0)) + mset (drop k (ring_nodes r0))"
      by (metis append_take_drop_id mset_append)
    then show ?thesis by (simp add: D(4) address_entries_def ps'_def)
  qed
  have avail: "count_avail h (around_of ?t' ps') = count_avail h (around r0) + (if ref_avail h x then 1 else 0)"
    unfolding line using count_avail_split [of h "around r0" ?i] by simp
  show ?thesis
  proof (cases "complete_range r0")
    case True
    let ?r' = "r0\<lparr>ring_nodes := ps', ring_this := ?t', address_map := address_map r0 @ [(pn_address (h x), x)],
      pred_edge := ?t', succ_edge := ?t', avail_count := count_avail h (around_of ?t' ps'),
      pred_count := count_avail h (around_of ?t' ps'), succ_count := count_avail h (around_of ?t' ps')\<rparr>"
    have counts: "avail_count r0 = count_avail h (around r0)" "pred_count r0 = avail_count r0" "succ_count r0 = avail_count r0"
      using D(3) True by (simp_all add: hood_counts_def)
    have "hood_on_added h x k (r0\<lparr>ring_nodes := ps'\<rparr>) = Some ?r'"
      using True D(8) counts by (simp add: hood_on_added_def this_on_added_def size avail)
    moreover have "hood_inv h ?r'"
      using sorted' this_less amap True by (simp add: hood_inv_def hood_counts_def size around_def)
    ultimately show ?thesis using this_node by (auto simp: same_node_def)
  next
    case False
    have counts: "avail_count r0 = count_avail h (around r0)" "pred_edge r0 < ?n" "succ_edge r0 < ?n"
      "ring_count ?n (pred_edge r0) ?t + ring_count ?n ?t (succ_edge r0) < ?n"
      "pred_count r0 = count_avail h (pred_part r0)" "succ_count r0 = count_avail h (succ_part r0)"
      using D(3) False by (simp_all add: hood_counts_def pred_len_def succ_len_def)
    let ?pe = "if k \<le> pred_edge r0 then pred_edge r0 + 1 else pred_edge r0"
    let ?se = "if k \<le> succ_edge r0 then succ_edge r0 + 1 else succ_edge r0"
    let ?pd = "pred_len r0" and ?sd = "succ_len r0"
    let ?r1 = "r0\<lparr>ring_nodes := ps', ring_this := ?t', address_map := address_map r0 @ [(pn_address (h x), x)],
      pred_edge := ?pe, succ_edge := ?se\<rparr>"
    let ?r' = "?r1\<lparr>avail_count := count_avail h (around_of ?t' ps'),
      pred_count := count_avail h (pred_part r0) + (if ?n - 1 - ?pd < ?i \<and> ref_avail h x then 1 else 0),
      succ_count := count_avail h (succ_part r0) + (if ?i < ?sd \<and> ref_avail h x then 1 else 0)\<rparr>"
    note lens = insert_lengths(1) [OF D(1) k counts(2)] insert_lengths(2) [OF D(1) k counts(3)]
    have lens1: "pred_len ?r1 = ?pd + (if ?n - 1 - ?pd < ?i then 1 else 0)"
      "succ_len ?r1 = ?sd + (if ?i < ?sd then 1 else 0)"
      using lens by (simp_all add: pred_len_def succ_len_def size)
    have pos_index: "line_index (?n + 1) ?t' k = ?i"
      using D(1) by (auto simp: line_index_def)
    have pd: "?pd + ?sd < ?n" using counts(4) by (simp add: pred_len_def succ_len_def)
    have r1: "ring_size ?r1 = ?n + 1" "ring_this ?r1 = ?t'" "pred_edge ?r1 < ?n + 1" "succ_edge ?r1 < ?n + 1"
      "\<not> complete_range ?r1"
      using counts(2,3) False by (simp_all add: size)
    have within: "within_pred_hood k ?r1 \<longleftrightarrow> ?n - 1 - ?pd < ?i" "within_succ_hood k ?r1 \<longleftrightarrow> ?i < ?sd"
    proof -
      have k1: "k < ?n + 1" using k by simp
      have "within_pred_hood k ?r1 \<longleftrightarrow> ?i \<ge> ?n + 1 - 1 - pred_len ?r1"
        using within_pred_index [of ?r1 k] this_less k1 k_this by (simp only: r1 pos_index simp_thms)
      then show "within_pred_hood k ?r1 \<longleftrightarrow> ?n - 1 - ?pd < ?i" using lens1(1) pd i by auto
      have "within_succ_hood k ?r1 \<longleftrightarrow> ?i < succ_len ?r1"
        using within_succ_index [of ?r1 k] this_less k1 k_this by (simp only: r1 pos_index simp_thms)
      then show "within_succ_hood k ?r1 \<longleftrightarrow> ?i < ?sd" using lens1(2) by auto
    qed
    have not_both: "\<not> (?n - 1 - ?pd < ?i \<and> ?i < ?sd)" using pd by linarith
    have within': "within_pred_hood k (?r1\<lparr>avail_count := c\<rparr>) = within_pred_hood k ?r1"
      "within_succ_hood k (?r1\<lparr>avail_count := c\<rparr>) = within_succ_hood k ?r1" for c
      by (simp_all add: within_pred_hood_def within_succ_hood_def)
    have "hood_on_added h x k (r0\<lparr>ring_nodes := ps'\<rparr>) = Some ?r'"
    proof (cases "ref_avail h x")
      case True
      have "hood_on_added h x k (r0\<lparr>ring_nodes := ps'\<rparr>) = Some
        (let r = ?r1\<lparr>avail_count := avail_count r0 + 1\<rparr>
         in if within_pred_hood k r then r\<lparr>pred_count := pred_count r + 1\<rparr>
            else if within_succ_hood k r then r\<lparr>succ_count := succ_count r + 1\<rparr> else r)"
        using False D(8) True by (simp add: hood_on_added_def this_on_added_def Let_def size)
      also have "\<dots> = Some ?r'"
        using within not_both counts True by (simp add: Let_def within' avail)
      finally show ?thesis .
    next
      case notavail: False
      then show ?thesis
        using False D(8) counts by (simp add: hood_on_added_def this_on_added_def Let_def size avail)
    qed
    moreover have "hood_inv h ?r'"
    proof -
      have len: "length (around r0) = ?n - 1" by (rule D(7))
      have "around ?r' = take ?i (around r0) @ [x] @ drop ?i (around r0)"
        using line by (simp add: around_def)
      moreover have "pred_len ?r' = ?pd + (if ?n - 1 - ?pd < ?i then 1 else 0)"
        "succ_len ?r' = ?sd + (if ?i < ?sd then 1 else 0)"
        using lens1 by (simp_all add: pred_len_def succ_len_def)
      ultimately have parts: "count_avail h (pred_part ?r') = count_avail h (pred_part r0) + (if ?n - 1 - ?pd < ?i \<and> ref_avail h x then 1 else 0)"
        "count_avail h (succ_part ?r') = count_avail h (succ_part r0) + (if ?i < ?sd \<and> ref_avail h x then 1 else 0)"
        "pred_len ?r' + succ_len ?r' < ?n + 1"
        using count_drop_insert [of ?i "around r0" ?pd h x] count_drop_insert [of ?i "around r0" ?sd h x] i pd not_both D(1)
        by (simp_all add: pred_part_def succ_part_def size len)
      show ?thesis
        using sorted' this_less amap False counts(2,3) parts
        by (simp add: hood_inv_def hood_counts_def size around_def)
    qed
    ultimately show ?thesis using this_node False by (auto simp: same_node_def)
  qed
qed

lemma mset_erase_address [simp]: "mset (erase_address a p es) = mset es - {#(a, p)#}"
  by (induction es) auto

lemma length_erase_address: "(a, p) \<in> set es \<Longrightarrow> length (erase_address a p es) = length es - 1"
  by (metis mset_erase_address size_Diff_singleton size_mset set_mset_mset)

text \<open>A position that is within both neighbourhoods, or in neither, when everything is known.\<close>

lemma within_complete:
  assumes "complete_range r" "pred_edge r = ring_this r" "succ_edge r = ring_this r"
  shows "within_pred_hood p r \<longleftrightarrow> p \<noteq> ring_this r" "within_succ_hood p r \<longleftrightarrow> p \<noteq> ring_this r"
  using assms by (simp_all add: within_pred_hood_def within_succ_hood_def)

lemma within_this [simp]: "\<not> within_pred_hood (ring_this r) r" "\<not> within_succ_hood (ring_this r) r"
  by (simp_all add: within_pred_hood_def within_succ_hood_def)

lemma within_counts [simp]:
  "within_pred_hood p (r\<lparr>avail_count := a\<rparr>) = within_pred_hood p r"
  "within_succ_hood p (r\<lparr>avail_count := a\<rparr>) = within_succ_hood p r"
  "within_pred_hood p (r\<lparr>pred_count := a\<rparr>) = within_pred_hood p r"
  "within_succ_hood p (r\<lparr>pred_count := a\<rparr>) = within_succ_hood p r"
  "within_pred_hood p (r\<lparr>succ_count := a\<rparr>) = within_pred_hood p r"
  "within_succ_hood p (r\<lparr>succ_count := a\<rparr>) = within_succ_hood p r"
  by (simp_all add: within_pred_hood_def within_succ_hood_def)

text \<open>The change of the counts when the node at a position other than this node's changes.\<close>

abbreviation avail_int :: "node_heap \<Rightarrow> node_ref \<Rightarrow> int" where
  "avail_int h p \<equiv> (if ref_avail h p then 1 else 0)"

lemma parts_update:
  assumes "hood_inv h r" "\<not> complete_range r" "p < ring_size r" "p \<noteq> ring_this r"
  shows "count_avail h (pred_part (r\<lparr>ring_nodes := (ring_nodes r)[p := x]\<rparr>)) = count_avail h (pred_part r) +
      (if within_pred_hood p r then avail_int h x - avail_int h (ring_nodes r ! p) else 0)"
    "count_avail h (succ_part (r\<lparr>ring_nodes := (ring_nodes r)[p := x]\<rparr>)) = count_avail h (succ_part r) +
      (if within_succ_hood p r then avail_int h x - avail_int h (ring_nodes r ! p) else 0)"
    "count_avail h (around (r\<lparr>ring_nodes := (ring_nodes r)[p := x]\<rparr>)) = count_avail h (around r) +
      avail_int h x - avail_int h (ring_nodes r ! p)"
proof -
  note D = hood_invD [OF assms(1)]
  let ?r = "r\<lparr>ring_nodes := (ring_nodes r)[p := x]\<rparr>" and ?L = "around r"
  let ?i = "line_index (ring_size r) (ring_this r) p" and ?m = "ring_size r - 1"
  have i: "?L ! ?i = ring_nodes r ! p" "?i < ?m"
    using around_nth [OF D(1) assms(3,4)] by (simp_all add: around_def)
  have lens: "pred_len ?r = pred_len r" "succ_len ?r = succ_len r" by (simp_all add: pred_len_def succ_len_def)
  have line: "around ?r = ?L[?i := x]" using around_update [OF D(1) assms(3,4)] by (simp add: around_def)
  have len: "length ?L = ?m" by (rule D(7))
  have ls: "pred_len r + succ_len r < ring_size r" using D(3) assms(2) by (simp add: hood_counts_def)
  show "count_avail h (around ?r) = count_avail h ?L + avail_int h x - avail_int h (ring_nodes r ! p)"
    using i len by (simp add: line count_avail_update)
  have within: "within_pred_hood p r \<longleftrightarrow> ?m - pred_len r \<le> ?i" "within_succ_hood p r \<longleftrightarrow> ?i < succ_len r"
    using within_pred_index within_succ_index D(1,5,6) assms by (simp_all add: diff_right_commute)
  show "count_avail h (pred_part ?r) = count_avail h (pred_part r) +
      (if within_pred_hood p r then avail_int h x - avail_int h (ring_nodes r ! p) else 0)"
  proof (cases "?m - pred_len r \<le> ?i")
    case True
    have "drop (?m - pred_len r) ?L ! (?i - (?m - pred_len r)) = ring_nodes r ! p"
      using True i len by simp
    then show ?thesis
      using True i len within by (simp add: pred_part_def line lens drop_update_swap count_avail_update)
  next
    case False
    then show ?thesis using within by (simp add: pred_part_def line lens)
  qed
  show "count_avail h (succ_part ?r) = count_avail h (succ_part r) +
      (if within_succ_hood p r then avail_int h x - avail_int h (ring_nodes r ! p) else 0)"
  proof (cases "?i < succ_len r")
    case True
    then show ?thesis
      using i len within by (simp add: succ_part_def line lens take_update_swap count_avail_update)
  next
    case False
    then show ?thesis using within by (simp add: succ_part_def line lens)
  qed
qed


lemma address_entries_simps:
  "address_entries h (ps @ qs) = address_entries h ps + address_entries h qs"
  "address_entries h (p # ps) = add_mset (pn_address (h p), p) (address_entries h ps)"
  by (simp_all add: address_entries_def)

lemma address_entry: "p < length ps \<Longrightarrow> (pn_address (h (ps ! p)), ps ! p) \<in># address_entries h ps"
  by (auto simp: address_entries_def)

lemma address_entries_update:
  assumes "p < length ps"
  shows "address_entries h (ps[p := x]) =
    address_entries h ps - {#(pn_address (h (ps ! p)), ps ! p)#} + {#(pn_address (h x), x)#}"
proof -
  have "ps = take p ps @ ps ! p # drop (Suc p) ps" using assms by (rule id_take_nth_drop)
  then have "address_entries h ps = address_entries h (take p ps @ ps ! p # drop (Suc p) ps)" by simp
  then show ?thesis
    using assms by (simp add: upd_conv_take_nth_drop address_entries_simps)
qed

lemma sorted_ring_update:
  assumes "sorted_ring h ps" "p < length ps" "ref_id h x = ref_id h (ps ! p)"
  shows "sorted_ring h (ps[p := x])"
proof -
  have "map (ref_id h) (ps[p := x]) = map (ref_id h) ps"
    using assms(2,3) by (auto simp: map_update list_update_id intro!: nth_equalityI simp: nth_list_update)
  then show ?thesis using assms(1) by (simp add: sorted_ring_def)
qed

lemma count_avail_pos: "p \<in> set ps \<Longrightarrow> ref_avail h p \<Longrightarrow> 0 < count_avail h ps"
  by (induction ps) (auto simp: add_nonneg_pos count_avail_bounds intro: add_pos_nonneg)

lemma within_member:
  assumes "hood_inv h r" "p < ring_size r"
  shows "p \<noteq> ring_this r \<Longrightarrow> ring_nodes r ! p \<in> set (around r)"
    "within_pred_hood p r \<Longrightarrow> \<not> complete_range r \<Longrightarrow> ring_nodes r ! p \<in> set (pred_part r)"
    "within_succ_hood p r \<Longrightarrow> \<not> complete_range r \<Longrightarrow> ring_nodes r ! p \<in> set (succ_part r)"
proof -
  note D = hood_invD [OF assms(1)]
  let ?i = "line_index (ring_size r) (ring_this r) p" and ?m = "ring_size r - 1"
  have i: "around r ! ?i = ring_nodes r ! p" "?i < ?m" if "p \<noteq> ring_this r"
    using around_nth [OF D(1) assms(2) that] by (simp_all add: around_def)
  then show "p \<noteq> ring_this r \<Longrightarrow> ring_nodes r ! p \<in> set (around r)"
    by (metis D(7) nth_mem)
  show "ring_nodes r ! p \<in> set (pred_part r)" if "within_pred_hood p r" "\<not> complete_range r"
  proof -
    have here: "p \<noteq> ring_this r" using that by auto
    then have "?m - pred_len r \<le> ?i"
      using within_pred_index [OF D(1,5) assms(2)] that by simp
    then have "drop (?m - pred_len r) (around r) ! (?i - (?m - pred_len r)) = ring_nodes r ! p"
      using i [OF here] D(7) by simp
    then show ?thesis
      using i [OF here] D(7) \<open>?m - pred_len r \<le> ?i\<close>
      by (metis pred_part_def nth_mem length_drop diff_less_mono)
  qed
  show "ring_nodes r ! p \<in> set (succ_part r)" if "within_succ_hood p r" "\<not> complete_range r"
  proof -
    have here: "p \<noteq> ring_this r" using that by auto
    then have "?i < succ_len r"
      using within_succ_index [OF D(1,6) assms(2)] that by simp
    then show ?thesis
      using i [OF here] D(7) by (auto simp: succ_part_def in_set_conv_nth intro!: exI [of _ ?i])
  qed
qed

lemma hood_replace_inv:
  assumes inv: "hood_inv h r" and p: "p < ring_size r" and id: "ref_id h x = ref_id h (ring_nodes r ! p)"
    and here: "p = ring_this r \<longrightarrow> ref_avail h x = ref_avail h (ring_nodes r ! p)"
  shows "\<exists>r'. hood_replace h p x r = Some r' \<and> hood_inv h r' \<and>
     ring_nodes r' = (ring_nodes r)[p := x] \<and> ring_this r' = ring_this r \<and>
     complete_range r' = complete_range r \<and> hood_size r' = hood_size r \<and> exchange_interval r' = exchange_interval r \<and>
     pred_edge r' = pred_edge r \<and> succ_edge r' = succ_edge r"
proof -
  note D = hood_invD [OF inv]
  let ?q = "ring_nodes r ! p" and ?r0 = "r\<lparr>ring_nodes := (ring_nodes r)[p := x]\<rparr>"
  let ?d = "avail_int h x - avail_int h ?q"
  let ?dp = "if within_pred_hood p r then ?d else 0" and ?ds = "if within_succ_hood p r then ?d else 0"
  let ?amap = "erase_address (pn_address (h ?q)) ?q (address_map r) @ [(pn_address (h x), x)]"
  let ?r' = "?r0\<lparr>avail_count := avail_count r + ?d, pred_count := pred_count r + ?dp,
      succ_count := succ_count r + ?ds, address_map := ?amap\<rparr>"
  have same: "within_pred_hood p ?r0 = within_pred_hood p r" "within_succ_hood p ?r0 = within_succ_hood p r"
    by (simp_all add: within_pred_hood_def within_succ_hood_def)
  have len: "length (around r) = ring_size r - 1" by (rule D(7))
  have mem: "(pn_address (h ?q), ?q) \<in> set (address_map r)"
    using address_entry [OF p, of h] D(4) by (metis set_mset_mset)
  have amap: "mset ?amap = address_entries h ((ring_nodes r)[p := x])"
    by (simp add: address_entries_update [OF p] D(4))
  have counted: "hood_counts h ?r' \<and> (?d = - 1 \<longrightarrow> p \<noteq> ring_this r \<longrightarrow>
      (within_pred_hood p r \<longrightarrow> pred_count r \<noteq> 0) \<and> (within_succ_hood p r \<longrightarrow> succ_count r \<noteq> 0))"
  proof (cases "p = ring_this r")
    case True
    then have "?d = 0" using here by simp
    moreover have "around ?r0 = around r"
      using True D(1) by (simp add: around_def around_update_this)
    moreover have "pred_len ?r0 = pred_len r" "succ_len ?r0 = succ_len r" by (simp_all add: pred_len_def succ_len_def)
    ultimately show ?thesis
      using D(3) by (simp add: hood_counts_def pred_part_def succ_part_def)
  next
    case False
    have around_r': "around ?r' = around ?r0" by (simp add: around_def)
    show ?thesis
    proof (cases "complete_range r")
      case True
      then have eq: "pred_edge r = ring_this r" "succ_edge r = ring_this r" "pred_count r = avail_count r"
        "succ_count r = avail_count r" "avail_count r = count_avail h (around r)"
        using D(3) by (simp_all add: hood_counts_def)
      have line: "around ?r0 = (around r)[line_index (ring_size r) (ring_this r) p := x]"
        using around_update [OF D(1) p False] by (simp add: around_def)
      have i: "around r ! line_index (ring_size r) (ring_this r) p = ?q" "line_index (ring_size r) (ring_this r) p < ring_size r - 1"
        using around_nth [OF D(1) p False] by (simp_all add: around_def)
      have "count_avail h (around ?r0) = count_avail h (around r) + ?d"
        using i len by (simp add: line count_avail_update)
      moreover have "?d = - 1 \<longrightarrow> 0 < count_avail h (around r)"
        using within_member(1) [OF inv p False] count_avail_pos [of ?q "around r" h] by auto
      ultimately show ?thesis
        using True False eq within_complete [OF True eq(1,2), of p] by (auto simp: hood_counts_def around_r')
    next
      case notcomplete: False
      note parts = parts_update [OF inv notcomplete p False, of x]
      have "pred_part ?r' = pred_part ?r0" "succ_part ?r' = succ_part ?r0" "pred_len ?r' = pred_len r" "succ_len ?r' = succ_len r"
        by (simp_all add: pred_part_def succ_part_def pred_len_def succ_len_def around_def)
      moreover have "?d = - 1 \<longrightarrow> (within_pred_hood p r \<longrightarrow> 0 < count_avail h (pred_part r)) \<and>
          (within_succ_hood p r \<longrightarrow> 0 < count_avail h (succ_part r))"
        using within_member(2,3) [OF inv p] notcomplete count_avail_pos [of ?q _ h] by auto
      ultimately show ?thesis
        using notcomplete D(3) parts by (auto simp: hood_counts_def around_r')
    qed
  qed
  have "hood_replace h p x r = Some ?r'"
  proof -
    consider (lost) "ref_avail h ?q" "\<not> ref_avail h x" | (gained) "\<not> ref_avail h ?q" "ref_avail h x"
      | (equal) "ref_avail h ?q = ref_avail h x" by blast
    then show ?thesis
    proof cases
      case lost
      then have "p \<noteq> ring_this r" using here by auto
      then show ?thesis
        using lost counted p same
        by (auto simp: hood_replace_def base_replace_def get_node_def hood_on_replaced_def count_on_lost_def Let_def)
    next
      case gained
      then show ?thesis
        using p same by (auto simp: hood_replace_def base_replace_def get_node_def hood_on_replaced_def count_on_gained_def Let_def)
    next
      case equal
      then show ?thesis
        using p by (auto simp: hood_replace_def base_replace_def get_node_def hood_on_replaced_def)
    qed
  qed
  moreover have "hood_inv h ?r'"
    using counted D(1) amap sorted_ring_update [OF D(2) p id] by (simp add: hood_inv_def)
  ultimately show ?thesis by auto
qed

lemma remove_lengths:
  assumes "t < n" "p < n" "p \<noteq> t" "e < n" "e \<noteq> p"
  shows "ring_count (n - 1) (if p < e then e - 1 else e) (if p < t then t - 1 else t) =
      ring_count n e t - (if n - 1 - ring_count n e t \<le> line_index n t p then 1 else 0)"
    "ring_count (n - 1) (if p < t then t - 1 else t) (if p < e then e - 1 else e) =
      ring_count n t e - (if line_index n t p < ring_count n t e then 1 else 0)"
    "n - 1 - ring_count n e t \<noteq> line_index n t p"
    "ring_count n t e \<noteq> Suc (line_index n t p)"
  using assms
  by (cases "e \<le> t"; cases "p < t"; cases "p < e"; simp add: ring_count_def line_index_def; linarith)+

lemma count_drop_remove:
  assumes "k < length ps" "d \<le> length ps"
  shows "length ps - d < k \<Longrightarrow> count_avail h (drop (length ps - 1 - (d - 1)) (take k ps @ drop (k + 1) ps)) =
      count_avail h (drop (length ps - d) ps) - avail_int h (ps ! k)"
    "k < length ps - d \<Longrightarrow> drop (length ps - 1 - d) (take k ps @ drop (k + 1) ps) = drop (length ps - d) ps"
    "k < d \<Longrightarrow> count_avail h (take (d - 1) (take k ps @ drop (k + 1) ps)) = count_avail h (take d ps) - avail_int h (ps ! k)"
    "d \<le> k \<Longrightarrow> take d (take k ps @ drop (k + 1) ps) = take d ps"
proof -
  assume a: "length ps - d < k"
  have "drop (length ps - d) ps = drop (length ps - d) (take k ps @ ps ! k # drop (Suc k) ps)"
    using assms(1) by (simp flip: id_take_nth_drop)
  then have "count_avail h (drop (length ps - d) ps) =
      count_avail h (drop (length ps - d) (take k ps)) + (avail_int h (ps ! k) + count_avail h (drop (Suc k) ps))"
    using a assms by (simp add: min_def)
  moreover have "length ps - 1 - (d - 1) = length ps - d" using a assms by arith
  ultimately show "count_avail h (drop (length ps - 1 - (d - 1)) (take k ps @ drop (k + 1) ps)) =
      count_avail h (drop (length ps - d) ps) - avail_int h (ps ! k)"
    using a assms by (simp add: min_def)
next
  assume a: "k < length ps - d"
  then have "length ps - 1 - d - k + (k + 1) = length ps - d" by arith
  then show "drop (length ps - 1 - d) (take k ps @ drop (k + 1) ps) = drop (length ps - d) ps"
    using a assms by (simp add: min_def)
next
  assume a: "k < d"
  then obtain e where e: "d = Suc (k + e)" by (metis less_iff_Suc_add)
  have "take d ps = take k ps @ take (Suc e) (drop k ps)" by (simp add: e take_add flip: add_Suc_right)
  also have "drop k ps = ps ! k # drop (Suc k) ps" using assms(1) by (simp add: Cons_nth_drop_Suc)
  finally show "count_avail h (take (d - 1) (take k ps @ drop (k + 1) ps)) = count_avail h (take d ps) - avail_int h (ps ! k)"
    using assms by (simp add: e min_def)
next
  assume "d \<le> k"
  then show "take d (take k ps @ drop (k + 1) ps) = take d ps" using assms by (simp add: min_def)
qed

lemma sorted_ring_remove:
  assumes "sorted_ring h ps"
  shows "sorted_ring h (take p ps @ drop (p + 1) ps)"
proof (cases "p < length ps")
  case True
  then have "sorted_ring h (take p ps @ ps ! p # drop (Suc p) ps)" using assms by (simp flip: id_take_nth_drop)
  then show ?thesis by simp
qed (use assms in simp)

lemma hood_remove_inv:
  assumes inv: "hood_inv h r" and p: "p < ring_size r" "p \<noteq> ring_this r" "p \<noteq> pred_edge r" "p \<noteq> succ_edge r"
    and outside: "ref_avail h (ring_nodes r ! p) \<Longrightarrow>
      \<not> complete_range r \<and> \<not> within_pred_hood p r \<and> \<not> within_succ_hood p r"
  shows "\<exists>r'. hood_remove h p r = Some r' \<and> hood_inv h r' \<and> same_node r r' \<and>
     ring_nodes r' = take p (ring_nodes r) @ drop (p + 1) (ring_nodes r) \<and> complete_range r' = complete_range r"
proof -
  note D = hood_invD [OF inv]
  let ?q = "ring_nodes r ! p" and ?n = "ring_size r" and ?t = "ring_this r" and ?L = "around r"
  let ?ps = "take p (ring_nodes r) @ drop (p + 1) (ring_nodes r)"
  let ?t' = "if p < ?t then ?t - 1 else ?t"
  let ?pe = "if p < pred_edge r then pred_edge r - 1 else pred_edge r"
  let ?se = "if p < succ_edge r then succ_edge r - 1 else succ_edge r"
  let ?amap = "erase_address (pn_address (h ?q)) ?q (address_map r)"
  let ?i = "line_index ?n ?t p"
  let ?r' = "r\<lparr>ring_nodes := ?ps, ring_this := ?t', pred_edge := ?pe, succ_edge := ?se,
      avail_count := avail_count r - avail_int h ?q, address_map := ?amap\<rparr>"
  define r' where "r' = ?r'"
  have r': "ring_nodes r' = ?ps" "ring_this r' = ?t'" "pred_edge r' = ?pe" "succ_edge r' = ?se"
    "avail_count r' = avail_count r - avail_int h ?q" "address_map r' = ?amap" "pred_count r' = pred_count r"
    "succ_count r' = succ_count r" "complete_range r' = complete_range r" "hood_size r' = hood_size r"
    "exchange_interval r' = exchange_interval r"
    by (simp_all add: r'_def)
  have size: "length ?ps = ?n - 1" using p by simp
  have here: "?t' < ?n - 1" using p D(1) by auto
  have mem: "(pn_address (h ?q), ?q) \<in> set (address_map r)"
    using address_entry [OF p(1), of h] D(4) by (metis set_mset_mset)
  have len_amap: "length ?amap = ?n - 1" using length_erase_address [OF mem] D(8) by simp
  have amap: "mset ?amap = address_entries h ?ps"
  proof -
    have "ring_nodes r = take p (ring_nodes r) @ ?q # drop (Suc p) (ring_nodes r)" using p(1) by (rule id_take_nth_drop)
    then have "address_entries h (ring_nodes r) = address_entries h (take p (ring_nodes r) @ ?q # drop (Suc p) (ring_nodes r))"
      by simp
    then show ?thesis by (simp add: D(4) address_entries_simps)
  qed
  have line: "around r' = take ?i ?L @ drop (?i + 1) ?L"
    using around_remove [OF D(1) p(1,2)] by (simp add: around_def r')
  have i: "?L ! ?i = ?q" "?i < ?n - 1"
    using around_nth [OF D(1) p(1,2)] by (simp_all add: around_def)
  have len: "length ?L = ?n - 1" by (rule D(7))
  have avail: "count_avail h (around r') = count_avail h ?L - avail_int h ?q"
    unfolding line using count_avail_split [of h ?L ?i] i len by (simp flip: Cons_nth_drop_Suc)
  have counted: "hood_counts h r'"
  proof (cases "complete_range r")
    case True
    then show ?thesis using D(3) avail outside by (auto simp: hood_counts_def r')
  next
    case False
    note l1 = remove_lengths [OF D(1) p(1,2) D(5) p(3) [symmetric]]
    note l2 = remove_lengths [OF D(1) p(1,2) D(6) p(4) [symmetric]]
    have within: "within_pred_hood p r \<longleftrightarrow> ?n - 1 - pred_len r \<le> ?i" "within_succ_hood p r \<longleftrightarrow> ?i < succ_len r"
      using within_pred_index within_succ_index D(1,5,6) False p by simp_all
    have lens: "pred_len r' = pred_len r - (if ?n - 1 - pred_len r \<le> ?i then 1 else 0)"
      "succ_len r' = succ_len r - (if ?i < succ_len r then 1 else 0)"
      using l1(1) l2(2) p(1) size by (simp_all add: pred_len_def succ_len_def r')
    have ne: "?n - 1 - pred_len r \<noteq> ?i" using l1(3) by (simp add: pred_len_def)
    have ls: "pred_len r + succ_len r < ?n" using D(3) False by (simp add: hood_counts_def)
    have pp: "count_avail h (pred_part r') = count_avail h (pred_part r)"
    proof (cases "within_pred_hood p r")
      case True
      then show ?thesis
        using count_drop_remove(1) [of ?i ?L "pred_len r" h] within ne outside i len ls lens(1) p(1)
        by (auto simp: pred_part_def line size r')
    next
      case np: False
      then show ?thesis
        using count_drop_remove(2) [of ?i ?L "pred_len r"] within ne i len ls lens(1) p(1)
        by (auto simp: pred_part_def line size r')
    qed
    have sp: "count_avail h (succ_part r') = count_avail h (succ_part r)"
    proof (cases "within_succ_hood p r")
      case True
      then show ?thesis
        using count_drop_remove(3) [of ?i ?L "succ_len r" h] within outside i len ls lens(2)
        by (auto simp: succ_part_def line r')
    next
      case ns: False
      then show ?thesis
        using count_drop_remove(4) [of ?i ?L "succ_len r"] within i len ls lens(2)
        by (auto simp: succ_part_def line r')
    qed
    have edges: "pred_edge r' < ring_size r'" "succ_edge r' < ring_size r'"
      using D(5,6) p unfolding r' size by (auto split: if_splits)
    have "pred_len r' + succ_len r' < ring_size r'"
      using lens ls ne p(1) i(2) unfolding r' size by (auto split: if_splits)
    then show ?thesis
      using False D(3) avail pp sp edges by (simp add: hood_counts_def r')
  qed
  have "hood_remove h p r = Some r'"
    using p len_amap size
    by (simp add: hood_remove_def base_erase_def get_node_def hood_on_removed_def this_on_removed_def Let_def r'_def)
  moreover have "hood_inv h r'"
    using counted here size amap sorted_ring_remove [OF D(2), of p] by (simp add: hood_inv_def r')
  moreover have "?ps ! ?t' = ring_nodes r ! ?t"
    using p D(1) by (auto simp: nth_append min_def)
  ultimately show ?thesis using r' by (auto simp: same_node_def)
qed

end
