(* ===== verification/Hood_Edges.thy ===== *)
theory Hood_Edges
  imports Hood_Invariant
begin

section \<open>The edges of the neighbourhood\<close>

text \<open>
  The walks of \<open>NodeRingWithHood\<close> along the ring are walks along the line of \<open>Hood_Invariant\<close>: from
  an edge to this node they meet the nodes of the neighbourhood, and moving an edge moves one node
  into or out of it. Every operation on the edges keeps the invariant.
\<close>

subsection \<open>Walking the ring\<close>

definition line_pos :: "nat \<Rightarrow> nat \<Rightarrow> nat \<Rightarrow> nat" where
  "line_pos n t i = (if t + 1 + i < n then t + 1 + i else t + 1 + i - n)"

lemma line_pos_simps:
  assumes "t < n" "i < n"
  shows "line_pos n t i < n" "line_pos n t (n - 1) = t" "line_pos n t i = t \<longleftrightarrow> i = n - 1"
    "ring_count n (line_pos n t i) t = n - 1 - i"
    "ring_count n t (line_pos n t i) = (if i = n - 1 then 0 else i + 1)"
    "i \<noteq> n - 1 \<Longrightarrow> line_index n t (line_pos n t i) = i"
  using assms by (auto simp: line_pos_def ring_count_def line_index_def)

lemma line_pos_inj: "t < n \<Longrightarrow> i < n \<Longrightarrow> j < n \<Longrightarrow> line_pos n t i = line_pos n t j \<longleftrightarrow> i = j"
  by (auto simp: line_pos_def)

lemma line_pos_of_count:
  assumes "t < n" "e < n"
  shows "e = line_pos n t (n - 1 - ring_count n e t)" "ring_count n e t < n" "ring_count n t e < n"
    "ring_count n t e \<noteq> 0 \<Longrightarrow> e = line_pos n t (ring_count n t e - 1)" "ring_count n t e = 0 \<longleftrightarrow> e = t"
    "ring_count n e t = 0 \<longleftrightarrow> e = t"
  using assms by (auto simp: line_pos_def ring_count_def)

lemma line_step:
  fixes r :: "hood_ring"
  assumes "ring_this r < ring_size r"
  defines "n \<equiv> ring_size r" and "t \<equiv> ring_this r"
  shows "i < n - 1 \<Longrightarrow> get_succ r (line_pos n t i) = Some (line_pos n t (i + 1))"
    "get_succ r t = Some (line_pos n t 0)"
    "0 < i \<Longrightarrow> i < n \<Longrightarrow> get_pred r (line_pos n t i) = Some (line_pos n t (i - 1))"
    "get_pred r (line_pos n t 0) = Some t"
    "i < n - 1 \<Longrightarrow> get_node r (line_pos n t i) = Some (around r ! i)"
    "get_node r t = Some (ring_nodes r ! t)"
proof -
  show "get_node r (line_pos n t i) = Some (around r ! i)" if "i < n - 1"
  proof -
    have i: "i < n" "i \<noteq> n - 1" "t < n" using that assms by auto
    note lp = line_pos_simps [OF i(3,1)]
    have "line_pos n t i \<noteq> t" using lp(3) i by simp
    then show ?thesis
      using around_nth(1) [of t "ring_nodes r" "line_pos n t i"] lp(1,6) i
      by (simp add: get_node_def around_def n_def t_def)
  qed
qed (use assms in \<open>auto simp: get_succ_def get_pred_def get_node_def line_pos_def n_def t_def\<close>)

lemma edges_on_line:
  assumes inv: "hood_inv h r"
  defines "n \<equiv> ring_size r" and "t \<equiv> ring_this r"
  shows "pred_edge r = line_pos n t (n - 1 - pred_len r)"
    "succ_edge r = (if succ_len r = 0 then t else line_pos n t (succ_len r - 1))"
    "pred_len r < n" "succ_len r < n" "\<not> complete_range r \<Longrightarrow> pred_len r + succ_len r < n"
    "complete_range r \<Longrightarrow> pred_len r = 0 \<and> succ_len r = 0"
    "pred_edge r = t \<longleftrightarrow> pred_len r = 0" "succ_edge r = t \<longleftrightarrow> succ_len r = 0"
proof -
  note D = hood_invD [OF inv]
  show "pred_edge r = line_pos n t (n - 1 - pred_len r)"
    using line_pos_of_count(1) [OF D(1,5)] by (simp add: pred_len_def n_def t_def)
  show "succ_edge r = (if succ_len r = 0 then t else line_pos n t (succ_len r - 1))"
    using line_pos_of_count(4,5) [OF D(1,6)] by (auto simp: succ_len_def n_def t_def)
  show "pred_len r < n" "succ_len r < n"
    using line_pos_of_count(2) [OF D(1,5)] line_pos_of_count(3) [OF D(1,6)]
    by (simp_all add: pred_len_def succ_len_def n_def t_def)
  show "\<not> complete_range r \<Longrightarrow> pred_len r + succ_len r < n"
    "complete_range r \<Longrightarrow> pred_len r = 0 \<and> succ_len r = 0"
    using D(3) by (simp_all add: hood_counts_def n_def pred_len_def succ_len_def ring_count_def)
  show "pred_edge r = t \<longleftrightarrow> pred_len r = 0" "succ_edge r = t \<longleftrightarrow> succ_len r = 0"
    using line_pos_of_count(6) [OF D(1,5)] line_pos_of_count(5) [OF D(1,6)]
    by (auto simp: pred_len_def succ_len_def t_def)
qed

text \<open>The walk from an edge to this node meets the nodes of the neighbourhood.\<close>

lemma walk_to_path:
  assumes "k \<le> fuel" "pos k = target" "\<And>j. j < k \<Longrightarrow> pos j \<noteq> target"
    "\<And>j. j < k \<Longrightarrow> node (pos j) = Some (qs ! j) \<and> next (pos j) = Some (pos (j + 1))" "length qs = k"
  shows "walk_to next node target fuel (pos 0) = Some qs"
  using assms
proof (induction fuel arbitrary: k pos qs)
  case 0
  then show ?case by simp
next
  case (Suc fuel)
  show ?case
  proof (cases k)
    case 0
    then show ?thesis using Suc.prems by simp
  next
    case (Suc k')
    then obtain q qs' where qs: "qs = q # qs'" using Suc.prems(5) by (cases qs) auto
    have "walk_to next node target fuel (pos 1) = Some qs'"
      using Suc.IH [of k' "\<lambda>j. pos (j + 1)" qs'] Suc.prems Suc qs by fastforce
    then show ?thesis using Suc.prems(3,4) [of 0] Suc qs by simp
  qed
qed

lemma walk_to_this:
  assumes inv: "hood_inv h r" and d: "d < ring_size r"
  defines "n \<equiv> ring_size r" and "t \<equiv> ring_this r"
  shows "walk_to (get_succ r) (get_node r) t n (line_pos n t (n - 1 - d)) = Some (drop (n - 1 - d) (around r))"
    "walk_to (get_pred r) (get_node r) t n (if d = 0 then t else line_pos n t (d - 1)) = Some (rev (take d (around r)))"
proof -
  note D = hood_invD [OF inv]
  have n: "t < n" "length (around r) = n - 1" using D(1,7) by (simp_all add: n_def t_def)
  note step = line_step [OF D(1), folded n_def t_def]
  have d': "d \<le> n - 1" using d by (simp add: n_def)
  show "walk_to (get_succ r) (get_node r) t n (line_pos n t (n - 1 - d)) = Some (drop (n - 1 - d) (around r))"
  proof -
    have "walk_to (get_succ r) (get_node r) t n ((\<lambda>j. line_pos n t (n - 1 - d + j)) 0) = Some (drop (n - 1 - d) (around r))"
      using n d' by (intro walk_to_path [where k = d]) (auto simp: line_pos_simps step)
    then show ?thesis by simp
  qed
  show "walk_to (get_pred r) (get_node r) t n (if d = 0 then t else line_pos n t (d - 1)) = Some (rev (take d (around r)))"
  proof -
    let ?pos = "\<lambda>j. if d = j then t else line_pos n t (d - 1 - j)"
    have "walk_to (get_pred r) (get_node r) t n (?pos 0) = Some (rev (take d (around r)))"
    proof (rule walk_to_path [where k = d])
      fix j assume j: "j < d"
      then show "?pos j \<noteq> t" using n d' line_pos_simps(3) [of t n "d - 1 - j"] by simp
      have "rev (take d (around r)) ! j = around r ! (d - 1 - j)" using j n d' by (simp add: rev_nth)
      then show "get_node r (?pos j) = Some (rev (take d (around r)) ! j) \<and> get_pred r (?pos j) = Some (?pos (j + 1))"
        using j n d' step(3) [of "d - 1 - j"] step(4,5) by auto
    qed (use n d' in auto)
    then show ?thesis by (cases "d = 0") simp_all
  qed
qed

lemma pred_hood_is:
  assumes inv: "hood_inv h r"
  shows "get_pred_hood r = Some (if complete_range r then around r else pred_part r)"
proof -
  note D = hood_invD [OF inv]
  show ?thesis
  proof (cases "complete_range r")
    case True
    then have "pred_edge r = ring_this r" using D(3) by (simp add: hood_counts_def)
    then show ?thesis
      using True line_step(2) [OF D(1)] walk_to_this(1) [OF inv, of "ring_size r - 1"] D(1)
      by (simp add: get_pred_hood_def)
  next
    case False
    then show ?thesis
      using walk_to_this(1) [OF inv edges_on_line(3) [OF inv]] edges_on_line(1) [OF inv]
      by (simp add: get_pred_hood_def pred_part_def)
  qed
qed

lemma succ_hood_is:
  assumes inv: "hood_inv h r"
  shows "get_succ_hood r = Some (rev (if complete_range r then around r else succ_part r))"
proof -
  note D = hood_invD [OF inv]
  show ?thesis
  proof (cases "complete_range r")
    case True
    then have e: "succ_edge r = ring_this r" using D(3) by (simp add: hood_counts_def)
    have "get_pred r (ring_this r) = Some (if ring_size r - 1 = 0 then ring_this r else line_pos (ring_size r) (ring_this r) (ring_size r - 1 - 1))"
      using D(1) by (auto simp: get_pred_def line_pos_def)
    then show ?thesis
      using True e walk_to_this(2) [OF inv, of "ring_size r - 1"] D(1,7)
      by (simp add: get_succ_hood_def)
  next
    case False
    then show ?thesis
      using walk_to_this(2) [OF inv edges_on_line(4) [OF inv]] edges_on_line(2) [OF inv]
      by (simp add: get_succ_hood_def succ_part_def)
  qed
qed

subsection \<open>Moving the edges\<close>

text \<open>What moving the edges leaves alone.\<close>

definition same_ring :: "hood_ring \<Rightarrow> hood_ring \<Rightarrow> bool" where
  "same_ring r r' \<longleftrightarrow> ring_nodes r' = ring_nodes r \<and> ring_this r' = ring_this r \<and> hood_size r' = hood_size r \<and>
     exchange_interval r' = exchange_interval r \<and> address_map r' = address_map r \<and> avail_count r' = avail_count r"

lemma same_ring_refl [simp]: "same_ring r r"
  by (simp add: same_ring_def)

lemma same_ring_trans: "same_ring r r' \<Longrightarrow> same_ring r' r'' \<Longrightarrow> same_ring r r''"
  by (simp add: same_ring_def)

lemma same_ring_around: "same_ring r r' \<Longrightarrow> around r' = around r"
  by (simp add: same_ring_def around_def)

lemma same_ring_inv:
  "hood_inv h r \<Longrightarrow> same_ring r r' \<Longrightarrow> hood_counts h r' \<Longrightarrow> hood_inv h r'"
  by (simp add: hood_inv_def same_ring_def)

lemma set_complete_inv: "hood_inv h r \<Longrightarrow> hood_inv h (set_complete_knowledge r)"
  "same_ring r (set_complete_knowledge r)" "complete_range (set_complete_knowledge r)"
  by (auto simp: hood_inv_def set_complete_knowledge_def hood_counts_def same_ring_def)

text \<open>How much is known: the nodes that have an edge on the other side of this node.\<close>

definition known_len :: "hood_ring \<Rightarrow> nat" where
  "known_len r = (if complete_range r then ring_size r else pred_len r + succ_len r)"

lemma pred_len_at:
  assumes "hood_inv h r" "i < ring_size r"
  shows "pred_len (r\<lparr>pred_edge := line_pos (ring_size r) (ring_this r) i\<rparr>) = ring_size r - 1 - i"
    "succ_len (r\<lparr>succ_edge := line_pos (ring_size r) (ring_this r) i\<rparr>) = (if i = ring_size r - 1 then 0 else i + 1)"
  using line_pos_simps(4,5) [OF hood_invD(1) [OF assms(1)] assms(2)] by (simp_all add: pred_len_def succ_len_def)

lemma extend_pred_inv:
  assumes inv: "hood_inv h r" and nc: "\<not> complete_range r"
  shows "\<exists>r'. extend_pred_edge h r = Some (True, r') \<and> hood_inv h r' \<and> same_ring r r' \<and> known_len r < known_len r' \<and>
     (if complete_range r' then pred_len r + succ_len r = ring_size r - 1
      else pred_len r' = pred_len r + 1 \<and> succ_edge r' = succ_edge r \<and> succ_count r' = succ_count r)"
proof -
  note D = hood_invD [OF inv]
  let ?n = "ring_size r" and ?t = "ring_this r"
  define d where "d = pred_len r"
  define e where "e = (if d = ?n - 1 then ?t else line_pos ?n ?t (?n - 2 - d))"
  have d: "d < ?n" "d + succ_len r < ?n" using edges_on_line(3,5) [OF inv] nc by (simp_all add: d_def)
  have pe: "pred_edge r = line_pos ?n ?t (?n - 1 - d)" using edges_on_line(1) [OF inv] by (simp add: d_def)
  have step: "get_pred r (pred_edge r) = Some e"
    using line_step(3) [OF D(1), of "?n - 1 - d"] line_step(4) [OF D(1)] d unfolding pe e_def
    by (auto simp: numeral_2_eq_2)
  have counts: "pred_count r = count_avail h (pred_part r)" "succ_count r = count_avail h (succ_part r)"
    "avail_count r = count_avail h (around r)"
    using D(3) nc by (simp_all add: hood_counts_def)
  have meet: "e = succ_edge r \<longleftrightarrow> d + succ_len r = ?n - 1"
  proof (cases "d = ?n - 1")
    case True
    then show ?thesis using d edges_on_line(8) [OF inv] by (auto simp: e_def)
  next
    case False
    then have "line_pos ?n ?t (?n - 2 - d) \<noteq> ?t" using line_pos_simps(3) [OF D(1), of "?n - 2 - d"] d by simp
    then show ?thesis
      using False d edges_on_line(2) [OF inv] line_pos_inj [OF D(1), of "?n - 2 - d" "succ_len r - 1"]
      by (auto simp: e_def)
  qed
  let ?r = "r\<lparr>pred_edge := e\<rparr>"
  show ?thesis
  proof (cases "e = succ_edge r")
    case True
    have "extend_pred_edge h r = Some (True, set_complete_knowledge ?r)"
      using nc step True by (simp add: extend_pred_edge_def)
    moreover have "hood_counts h (set_complete_knowledge ?r)"
      using nc counts by (simp add: set_complete_knowledge_def hood_counts_def)
    moreover have "same_ring r (set_complete_knowledge ?r)"
      by (simp add: set_complete_knowledge_def same_ring_def)
    moreover have "complete_range (set_complete_knowledge ?r)" by (simp add: set_complete_knowledge_def)
    moreover have "known_len r < known_len (set_complete_knowledge ?r)"
      using d nc by (simp add: known_len_def set_complete_knowledge_def d_def)
    ultimately show ?thesis
      using same_ring_inv [OF inv] meet True by (auto simp: d_def)
  next
    case False
    then have room: "d + 1 + succ_len r < ?n" using meet d by simp
    then have e: "e = line_pos ?n ?t (?n - 1 - (d + 1))" by (auto simp: e_def numeral_2_eq_2)
    let ?p = "around r ! (?n - 1 - (d + 1))"
    let ?r' = "?r\<lparr>pred_count := pred_count r + avail_int h ?p\<rparr>"
    have node: "get_node r e = Some ?p"
      using line_step(5) [OF D(1), of "?n - 1 - (d + 1)"] room e by simp
    have "extend_pred_edge h r = Some (True, ?r')"
      using nc step False node by (auto simp: extend_pred_edge_def get_node_def Let_def split: if_splits)
    moreover have len: "pred_len ?r = d + 1"
      using pred_len_at(1) [OF inv, of "?n - 1 - (d + 1)"] room by (simp add: e)
    moreover have "hood_counts h ?r'"
    proof -
      have "?n - 1 - (d + 1) < length (around r)" using room D(7) by simp
      then have "drop (?n - 1 - (d + 1)) (around r) = ?p # drop (Suc (?n - 1 - (d + 1))) (around r)"
        by (simp only: Cons_nth_drop_Suc)
      moreover have "Suc (?n - 1 - (d + 1)) = ?n - 1 - d" using room by simp
      ultimately have "pred_part ?r = ?p # pred_part r" using len by (simp add: pred_part_def d_def)
      moreover have "succ_part ?r = succ_part r" by (simp add: succ_part_def)
      moreover have "e < ?n" using line_pos_simps(1) [OF D(1)] room e by simp
      ultimately show ?thesis
        using nc counts D(6) len room by (simp add: hood_counts_def)
    qed
    moreover have "same_ring r ?r'" by (simp add: same_ring_def)
    ultimately show ?thesis using same_ring_inv [OF inv] nc by (auto simp: known_len_def d_def)
  qed
qed

lemma extend_succ_inv:
  assumes inv: "hood_inv h r" and nc: "\<not> complete_range r"
  shows "\<exists>r'. extend_succ_edge h r = Some (True, r') \<and> hood_inv h r' \<and> same_ring r r' \<and> known_len r < known_len r' \<and>
     (if complete_range r' then pred_len r + succ_len r = ring_size r - 1
      else succ_len r' = succ_len r + 1 \<and> pred_edge r' = pred_edge r \<and> pred_count r' = pred_count r)"
proof -
  note D = hood_invD [OF inv]
  let ?n = "ring_size r" and ?t = "ring_this r"
  define d where "d = succ_len r"
  define e where "e = line_pos ?n ?t d"
  have d: "d < ?n" "pred_len r + d < ?n" using edges_on_line(4,5) [OF inv] nc by (simp_all add: d_def)
  have se: "succ_edge r = (if d = 0 then ?t else line_pos ?n ?t (d - 1))" using edges_on_line(2) [OF inv] by (simp add: d_def)
  have step: "get_succ r (succ_edge r) = Some e"
    using line_step(1) [OF D(1), of "d - 1"] line_step(2) [OF D(1)] d unfolding se e_def by auto
  have counts: "pred_count r = count_avail h (pred_part r)" "succ_count r = count_avail h (succ_part r)"
    "avail_count r = count_avail h (around r)"
    using D(3) nc by (simp_all add: hood_counts_def)
  have meet: "pred_edge r = e \<longleftrightarrow> pred_len r + d = ?n - 1"
    using edges_on_line(1,3) [OF inv] d line_pos_inj [OF D(1), of "?n - 1 - pred_len r" d] by (auto simp: e_def)
  let ?r = "r\<lparr>succ_edge := e\<rparr>"
  show ?thesis
  proof (cases "pred_edge r = e")
    case True
    have "extend_succ_edge h r = Some (True, set_complete_knowledge ?r)"
      using nc step True by (simp add: extend_succ_edge_def)
    moreover have "hood_counts h (set_complete_knowledge ?r)"
      using nc counts by (simp add: set_complete_knowledge_def hood_counts_def)
    moreover have "same_ring r (set_complete_knowledge ?r)"
      by (simp add: set_complete_knowledge_def same_ring_def)
    moreover have "complete_range (set_complete_knowledge ?r)" by (simp add: set_complete_knowledge_def)
    moreover have "known_len r < known_len (set_complete_knowledge ?r)"
      using d nc by (simp add: known_len_def set_complete_knowledge_def d_def)
    ultimately show ?thesis
      using same_ring_inv [OF inv] meet True by (auto simp: d_def)
  next
    case False
    then have room: "pred_len r + d + 1 < ?n" using meet d by simp
    let ?p = "around r ! d"
    let ?r' = "?r\<lparr>succ_count := succ_count r + avail_int h ?p\<rparr>"
    have node: "get_node r e = Some ?p" using line_step(5) [OF D(1), of d] room by (simp add: e_def)
    have "extend_succ_edge h r = Some (True, ?r')"
      using nc step False node by (auto simp: extend_succ_edge_def get_node_def Let_def split: if_splits)
    moreover have len: "succ_len ?r = d + 1"
      using pred_len_at(2) [OF inv, of d] room by (simp add: e_def)
    moreover have "hood_counts h ?r'"
    proof -
      have "d < length (around r)" using room D(7) by simp
      then have "take (Suc d) (around r) = take d (around r) @ [?p]" by (rule take_Suc_conv_app_nth)
      then have "succ_part ?r = succ_part r @ [?p]" using len by (simp add: succ_part_def d_def)
      moreover have "pred_part ?r = pred_part r" by (simp add: pred_part_def)
      moreover have "e < ?n" using line_pos_simps(1) [OF D(1)] room by (simp add: e_def)
      ultimately show ?thesis
        using nc counts D(5) len room by (simp add: hood_counts_def)
    qed
    moreover have "same_ring r ?r'" by (simp add: same_ring_def)
    ultimately show ?thesis using same_ring_inv [OF inv] nc by (auto simp: known_len_def d_def)
  qed
qed

lemma shrink_pred_inv:
  assumes inv: "hood_inv h r" and nc: "\<not> complete_range r" and size: "0 < hood_size r"
    and can: "can_shrink_pred h r = Some True"
  shows "\<exists>r'. shrink_pred h r = Some r' \<and> hood_inv h r' \<and> same_ring r r' \<and> \<not> complete_range r' \<and>
    pred_len r' < pred_len r \<and> succ_edge r' = succ_edge r \<and> succ_count r' = succ_count r"
proof -
  note D = hood_invD [OF inv]
  let ?n = "ring_size r" and ?t = "ring_this r"
  have counts: "pred_count r = count_avail h (pred_part r)" "succ_count r = count_avail h (succ_part r)"
    "avail_count r = count_avail h (around r)"
    using D(3) nc by (simp_all add: hood_counts_def)
  have d: "pred_len r < ?n" "pred_len r + succ_len r < ?n" using edges_on_line(3,5) [OF inv] nc by simp_all
  have "pred_count r \<ge> hood_size r" using can by (auto simp: can_shrink_pred_def split: if_splits)
  then have "pred_part r \<noteq> []" using size counts(1) by auto
  then have pos: "pred_len r \<noteq> 0" using D(7) by (auto simp: pred_part_def)
  let ?i = "?n - 1 - pred_len r"
  have i: "?i < ?n - 1" using pos d by simp
  have pe: "pred_edge r = line_pos ?n ?t ?i" by (rule edges_on_line(1) [OF inv])
  have node: "get_node r (pred_edge r) = Some (around r ! ?i)" using line_step(5) [OF D(1) i] pe by simp
  have step: "get_succ r (pred_edge r) = Some (line_pos ?n ?t (?i + 1))" using line_step(1) [OF D(1) i] pe by simp
  let ?r = "r\<lparr>pred_edge := line_pos ?n ?t (?i + 1)\<rparr>"
  let ?r' = "?r\<lparr>pred_count := pred_count r - avail_int h (around r ! ?i)\<rparr>"
  have "shrink_pred h r = Some ?r'"
    using node step by (simp add: shrink_pred_def Let_def)
  moreover have len: "pred_len ?r = pred_len r - 1" using pred_len_at(1) [OF inv, of "?i + 1"] i pos d(1) by auto
  moreover have "hood_counts h ?r'"
  proof -
    have "?i < length (around r)" using i D(7) by simp
    then have "drop ?i (around r) = around r ! ?i # drop (Suc ?i) (around r)" by (simp only: Cons_nth_drop_Suc)
    moreover have "Suc ?i = ?n - 1 - (pred_len r - 1)" using pos d by simp
    ultimately have "pred_part r = around r ! ?i # pred_part ?r" using len by (simp add: pred_part_def)
    moreover have "line_pos ?n ?t (?i + 1) < ?n" using line_pos_simps(1) [OF D(1), of "?i + 1"] i by simp
    ultimately show ?thesis using nc counts D(6) len d by (simp add: hood_counts_def succ_part_def)
  qed
  moreover have "same_ring r ?r'" by (simp add: same_ring_def)
  ultimately show ?thesis using same_ring_inv [OF inv] nc pos by auto
qed

lemma shrink_succ_inv:
  assumes inv: "hood_inv h r" and nc: "\<not> complete_range r" and size: "0 < hood_size r"
    and can: "can_shrink_succ h r = Some True"
  shows "\<exists>r'. shrink_succ h r = Some r' \<and> hood_inv h r' \<and> same_ring r r' \<and> \<not> complete_range r' \<and>
    succ_len r' < succ_len r \<and> pred_edge r' = pred_edge r \<and> pred_count r' = pred_count r"
proof -
  note D = hood_invD [OF inv]
  let ?n = "ring_size r" and ?t = "ring_this r"
  have counts: "pred_count r = count_avail h (pred_part r)" "succ_count r = count_avail h (succ_part r)"
    "avail_count r = count_avail h (around r)"
    using D(3) nc by (simp_all add: hood_counts_def)
  have d: "succ_len r < ?n" "pred_len r + succ_len r < ?n" using edges_on_line(4,5) [OF inv] nc by simp_all
  have "succ_count r \<ge> hood_size r" using can by (auto simp: can_shrink_succ_def split: if_splits)
  then have "succ_part r \<noteq> []" using size counts(2) by auto
  then have pos: "succ_len r \<noteq> 0" by (auto simp: succ_part_def)
  let ?i = "succ_len r - 1"
  have i: "?i < ?n - 1" using pos d by simp
  have se: "succ_edge r = line_pos ?n ?t ?i" using edges_on_line(2) [OF inv] pos by simp
  have node: "get_node r (succ_edge r) = Some (around r ! ?i)" using line_step(5) [OF D(1) i] se by simp
  let ?e = "if ?i = 0 then ?t else line_pos ?n ?t (?i - 1)"
  have step: "get_pred r (succ_edge r) = Some ?e" using line_step(3) [OF D(1), of ?i] line_step(4) [OF D(1)] se i by auto
  let ?r = "r\<lparr>succ_edge := ?e\<rparr>"
  let ?r' = "?r\<lparr>succ_count := succ_count r - avail_int h (around r ! ?i)\<rparr>"
  have "shrink_succ h r = Some ?r'"
    using node step by (simp add: shrink_succ_def Let_def)
  moreover have e: "?e < ?n" and len: "succ_len ?r = succ_len r - 1"
  proof -
    show "?e < ?n" using line_pos_simps(1) [OF D(1), of "?i - 1"] i D(1) by simp
    show "succ_len ?r = succ_len r - 1"
      using pred_len_at(2) [OF inv, of "?i - 1"] i by (auto simp: succ_len_def ring_count_def)
  qed
  moreover have "hood_counts h ?r'"
  proof -
    have "?i < length (around r)" using i D(7) by simp
    then have "take (Suc ?i) (around r) = take ?i (around r) @ [around r ! ?i]" by (rule take_Suc_conv_app_nth)
    then have "succ_part r = succ_part ?r @ [around r ! ?i]" using pos len by (simp add: succ_part_def)
    moreover have "pred_len r + (succ_len r - 1) < ?n" using d by linarith
    ultimately show ?thesis using nc counts D(5) len e by (simp add: hood_counts_def pred_part_def)
  qed
  moreover have "same_ring r ?r'" by (simp add: same_ring_def)
  ultimately show ?thesis using same_ring_inv [OF inv] nc pos by auto
qed

subsection \<open>Breaking the complete ring\<close>

lemma walk_count_path:
  assumes "d \<le> k" "k - d \<le> fuel" "c = count_avail h (take d qs)" "length qs = k" "limit \<le> count_avail h qs"
    "\<And>j. j < k \<Longrightarrow> next (pos j) = Some (pos (j + 1))"
    "\<And>j. j < k \<Longrightarrow> avail (pos (j + 1)) = Some (ref_avail h (qs ! j))"
  shows "\<exists>d'. walk_count next avail limit fuel (pos d) c = Some (pos d', count_avail h (take d' qs)) \<and> d \<le> d' \<and> d' \<le> k \<and>
    limit \<le> count_avail h (take d' qs) \<and> (\<forall>j. d \<le> j \<longrightarrow> j < d' \<longrightarrow> count_avail h (take j qs) < limit)"
  using assms
proof (induction fuel arbitrary: d c)
  case 0
  then have "d = k" by simp
  then show ?case using 0 by auto
next
  case (Suc fuel)
  show ?case
  proof (cases "c < limit")
    case True
    then have "d \<noteq> k" using Suc.prems(3,4,5) by auto
    then have d: "d < k" using Suc.prems(1) by simp
    then have c: "count_avail h (take (d + 1) qs) = (if ref_avail h (qs ! d) then c + 1 else c)"
      using Suc.prems(3,4) by (simp add: take_Suc_conv_app_nth)
    have "\<exists>d'. walk_count next avail limit fuel (pos (d + 1)) (count_avail h (take (d + 1) qs)) =
          Some (pos d', count_avail h (take d' qs)) \<and> d + 1 \<le> d' \<and> d' \<le> k \<and>
        limit \<le> count_avail h (take d' qs) \<and> (\<forall>j. d + 1 \<le> j \<longrightarrow> j < d' \<longrightarrow> count_avail h (take j qs) < limit)"
      by (rule Suc.IH) (use d Suc.prems in auto)
    then obtain d' where
      "walk_count next avail limit fuel (pos (d + 1)) (count_avail h (take (d + 1) qs)) = Some (pos d', count_avail h (take d' qs))"
      "d + 1 \<le> d'" "d' \<le> k" "limit \<le> count_avail h (take d' qs)"
      "\<forall>j. d + 1 \<le> j \<longrightarrow> j < d' \<longrightarrow> count_avail h (take j qs) < limit" by blast
    moreover have "walk_count next avail limit (Suc fuel) (pos d) c =
        walk_count next avail limit fuel (pos (d + 1)) (count_avail h (take (d + 1) qs))"
      using True d Suc.prems(6,7) [of d] c by simp
    moreover have "count_avail h (take d qs) < limit" using True Suc.prems(3) by simp
    ultimately show ?thesis by (metis Suc_eq_plus1 Suc_leD le_eq_less_or_eq less_eq_Suc_le)
  next
    case False
    then show ?thesis using Suc.prems by auto
  qed
qed


lemma break_complete_inv:
  assumes inv: "hood_inv h r" and c: "complete_range r" and per: "0 \<le> per"
  shows "\<exists>r'. break_complete_ring h per r = Some r' \<and> hood_inv h r' \<and> same_ring r r' \<and>
    (if avail_count r \<ge> 2 * per then \<not> complete_range r' \<and> pred_count r' = per \<and> succ_count r' = per else r' = r)"
proof (cases "avail_count r \<ge> 2 * per")
  case False
  then show ?thesis using c inv by (simp add: break_complete_ring_def)
next
  case True
  note D = hood_invD [OF inv]
  let ?n = "ring_size r" and ?t = "ring_this r" and ?L = "around r"
  note step = line_step [OF D(1)]
  have total: "2 * per \<le> count_avail h ?L" using True D(3) by (simp add: hood_counts_def)
  have n: "0 < ?n" using D(1) by (rule le_less_trans [OF le0])
  have rev: "count_avail h (rev ps) = count_avail h ps" for ps by (simp add: count_avail_def rev_filter [symmetric])
  let ?pp = "\<lambda>j. if j = 0 then ?t else line_pos ?n ?t (?n - 1 - j)"
  let ?sp = "\<lambda>j. if j = 0 then ?t else line_pos ?n ?t (j - 1)"
  have avail_pos: "i < ?n - 1 \<Longrightarrow> avail_at h r (line_pos ?n ?t i) = Some (ref_avail h (?L ! i))" for i
    using step(5) by (simp add: avail_at_def)
  have "\<exists>d'. walk_count (get_pred r) (avail_at h r) per ?n (?pp 0) 0 = Some (?pp d', count_avail h (take d' (rev ?L))) \<and> 0 \<le> d' \<and> d' \<le> ?n - 1 \<and>
      per \<le> count_avail h (take d' (rev ?L)) \<and> (\<forall>j. 0 \<le> j \<longrightarrow> j < d' \<longrightarrow> count_avail h (take j (rev ?L)) < per)"
  proof (rule walk_count_path)
    fix j assume j: "j < ?n - 1"
    show "get_pred r (?pp j) = Some (?pp (j + 1))"
      using j step(3) [of "?n - 1 - j"] step(3) [of "?n - 1"] line_pos_simps(2) [OF D(1)] by auto
    show "avail_at h r (?pp (j + 1)) = Some (ref_avail h (rev ?L ! j))"
      using j avail_pos [of "?n - 1 - (j + 1)"] D(7) by (simp add: rev_nth)
  qed (use D(7) total per rev in auto)
  then obtain p where p: "walk_count (get_pred r) (avail_at h r) per ?n ?t 0 = Some (?pp p, count_avail h (take p (rev ?L)))"
    "p \<le> ?n - 1" "per \<le> count_avail h (take p (rev ?L))" "\<forall>j<p. count_avail h (take j (rev ?L)) < per" by auto
  have "\<exists>d'. walk_count (get_succ r) (avail_at h r) per ?n (?sp 0) 0 = Some (?sp d', count_avail h (take d' ?L)) \<and> 0 \<le> d' \<and> d' \<le> ?n - 1 \<and>
      per \<le> count_avail h (take d' ?L) \<and> (\<forall>j. 0 \<le> j \<longrightarrow> j < d' \<longrightarrow> count_avail h (take j ?L) < per)"
  proof (rule walk_count_path)
    fix j assume j: "j < ?n - 1"
    show "get_succ r (?sp j) = Some (?sp (j + 1))"
      using j step(1) [of "j - 1"] step(2) by auto
    show "avail_at h r (?sp (j + 1)) = Some (ref_avail h (?L ! j))" using j avail_pos by simp
  qed (use D(7) total per in auto)
  then obtain s where s: "walk_count (get_succ r) (avail_at h r) per ?n ?t 0 = Some (?sp s, count_avail h (take s ?L))"
    "s \<le> ?n - 1" "per \<le> count_avail h (take s ?L)" "\<forall>j < s. count_avail h (take j ?L) < per" by auto
  have exact: "count_avail h (take d qs) = per"
    if "per \<le> count_avail h (take d qs)" "\<forall>j<d. count_avail h (take j qs) < per" "d \<le> length qs" for d qs
  proof (cases d)
    case 0
    then show ?thesis using that(1) per by simp
  next
    case (Suc j)
    then have "take d qs = take j qs @ [qs ! j]" using that(3) by (simp add: take_Suc_conv_app_nth)
    then show ?thesis using that(1,2) Suc by (auto dest!: spec [of _ j] split: if_splits)
  qed
  have cp: "count_avail h (take p (rev ?L)) = per" and cs: "count_avail h (take s ?L) = per"
    using exact [OF p(3,4)] exact [OF s(3,4)] p(2) s(2) D(7) by simp_all
  have take_rev: "count_avail h (take j (rev ?L)) = count_avail h (drop (?n - 1 - j) ?L)" for j
    by (simp add: take_rev rev D(7))
  have apart: "p + s < ?n"
  proof (rule ccontr)
    assume "\<not> p + s < ?n"
    then have ps: "0 < p" "?n - 1 - (p - 1) \<le> s" using n s(2) by linarith+
    have "count_avail h (drop s ?L) \<le> count_avail h (drop (?n - 1 - (p - 1)) ?L)"
      using count_avail_split [of h "drop (?n - 1 - (p - 1)) ?L" "s - (?n - 1 - (p - 1))"] ps(2) count_avail_bounds(1)
      by (simp add: drop_drop)
    also have "\<dots> < per" using p(4) [rule_format, of "p - 1"] ps(1) take_rev [of "p - 1"] by simp
    finally have "count_avail h ?L < 2 * per" using cs count_avail_split [of h ?L s] by simp
    then show False using total by simp
  qed
  let ?r' = "r\<lparr>pred_edge := ?pp p, pred_count := per, succ_edge := ?sp s, succ_count := per, complete_range := False\<rparr>"
  have "break_complete_ring h per r = Some ?r'"
    using c True p(1) s(1) cp cs by (simp add: break_complete_ring_def)
  moreover have "same_ring r ?r'" by (simp add: same_ring_def)
  moreover have "hood_counts h ?r'"
  proof -
    define r' where "r' = ?r'"
    have f: "ring_nodes r' = ring_nodes r" "ring_this r' = ?t" "pred_edge r' = ?pp p" "succ_edge r' = ?sp s"
      "pred_count r' = per" "succ_count r' = per" "\<not> complete_range r'" "avail_count r' = avail_count r" "around r' = ?L"
      by (simp_all add: r'_def around_def)
    have len: "pred_len r' = p"
      using line_pos_simps(4) [OF D(1), of "?n - 1 - p"] p(2) n by (auto simp: pred_len_def f ring_count_def)
    moreover have "succ_len r' = s"
      using line_pos_simps(5) [OF D(1), of "s - 1"] s(2) n by (auto simp: succ_len_def f ring_count_def)
    moreover have "?pp p < ?n" "?sp s < ?n"
      using line_pos_simps(1) [OF D(1)] D(1) p(2) s(2) n by auto
    ultimately have "hood_counts h r'"
      using D(3) apart cp cs take_rev [of p] by (simp add: hood_counts_def f pred_part_def succ_part_def)
    then show ?thesis by (simp only: r'_def)
  qed
  ultimately show ?thesis using same_ring_inv [OF inv] True by auto
qed

end
