(* ===== verification/Hood_Properties.thy ===== *)
theory Hood_Properties
  imports Hood_Edges
begin

section \<open>Runs of the ring with its neighbourhood\<close>

text \<open>
  What a user of \<open>NodeRingWithHood\<close> may do: add a node with a new id at the position a search gave,
  replace a node by one with the same id (this node only by one that is available as well), remove a
  node that is neither this node nor an edge and that is not an available neighbour, and move the
  edges, shrinking the range only when the test of the class allows it. Between the operations the
  nodes' mutable members change, and new nodes are created, in ways that leave the identity, phase and
  address of the nodes of the ring alone.
\<close>

definition new_to_ring :: "node_heap \<Rightarrow> hood_ring \<Rightarrow> node_ref \<Rightarrow> bool" where
  "new_to_ring h r x \<longleftrightarrow> (\<forall>p\<in>set (ring_nodes r). ref_id h p \<noteq> ref_id h x)"

definition search_position :: "node_heap \<Rightarrow> hood_ring \<Rightarrow> node_ref \<Rightarrow> nat \<Rightarrow> bool" where
  "search_position h r x position \<longleftrightarrow>
     position = lower_bound h (ref_id h x) r \<or> position = find_succ_or_same h (ref_id h x) r"

definition may_replace :: "node_heap \<Rightarrow> hood_ring \<Rightarrow> nat \<Rightarrow> node_ref \<Rightarrow> bool" where
  "may_replace h r p x \<longleftrightarrow> p < ring_size r \<and> ref_id h x = ref_id h (ring_nodes r ! p) \<and>
     (p = ring_this r \<longrightarrow> ref_avail h x = ref_avail h (ring_nodes r ! p))"

definition may_remove :: "node_heap \<Rightarrow> hood_ring \<Rightarrow> nat \<Rightarrow> bool" where
  "may_remove h r p \<longleftrightarrow> p < ring_size r \<and> p \<noteq> ring_this r \<and> p \<noteq> pred_edge r \<and> p \<noteq> succ_edge r \<and>
     (ref_avail h (ring_nodes r ! p) \<longrightarrow> \<not> complete_range r \<and> \<not> within_pred_hood p r \<and> \<not> within_succ_hood p r)"

inductive hood_step :: "node_heap \<times> hood_ring \<Rightarrow> node_heap \<times> hood_ring \<Rightarrow> bool" where
  added: "new_to_ring h r x \<Longrightarrow> search_position h r x position \<Longrightarrow>
    hood_add_at h x position r = Some (k, r') \<Longrightarrow> hood_step (h, r) (h, r')"
| replaced: "may_replace h r p x \<Longrightarrow> hood_replace h p x r = Some r' \<Longrightarrow> hood_step (h, r) (h, r')"
| removed: "may_remove h r p \<Longrightarrow> hood_remove h p r = Some r' \<Longrightarrow> hood_step (h, r) (h, r')"
| pred_extended: "extend_pred_edge h r = Some (b, r') \<Longrightarrow> hood_step (h, r) (h, r')"
| succ_extended: "extend_succ_edge h r = Some (b, r') \<Longrightarrow> hood_step (h, r) (h, r')"
| pred_shrunk: "\<not> complete_range r \<Longrightarrow> can_shrink_pred h r = Some True \<Longrightarrow> shrink_pred h r = Some r' \<Longrightarrow>
    hood_step (h, r) (h, r')"
| succ_shrunk: "\<not> complete_range r \<Longrightarrow> can_shrink_succ h r = Some True \<Longrightarrow> shrink_succ h r = Some r' \<Longrightarrow>
    hood_step (h, r) (h, r')"
| broken: "complete_range r \<Longrightarrow> break_complete_ring h (hood_size r) r = Some r' \<Longrightarrow> hood_step (h, r) (h, r')"
| completed: "hood_step (h, r) (h, set_complete_knowledge r)"
| cleared: "hood_clear h r = Some r' \<Longrightarrow> hood_step (h, r) (h, r')"
| touched: "(\<And>p. p \<in> set (ring_nodes r) \<Longrightarrow> pn_instance (h' p) = pn_instance (h p) \<and>
      pn_phase (h' p) = pn_phase (h p) \<and> pn_address (h' p) = pn_address (h p)) \<Longrightarrow> hood_step (h, r) (h', r)"

inductive_cases hood_stepE: "hood_step (h, r) (h', r')"

definition hood_ok :: "node_id \<Rightarrow> node_heap \<times> hood_ring \<Rightarrow> bool" where
  "hood_ok i s \<longleftrightarrow> (case s of (h, r) \<Rightarrow>
     hood_inv h r \<and> 0 < hood_size r \<and> ref_id h (ring_nodes r ! ring_this r) = i)"

text \<open>One lemma for each kind of step.\<close>

lemma add_total:
  assumes "hood_inv h r" "new_to_ring h r x" "search_position h r x position"
  defines "k \<equiv> rank_of h (ref_id h x) (ring_nodes r)"
  shows "\<exists>r'. hood_add_at h x position r = Some (k, r') \<and> hood_inv h r' \<and> same_node r r' \<and>
     ring_nodes r' = take k (ring_nodes r) @ [x] @ drop k (ring_nodes r) \<and> complete_range r' = complete_range r"
proof -
  note D = hood_invD [OF assms(1)]
  have new: "\<And>p. p \<in> set (ring_nodes r) \<Longrightarrow> ref_id h p \<noteq> ref_id h x" using assms(2) by (simp add: new_to_ring_def)
  have k: "k \<le> ring_size r" by (simp add: k_def)
  have sorted: "sorted_ring h (take k (ring_nodes r) @ [x] @ drop k (ring_nodes r))"
    unfolding k_def by (rule insert_rank_sorted [OF D(2) new])
  show ?thesis
    using base_insert_rank [OF D(2) new assms(3) [unfolded search_position_def], folded k_def]
      hood_on_added_inv [OF assms(1) k sorted]
    by (auto simp: hood_add_at_def)
qed

lemma touch_inv:
  assumes "hood_inv h r" "\<And>p. p \<in> set (ring_nodes r) \<Longrightarrow> pn_instance (h' p) = pn_instance (h p) \<and>
      pn_phase (h' p) = pn_phase (h p) \<and> pn_address (h' p) = pn_address (h p)"
  shows "hood_inv h' r"
proof -
  note D = hood_invD [OF assms(1)]
  have mem: "p \<in> set (around r) \<Longrightarrow> p \<in> set (ring_nodes r)" for p
    using set_around [OF D(1)] by (simp add: around_def)
  have "count_avail h' ps = count_avail h ps" if "set ps \<subseteq> set (around r)" for ps
    by (rule count_avail_cong) (use that mem assms(2) in \<open>auto simp: pn_available_def\<close>)
  then have "count_avail h' (around r) = count_avail h (around r)"
    "count_avail h' (pred_part r) = count_avail h (pred_part r)" "count_avail h' (succ_part r) = count_avail h (succ_part r)"
    by (simp_all add: pred_part_def succ_part_def set_take_subset set_drop_subset)
  then have "hood_counts h' r"
    using D(3) by (simp add: hood_counts_def)
  moreover have "address_entries h' (ring_nodes r) = address_entries h (ring_nodes r)"
    unfolding address_entries_def by (rule arg_cong [of _ _ mset]) (use assms(2) in auto)
  ultimately show ?thesis
    using D assms(2) sorted_ring_cong [of "ring_nodes r" h' h] by (simp add: hood_inv_def)
qed

lemma clear_inv:
  assumes "hood_inv h r"
  shows "\<exists>r'. hood_clear h r = Some r' \<and> hood_inv h r' \<and> hood_size r' = hood_size r \<and>
     ring_nodes r' ! ring_this r' = ring_nodes r ! ring_this r"
  using hood_invD(1) [OF assms]
  by (auto simp: hood_clear_def this_node_ptr_def get_node_def hood_inv_def hood_counts_def address_entries_def
      around_def around_of_def pred_part_def succ_part_def pred_len_def succ_len_def ring_count_def)

lemma step_ok: "hood_step s s' \<Longrightarrow> hood_ok i s \<Longrightarrow> hood_ok i s'"
proof (induction rule: hood_step.induct)
  case (added h r x position k r')
  then show ?case using add_total [OF _ added(1,2)] by (auto simp: hood_ok_def same_node_def)
next
  case (replaced h r p x r')
  then have "hood_inv h r" "p < ring_size r" "ref_id h x = ref_id h (ring_nodes r ! p)"
    "p = ring_this r \<longrightarrow> ref_avail h x = ref_avail h (ring_nodes r ! p)"
    by (simp_all add: hood_ok_def may_replace_def)
  moreover from this have "ref_id h ((ring_nodes r)[p := x] ! ring_this r) = ref_id h (ring_nodes r ! ring_this r)"
    by (cases "p = ring_this r") auto
  ultimately show ?case using hood_replace_inv [of h r p x] replaced by (auto simp: hood_ok_def)
next
  case (removed h r p r')
  then show ?case using hood_remove_inv [of h r p] by (auto simp: hood_ok_def may_remove_def same_node_def)
next
  case (pred_extended h r b r')
  then show ?case
    using extend_pred_inv [of h r] by (cases "complete_range r") (auto simp: hood_ok_def same_ring_def extend_pred_edge_def)
next
  case (succ_extended h r b r')
  then show ?case
    using extend_succ_inv [of h r] by (cases "complete_range r") (auto simp: hood_ok_def same_ring_def extend_succ_edge_def)
next
  case (pred_shrunk r h r')
  then show ?case using shrink_pred_inv [of h r] by (auto simp: hood_ok_def same_ring_def)
next
  case (succ_shrunk r h r')
  then show ?case using shrink_succ_inv [of h r] by (auto simp: hood_ok_def same_ring_def)
next
  case (broken r h r')
  then show ?case using break_complete_inv [of h r "hood_size r"] by (auto simp: hood_ok_def same_ring_def)
next
  case (completed h r)
  then show ?case using set_complete_inv(1) [of h r] set_complete_inv(2) [of r] by (auto simp: hood_ok_def same_ring_def)
next
  case (cleared h r r')
  then show ?case using clear_inv [of h r] by (auto simp: hood_ok_def)
next
  case (touched r h' h)
  then show ?case using touch_inv [of h r h'] hood_invD(1) [of h r] by (auto simp: hood_ok_def)
qed

interpretation hood_run: kept_invariant hood_step "hood_ok i" for i
  by unfold_locales (rule step_ok)

lemma new_hood_ok:
  assumes "new_hood_ring h timeout hs now node = Some r" "0 < hs"
  shows "hood_ok (ref_id h node) (h, r)"
  using assms by (auto simp: new_hood_ring_def hood_ok_def hood_inv_def hood_counts_def address_entries_def
      around_def around_of_def pred_part_def succ_part_def pred_len_def succ_len_def ring_count_def Let_def)

section \<open>What the neighbourhood says of the ring\<close>

lemma position_order:
  assumes "sorted_ring h ps" "a < length ps" "b < length ps"
  shows "ref_id h (ps ! a) \<le> ref_id h (ps ! b) \<longleftrightarrow> a \<le> b"
  using assms by (cases a b rule: linorder_cases) (auto simp: sorted_ring_nth dest: less_imp_le simp flip: not_less)

lemma positions_of_range:
  assumes "t < n" "pe < n" "se < n" "p < n" "ring_count n pe t + ring_count n t se < n"
  shows "(if pe \<le> se then pe \<le> p \<and> p \<le> se else pe \<le> p \<or> p \<le> se) \<longleftrightarrow>
    p = t \<or> line_index n t p \<ge> n - 1 - ring_count n pe t \<and> p \<noteq> t \<or> line_index n t p < ring_count n t se \<and> p \<noteq> t"
  using assms
  by (cases "pe \<le> t"; cases "t \<le> se"; cases "p \<le> t"; simp add: ring_count_def line_index_def; linarith)

lemma within_range_positions:
  assumes inv: "hood_inv h r" and p: "p < ring_size r"
  shows "within_hood_range h (ref_id h (ring_nodes r ! p)) r =
    Some (p = ring_this r \<or> within_pred_hood p r \<or> within_succ_hood p r)"
proof (cases "complete_range r")
  case True
  then have "pred_edge r = ring_this r" "succ_edge r = ring_this r"
    using hood_invD(3) [OF inv] by (simp_all add: hood_counts_def)
  then show ?thesis
    using True within_complete [OF True] by (auto simp: within_hood_range_def get_range_def contains_id_def is_full_def)
next
  case False
  note D = hood_invD [OF inv]
  let ?n = "ring_size r" and ?v = "\<lambda>a. nid_val (ref_id h (ring_nodes r ! a))"
  have le: "a < ?n \<Longrightarrow> b < ?n \<Longrightarrow> ?v a \<le> ?v b \<longleftrightarrow> a \<le> b" for a b
    using position_order [OF D(2)] by (simp add: nid_order(2))
  have counts: "ring_count ?n (pred_edge r) (ring_this r) + ring_count ?n (ring_this r) (succ_edge r) < ?n"
    using edges_on_line(5) [OF inv False] by (simp add: pred_len_def succ_len_def)
  have "?v p \<in> cyc (?v (pred_edge r)) (?v (succ_edge r)) \<longleftrightarrow>
      (if pred_edge r \<le> succ_edge r then pred_edge r \<le> p \<and> p \<le> succ_edge r else pred_edge r \<le> p \<or> p \<le> succ_edge r)"
    using D(5,6) p by (simp add: cyc_mem_cases le)
  also have "\<dots> \<longleftrightarrow> p = ring_this r \<or> within_pred_hood p r \<or> within_succ_hood p r"
    unfolding positions_of_range [OF D(1,5,6) p counts]
    using within_pred_index [OF D(1,5) p] within_succ_index [OF D(1,6) p] False
    by (auto simp: pred_len_def succ_len_def)
  finally show ?thesis
    using False D(5,6)
    by (simp add: within_hood_range_def get_range_def pred_edge_id_def succ_edge_id_def get_node_def range_simps)
qed


text \<open>The members of the two sides, and the multiset the address map is.\<close>

lemma known_sides:
  assumes inv: "hood_inv h r"
  shows "\<exists>ps qs. get_pred_hood r = Some ps \<and> get_succ_hood r = Some qs \<and>
      pred_count r = count_avail h ps \<and> succ_count r = count_avail h qs \<and>
      avail_count r = count_avail h (around r) \<and>
      (if complete_range r then ps = around r \<and> qs = rev (around r)
       else \<exists>ms. around r = rev qs @ ms @ ps)"
proof -
  note D = hood_invD [OF inv]
  have rev: "count_avail h (rev ps) = count_avail h ps" for ps
    by (simp add: count_avail_def rev_filter [symmetric])
  show ?thesis
  proof (cases "complete_range r")
    case True
    then show ?thesis using D(3) by (simp add: pred_hood_is [OF inv] succ_hood_is [OF inv] rev hood_counts_def)
  next
    case False
    have "succ_len r \<le> ring_size r - 1 - pred_len r" using edges_on_line(5) [OF inv False] by simp
    then obtain k where k: "ring_size r - 1 - pred_len r = succ_len r + k" using le_Suc_ex by blast
    have "around r = take (succ_len r) (around r) @ take k (drop (succ_len r) (around r)) @ drop (succ_len r + k) (around r)"
      by (metis append_take_drop_id append.assoc take_add)
    then have "\<exists>ms. around r = succ_part r @ ms @ pred_part r"
      unfolding succ_part_def pred_part_def k by blast
    then show ?thesis
      using False D(3) by (simp add: pred_hood_is [OF inv] succ_hood_is [OF inv] rev hood_counts_def)
  qed
qed

lemma count_without_this:
  assumes "hood_inv h r"
  shows "int (length (filter (\<lambda>p. ref_avail h p \<and> ref_id h p \<noteq> ref_id h (ring_nodes r ! ring_this r)) (ring_nodes r)))
    = avail_count r"
proof -
  note D = hood_invD [OF assms]
  let ?t = "ring_this r" and ?ps = "ring_nodes r"
  have "filter (\<lambda>p. ref_avail h p \<and> ref_id h p \<noteq> ref_id h x) (us @ x # vs) = filter (ref_avail h) us @ filter (ref_avail h) vs"
    if "sorted_ring h (us @ x # vs)" for us x vs
    using that by (auto intro!: arg_cong2 [of _ _ _ _ "(@)"] filter_cong)
  from this [of "take ?t ?ps" "?ps ! ?t" "drop (Suc ?t) ?ps"]
  have "filter (\<lambda>p. ref_avail h p \<and> ref_id h p \<noteq> ref_id h (?ps ! ?t)) ?ps =
      filter (ref_avail h) (take ?t ?ps) @ filter (ref_avail h) (drop (Suc ?t) ?ps)"
    using D(1,2) by (simp flip: id_take_nth_drop)
  then show ?thesis
    using D(3) by (simp add: hood_counts_def count_avail_def around_def around_of_def)
qed




subsection \<open>Collecting the nodes of a range\<close>

lemma range_loop_full:
  assumes n: "ring_size r = n" "0 < n" "i < n" "length acc \<le> n + 1"
  shows "range_loop h full_range r i acc =
    Some (acc @ map (\<lambda>k. pn_instance (h (ring_nodes r ! ((i + k) mod n)))) [0..<n + 1 - length acc])"
  using assms(3,4)
proof (induction "n + 1 - length acc" arbitrary: i acc)
  case 0
  then show ?case using n by (subst range_loop.simps) (simp add: get_node_def contains_id_def is_full_def)
next
  case (Suc m)
  let ?f = "\<lambda>i k. pn_instance (h (ring_nodes r ! ((i + k) mod n)))"
  let ?j = "if i = n - 1 then 0 else i + 1"
  have j: "?j < n" "(?j + k) mod n = (i + Suc k) mod n" for k
  proof -
    show "?j < n" using Suc.prems(1) by auto
    show "(?j + k) mod n = (i + Suc k) mod n"
    proof (cases "i = n - 1")
      case True
      then have "i + Suc k = k + n" using n(2) by simp
      then have "(i + Suc k) mod n = (k + n) mod n" by (rule arg_cong)
      then show ?thesis using True by simp
    qed simp
  qed
  have len: "length acc \<le> n" using Suc.hyps(2) by simp
  have node: "get_node r i = Some (ring_nodes r ! i)" and step: "get_succ r i = Some ?j"
    using Suc.prems(1) n by (simp_all add: get_node_def get_succ_def)
  have "range_loop h full_range r i acc = range_loop h full_range r ?j (acc @ [pn_instance (h (ring_nodes r ! i))])"
    using len n(1) by (subst range_loop.simps) (simp only: node step contains_id_def is_full_def bind.bind_lunit simp_thms if_True)
  also have "\<dots> = Some (acc @ [pn_instance (h (ring_nodes r ! i))] @ map (?f ?j) [0..<m])"
  proof -
    have m: "m = n + 1 - length (acc @ [pn_instance (h (ring_nodes r ! i))])" using Suc.hyps(2) by simp
    show ?thesis using Suc.hyps(1) [OF m j(1)] len unfolding m [symmetric] by simp
  qed
  also have "[pn_instance (h (ring_nodes r ! i))] @ map (?f ?j) [0..<m] = map (?f i) [0..<Suc m]"
    using Suc.prems(1) by (subst upt_conv_Cons) (simp_all add: j(2) map_Suc_upt [symmetric] comp_def del: upt_Suc)
  finally show ?case using Suc.hyps(2) by simp
qed

section \<open>Properties\<close>

text \<open>C7: Through any run of operations the vector stays sorted by id with this node at its position, the
  address map holds exactly the nodes of the vector, and the neighbourhood is what the class promises: walking
  clockwise from this node one meets the successor neighbourhood, then the nodes nothing is claimed of,
  then the predecessor neighbourhood, and the three counters are the numbers of available nodes.\<close>

theorem neighbourhood_exact:
  assumes "new_hood_ring h0 exchangeTimeout hoodSize now node = Some r0" "0 < hoodSize"
    and "hood_step\<^sup>*\<^sup>* (h0, r0) (h, r)"
  shows "ring_this r < ring_size r \<and> ref_id h (ring_nodes r ! ring_this r) = ref_id h0 node \<and>
    sorted_wrt (<) (map (ref_id h) (ring_nodes r)) \<and>
    mset (address_map r) = mset (map (\<lambda>p. (pn_address (h p), p)) (ring_nodes r)) \<and>
    (\<exists>ps qs. get_pred_hood r = Some ps \<and> get_succ_hood r = Some qs \<and>
      pred_count r = int (length (filter (ref_avail h) ps)) \<and>
      succ_count r = int (length (filter (ref_avail h) qs)) \<and>
      avail_count r = int (length (filter (\<lambda>p. ref_avail h p \<and> ref_id h p \<noteq> ref_id h0 node) (ring_nodes r))) \<and>
      (if complete_range r
       then ps = drop (Suc (ring_this r)) (ring_nodes r) @ take (ring_this r) (ring_nodes r) \<and> qs = rev ps
       else \<exists>ms. drop (Suc (ring_this r)) (ring_nodes r) @ take (ring_this r) (ring_nodes r) = rev qs @ ms @ ps))"
proof -
  have ok: "hood_ok (ref_id h0 node) (h, r)"
    by (rule hood_run.run_keeps [OF assms(3) new_hood_ok [OF assms(1,2)]])
  then have inv: "hood_inv h r" and here: "ref_id h (ring_nodes r ! ring_this r) = ref_id h0 node"
    by (simp_all add: hood_ok_def)
  note D = hood_invD [OF inv]
  obtain ps qs where sides: "get_pred_hood r = Some ps" "get_succ_hood r = Some qs"
    "pred_count r = count_avail h ps" "succ_count r = count_avail h qs"
    "if complete_range r then ps = around r \<and> qs = rev (around r) else \<exists>ms. around r = rev qs @ ms @ ps"
    using known_sides [OF inv] by blast
  have line: "around r = drop (Suc (ring_this r)) (ring_nodes r) @ take (ring_this r) (ring_nodes r)"
    by (simp add: around_def around_of_def)
  have split: "if complete_range r
      then ps = drop (Suc (ring_this r)) (ring_nodes r) @ take (ring_this r) (ring_nodes r) \<and> qs = rev ps
      else \<exists>ms. drop (Suc (ring_this r)) (ring_nodes r) @ take (ring_this r) (ring_nodes r) = rev qs @ ms @ ps"
    using sides(5) unfolding line by presburger
  have avail: "avail_count r =
      int (length (filter (\<lambda>p. ref_avail h p \<and> ref_id h p \<noteq> ref_id h0 node) (ring_nodes r)))"
    using count_without_this [OF inv] by (simp only: here)
  show ?thesis
    by (intro conjI exI [of _ ps] exI [of _ qs])
      (use D(1,2,4) here sides(1-4) split avail in \<open>simp_all only: sorted_ring_def address_entries_def count_avail_def\<close>)
qed

definition sample_heap :: node_heap where
  "sample_heap p = (node_of_site 0 (nid_of (word_of_nat (p + 5))) 1 (''n'') (''l'') [] (''r''))\<lparr>pn_phase := Routing\<rparr>"

lemma sample_heap_simps [simp]:
  "pn_instance (sample_heap p) = NodeInstance (nid_of (word_of_nat (p + 5))) 1"
  "pn_phase (sample_heap p) = Routing" "pn_address (sample_heap p) = ''n''"
  "pn_unknown_start (sample_heap p) = time_max"
  by (simp_all add: sample_heap_def node_of_site_def)

lemma sample_run:
  "\<exists>r0 r. new_hood_ring sample_heap 0 4 0 0 = Some r0 \<and> hood_step\<^sup>*\<^sup>* (sample_heap, r0) (sample_heap, r) \<and>
     ring_nodes r = [0, 1] \<and> ring_this r = 0 \<and> complete_range r"
proof -
  let ?r0 = "the (new_hood_ring sample_heap 0 4 0 0)"
  have r0: "new_hood_ring sample_heap 0 4 0 0 = Some ?r0" and one: "ring_nodes ?r0 = [0]" "ring_this ?r0 = 0" "\<not> complete_range ?r0"
    by (simp_all add: new_hood_ring_def get_is_unknown_def)
  have inv: "hood_inv sample_heap ?r0" using new_hood_ok [OF r0] by (simp add: hood_ok_def)
  have new: "new_to_ring sample_heap ?r0 1" "search_position sample_heap ?r0 1 (lower_bound sample_heap (ref_id sample_heap 1) ?r0)"
    by (simp_all add: new_to_ring_def one search_position_def flip: nid_val_inject)
  have rank: "rank_of sample_heap (ref_id sample_heap 1) [0] = 1"
    by (simp add: rank_of_def nid_order word_less_nat_alt)
  from add_total [OF inv new] obtain r1 where r1:
    "hood_add_at sample_heap 1 (lower_bound sample_heap (ref_id sample_heap 1) ?r0) ?r0 = Some (1, r1)"
    "ring_nodes r1 = [0, 1]" "ring_nodes r1 ! ring_this r1 = 0" "hood_inv sample_heap r1"
    using rank by (auto simp: one same_node_def)
  have "ring_this r1 < 2" using hood_invD(1) [OF r1(4)] r1(2) by simp
  then have here: "ring_this r1 = 0" using r1(2,3) by (cases "ring_this r1") (auto simp: less_Suc_eq numeral_2_eq_2)
  have "hood_step\<^sup>*\<^sup>* (sample_heap, ?r0) (sample_heap, set_complete_knowledge r1)"
    by (rule rtranclp.rtrancl_into_rtrancl [OF r_into_rtranclp [where r = hood_step, OF hood_step.added [OF new r1(1)]] hood_step.completed])
  moreover have "ring_nodes (set_complete_knowledge r1) = [0, 1]" "ring_this (set_complete_knowledge r1) = 0"
    "complete_range (set_complete_knowledge r1)"
    using r1(2) here by (simp_all add: set_complete_knowledge_def)
  ultimately show ?thesis using r0 by blast
qed

theorem neighbourhood_exact_witness:
  "\<exists>r0 r. new_hood_ring sample_heap 0 4 0 0 = Some r0 \<and> hood_step\<^sup>*\<^sup>* (sample_heap, r0) (sample_heap, r) \<and>
     ring_nodes r = [0, 1] \<and> get_pred_hood r = Some [1] \<and> get_succ_hood r = Some [1] \<and> pred_count r = 1"
proof -
  from sample_run obtain r0 r where run: "new_hood_ring sample_heap 0 4 0 0 = Some r0"
    "hood_step\<^sup>*\<^sup>* (sample_heap, r0) (sample_heap, r)" "ring_nodes r = [0, 1]" "ring_this r = 0" "complete_range r" by blast
  from neighbourhood_exact [OF run(1) _ run(2)] run show ?thesis
    by (auto simp: pn_available_def phase_available_def)
qed



text \<open>C17: The range a node tells others, given by the ids of the edges, contains the id of a node of the
  ring exactly when the position of that node is this node's or within one of the neighbourhoods.\<close>

theorem range_names_known_positions:
  assumes "new_hood_ring h0 exchangeTimeout hoodSize now node = Some r0" "0 < hoodSize"
    and "hood_step\<^sup>*\<^sup>* (h0, r0) (h, r)" and "p < ring_size r"
  shows "within_hood_range h (ref_id h (ring_nodes r ! p)) r =
    Some (p = ring_this r \<or> within_pred_hood p r \<or> within_succ_hood p r)"
proof -
  have "hood_ok (ref_id h0 node) (h, r)"
    by (rule hood_run.run_keeps [OF assms(3) new_hood_ok [OF assms(1,2)]])
  then show ?thesis using within_range_positions [OF _ assms(4)] by (simp add: hood_ok_def)
qed

theorem range_names_known_positions_witness:
  "\<exists>r0 r. new_hood_ring sample_heap 0 4 0 0 = Some r0 \<and> hood_step\<^sup>*\<^sup>* (sample_heap, r0) (sample_heap, r) \<and>
     within_hood_range sample_heap (nid_of 6) r = Some (within_pred_hood 1 r \<or> within_succ_hood 1 r)"
proof -
  from sample_run obtain r0 r where run: "new_hood_ring sample_heap 0 4 0 0 = Some r0"
    "hood_step\<^sup>*\<^sup>* (sample_heap, r0) (sample_heap, r)" "ring_nodes r = [0, 1]" "ring_this r = 0" by blast
  from range_names_known_positions [OF run(1) _ run(2), of 1] run show ?thesis by auto
qed

text \<open>C38: \<open>GetNodesInRange\<close> of the full range lists the first node of the ring twice: the loop is bounded by
  \<open>nodes.size() <= ring_.size()\<close>, one round too many.\<close>

theorem full_range_repeats_first:
  assumes "sorted_wrt (<) (map (ref_id h) (ring_nodes r))" "ring_nodes r \<noteq> []"
  shows "get_nodes_in_range h full_range [] r =
    Some (map (\<lambda>p. pn_instance (h p)) (ring_nodes r) @ [pn_instance (h (ring_nodes r ! 0))])"
proof -
  let ?n = "ring_size r"
  have sorted: "sorted_ring h (ring_nodes r)" using assms(1) by (simp add: sorted_ring_def)
  have "\<not> i < min_node_id" for i :: node_id by (simp add: nid_order)
  then have "rank_of h min_node_id (ring_nodes r) = 0" by (cases "ring_nodes r") (simp_all add: rank_of_def)
  then have "find_succ_or_same h (range_begin full_range) r = 0"
    by (simp add: find_succ_or_same_def lower_bound_rank [OF sorted] full_range_def)
  moreover have "map (\<lambda>k. pn_instance (h (ring_nodes r ! (k mod ?n)))) [0..<?n + 1] =
      map (\<lambda>p. pn_instance (h p)) (ring_nodes r) @ [pn_instance (h (ring_nodes r ! 0))]"
    by (auto intro!: nth_equalityI)
  ultimately show ?thesis
    using range_loop_full [of r ?n 0 "[]" h] assms(2) by (simp add: get_nodes_in_range_def)
qed

theorem full_range_repeats_first_witness:
  "get_nodes_in_range sample_heap full_range [] (new_node_ring 0) =
     Some [pn_instance (sample_heap 0), pn_instance (sample_heap 0)]"
  using full_range_repeats_first [of sample_heap "new_node_ring 0"] by (simp add: new_node_ring_def)

end
